(* ===== verification/Juggler_Prelude.thy ===== *)
theory Juggler_Prelude
  imports Main "HOL-Library.Word" "HOL-Library.Sublist" "HOL-Library.Code_Target_Nat"
begin

text \<open>
  Shared vocabulary of the development.

  \<^item> Rust's unsigned integers are words of their width; the checked, saturating and wrapping
    operations of the standard library that the sources use are written out here.
  \<^item> Fallible stateful Rust methods (\<open>fn f(&mut self) -> Result<T, E>\<close>) are programs of type
    \<open>('w, 'e, 'a) prog\<close>: they map a state to a result (\<open>Inl\<close> the error, \<open>Inr\<close> the value) and
    the state they leave behind.  \<open>andThen\<close> is Rust's question-mark operator: an error stops the
    sequence and the state reached so far is what remains.
  \<^item> Text is the sequence of bytes of its UTF-8 encoding (type \<open>string\<close>, one \<open>char\<close> per byte),
    which is what Rust's \<open>str::len\<close> counts.
  \<^item> Polled state machines share the locale \<open>polled_machine\<close>: a step function, an invariant, and
    what holds along every run.
\<close>

section \<open>Machine integers\<close>

type_synonym u8 = "8 word"
type_synonym u16 = "16 word"
type_synonym u32 = "32 word"
type_synonym u64 = "64 word"

text \<open>\<^verbatim>\<open>core::time::Duration\<close> as a number of nanoseconds.\<close>

type_synonym duration = nat

definition saturating_add :: "'l::len word \<Rightarrow> 'l word \<Rightarrow> 'l word" where
  "saturating_add a b = (if unat a + unat b < 2 ^ LENGTH('l) then a + b else - 1)"

definition saturating_mul :: "'l::len word \<Rightarrow> 'l word \<Rightarrow> 'l word" where
  "saturating_mul a b = (if unat a * unat b < 2 ^ LENGTH('l) then a * b else - 1)"

text \<open>\<open>1.checked_shl(n).unwrap_or(MAX)\<close>: the shift amount must be below the width.\<close>

definition one_shl_or_max :: "u32 \<Rightarrow> u64" where
  "one_shl_or_max n = (if n < 64 then push_bit (unat n) 1 else - 1)"

definition u8_of_bool :: "bool \<Rightarrow> u8" where
  "u8_of_bool b = (if b then 1 else 0)"

section \<open>Programs: state and error passing\<close>

type_synonym ('w, 'e, 'a) prog = "'w \<Rightarrow> ('e + 'a) \<times> 'w"

definition ok :: "'a \<Rightarrow> ('w, 'e, 'a) prog" where
  "ok x = (\<lambda>w. (Inr x, w))"

definition fail :: "'e \<Rightarrow> ('w, 'e, 'a) prog" where
  "fail e = (\<lambda>w. (Inl e, w))"

definition andThen :: "('w, 'e, 'a) prog \<Rightarrow> ('a \<Rightarrow> ('w, 'e, 'b) prog) \<Rightarrow> ('w, 'e, 'b) prog" where
  "andThen p f = (\<lambda>w. case p w of (Inl e, w') \<Rightarrow> (Inl e, w') | (Inr x, w') \<Rightarrow> f x w')"

text \<open>A \<^verbatim>\<open>match\<close> on a \<^verbatim>\<open>Result\<close>: the error is handled instead of propagated.\<close>

definition onResult :: "('w, 'e, 'a) prog \<Rightarrow> ('e + 'a \<Rightarrow> ('w, 'f, 'b) prog) \<Rightarrow> ('w, 'f, 'b) prog" where
  "onResult p f = (\<lambda>w. case p w of (r, w') \<Rightarrow> f r w')"

text \<open>\<^verbatim>\<open>for x in xs { p(x)?; }\<close>\<close>

fun forEach :: "'x list \<Rightarrow> ('x \<Rightarrow> ('w, 'e, unit) prog) \<Rightarrow> ('w, 'e, unit) prog" where
  "forEach [] p = ok ()"
| "forEach (x # xs) p = andThen (p x) (\<lambda>_. forEach xs p)"

section \<open>Text\<close>

text \<open>
  The UTF-8 encodings of the code points with the Unicode property \<^verbatim>\<open>White_Space\<close>, which
  \<^verbatim>\<open>str::trim\<close> strips at both ends.
\<close>

definition utf8 :: "nat list \<Rightarrow> string" where
  "utf8 ns = map char_of ns"

definition white_space :: "string list" where
  "white_space =
     map utf8 ([[9], [10], [11], [12], [13], [32], [194, 133], [194, 160], [225, 154, 128]]
       @ map (\<lambda>b. [226, 128, b]) [128 ..< 139]
       @ [[226, 128, 168], [226, 128, 169], [226, 128, 175], [226, 129, 159], [227, 128, 128]])"

function strip_ws :: "string list \<Rightarrow> string \<Rightarrow> string" where
  "strip_ws ws s =
     (case find (\<lambda>w. w \<noteq> [] \<and> prefix w s) ws of
        None \<Rightarrow> s
      | Some w \<Rightarrow> strip_ws ws (drop (length w) s))"
  by pat_completeness auto
termination
  by (relation "measure (\<lambda>(ws, s). length s)") (auto simp: find_Some_iff prefix_def)

declare strip_ws.simps [simp del]

definition trim :: "string \<Rightarrow> string" where
  "trim s = rev (strip_ws (map rev white_space) (rev (strip_ws white_space s)))"

text \<open>\<^verbatim>\<open>str::splitn(n, c)\<close>: at most \<open>n\<close> pieces, the last one holds the rest.\<close>

fun splitn :: "nat \<Rightarrow> char \<Rightarrow> string \<Rightarrow> string list" where
  "splitn 0 c s = []"
| "splitn (Suc 0) c s = [s]"
| "splitn (Suc (Suc n)) c s =
     (case dropWhile (\<lambda>x. x \<noteq> c) s of
        [] \<Rightarrow> [s]
      | _ # rest \<Rightarrow> takeWhile (\<lambda>x. x \<noteq> c) s # splitn (Suc n) c rest)"

text \<open>Decimal output of an unsigned integer, and \<^verbatim>\<open>str::parse\<close> for one below \<open>bound\<close>.\<close>

fun dec_digits :: "nat \<Rightarrow> string" where
  "dec_digits n = (if n < 10 then [char_of (48 + n)] else dec_digits (n div 10) @ [char_of (48 + n mod 10)])"

declare dec_digits.simps [simp del]

definition digit_val :: "char \<Rightarrow> nat option" where
  "digit_val c = (let n = of_char c in if 48 \<le> n \<and> n < 58 then Some (n - 48) else None)"

fun acc_digits :: "nat \<Rightarrow> nat \<Rightarrow> string \<Rightarrow> nat option" where
  "acc_digits bound acc [] = Some acc"
| "acc_digits bound acc (c # cs) =
     (case digit_val c of
        None \<Rightarrow> None
      | Some d \<Rightarrow> (if acc * 10 + d < bound then acc_digits bound (acc * 10 + d) cs else None))"

definition parse_uint :: "nat \<Rightarrow> string \<Rightarrow> nat option" where
  "parse_uint bound s =
     (let ds = (case s of [] \<Rightarrow> [] | c # cs \<Rightarrow> if c = CHR ''+'' then cs else s)
      in if ds = [] then None else acc_digits bound 0 ds)"

text \<open>\<^verbatim>\<open>iter().position(p)\<close>.\<close>

fun position :: "('a \<Rightarrow> bool) \<Rightarrow> 'a list \<Rightarrow> nat option" where
  "position p [] = None"
| "position p (x # xs) = (if p x then Some 0 else map_option Suc (position p xs))"

section \<open>Runs of polled machines\<close>

text \<open>
  A polled machine is driven by feeding it inputs one after the other; \<open>run_outputs\<close> are the
  actions it answered, in order.
\<close>

fun run_state :: "('s \<Rightarrow> 'i \<Rightarrow> 'a \<times> 's) \<Rightarrow> 's \<Rightarrow> 'i list \<Rightarrow> 's" where
  "run_state step s [] = s"
| "run_state step s (i # is) = run_state step (snd (step s i)) is"

fun run_outputs :: "('s \<Rightarrow> 'i \<Rightarrow> 'a \<times> 's) \<Rightarrow> 's \<Rightarrow> 'i list \<Rightarrow> 'a list" where
  "run_outputs step s [] = []"
| "run_outputs step s (i # is) = fst (step s i) # run_outputs step (snd (step s i)) is"

section \<open>Reasoning about programs\<close>

text \<open>
  \<open>spec_prog I \<alpha> p Q E m\<close>: from every state that satisfies \<open>I\<close> and that \<open>\<alpha>\<close> maps to \<open>m\<close>,
  program \<open>p\<close> keeps \<open>I\<close>, a normal end satisfies \<open>Q\<close> and an error end satisfies \<open>E\<close>, both read
  through \<open>\<alpha>\<close>.  The error postcondition is what makes crash consistency expressible: it has to
  hold of the state left behind wherever the sequence stops.
\<close>

definition spec_prog ::
  "('w \<Rightarrow> bool) \<Rightarrow> ('w \<Rightarrow> 'm) \<Rightarrow> ('w, 'e, 'a) prog \<Rightarrow> ('a \<Rightarrow> 'm \<Rightarrow> bool) \<Rightarrow> ('e \<Rightarrow> 'm \<Rightarrow> bool) \<Rightarrow> 'm \<Rightarrow> bool"
where
  "spec_prog I \<alpha> p Q E m \<longleftrightarrow>
     (\<forall>s. I s \<longrightarrow> \<alpha> s = m \<longrightarrow> I (snd (p s)) \<and>
        (case fst (p s) of Inr x \<Rightarrow> Q x (\<alpha> (snd (p s))) | Inl e \<Rightarrow> E e (\<alpha> (snd (p s)))))"

section \<open>Lemmas\<close>

named_theorems spec_rules "rules that compute the verification conditions of a program"
named_theorems prog_defs "unfolding of the program combinators"

declare ok_def [prog_defs] fail_def [prog_defs] andThen_def [prog_defs] onResult_def [prog_defs]

lemma spec_progD:
  assumes "spec_prog I \<alpha> p Q E m" and "I s" and "\<alpha> s = m" and "p s = (r, s')"
  shows "I s'" and "r = Inr x \<Longrightarrow> Q x (\<alpha> s')" and "r = Inl e \<Longrightarrow> E e (\<alpha> s')"
  using assms by (auto simp: spec_prog_def)

lemma spec_progI:
  assumes "\<And>s. I s \<Longrightarrow> \<alpha> s = m \<Longrightarrow> I (snd (p s)) \<and>
     (case fst (p s) of Inr x \<Rightarrow> Q x (\<alpha> (snd (p s))) | Inl e \<Rightarrow> E e (\<alpha> (snd (p s))))"
  shows "spec_prog I \<alpha> p Q E m"
  using assms by (simp add: spec_prog_def)

lemma spec_ok [spec_rules]: "Q x m \<Longrightarrow> spec_prog I \<alpha> (ok x) Q E m"
  by (simp add: spec_prog_def ok_def)

lemma spec_fail [spec_rules]: "E e m \<Longrightarrow> spec_prog I \<alpha> (fail e) Q E m"
  by (simp add: spec_prog_def fail_def)

lemma spec_andThen [spec_rules]:
  assumes "spec_prog I \<alpha> p (\<lambda>x. spec_prog I \<alpha> (f x) Q E) E m"
  shows "spec_prog I \<alpha> (andThen p f) Q E m"
  using assms by (fastforce simp: spec_prog_def andThen_def split: prod.splits sum.splits)

lemma spec_onResult [spec_rules]:
  assumes "spec_prog I \<alpha> p (\<lambda>x. spec_prog I \<alpha> (f (Inr x)) Q E) (\<lambda>e. spec_prog I \<alpha> (f (Inl e)) Q E) m"
  shows "spec_prog I \<alpha> (onResult p f) Q E m"
proof (rule spec_progI)
  fix s assume s: "I s" "\<alpha> s = m"
  obtain r s' where p: "p s = (r, s')" by fastforce
  have eq: "onResult p f s = f r s'" using p by (simp add: onResult_def)
  have "I s' \<and> spec_prog I \<alpha> (f r) Q E (\<alpha> s')"
    using assms s p by (cases r) (auto simp: spec_prog_def)
  then show "I (snd (onResult p f s)) \<and> (case fst (onResult p f s) of
      Inr x \<Rightarrow> Q x (\<alpha> (snd (onResult p f s))) | Inl e \<Rightarrow> E e (\<alpha> (snd (onResult p f s))))"
    unfolding eq by (simp add: spec_prog_def)
qed

lemma spec_if [spec_rules]:
  "(b \<Longrightarrow> spec_prog I \<alpha> p Q E m) \<Longrightarrow> (\<not> b \<Longrightarrow> spec_prog I \<alpha> q Q E m) \<Longrightarrow>
   spec_prog I \<alpha> (if b then p else q) Q E m"
  by simp

lemma spec_mono:
  assumes "spec_prog I \<alpha> p Q E m" and "\<And>x m'. Q x m' \<Longrightarrow> Q' x m'" and "\<And>e m'. E e m' \<Longrightarrow> E' e m'"
  shows "spec_prog I \<alpha> p Q' E' m"
  using assms by (fastforce simp: spec_prog_def split: sum.splits)

lemma spec_conj:
  assumes "spec_prog I \<alpha> p Q E m" and "spec_prog I \<alpha> p Q' E' m"
  shows "spec_prog I \<alpha> p (\<lambda>x m'. Q x m' \<and> Q' x m') (\<lambda>e m'. E e m' \<and> E' e m') m"
  using assms by (fastforce simp: spec_prog_def split: sum.splits)

text \<open>Totality and partial correctness, proved apart, combine.\<close>

lemma spec_narrow:
  assumes "spec_prog (\<lambda>_. True) \<alpha> p Q E m" and "spec_prog I \<alpha> p Q' E' m"
  shows "spec_prog I \<alpha> p (\<lambda>x m'. Q x m' \<and> Q' x m') (\<lambda>e m'. E e m' \<and> E' e m') m"
  using assms by (fastforce simp: spec_prog_def split: sum.splits)

lemma spec_totalD:
  assumes "spec_prog I \<alpha> p Q (\<lambda>_ _. False) m" and "I s" and "\<alpha> s = m"
  obtains x s' where "p s = (Inr x, s')" and "I s'" and "Q x (\<alpha> s')"
  using assms by (cases "p s"; cases "fst (p s)") (auto simp: spec_prog_def)

lemma run_state_append [simp]: "run_state step s (xs @ ys) = run_state step (run_state step s xs) ys"
  by (induction xs arbitrary: s) auto

lemma run_outputs_append [simp]:
  "run_outputs step s (xs @ ys) = run_outputs step s xs @ run_outputs step (run_state step s xs) ys"
  by (induction xs arbitrary: s) auto

lemma length_run_outputs [simp]: "length (run_outputs step s is) = length is"
  by (induction "is" arbitrary: s) auto

text \<open>
  The contract shared by every polled machine: an invariant that the constructor establishes and
  each poll keeps.
\<close>

locale polled_machine =
  fixes step :: "'s \<Rightarrow> 'i \<Rightarrow> 'a \<times> 's"
    and init :: "'s \<Rightarrow> bool"
    and inv :: "'s \<Rightarrow> bool"
  assumes inv_init: "init s \<Longrightarrow> inv s"
    and inv_step: "inv s \<Longrightarrow> inv (snd (step s i))"
begin

lemma inv_run_from: "inv s \<Longrightarrow> inv (run_state step s is)"
  by (induction "is" arbitrary: s) (auto intro: inv_step)

lemma inv_run: "init s \<Longrightarrow> inv (run_state step s is)"
  by (intro inv_run_from inv_init)

lemma outputs_in_inv:
  "inv s \<Longrightarrow> a \<in> set (run_outputs step s is) \<Longrightarrow> \<exists>t i. inv t \<and> a = fst (step t i)"
  by (induction "is" arbitrary: s) (auto intro: inv_step)

end

lemma unat_less_pow: "unat (x :: 'l::len word) < 2 ^ LENGTH('l)"
  by (rule unsigned_less)

lemma position_Some:
  "position p xs = Some i \<Longrightarrow> i < length xs \<and> p (xs ! i) \<and> (\<forall>j < i. \<not> p (xs ! j))"
proof (induction xs arbitrary: i)
  case (Cons x xs)
  show ?case
  proof (cases "p x")
    case False
    with Cons.prems obtain k where "i = Suc k" "position p xs = Some k" by auto
    with Cons.IH [of k] False show ?thesis by (auto simp: less_Suc_eq_0_disj)
  qed (use Cons.prems in auto)
qed simp

lemma position_None: "position p xs = None \<longleftrightarrow> (\<forall>x \<in> set xs. \<not> p x)"
  by (induction xs) auto

lemma unat_saturating_add:
  "unat (saturating_add a b) = min (unat a + unat b) (2 ^ LENGTH('l) - 1)" for a b :: "'l::len word"
proof (cases "unat a + unat b < 2 ^ LENGTH('l)")
  case True
  then have "unat (a + b) = unat a + unat b" by (simp add: unat_word_ariths)
  with True show ?thesis by (simp add: saturating_add_def)
next
  case False
  then show ?thesis by (simp add: saturating_add_def unsigned_minus_1_eq_mask mask_eq_exp_minus_1)
qed

lemma unat_of_nat_less: "n < 2 ^ LENGTH('l) \<Longrightarrow> unat (of_nat n :: 'l::len word) = n"
  by (simp add: unat_of_nat take_bit_nat_eq_self)

lemma unat_succ: "x + 1 \<noteq> 0 \<Longrightarrow> unat (x + 1 :: 'l::len word) = Suc (unat x)"
  by (metis unatSuc add.commute)

lemma unat_succ_less: "(x :: 'l::len word) = 0 \<or> x < y \<Longrightarrow> unat (x + 1) = Suc (unat x)"
proof -
  assume x: "x = 0 \<or> x < y"
  have "x + 1 \<noteq> 0"
  proof
    assume "x + 1 = 0"
    then have "x = - 1" by (simp add: eq_neg_iff_add_eq_0)
    with x show False by auto
  qed
  then show ?thesis by (rule unat_succ)
qed

lemma saturating_add_ge: "a \<le> saturating_add a b"
proof (cases "unat a + unat b < 2 ^ LENGTH('a)")
  case True
  then show ?thesis
    by (simp add: saturating_add_def word_le_nat_alt unat_word_ariths)
next
  case False
  then show ?thesis by (simp add: saturating_add_def)
qed

lemma strip_ws_id: "\<forall>w \<in> set ws. w \<noteq> [] \<longrightarrow> \<not> prefix w s \<Longrightarrow> strip_ws ws s = s"
  by (subst strip_ws.simps) (fastforce simp: find_Some_iff split: option.splits)

lemma splitn_no_sep:
  assumes "c \<notin> set s"
  shows "splitn (Suc n) c s = [s]"
proof -
  have "dropWhile (\<lambda>x. x \<noteq> c) s = []"
    using assms by (auto simp: dropWhile_eq_Nil_conv)
  then show ?thesis by (cases n) (simp_all del: dropWhile_eq_Nil_conv)
qed

lemma splitn_sep:
  "c \<notin> set p \<Longrightarrow> splitn (Suc (Suc n)) c (p @ c # rest) = p # splitn (Suc n) c rest"
proof -
  assume "c \<notin> set p"
  then have "\<forall>x \<in> set p. x \<noteq> c" by auto
  then have "dropWhile (\<lambda>x. x \<noteq> c) (p @ c # rest) = c # rest"
    and "takeWhile (\<lambda>x. x \<noteq> c) (p @ c # rest) = p"
    by (induction p) auto
  then show ?thesis by simp
qed

lemma digit_val_char_of: "d < 10 \<Longrightarrow> digit_val (char_of (48 + d)) = Some d"
  by (simp add: digit_val_def)

lemma acc_digits_append:
  "acc_digits b a (xs @ ys) = Option.bind (acc_digits b a xs) (\<lambda>a'. acc_digits b a' ys)"
  by (induction xs arbitrary: a) (auto split: option.splits)

lemma dec_digits_nonempty [simp]: "dec_digits n \<noteq> []"
  by (subst dec_digits.simps) simp

lemma acc_digits_dec_digits: "n < b \<Longrightarrow> acc_digits b 0 (dec_digits n) = Some n"
proof (induction n rule: dec_digits.induct)
  case (1 n)
  show ?case
  proof (cases "n < 10")
    case True
    with 1(2) show ?thesis by (subst dec_digits.simps) (simp add: digit_val_char_of)
  next
    case False
    with 1 have "acc_digits b 0 (dec_digits (n div 10)) = Some (n div 10)" by simp
    with False 1(2) show ?thesis
      by (subst dec_digits.simps) (simp add: acc_digits_append digit_val_char_of)
  qed
qed

lemma dec_digits_are_digits: "c \<in> set (dec_digits n) \<Longrightarrow> 48 \<le> (of_char c :: nat) \<and> (of_char c :: nat) < 58"
proof (induction n rule: dec_digits.induct)
  case (1 n)
  show ?case
  proof (cases "n < 10")
    case True
    with 1(2) show ?thesis by (subst (asm) dec_digits.simps) auto
  next
    case False
    with 1 show ?thesis by (subst (asm) (2) dec_digits.simps) auto
  qed
qed

lemma length_dec_digits: "n < 10 ^ Suc k \<Longrightarrow> length (dec_digits n) \<le> Suc k"
proof (induction k arbitrary: n)
  case 0
  then show ?case by (subst dec_digits.simps) simp
next
  case (Suc k)
  show ?case
  proof (cases "n < 10")
    case True
    then show ?thesis by (subst dec_digits.simps) simp
  next
    case False
    from Suc.prems have "n div 10 < 10 ^ Suc k" by (simp add: div_less_iff_less_mult)
    then have "length (dec_digits (n div 10)) \<le> Suc k" by (rule Suc.IH)
    with False show ?thesis by (subst dec_digits.simps) simp
  qed
qed

lemma parse_uint_dec_digits: "n < b \<Longrightarrow> parse_uint b (dec_digits n) = Some n"
proof -
  assume "n < b"
  obtain c cs where ds: "dec_digits n = c # cs"
    using dec_digits_nonempty [of n] by (cases "dec_digits n") auto
  then have "48 \<le> (of_char c :: nat)" using dec_digits_are_digits [of c n] by simp
  then have "c \<noteq> CHR ''+''" by auto
  with ds have "parse_uint b (dec_digits n) = acc_digits b 0 (dec_digits n)"
    by (simp add: parse_uint_def)
  then show ?thesis using \<open>n < b\<close> by (simp add: acc_digits_dec_digits)
qed

end
