(* ===== verification/Ota_Kv.thy ===== *)
theory Ota_Kv
  imports Juggler_Prelude
begin

text \<open>
  The key-level storage of the OTA records: the keys (\<^verbatim>\<open>juggler/src/ota/persist/keys.rs\<close>), the
  storage trait \<^verbatim>\<open>OtaKv\<close> (\<^verbatim>\<open>juggler/src/ota/persist/kv.rs\<close>) and the repository's own
  fault-injecting backend \<^verbatim>\<open>FaultKv\<close> (\<^verbatim>\<open>juggler/src/ota/persist/fault_kv.rs\<close>).

  The trait is a record of operations, so that everything built on it is generic in the backend,
  as the Rust code is.  The trait's documented contract is the locale \<open>ota_kv_contract\<close>; its
  write laws leave open what a failed write did, which covers a flash error as well as a power
  loss right after the commit.  \<open>ota_kv_reliable\<close> adds what a backend without armed faults does.
  \<open>FaultKv\<close> is an interpretation of both.
\<close>

section \<open>Keys and values\<close>

datatype ota_key =
    RB | RB_WHY | RB_ID | ATT_CTR | ATT_EPOCH | ATT_ID | ATT_BOOT | ATT_VER | ATT_SLOT
  | ATT_ACT | ATT_INV | ATT_WHY | RQ_ID | RQ_WHY | RQ_FROM | REJ_VER

definition key_name :: "ota_key \<Rightarrow> string" where
  "key_name k = (case k of
       RB \<Rightarrow> ''rb'' | RB_WHY \<Rightarrow> ''rb_why'' | RB_ID \<Rightarrow> ''rb_id''
     | ATT_CTR \<Rightarrow> ''att_ctr'' | ATT_EPOCH \<Rightarrow> ''att_epoch'' | ATT_ID \<Rightarrow> ''att_id''
     | ATT_BOOT \<Rightarrow> ''att_boot'' | ATT_VER \<Rightarrow> ''att_ver'' | ATT_SLOT \<Rightarrow> ''att_slot''
     | ATT_ACT \<Rightarrow> ''att_act'' | ATT_INV \<Rightarrow> ''att_inv'' | ATT_WHY \<Rightarrow> ''att_why''
     | RQ_ID \<Rightarrow> ''rq_id'' | RQ_WHY \<Rightarrow> ''rq_why'' | RQ_FROM \<Rightarrow> ''rq_from'' | REJ_VER \<Rightarrow> ''rej_ver'')"

datatype kv_val = U8 u8 | U32 u32 | Str string

datatype kv_error = KvError (code: int)

definition CODE_TYPE_MISMATCH :: int where "CODE_TYPE_MISMATCH = - 28673"
definition CODE_INVALID_VALUE :: int where "CODE_INVALID_VALUE = - 28674"

definition kvstr_cap :: nat where "kvstr_cap = 32"

type_synonym flash_map = "ota_key \<rightharpoonup> kv_val"

section \<open>The storage trait\<close>

record 'k ota_kv =
  get_u8 :: "ota_key \<Rightarrow> ('k, kv_error, u8 option) prog"
  get_u32 :: "ota_key \<Rightarrow> ('k, kv_error, u32 option) prog"
  get_str :: "ota_key \<Rightarrow> ('k, kv_error, string option) prog"
  set_u8 :: "ota_key \<Rightarrow> u8 \<Rightarrow> ('k, kv_error, unit) prog"
  set_u32 :: "ota_key \<Rightarrow> u32 \<Rightarrow> ('k, kv_error, unit) prog"
  set_str :: "ota_key \<Rightarrow> string \<Rightarrow> ('k, kv_error, unit) prog"
  remove_key :: "ota_key \<Rightarrow> ('k, kv_error, unit) prog"

section \<open>The fault-injecting backend\<close>

definition CRASHED :: int where "CRASHED = - 1"
definition INJECTED :: int where "INJECTED = - 2"

datatype kv_op = OpSet | OpErase | OpRemove

record log_entry =
  le_op :: kv_op
  le_key :: ota_key
  le_value :: "kv_val option"

record fault_kv =
  fk_map :: flash_map
  fk_log :: "log_entry list"
  fk_commits :: nat
  fk_reads :: nat
  fk_crash_after :: "nat option"
  fk_fail_at :: "nat option"
  fk_fail_after_erase :: "nat option"
  fk_fail_read_at :: "nat option"
  fk_corrupt :: "ota_key \<rightharpoonup> int"
  fk_crashed :: bool

definition fault_new :: fault_kv where
  "fault_new = \<lparr>fk_map = Map.empty, fk_log = [], fk_commits = 0, fk_reads = 0, fk_crash_after = None,
     fk_fail_at = None, fk_fail_after_erase = None, fk_fail_read_at = None, fk_corrupt = Map.empty,
     fk_crashed = False\<rparr>"

definition fault_from_map :: "flash_map \<Rightarrow> fault_kv" where
  "fault_from_map m = fault_new\<lparr>fk_map := m\<rparr>"

definition fault_revive :: "fault_kv \<Rightarrow> fault_kv" where
  "fault_revive k = k\<lparr>fk_crash_after := None, fk_fail_at := None, fk_fail_after_erase := None,
     fk_fail_read_at := None, fk_corrupt := Map.empty, fk_crashed := False\<rparr>"

definition fault_commit :: "kv_op \<Rightarrow> ota_key \<Rightarrow> kv_val option \<Rightarrow> (fault_kv, kv_error, nat) prog" where
  "fault_commit op key value = (\<lambda>k.
     if fk_crashed k then (Inl (KvError CRASHED), k)
     else
       let n = fk_commits k + 1; k1 = k\<lparr>fk_commits := n\<rparr>
       in if fk_fail_at k1 = Some n then (Inl (KvError INJECTED), k1)
          else
            let k2 = (case (op, value) of
                        (OpSet, Some v) \<Rightarrow>
                          k1\<lparr>fk_map := (fk_map k1)(key \<mapsto> v), fk_corrupt := (fk_corrupt k1)(key := None)\<rparr>
                      | _ \<Rightarrow> k1\<lparr>fk_map := (fk_map k1)(key := None)\<rparr>);
                k3 = k2\<lparr>fk_log := fk_log k2 @ [\<lparr>le_op = op, le_key = key, le_value = value\<rparr>]\<rparr>
            in if fk_crash_after k3 = Some n
               then (Inl (KvError CRASHED), k3\<lparr>fk_crashed := True\<rparr>)
               else (Inr n, k3))"

definition fault_read :: "(kv_val \<Rightarrow> 'a option) \<Rightarrow> ota_key \<Rightarrow> (fault_kv, kv_error, 'a option) prog" where
  "fault_read pick key = (\<lambda>k.
     if fk_crashed k then (Inl (KvError CRASHED), k)
     else
       let k1 = k\<lparr>fk_reads := fk_reads k + 1\<rparr>
       in if fk_fail_read_at k1 = Some (fk_reads k1) then (Inl (KvError INJECTED), k1)
          else case fk_corrupt k1 key of
            Some c \<Rightarrow> (Inl (KvError c), k1)
          | None \<Rightarrow>
              (case fk_map k1 key of
                 None \<Rightarrow> (Inr None, k1)
               | Some v \<Rightarrow> (case pick v of
                     Some x \<Rightarrow> (Inr (Some x), k1)
                   | None \<Rightarrow> (Inl (KvError CODE_TYPE_MISMATCH), k1))))"

definition pick_u8 :: "kv_val \<Rightarrow> u8 option" where
  "pick_u8 v = (case v of U8 x \<Rightarrow> Some x | _ \<Rightarrow> None)"

definition pick_u32 :: "kv_val \<Rightarrow> u32 option" where
  "pick_u32 v = (case v of U32 x \<Rightarrow> Some x | _ \<Rightarrow> None)"

definition pick_str :: "kv_val \<Rightarrow> string option" where
  "pick_str v = (case v of Str x \<Rightarrow> Some x | _ \<Rightarrow> None)"

definition fault_set :: "ota_key \<Rightarrow> kv_val \<Rightarrow> (fault_kv, kv_error, unit) prog" where
  "fault_set key v = andThen (fault_commit OpSet key (Some v)) (\<lambda>_. ok ())"

definition fault_set_str :: "ota_key \<Rightarrow> string \<Rightarrow> (fault_kv, kv_error, unit) prog" where
  "fault_set_str key v =
     (if kvstr_cap < length v then fail (KvError CODE_INVALID_VALUE)
      else andThen (fault_commit OpErase key None) (\<lambda>erased k.
        if fk_fail_after_erase k = Some erased then (Inl (KvError INJECTED), k)
        else fault_set key (Str v) k))"

definition fault_remove :: "ota_key \<Rightarrow> (fault_kv, kv_error, unit) prog" where
  "fault_remove key = (\<lambda>k.
     if fk_map k key = None \<and> \<not> fk_crashed k then (Inr (), k)
     else case fault_commit OpRemove key None k of
       (Inl e, k') \<Rightarrow> (Inl e, k')
     | (Inr _, k') \<Rightarrow> (Inr (), k'\<lparr>fk_corrupt := (fk_corrupt k')(key := None)\<rparr>))"

definition fault_ops :: "fault_kv ota_kv" where
  "fault_ops = \<lparr>get_u8 = fault_read pick_u8, get_u32 = fault_read pick_u32, get_str = fault_read pick_str,
     set_u8 = (\<lambda>key v. fault_set key (U8 v)), set_u32 = (\<lambda>key v. fault_set key (U32 v)),
     set_str = fault_set_str, remove_key = fault_remove\<rparr>"

section \<open>The contract of the trait\<close>

text \<open>
  \<open>flash s\<close> is the durable content.  A successful write is durable; a failed one changed nothing,
  or took effect although it reported an error (a power loss right after the commit); a failed
  string write may also have erased the key.  \<open>Ok(None)\<close> means exactly "key absent".
\<close>

locale ota_kv_contract =
  fixes K :: "'k ota_kv"
    and flash :: "'k \<Rightarrow> flash_map"
  assumes law_get_u8: "get_u8 K key s = (r8, s') \<Longrightarrow> flash s' = flash s \<and>
      (case r8 of Inr v \<Rightarrow> flash s key = map_option U8 v | Inl _ \<Rightarrow> True)"
    and law_get_u32: "get_u32 K key s = (r32, s') \<Longrightarrow> flash s' = flash s \<and>
      (case r32 of Inr v \<Rightarrow> flash s key = map_option U32 v | Inl _ \<Rightarrow> True)"
    and law_get_str: "get_str K key s = (rs, s') \<Longrightarrow> flash s' = flash s \<and>
      (case rs of Inr v \<Rightarrow> flash s key = map_option Str v | Inl _ \<Rightarrow> True)"
    and law_set_u8: "set_u8 K key x s = (r, s') \<Longrightarrow>
      (case r of Inr _ \<Rightarrow> flash s' = (flash s)(key \<mapsto> U8 x)
               | Inl _ \<Rightarrow> flash s' = flash s \<or> flash s' = (flash s)(key \<mapsto> U8 x))"
    and law_set_u32: "set_u32 K key y s = (r, s') \<Longrightarrow>
      (case r of Inr _ \<Rightarrow> flash s' = (flash s)(key \<mapsto> U32 y)
               | Inl _ \<Rightarrow> flash s' = flash s \<or> flash s' = (flash s)(key \<mapsto> U32 y))"
    and law_set_str: "set_str K key z s = (r, s') \<Longrightarrow>
      (case r of Inr _ \<Rightarrow> flash s' = (flash s)(key \<mapsto> Str z)
               | Inl _ \<Rightarrow> flash s' = flash s \<or> flash s' = (flash s)(key := None)
                        \<or> flash s' = (flash s)(key \<mapsto> Str z))"
    and law_remove: "remove_key K key s = (r, s') \<Longrightarrow>
      (case r of Inr _ \<Rightarrow> flash s' = (flash s)(key := None)
               | Inl _ \<Rightarrow> flash s' = flash s \<or> flash s' = (flash s)(key := None))"

text \<open>
  A backend in a \<open>sound\<close> state (no armed fault, no unreadable value) answers every read from the
  content, with a type mismatch as its only error, and takes every write that fits.
\<close>

locale ota_kv_reliable = ota_kv_contract +
  fixes sound :: "'a \<Rightarrow> bool"
  assumes sound_get_u8: "sound s \<Longrightarrow> sound (snd (get_u8 K key s)) \<and>
      fst (get_u8 K key s) = (case flash s key of None \<Rightarrow> Inr None | Some (U8 x) \<Rightarrow> Inr (Some x)
                                | Some _ \<Rightarrow> Inl (KvError CODE_TYPE_MISMATCH))"
    and sound_get_u32: "sound s \<Longrightarrow> sound (snd (get_u32 K key s)) \<and>
      fst (get_u32 K key s) = (case flash s key of None \<Rightarrow> Inr None | Some (U32 x) \<Rightarrow> Inr (Some x)
                                | Some _ \<Rightarrow> Inl (KvError CODE_TYPE_MISMATCH))"
    and sound_get_str: "sound s \<Longrightarrow> sound (snd (get_str K key s)) \<and>
      fst (get_str K key s) = (case flash s key of None \<Rightarrow> Inr None | Some (Str x) \<Rightarrow> Inr (Some x)
                                | Some _ \<Rightarrow> Inl (KvError CODE_TYPE_MISMATCH))"
    and sound_set_u8: "sound s \<Longrightarrow> sound (snd (set_u8 K key v8 s)) \<and> fst (set_u8 K key v8 s) = Inr ()"
    and sound_set_u32: "sound s \<Longrightarrow> sound (snd (set_u32 K key v32 s)) \<and> fst (set_u32 K key v32 s) = Inr ()"
    and sound_set_str: "sound s \<Longrightarrow> length z \<le> kvstr_cap \<Longrightarrow>
      sound (snd (set_str K key z s)) \<and> fst (set_str K key z s) = Inr ()"
    and sound_remove: "sound s \<Longrightarrow> sound (snd (remove_key K key s)) \<and> fst (remove_key K key s) = Inr ()"

section \<open>The fault-injecting backend keeps the contract\<close>

lemma key_name_inj: "key_name a = key_name b \<Longrightarrow> a = b"
  by (cases a; cases b) (simp_all add: key_name_def)

lemma key_name_length: "1 \<le> length (key_name k) \<and> length (key_name k) \<le> 15"
  by (cases k) (simp_all add: key_name_def)

lemmas fault_defs =
  fault_ops_def fault_read_def fault_commit_def fault_set_def fault_set_str_def fault_remove_def
  pick_u8_def pick_u32_def pick_str_def prog_defs Let_def

lemma fault_commit_map:
  "fault_commit op key v k = (r, k') \<Longrightarrow>
     (case r of
        Inr _ \<Rightarrow> fk_map k' = (fk_map k)(key := (if op = OpSet then v else None))
      | Inl _ \<Rightarrow> fk_map k' = fk_map k \<or> fk_map k' = (fk_map k)(key := (if op = OpSet then v else None)))"
  by (auto simp: fault_commit_def Let_def split: if_splits kv_op.splits option.splits)

lemma fault_read_map:
  "fault_read pick key k = (r, k') \<Longrightarrow> fk_map k' = fk_map k \<and>
     (case r of Inr None \<Rightarrow> fk_map k key = None
              | Inr (Some x) \<Rightarrow> (\<exists>v. fk_map k key = Some v \<and> pick v = Some x)
              | Inl _ \<Rightarrow> True)"
  by (auto simp: fault_read_def Let_def split: if_splits option.splits)

lemma pick_iffs [simp]:
  "pick_u8 v = Some x \<longleftrightarrow> v = U8 x" "pick_u32 v = Some y \<longleftrightarrow> v = U32 y" "pick_str v = Some z \<longleftrightarrow> v = Str z"
  by (auto simp: pick_u8_def pick_u32_def pick_str_def split: kv_val.splits)

definition fault_free :: "fault_kv \<Rightarrow> bool" where
  "fault_free k \<longleftrightarrow> fk_crash_after k = None \<and> fk_fail_at k = None \<and> fk_fail_after_erase k = None \<and>
     fk_fail_read_at k = None \<and> fk_corrupt k = Map.empty \<and> \<not> fk_crashed k"

lemma fault_set_map:
  "fault_set key v k = (r, k') \<Longrightarrow>
     (case r of Inr _ \<Rightarrow> fk_map k' = (fk_map k)(key \<mapsto> v)
              | Inl _ \<Rightarrow> fk_map k' = fk_map k \<or> fk_map k' = (fk_map k)(key \<mapsto> v))"
  using fault_commit_map [of OpSet key "Some v" k]
  by (auto simp: fault_set_def prog_defs split: prod.splits sum.splits)

lemma fault_set_str_map:
  assumes "fault_set_str key v k = (r, k')"
  shows "case r of Inr _ \<Rightarrow> fk_map k' = (fk_map k)(key \<mapsto> Str v)
           | Inl _ \<Rightarrow> fk_map k' = fk_map k \<or> fk_map k' = (fk_map k)(key := None)
                    \<or> fk_map k' = (fk_map k)(key \<mapsto> Str v)"
proof (cases "kvstr_cap < length v")
  case True
  with assms show ?thesis by (auto simp: fault_set_str_def prog_defs)
next
  case False
  obtain re ke where e: "fault_commit OpErase key None k = (re, ke)" by fastforce
  note er = fault_commit_map [OF e]
  show ?thesis
  proof (cases re)
    case (Inl x)
    with assms e er False show ?thesis by (auto simp: fault_set_str_def prog_defs)
  next
    case (Inr n)
    with assms e er False fault_set_map [of key "Str v" ke r k'] show ?thesis
      by (auto simp: fault_set_str_def prog_defs split: if_splits sum.splits)
  qed
qed

lemma fault_remove_map:
  "fault_remove key k = (r, k') \<Longrightarrow>
     (case r of Inr _ \<Rightarrow> fk_map k' = (fk_map k)(key := None)
              | Inl _ \<Rightarrow> fk_map k' = fk_map k \<or> fk_map k' = (fk_map k)(key := None))"
  using fault_commit_map [of OpRemove key None k]
  by (auto simp: fault_remove_def split: if_splits prod.splits sum.splits)

interpretation fault: ota_kv_contract fault_ops fk_map
proof unfold_locales
  fix key s r s'
  show "get_u8 fault_ops key s = (r, s') \<Longrightarrow> fk_map s' = fk_map s \<and>
      (case r of Inr v \<Rightarrow> fk_map s key = map_option U8 v | Inl _ \<Rightarrow> True)" for r
    using fault_read_map [of pick_u8 key s r s']
    by (auto simp: fault_ops_def split: sum.splits option.splits)
  show "get_u32 fault_ops key s = (r, s') \<Longrightarrow> fk_map s' = fk_map s \<and>
      (case r of Inr v \<Rightarrow> fk_map s key = map_option U32 v | Inl _ \<Rightarrow> True)" for r
    using fault_read_map [of pick_u32 key s r s']
    by (auto simp: fault_ops_def split: sum.splits option.splits)
  show "get_str fault_ops key s = (r, s') \<Longrightarrow> fk_map s' = fk_map s \<and>
      (case r of Inr v \<Rightarrow> fk_map s key = map_option Str v | Inl _ \<Rightarrow> True)" for r
    using fault_read_map [of pick_str key s r s']
    by (auto simp: fault_ops_def split: sum.splits option.splits)
qed (simp_all add: fault_ops_def fault_set_map fault_set_str_map fault_remove_map)

lemma fault_free_commit:
  "fault_free k \<Longrightarrow> \<exists>n k'. fault_commit op key v k = (Inr n, k') \<and> fault_free k'"
  by (auto simp: fault_free_def fault_commit_def Let_def split: kv_op.splits option.splits)

lemma fault_free_set: "fault_free k \<Longrightarrow> fault_free (snd (fault_set key v k)) \<and> fst (fault_set key v k) = Inr ()"
  using fault_free_commit [of k OpSet key "Some v"] by (auto simp: fault_set_def prog_defs)

interpretation fault_sound: ota_kv_reliable fault_ops fk_map fault_free
proof unfold_locales
  fix key :: ota_key and s :: fault_kv
  assume s: "fault_free s"
  show "fault_free (snd (remove_key fault_ops key s)) \<and> fst (remove_key fault_ops key s) = Inr ()"
    using fault_free_commit [OF s, of OpRemove key None] s
    by (auto simp: fault_ops_def fault_remove_def fault_free_def)
  show "length z \<le> kvstr_cap \<Longrightarrow> fault_free (snd (set_str fault_ops key z s)) \<and>
      fst (set_str fault_ops key z s) = Inr ()" for z
  proof -
    assume z: "length z \<le> kvstr_cap"
    obtain n k' where c: "fault_commit OpErase key None s = (Inr n, k')" "fault_free k'"
      using fault_free_commit [OF s] by blast
    then show ?thesis
      using z fault_free_set [OF c(2)]
      by (auto simp: fault_ops_def fault_set_str_def prog_defs fault_free_def)
  qed
qed (auto simp: fault_ops_def fault_free_set, auto simp: fault_free_def fault_read_def pick_u8_def pick_u32_def
       pick_str_def Let_def split: option.splits kv_val.splits)

end
