(* ===== verification/Ota_Version.thy ===== *)
theory Ota_Version
  imports Juggler_Prelude
begin

text \<open>
  Firmware versions (\<^verbatim>\<open>juggler/src/ota/version.rs\<close>): parsing, printing and the order that the
  update decision compares with, and the error type of the \<^verbatim>\<open>ota\<close> module
  (\<^verbatim>\<open>juggler/src/ota/error.rs\<close>).  The order is registered as an instance of the library's
  \<open>linorder\<close>, printing followed by parsing is the identity, and a printed version fits the
  32 bytes of a stored string.
\<close>

section \<open>Model\<close>

datatype ota_error =
    ServerUnreachable
  | DownloadFailed (status: u16)
  | DownloadTimeout
  | ChecksumMismatch
  | VersionInvalid
  | FlashWriteFailed
  | PartitionNotFound
  | InsufficientSpace

definition ota_error_code :: "ota_error \<Rightarrow> string" where
  "ota_error_code e = (case e of
       ServerUnreachable \<Rightarrow> ''server_unreachable''
     | DownloadFailed _ \<Rightarrow> ''download_failed''
     | DownloadTimeout \<Rightarrow> ''download_timeout''
     | ChecksumMismatch \<Rightarrow> ''checksum_mismatch''
     | VersionInvalid \<Rightarrow> ''version_invalid''
     | FlashWriteFailed \<Rightarrow> ''flash_write_failed''
     | PartitionNotFound \<Rightarrow> ''partition_not_found''
     | InsufficientSpace \<Rightarrow> ''insufficient_space'')"

datatype version = Version (major: u16) (minor: u16) (patch: u16)

definition version_parse :: "string \<Rightarrow> ota_error + version" where
  "version_parse s =
     (case splitn 4 CHR ''.'' (trim s) of
        [major_str, minor_str, patch_str] \<Rightarrow>
          (if major_str = [] then Inl VersionInvalid
           else case parse_uint 65536 major_str of
             None \<Rightarrow> Inl VersionInvalid
           | Some ma \<Rightarrow> (case parse_uint 65536 minor_str of
               None \<Rightarrow> Inl VersionInvalid
             | Some mi \<Rightarrow> (case parse_uint 65536 patch_str of
                 None \<Rightarrow> Inl VersionInvalid
               | Some pa \<Rightarrow> Inr (Version (of_nat ma) (of_nat mi) (of_nat pa)))))
      | _ \<Rightarrow> Inl VersionInvalid)"

datatype ordering = Less | Equal | Greater

definition u16_cmp :: "u16 \<Rightarrow> u16 \<Rightarrow> ordering" where
  "u16_cmp a b = (if a < b then Less else if a = b then Equal else Greater)"

definition version_cmp :: "version \<Rightarrow> version \<Rightarrow> ordering" where
  "version_cmp v w =
     (case u16_cmp (major v) (major w) of
        Equal \<Rightarrow> (case u16_cmp (minor v) (minor w) of
            Equal \<Rightarrow> u16_cmp (patch v) (patch w)
          | r \<Rightarrow> r)
      | r \<Rightarrow> r)"

definition version_display :: "version \<Rightarrow> string" where
  "version_display v =
     dec_digits (unat (major v)) @ ''.'' @ dec_digits (unat (minor v)) @ ''.'' @ dec_digits (unat (patch v))"

text \<open>\<^verbatim>\<open>Version::parse(s).ok()\<close>, the form every caller that tolerates a bad string uses.\<close>

definition version_parse_ok :: "string \<Rightarrow> version option" where
  "version_parse_ok s = (case version_parse s of Inl _ \<Rightarrow> None | Inr v \<Rightarrow> Some v)"

section \<open>The order of versions\<close>

instantiation version :: linorder
begin

definition less_version :: "version \<Rightarrow> version \<Rightarrow> bool" where
  "less_version v w \<longleftrightarrow> version_cmp v w = Less"

definition less_eq_version :: "version \<Rightarrow> version \<Rightarrow> bool" where
  "less_eq_version v w \<longleftrightarrow> version_cmp v w \<noteq> Greater"

instance
proof
  fix x y z :: version
  show "(x < y) = (x \<le> y \<and> \<not> y \<le> x)"
    by (auto simp: less_version_def less_eq_version_def version_cmp_def u16_cmp_def
        split: ordering.splits if_splits)
  show "x \<le> x"
    by (auto simp: less_eq_version_def version_cmp_def u16_cmp_def)
  show "x \<le> y \<Longrightarrow> y \<le> z \<Longrightarrow> x \<le> z"
    by (auto simp: less_eq_version_def version_cmp_def u16_cmp_def
        split: ordering.splits if_splits)
  show "x \<le> y \<Longrightarrow> y \<le> x \<Longrightarrow> x = y"
    by (auto simp: less_eq_version_def version_cmp_def u16_cmp_def intro: version.expand
        split: ordering.splits if_splits)
  show "x \<le> y \<or> y \<le> x"
    by (auto simp: less_eq_version_def version_cmp_def u16_cmp_def
        split: ordering.splits if_splits)
qed

end

lemma version_cmp_less: "version_cmp v w = Less \<longleftrightarrow> v < w"
  by (simp add: less_version_def)

lemma version_cmp_equal: "version_cmp v w = Equal \<longleftrightarrow> v = w"
  by (cases v; cases w) (auto simp: version_cmp_def u16_cmp_def split: ordering.splits if_splits)

lemma version_cmp_greater: "version_cmp v w = Greater \<longleftrightarrow> w < v"
proof -
  have "version_cmp v w = Greater \<longleftrightarrow> \<not> v \<le> w" by (simp add: less_eq_version_def)
  then show ?thesis by (simp add: not_le)
qed

text \<open>The order is the lexicographic one on the three components.\<close>

lemma version_less_iff:
  "v < w \<longleftrightarrow> major v < major w \<or> major v = major w \<and>
     (minor v < minor w \<or> minor v = minor w \<and> patch v < patch w)"
  by (auto simp: less_version_def version_cmp_def u16_cmp_def split: ordering.splits if_splits)

section \<open>Printing and parsing\<close>

lemma version_display_chars:
  "c \<in> set (version_display v) \<Longrightarrow> (of_char c :: nat) \<in> {46} \<union> {48..57}"
  by (auto simp: version_display_def dest!: dec_digits_are_digits)

lemma version_display_nonempty [simp]: "version_display v \<noteq> []"
  by (simp add: version_display_def)

text \<open>No white-space encoding starts or ends with a digit or a dot.\<close>

lemma white_space_hd: "w \<in> set white_space \<Longrightarrow> (of_char (hd w) :: nat) \<in> {9,10,11,12,13,32,194,225,226,227}"
  by (auto simp: white_space_def utf8_def)

lemma white_space_last: "w \<in> set white_space \<Longrightarrow> w \<noteq> [] \<and> (of_char (last w) :: nat) \<in> {9..13} \<union> {32} \<union> {128..<256}"
  by (auto simp: white_space_def utf8_def)

lemma trim_plain:
  assumes "\<And>c. c \<in> set s \<Longrightarrow> (of_char c :: nat) \<in> {46} \<union> {48..57}"
  shows "trim s = s"
proof -
  have fwd: "strip_ws white_space s = s"
  proof (rule strip_ws_id, intro ballI impI notI)
    fix w assume w: "w \<in> set white_space" "w \<noteq> []" "prefix w s"
    then have "hd w \<in> set s" by (auto simp: prefix_def intro: hd_in_set)
    with assms white_space_hd [OF w(1)] show False by fastforce
  qed
  have bwd: "strip_ws (map rev white_space) (rev s) = rev s"
  proof (rule strip_ws_id, intro ballI impI notI)
    fix w assume w: "w \<in> set (map rev white_space)" "w \<noteq> []" "prefix w (rev s)"
    then obtain u where u: "u \<in> set white_space" "w = rev u" by auto
    from w u have "last u \<in> set s"
      by (metis in_set_conv_decomp last_in_set prefix_def rev_is_Nil_conv rev_rev_ident set_rev Un_iff set_append)
    with assms white_space_last [OF u(1)] show False by fastforce
  qed
  from fwd bwd show ?thesis by (simp add: trim_def)
qed

lemma dot_notin_dec_digits [simp]: "CHR ''.'' \<notin> set (dec_digits n)"
  using dec_digits_are_digits [of "CHR ''.''" n] by auto

lemma splitn_version:
  "splitn 4 CHR ''.'' (version_display v) =
     [dec_digits (unat (major v)), dec_digits (unat (minor v)), dec_digits (unat (patch v))]"
proof -
  have "splitn (Suc (Suc (Suc (Suc 0)))) CHR ''.'' (version_display v) =
     [dec_digits (unat (major v)), dec_digits (unat (minor v)), dec_digits (unat (patch v))]"
    unfolding version_display_def append.simps
    by (simp only: splitn_sep splitn_no_sep dot_notin_dec_digits not_False_eq_True)
  then show ?thesis by (simp add: numeral_eq_Suc)
qed

lemma unat_u16_bound: "unat (x :: u16) < 65536"
  using unat_less_pow [of x] by simp

lemma version_parse_display [simp]: "version_parse (version_display v) = Inr v"
proof -
  have "trim (version_display v) = version_display v"
    by (rule trim_plain) (rule version_display_chars)
  then show ?thesis
    by (simp add: version_parse_def splitn_version parse_uint_dec_digits unat_u16_bound)
qed

lemma version_parse_ok_display [simp]: "version_parse_ok (version_display v) = Some v"
  by (simp add: version_parse_ok_def)

lemma version_display_inj: "version_display v = version_display w \<Longrightarrow> v = w"
  by (metis version_parse_display sum.inject(2))

lemma length_u16_digits: "length (dec_digits (unat (x :: u16))) \<le> 5"
  using length_dec_digits [of "unat x" 4] unat_u16_bound [of x] by simp

lemma version_display_fits: "length (version_display v) \<le> 17"
  using length_u16_digits [of "major v"] length_u16_digits [of "minor v"] length_u16_digits [of "patch v"]
  by (simp add: version_display_def)

end
