(* ===== verification/Ota_Decision.thy ===== *)
theory Ota_Decision
  imports Ota_Version
begin

text \<open>
  The pure decision core of the OTA module: the update decision and the admission gate
  (\<^verbatim>\<open>juggler/src/ota/decision.rs\<close>), boot reconciliation (\<^verbatim>\<open>juggler/src/ota/reconcile.rs\<close>), and
  the rollback-reason labels (\<^verbatim>\<open>juggler/src/ota/wire/rollback.rs\<close>).
\<close>

section \<open>Update decision and admission\<close>

datatype update_decision = Apply | Skip | Reject

definition decide_update :: "version \<Rightarrow> version \<Rightarrow> update_decision" where
  "decide_update running offered =
     (case version_cmp offered running of
        Greater \<Rightarrow> update_decision.Apply
      | Equal \<Rightarrow> update_decision.Skip
      | Less \<Rightarrow> update_decision.Reject)"

datatype blocked_by = AttemptUnresolved | ReportPending

datatype admission = Open | Blocked blocked_by

definition from_records :: "bool \<Rightarrow> bool \<Rightarrow> admission" where
  "from_records attempt_exists report_undelivered =
     (if attempt_exists then admission.Blocked AttemptUnresolved
      else if report_undelivered then admission.Blocked ReportPending
      else Open)"

datatype offer_decision = Apply | Skip | Reject | Refused | Blocked

definition decide_offer :: "version \<Rightarrow> version \<Rightarrow> version option \<Rightarrow> admission \<Rightarrow> offer_decision" where
  "decide_offer running offered refused adm =
     (case decide_update running offered of
        update_decision.Skip \<Rightarrow> offer_decision.Skip
      | update_decision.Reject \<Rightarrow> offer_decision.Reject
      | update_decision.Apply \<Rightarrow>
          (if refused = Some offered then offer_decision.Refused
           else (case adm of admission.Blocked _ \<Rightarrow> offer_decision.Blocked
                           | Open \<Rightarrow> offer_decision.Apply)))"

section \<open>Boot reconciliation\<close>

datatype slot_id = SlotId u8

datatype slot_state = Valid | PendingVerify | Invalid | Unknown

record attempt_record =
  ar_attempt_id :: u32
  ar_version :: "version option"
  ar_slot :: slot_id
  ar_boot_selected :: bool
  ar_activated :: bool
  ar_slot_was_invalid :: bool

record boot_facts =
  bf_running_slot :: slot_id
  bf_running_state :: slot_state
  bf_running_version :: "version option"
  bf_update_slot :: "(slot_id \<times> slot_state) option"
  bf_report_persisted :: bool

datatype reconcile_action =
    NoAttempt
  | AwaitHealthCheck (await_mark_activated: bool)
  | CompleteAttempt
  | ClearAttempt
  | RefuseImage (promised: "version option") (refuse_mark_activated: bool)
  | ReportRollback (rollback_attempt_id: u32) (left_version: "version option") (report_already_persisted: bool)
  | Defer

definition reconcile :: "attempt_record option \<Rightarrow> boot_facts \<Rightarrow> reconcile_action" where
  "reconcile att facts =
     (case att of
        None \<Rightarrow> NoAttempt
      | Some attempt \<Rightarrow>
          (if ar_slot attempt = bf_running_slot facts then
             (let pending = (bf_running_state facts = slot_state.PendingVerify);
                  version_matches = (ar_version attempt \<noteq> None \<and>
                                     ar_version attempt = bf_running_version facts)
              in if version_matches then
                   (case bf_running_state facts of
                      slot_state.PendingVerify \<Rightarrow> AwaitHealthCheck (\<not> ar_activated attempt)
                    | slot_state.Valid \<Rightarrow> CompleteAttempt
                    | slot_state.Invalid \<Rightarrow> ClearAttempt
                    | slot_state.Unknown \<Rightarrow> ClearAttempt)
                 else if pending then RefuseImage (ar_version attempt) (\<not> ar_activated attempt)
                 else ClearAttempt)
           else
             (let rollback = ReportRollback (ar_attempt_id attempt) (ar_version attempt)
                               (bf_report_persisted facts)
              in if ar_activated attempt \<or> ar_boot_selected attempt then rollback
                 else (case bf_update_slot facts of
                         None \<Rightarrow> Defer
                       | Some (slot, state) \<Rightarrow>
                           (if state = slot_state.Invalid \<and> slot = ar_slot attempt
                               \<and> \<not> ar_slot_was_invalid attempt
                            then rollback else ClearAttempt)))))"

section \<open>Rollback reasons\<close>

datatype rollback_reason = Operator | HealthDeadline | Unhealthy | VersionMismatch | Bootloader | Unknown

definition reason_as_str :: "rollback_reason \<Rightarrow> string" where
  "reason_as_str r = (case r of
       Operator \<Rightarrow> ''operator''
     | HealthDeadline \<Rightarrow> ''health_deadline''
     | Unhealthy \<Rightarrow> ''unhealthy''
     | VersionMismatch \<Rightarrow> ''version_mismatch''
     | Bootloader \<Rightarrow> ''bootloader''
     | rollback_reason.Unknown \<Rightarrow> ''unknown'')"

definition reason_parse :: "string \<Rightarrow> rollback_reason option" where
  "reason_parse label =
     (if label = ''operator'' then Some Operator
      else if label = ''health_deadline'' then Some HealthDeadline
      else if label = ''unhealthy'' then Some Unhealthy
      else if label = ''version_mismatch'' then Some VersionMismatch
      else if label = ''bootloader'' then Some Bootloader
      else if label = ''unknown'' then Some rollback_reason.Unknown
      else None)"

definition reason_from_label :: "string \<Rightarrow> rollback_reason" where
  "reason_from_label label = (case reason_parse label of Some r \<Rightarrow> r | None \<Rightarrow> rollback_reason.Unknown)"

section \<open>Lemmas of the decision core\<close>

lemma decide_update_simps:
  "decide_update r w = update_decision.Apply \<longleftrightarrow> r < w"
  "decide_update r w = update_decision.Skip \<longleftrightarrow> w = r"
  "decide_update r w = update_decision.Reject \<longleftrightarrow> w < r"
  by (auto simp: decide_update_def version_cmp_less version_cmp_equal version_cmp_greater
      split: ordering.splits)

lemma decide_offer_apply:
  "decide_offer r w ref adm = offer_decision.Apply \<longleftrightarrow> r < w \<and> ref \<noteq> Some w \<and> adm = Open"
  by (auto simp: decide_offer_def decide_update_simps split: update_decision.splits admission.splits)

lemma decide_offer_refused:
  "decide_offer r w ref adm = offer_decision.Refused \<longleftrightarrow> r < w \<and> ref = Some w"
  by (auto simp: decide_offer_def decide_update_simps split: update_decision.splits admission.splits)

lemma decide_offer_blocked:
  "decide_offer r w ref adm = offer_decision.Blocked \<longleftrightarrow> r < w \<and> ref \<noteq> Some w \<and> adm \<noteq> Open"
  by (auto simp: decide_offer_def decide_update_simps split: update_decision.splits admission.splits)

lemma from_records_open [simp]: "from_records a r = Open \<longleftrightarrow> \<not> a \<and> \<not> r"
  by (simp add: from_records_def)

lemma reconcile_None [simp]: "reconcile None facts = NoAttempt"
  by (simp add: reconcile_def)

lemma reconcile_no_attempt_iff [simp]: "reconcile att facts = NoAttempt \<longleftrightarrow> att = None"
  by (auto simp: reconcile_def Let_def split: option.splits slot_state.splits)

lemma reconcile_complete:
  "reconcile (Some a) facts = CompleteAttempt \<longleftrightarrow>
     ar_slot a = bf_running_slot facts \<and> bf_running_state facts = slot_state.Valid \<and>
     ar_version a \<noteq> None \<and> ar_version a = bf_running_version facts"
  by (cases "ar_version a"; cases "bf_running_version facts")
     (auto simp: reconcile_def Let_def split: option.splits slot_state.splits)

lemma reconcile_await:
  "reconcile (Some a) facts = AwaitHealthCheck m \<longleftrightarrow>
     ar_slot a = bf_running_slot facts \<and> bf_running_state facts = slot_state.PendingVerify \<and>
     ar_version a \<noteq> None \<and> ar_version a = bf_running_version facts \<and> m = (\<not> ar_activated a)"
  by (cases "ar_version a"; cases "bf_running_version facts")
     (auto simp: reconcile_def Let_def split: option.splits slot_state.splits)

lemma reconcile_refuse:
  "reconcile (Some a) facts = RefuseImage p m \<longleftrightarrow>
     ar_slot a = bf_running_slot facts \<and> bf_running_state facts = slot_state.PendingVerify \<and>
     \<not> (ar_version a \<noteq> None \<and> ar_version a = bf_running_version facts) \<and>
     p = ar_version a \<and> m = (\<not> ar_activated a)"
  by (cases "ar_version a"; cases "bf_running_version facts")
     (auto simp: reconcile_def Let_def split: option.splits slot_state.splits)

lemma reconcile_rollback:
  "reconcile (Some a) facts = ReportRollback i l p \<longleftrightarrow>
     ar_slot a \<noteq> bf_running_slot facts \<and>
     (ar_activated a \<or> ar_boot_selected a \<or>
      (bf_update_slot facts = Some (ar_slot a, slot_state.Invalid) \<and> \<not> ar_slot_was_invalid a)) \<and>
     i = ar_attempt_id a \<and> l = ar_version a \<and> p = bf_report_persisted facts"
  by (cases "ar_version a"; cases "bf_running_version facts")
     (auto simp: reconcile_def Let_def split: option.splits slot_state.splits)

lemma reconcile_defer:
  "reconcile (Some a) facts = Defer \<longleftrightarrow>
     ar_slot a \<noteq> bf_running_slot facts \<and> \<not> ar_activated a \<and> \<not> ar_boot_selected a \<and>
     bf_update_slot facts = None"
  by (cases "ar_version a"; cases "bf_running_version facts")
     (auto simp: reconcile_def Let_def split: option.splits slot_state.splits)

lemmas reconcile_iffs =
  reconcile_complete reconcile_await reconcile_refuse reconcile_rollback reconcile_defer

lemma reason_parse_as_str [simp]: "reason_parse (reason_as_str r) = Some r"
  by (cases r) (simp_all add: reason_parse_def reason_as_str_def)

lemma reason_from_label_as_str [simp]: "reason_from_label (reason_as_str r) = r"
  by (simp add: reason_from_label_def)

lemma length_reason_as_str: "length (reason_as_str r) \<le> 32"
  by (cases r) (simp_all add: reason_as_str_def)

end
