(* ===== verification/Ota_Store.thy ===== *)
theory Ota_Store
  imports Ota_Kv Ota_Decision
begin

text \<open>
  The OTA record store (\<^verbatim>\<open>juggler/src/ota/persist/store.rs\<close>): attempts, rollback reports, operator
  requests and refusals over a storage backend \<open>K\<close>.  Every method of \<^verbatim>\<open>OtaStore\<close> is one
  definition here, generic in the backend, in the order of the source.  The entropy source is a
  sequence of draws; the store counts how many it consumed.
\<close>

section \<open>Types\<close>

datatype corrupt_record =
    UnknownAttemptSlotLabel | UnknownRequestSlotLabel | AttemptWithoutId | RequestWithoutId

datatype store_error =
    Kv kv_error
  | Corrupt corrupt_record
  | NotAdmitted blocked_by
  | ReportPending
  | InvalidSlot

record stored_attempt =
  sa_record :: attempt_record
  sa_why :: "string option"

record report_record =
  rr_pending :: bool
  rr_why :: string
  rr_attempt_id :: "u32 option"

record pending_report_data =
  pr_attempt_id :: u32
  pr_epoch :: u32
  pr_why :: string

definition pending_report_reason :: "pending_report_data \<Rightarrow> rollback_reason" where
  "pending_report_reason p = reason_from_label (pr_why p)"

datatype pending_report_view = NoReport | AwaitingBootReconcile | Ready pending_report_data

record rollback_request =
  rq_id :: u32
  rq_why :: string
  rq_from :: slot_id

datatype noted_target = AttemptReason slot_id | Request slot_id u32

datatype rollback_noted = RollbackNoted noted_target

datatype reason_note = Written rollback_noted | KeptFirst

datatype delivery = Marked | NotPending | OtherReport u32

datatype failed_download = NoAttemptStored | Cleared | Kept reconcile_action

datatype refusal_note = RefusalWritten "version option" | AlreadyRefused

datatype settle_outcome = NoRequest | DroppedNotRolledBack | AlreadyReported | MergedIntoPending | Reported

datatype repaired_record = RepairedAttempt | RepairedRequest | RepairedReport | RepairedCounter | RepairedRefusal

datatype key_type = KU8 | KU32 | KStr

datatype update_slot = Present slot_id slot_state | Absent | Unreadable int

definition update_slot_facts :: "update_slot \<Rightarrow> (slot_id \<times> slot_state) option" where
  "update_slot_facts u = (case u of Present slot state \<Rightarrow> Some (slot, state) | _ \<Rightarrow> None)"

record hardware_facts =
  hw_running_slot :: slot_id
  hw_running_state :: slot_state
  hw_update_slot :: update_slot

record boot_records =
  br_attempt :: "stored_attempt option"
  br_report_persisted :: bool

record 'k ota_store =
  os_kv :: 'k
  os_entropy :: "nat \<Rightarrow> u32"
  os_draws :: nat

section \<open>Slot labels and small helpers\<close>

definition FACTORY_SLOT :: slot_id where "FACTORY_SLOT = SlotId 255"

definition slot_label :: "slot_id \<Rightarrow> string option" where
  "slot_label slot = (case slot of SlotId n \<Rightarrow>
     if n = 0 then Some ''ota_0'' else if n = 1 then Some ''ota_1''
     else if n = 255 then Some ''factory'' else None)"

definition slot_from_label :: "string \<Rightarrow> slot_id option" where
  "slot_from_label label =
     (if label = ''ota_0'' then Some (SlotId 0)
      else if label = ''ota_1'' then Some (SlotId 1)
      else if label = ''factory'' then Some FACTORY_SLOT
      else None)"

definition slot_for_partition :: "string \<Rightarrow> slot_id" where
  "slot_for_partition label = (case slot_from_label label of Some s \<Rightarrow> s | None \<Rightarrow> FACTORY_SLOT)"

definition is_corrupt_code :: "kv_error \<Rightarrow> bool" where
  "is_corrupt_code e \<longleftrightarrow> code e = CODE_TYPE_MISMATCH \<or> code e = CODE_INVALID_VALUE"

definition label_str :: "string \<Rightarrow> string" where
  "label_str t = (if length t \<le> kvstr_cap then t else [])"

definition version_str :: "version \<Rightarrow> string" where
  "version_str v = version_display v"

definition store_open :: "'k \<Rightarrow> (nat \<Rightarrow> u32) \<Rightarrow> 'k ota_store" where
  "store_open kv entropy = \<lparr>os_kv = kv, os_entropy = entropy, os_draws = 0\<rparr>"

text \<open>A backend call inside a store method, with \<^verbatim>\<open>From<KvError> for StoreError\<close> applied.\<close>

definition kvop :: "('k, kv_error, 'a) prog \<Rightarrow> ('k ota_store, store_error, 'a) prog" where
  "kvop p = (\<lambda>st. case p (os_kv st) of
       (Inl e, k') \<Rightarrow> (Inl (Kv e), st\<lparr>os_kv := k'\<rparr>)
     | (Inr x, k') \<Rightarrow> (Inr x, st\<lparr>os_kv := k'\<rparr>))"

definition draw_entropy :: "('k ota_store, store_error, u32) prog" where
  "draw_entropy = (\<lambda>st. (Inr (os_entropy st (os_draws st)), st\<lparr>os_draws := Suc (os_draws st)\<rparr>))"

definition orElse :: "('w, 'e, bool) prog \<Rightarrow> ('w, 'e, bool) prog \<Rightarrow> ('w, 'e, bool) prog" where
  "orElse p q = andThen p (\<lambda>b. if b then ok True else q)"

definition ATTEMPT_KEYS :: "(ota_key \<times> key_type) list" where
  "ATTEMPT_KEYS = [(ATT_VER, KStr), (ATT_SLOT, KStr), (ATT_ID, KU32), (ATT_BOOT, KU8), (ATT_ACT, KU8), (ATT_INV, KU8)]"

definition REQUEST_KEYS :: "(ota_key \<times> key_type) list" where
  "REQUEST_KEYS = [(RQ_FROM, KStr), (RQ_ID, KU32)]"

definition REPORT_KEYS :: "(ota_key \<times> key_type) list" where
  "REPORT_KEYS = [(RB, KU8), (RB_ID, KU32)]"

definition COUNTER_KEYS :: "(ota_key \<times> key_type) list" where
  "COUNTER_KEYS = [(ATT_CTR, KU32), (ATT_EPOCH, KU32)]"

section \<open>Reads\<close>

definition reason :: "'k ota_kv \<Rightarrow> ota_key \<Rightarrow> ('k, kv_error, string option) prog" where
  "reason K key = onResult (get_str K key) (\<lambda>r. case r of
       Inl e \<Rightarrow> if is_corrupt_code e then ok (Some (label_str ''unknown'')) else fail e
     | Inr v \<Rightarrow> ok v)"

definition corrupt_read :: "'k ota_kv \<Rightarrow> ota_key \<Rightarrow> key_type \<Rightarrow> ('k ota_store, store_error, bool) prog" where
  "corrupt_read K key ty =
     (let read = (case ty of
          KU8 \<Rightarrow> andThen (get_u8 K key) (\<lambda>_. ok ())
        | KU32 \<Rightarrow> andThen (get_u32 K key) (\<lambda>_. ok ())
        | KStr \<Rightarrow> andThen (get_str K key) (\<lambda>_. ok ()))
      in kvop (onResult read (\<lambda>r. case r of
           Inr _ \<Rightarrow> ok False
         | Inl e \<Rightarrow> if is_corrupt_code e then ok True else fail e)))"

fun any_corrupt :: "'k ota_kv \<Rightarrow> (ota_key \<times> key_type) list \<Rightarrow> ('k ota_store, store_error, bool) prog" where
  "any_corrupt K [] = ok False"
| "any_corrupt K ((key, ty) # keys) =
     andThen (corrupt_read K key ty) (\<lambda>c. if c then ok True else any_corrupt K keys)"

definition scrub :: "'k ota_kv \<Rightarrow> ota_key \<Rightarrow> key_type \<Rightarrow> ('k ota_store, store_error, unit) prog" where
  "scrub K key ty = andThen (corrupt_read K key ty) (\<lambda>c. if c then kvop (remove_key K key) else ok ())"

definition flag :: "'k ota_kv \<Rightarrow> ota_key \<Rightarrow> ('k ota_store, store_error, bool) prog" where
  "flag K key = andThen (kvop (get_u8 K key)) (\<lambda>v. ok (v = Some 1))"

definition attempt_exists :: "'k ota_kv \<Rightarrow> ('k ota_store, store_error, bool) prog" where
  "attempt_exists K = andThen (kvop (get_str K ATT_VER)) (\<lambda>v.
     if v = None then ok False
     else andThen (kvop (get_str K ATT_SLOT)) (\<lambda>s. ok (s \<noteq> None)))"

definition attempt_slot :: "'k ota_kv \<Rightarrow> ('k ota_store, store_error, slot_id option) prog" where
  "attempt_slot K = andThen (kvop (get_str K ATT_VER)) (\<lambda>v.
     if v = None then ok None
     else andThen (kvop (get_str K ATT_SLOT)) (\<lambda>l. case l of
            None \<Rightarrow> ok None
          | Some label \<Rightarrow> (case slot_from_label label of
                Some slot \<Rightarrow> if slot \<noteq> FACTORY_SLOT then ok (Some slot)
                             else fail (Corrupt UnknownAttemptSlotLabel)
              | None \<Rightarrow> fail (Corrupt UnknownAttemptSlotLabel))))"

definition read_attempt :: "'k ota_kv \<Rightarrow> ('k ota_store, store_error, stored_attempt option) prog" where
  "read_attempt K = andThen (kvop (get_str K ATT_VER)) (\<lambda>v. case v of
     None \<Rightarrow> ok None
   | Some ver \<Rightarrow> andThen (attempt_slot K) (\<lambda>s. case s of
       None \<Rightarrow> ok None
     | Some slot \<Rightarrow> andThen (kvop (get_u32 K ATT_ID)) (\<lambda>i. case i of
         None \<Rightarrow> fail (Corrupt AttemptWithoutId)
       | Some attempt_id \<Rightarrow>
           andThen (flag K ATT_BOOT) (\<lambda>boot_selected.
           andThen (flag K ATT_ACT) (\<lambda>activated.
           andThen (flag K ATT_INV) (\<lambda>slot_was_invalid.
           andThen (kvop (reason K ATT_WHY)) (\<lambda>why.
             ok (Some \<lparr>sa_record = \<lparr>ar_attempt_id = attempt_id, ar_version = version_parse_ok ver,
                        ar_slot = slot, ar_boot_selected = boot_selected, ar_activated = activated,
                        ar_slot_was_invalid = slot_was_invalid\<rparr>,
                      sa_why = why\<rparr>))))))))"

definition report :: "'k ota_kv \<Rightarrow> ('k ota_store, store_error, report_record option) prog" where
  "report K = andThen (kvop (get_u8 K RB)) (\<lambda>r. case r of
     None \<Rightarrow> ok None
   | Some rb \<Rightarrow>
       andThen (kvop (reason K RB_WHY)) (\<lambda>why.
       andThen (kvop (get_u32 K RB_ID)) (\<lambda>i.
         ok (Some \<lparr>rr_pending = (rb = 1),
                    rr_why = (case why of Some w \<Rightarrow> w | None \<Rightarrow> label_str ''unknown''),
                    rr_attempt_id = i\<rparr>))))"

definition report_undelivered :: "'k ota_kv \<Rightarrow> ('k ota_store, store_error, bool) prog" where
  "report_undelivered K = flag K RB"

definition request_armed :: "'k ota_kv \<Rightarrow> ('k ota_store, store_error, bool) prog" where
  "request_armed K = andThen (kvop (get_str K RQ_FROM)) (\<lambda>f. ok (f \<noteq> None))"

definition request :: "'k ota_kv \<Rightarrow> ('k ota_store, store_error, rollback_request option) prog" where
  "request K = andThen (kvop (get_str K RQ_FROM)) (\<lambda>f. case f of
     None \<Rightarrow> ok None
   | Some label \<Rightarrow> (case slot_from_label label of
       None \<Rightarrow> fail (Corrupt UnknownRequestSlotLabel)
     | Some from \<Rightarrow> andThen (kvop (get_u32 K RQ_ID)) (\<lambda>i. case i of
         None \<Rightarrow> fail (Corrupt RequestWithoutId)
       | Some rid \<Rightarrow> andThen (kvop (reason K RQ_WHY)) (\<lambda>why.
           ok (Some \<lparr>rq_id = rid, rq_why = (case why of Some w \<Rightarrow> w | None \<Rightarrow> label_str ''unknown''),
                      rq_from = from\<rparr>)))))"

definition refused :: "'k ota_kv \<Rightarrow> ('k ota_store, store_error, version option) prog" where
  "refused K = andThen (kvop (get_str K REJ_VER)) (\<lambda>s. ok (Option.bind s version_parse_ok))"

definition admission :: "'k ota_kv \<Rightarrow> ('k ota_store, store_error, admission) prog" where
  "admission K =
     onResult (attempt_exists K) (\<lambda>a. onResult (request_armed K) (\<lambda>q.
       if (case (a, q) of (Inr attempt, Inr req) \<Rightarrow> attempt \<or> req | _ \<Rightarrow> True)
       then ok (admission.Blocked AttemptUnresolved)
       else onResult (report_undelivered K) (\<lambda>u. case u of
              Inr undelivered \<Rightarrow> ok (from_records False undelivered)
            | Inl _ \<Rightarrow> ok (admission.Blocked AttemptUnresolved))))"

section \<open>Ids\<close>

fun highest_id :: "'k ota_kv \<Rightarrow> u32 \<Rightarrow> ota_key list \<Rightarrow> ('k ota_store, store_error, u32) prog" where
  "highest_id K highest [] = ok highest"
| "highest_id K highest (key # keys) =
     andThen (kvop (get_u32 K key)) (\<lambda>v.
       highest_id K (max highest (case v of Some x \<Rightarrow> x | None \<Rightarrow> 0)) keys)"

definition epoch :: "'k ota_kv \<Rightarrow> ('k ota_store, store_error, u32) prog" where
  "epoch K = andThen (kvop (get_u32 K ATT_EPOCH)) (\<lambda>e. case e of
     Some ep \<Rightarrow> ok ep
   | None \<Rightarrow> andThen draw_entropy (\<lambda>ep. andThen (kvop (set_u32 K ATT_EPOCH ep)) (\<lambda>_. ok ep)))"

definition next_attempt_id :: "'k ota_kv \<Rightarrow> ('k ota_store, store_error, u32) prog" where
  "next_attempt_id K =
     andThen (epoch K) (\<lambda>_.
     andThen (highest_id K 0 [ATT_CTR, ATT_ID, RB_ID, RQ_ID]) (\<lambda>floor.
       let next = (if floor + 1 = 0 then 1 else floor + 1)
       in andThen (kvop (set_u32 K ATT_CTR next)) (\<lambda>_. ok next)))"

section \<open>Attempt\<close>

definition begin_attempt ::
  "'k ota_kv \<Rightarrow> version \<Rightarrow> slot_id \<Rightarrow> bool \<Rightarrow> ('k ota_store, store_error, u32) prog" where
  "begin_attempt K ver slot slot_was_invalid =
     andThen (admission K) (\<lambda>adm. case adm of
       admission.Blocked by \<Rightarrow> fail (NotAdmitted by)
     | Open \<Rightarrow>
         (case (if slot \<noteq> FACTORY_SLOT then slot_label slot else None) of
            None \<Rightarrow> fail InvalidSlot
          | Some label \<Rightarrow>
              andThen (next_attempt_id K) (\<lambda>rid.
              andThen (forEach [ATT_WHY, ATT_SLOT, ATT_VER, ATT_ACT, ATT_BOOT, ATT_ID]
                         (\<lambda>key. kvop (remove_key K key))) (\<lambda>_.
              andThen (kvop (set_u32 K ATT_ID rid)) (\<lambda>_.
              andThen (kvop (set_u8 K ATT_INV (u8_of_bool slot_was_invalid))) (\<lambda>_.
              andThen (kvop (set_str K ATT_VER (version_str ver))) (\<lambda>_.
              andThen (kvop (set_str K ATT_SLOT label)) (\<lambda>_.
                ok rid))))))))"

definition mark_boot_selected :: "'k ota_kv \<Rightarrow> ('k ota_store, store_error, unit) prog" where
  "mark_boot_selected K = kvop (set_u8 K ATT_BOOT 1)"

definition mark_activated :: "'k ota_kv \<Rightarrow> ('k ota_store, store_error, unit) prog" where
  "mark_activated K = kvop (set_u8 K ATT_ACT 1)"

definition clear_attempt :: "'k ota_kv \<Rightarrow> ('k ota_store, store_error, unit) prog" where
  "clear_attempt K =
     forEach [ATT_VER, ATT_SLOT, ATT_ACT, ATT_BOOT, ATT_INV, ATT_ID, ATT_WHY]
       (\<lambda>key. kvop (remove_key K key))"

definition complete_attempt :: "'k ota_kv \<Rightarrow> version \<Rightarrow> ('k ota_store, store_error, unit) prog" where
  "complete_attempt K running =
     andThen (onResult (kvop (get_str K REJ_VER)) (\<lambda>r. case r of
         Inr (Some ver) \<Rightarrow> if version_parse_ok ver = Some running then ok () else kvop (remove_key K REJ_VER)
       | Inl (Kv e) \<Rightarrow> if is_corrupt_code e then kvop (remove_key K REJ_VER) else fail (Kv e)
       | Inl e \<Rightarrow> fail e
       | Inr None \<Rightarrow> ok ()))
     (\<lambda>_. clear_attempt K)"

section \<open>Report\<close>

definition persist_report :: "'k ota_kv \<Rightarrow> u32 \<Rightarrow> string \<Rightarrow> ('k ota_store, store_error, unit) prog" where
  "persist_report K rid why =
     andThen (flag K RB) (\<lambda>pending.
     andThen (if pending then
                andThen (kvop (get_u32 K RB_ID)) (\<lambda>other. case other of
                  Some o' \<Rightarrow> if o' \<noteq> rid then fail store_error.ReportPending else ok ()
                | None \<Rightarrow> ok ())
              else ok ()) (\<lambda>_.
     andThen (kvop (remove_key K RB_ID)) (\<lambda>_.
     andThen (scrub K RB_WHY KStr) (\<lambda>_.
     andThen (kvop (set_str K RB_WHY why)) (\<lambda>_.
     andThen (kvop (set_u8 K RB 1)) (\<lambda>_.
     kvop (set_u32 K RB_ID rid)))))))"

definition report_rollback ::
  "'k ota_kv \<Rightarrow> u32 \<Rightarrow> version option \<Rightarrow> bool \<Rightarrow> ('k ota_store, store_error, unit) prog" where
  "report_rollback K attempt_id left already =
     andThen (if \<not> already then
                andThen (kvop (reason K ATT_WHY)) (\<lambda>w.
                  persist_report K attempt_id (case w of Some x \<Rightarrow> x | None \<Rightarrow> label_str ''bootloader''))
              else ok ()) (\<lambda>_.
     andThen (case left of
                Some v \<Rightarrow> andThen (scrub K REJ_VER KStr) (\<lambda>_. kvop (set_str K REJ_VER (version_str v)))
              | None \<Rightarrow> ok ()) (\<lambda>_.
     clear_attempt K))"

definition mark_report_delivered :: "'k ota_kv \<Rightarrow> u32 \<Rightarrow> ('k ota_store, store_error, delivery) prog" where
  "mark_report_delivered K attempt_id =
     andThen (flag K RB) (\<lambda>pending.
       if \<not> pending then ok NotPending
       else andThen (kvop (get_u32 K RB_ID)) (\<lambda>i. case i of
              Some rid \<Rightarrow> if rid = attempt_id
                         then andThen (kvop (set_u8 K RB 0)) (\<lambda>_. ok Marked)
                         else ok (OtherReport rid)
            | None \<Rightarrow> ok NotPending))"

definition pending_report :: "'k ota_kv \<Rightarrow> ('k ota_store, store_error, pending_report_view) prog" where
  "pending_report K =
     andThen (flag K RB) (\<lambda>pending.
       if \<not> pending then ok NoReport
       else andThen (kvop (get_u32 K RB_ID)) (\<lambda>owner.
            andThen (attempt_exists K) (\<lambda>ex.
            andThen (if ex then (case owner of
                               None \<Rightarrow> ok True
                             | Some rid \<Rightarrow> andThen (kvop (get_u32 K ATT_ID)) (\<lambda>a. ok (a = Some rid)))
                     else ok False) (\<lambda>own.
              if own then ok AwaitingBootReconcile
              else andThen (case owner of
                       Some rid \<Rightarrow> ok rid
                     | None \<Rightarrow>
                         andThen (kvop (get_u32 K RQ_ID)) (\<lambda>q.
                         andThen (case q of
                             Some rid \<Rightarrow> andThen (request_armed K) (\<lambda>armed.
                                          if armed then ok rid else next_attempt_id K)
                           | None \<Rightarrow> next_attempt_id K) (\<lambda>rid.
                         andThen (kvop (set_u32 K RB_ID rid)) (\<lambda>_. ok rid)))) (\<lambda>rid.
                   andThen (kvop (reason K RB_WHY)) (\<lambda>w.
                   andThen (epoch K) (\<lambda>ep.
                     ok (Ready \<lparr>pr_attempt_id = rid, pr_epoch = ep,
                                 pr_why = (case w of Some x \<Rightarrow> x | None \<Rightarrow> label_str ''unknown'')\<rparr>))))))))"

section \<open>Rollback reasons and requests\<close>

definition note_rollback :: "'k ota_kv \<Rightarrow> rollback_reason \<Rightarrow> slot_id \<Rightarrow> ('k ota_store, store_error, reason_note) prog" where
  "note_rollback K why running_slot =
     andThen (attempt_slot K) (\<lambda>a.
       if a = Some running_slot then
         andThen (kvop (reason K ATT_WHY)) (\<lambda>w.
           if w \<noteq> None then ok KeptFirst
           else andThen (kvop (set_str K ATT_WHY (reason_as_str why))) (\<lambda>_.
                  ok (Written (RollbackNoted (AttemptReason running_slot)))))
       else andThen (request_armed K) (\<lambda>armed.
         if armed then ok KeptFirst
         else (case slot_label running_slot of
                 None \<Rightarrow> fail InvalidSlot
               | Some from \<Rightarrow>
                   andThen (scrub K RQ_WHY KStr) (\<lambda>_.
                   andThen (next_attempt_id K) (\<lambda>rid.
                   andThen (kvop (set_u32 K RQ_ID rid)) (\<lambda>_.
                   andThen (kvop (set_str K RQ_WHY (reason_as_str why))) (\<lambda>_.
                   andThen (kvop (set_str K RQ_FROM from)) (\<lambda>_.
                     ok (Written (RollbackNoted (Request running_slot rid)))))))))))"

definition remove_request :: "'k ota_kv \<Rightarrow> ('k ota_store, store_error, unit) prog" where
  "remove_request K =
     andThen (kvop (remove_key K RQ_FROM)) (\<lambda>_.
     andThen (kvop (remove_key K RQ_WHY)) (\<lambda>_.
     kvop (remove_key K RQ_ID)))"

definition withdraw_rollback :: "'k ota_kv \<Rightarrow> rollback_noted \<Rightarrow> ('k ota_store, store_error, unit) prog" where
  "withdraw_rollback K noted = (case noted of
       RollbackNoted (AttemptReason slot) \<Rightarrow>
         andThen (attempt_slot K) (\<lambda>a. if a = Some slot then kvop (remove_key K ATT_WHY) else ok ())
     | RollbackNoted (Request slot rid) \<Rightarrow>
         andThen (request K) (\<lambda>q. case q of
             Some req \<Rightarrow> if rq_id req = rid \<and> rq_from req = slot then remove_request K else ok ()
           | None \<Rightarrow> ok ()))"

definition settle_request :: "'k ota_kv \<Rightarrow> slot_id \<Rightarrow> ('k ota_store, store_error, settle_outcome) prog" where
  "settle_request K running_slot =
     andThen (request K) (\<lambda>q. case q of
       None \<Rightarrow> ok NoRequest
     | Some req \<Rightarrow>
         if rq_from req = running_slot then andThen (remove_request K) (\<lambda>_. ok DroppedNotRolledBack)
         else
           andThen (flag K RB) (\<lambda>pending.
           andThen (kvop (get_u32 K RB_ID)) (\<lambda>report_id.
             if report_id = Some (rq_id req) then andThen (remove_request K) (\<lambda>_. ok AlreadyReported)
             else if pending \<and> report_id = None then
               andThen (kvop (set_u32 K RB_ID (rq_id req))) (\<lambda>_.
               andThen (remove_request K) (\<lambda>_. ok AlreadyReported))
             else if pending then andThen (remove_request K) (\<lambda>_. ok MergedIntoPending)
             else andThen (persist_report K (rq_id req) (rq_why req)) (\<lambda>_.
                  andThen (remove_request K) (\<lambda>_. ok Reported)))))"

definition report_persisted_for :: "'k ota_kv \<Rightarrow> u32 \<Rightarrow> ('k ota_store, store_error, bool) prog" where
  "report_persisted_for K attempt_id =
     andThen (kvop (get_u8 K RB)) (\<lambda>r. case r of
       None \<Rightarrow> ok False
     | Some rb \<Rightarrow> andThen (kvop (get_u32 K RB_ID)) (\<lambda>i. ok (i = Some attempt_id \<and> rb = 1)))"

definition settle_failed_download ::
  "'k ota_kv \<Rightarrow> hardware_facts \<Rightarrow> version option \<Rightarrow> ('k ota_store, store_error, failed_download) prog" where
  "settle_failed_download K hw running_version =
     andThen (read_attempt K) (\<lambda>a. case a of
       None \<Rightarrow> ok NoAttemptStored
     | Some attempt \<Rightarrow>
         andThen (report_persisted_for K (ar_attempt_id (sa_record attempt))) (\<lambda>persisted.
           let facts = \<lparr>bf_running_slot = hw_running_slot hw, bf_running_state = hw_running_state hw,
                         bf_running_version = running_version,
                         bf_update_slot = update_slot_facts (hw_update_slot hw),
                         bf_report_persisted = persisted\<rparr>
           in case reconcile (Some (sa_record attempt)) facts of
                ClearAttempt \<Rightarrow> andThen (clear_attempt K) (\<lambda>_. ok Cleared)
              | other \<Rightarrow> ok (Kept other)))"

section \<open>Refusal\<close>

definition refuse_version :: "'k ota_kv \<Rightarrow> version \<Rightarrow> ('k ota_store, store_error, refusal_note) prog" where
  "refuse_version K ver =
     andThen (kvop (get_str K REJ_VER)) (\<lambda>s.
       let previous = (case s of Some t \<Rightarrow> version_parse_ok t | None \<Rightarrow> None)
       in if previous = Some ver then ok AlreadyRefused
          else andThen (kvop (set_str K REJ_VER (version_str ver))) (\<lambda>_. ok (RefusalWritten previous)))"

definition restore_refusal :: "'k ota_kv \<Rightarrow> version option \<Rightarrow> ('k ota_store, store_error, unit) prog" where
  "restore_refusal K previous = (case previous of
       Some ver \<Rightarrow> kvop (set_str K REJ_VER (version_str ver))
     | None \<Rightarrow> kvop (remove_key K REJ_VER))"

section \<open>Repair\<close>

definition attempt_label_corrupt :: "'k ota_kv \<Rightarrow> ('k ota_store, store_error, bool) prog" where
  "attempt_label_corrupt K = onResult (attempt_slot K) (\<lambda>r. case r of
       Inl (Corrupt _) \<Rightarrow> ok True
     | Inl other \<Rightarrow> fail other
     | Inr (Some _) \<Rightarrow> andThen (kvop (get_u32 K ATT_ID)) (\<lambda>i. ok (i = None))
     | Inr None \<Rightarrow> ok False)"

definition request_label_corrupt :: "'k ota_kv \<Rightarrow> ('k ota_store, store_error, bool) prog" where
  "request_label_corrupt K = onResult (request K) (\<lambda>r. case r of
       Inl (Corrupt _) \<Rightarrow> ok True
     | Inl other \<Rightarrow> fail other
     | Inr _ \<Rightarrow> ok False)"

definition repair_counter :: "'k ota_kv \<Rightarrow> ('k ota_store, store_error, unit) prog" where
  "repair_counter K =
     andThen (orElse (corrupt_read K ATT_EPOCH KU32) (corrupt_read K ATT_CTR KU32)) (\<lambda>bad.
     andThen (if bad then kvop (remove_key K ATT_EPOCH) else ok ()) (\<lambda>_.
     andThen (corrupt_read K ATT_CTR KU32) (\<lambda>ctr.
       if ctr then
         andThen (highest_id K 0 [ATT_ID, RB_ID, RQ_ID]) (\<lambda>highest.
         andThen (kvop (remove_key K ATT_CTR)) (\<lambda>_.
           if 0 < highest then kvop (set_u32 K ATT_CTR highest) else ok ()))
       else ok ())))"

definition repair_corrupt :: "'k ota_kv \<Rightarrow> ('k ota_store, store_error, repaired_record option) prog" where
  "repair_corrupt K =
     andThen (orElse (any_corrupt K ATTEMPT_KEYS) (attempt_label_corrupt K)) (\<lambda>c1.
       if c1 then andThen (clear_attempt K) (\<lambda>_. ok (Some RepairedAttempt))
       else andThen (orElse (any_corrupt K REQUEST_KEYS) (request_label_corrupt K)) (\<lambda>c2.
         if c2 then andThen (remove_request K) (\<lambda>_. ok (Some RepairedRequest))
         else andThen (any_corrupt K REPORT_KEYS) (\<lambda>c3.
           if c3 then
             andThen (corrupt_read K RB_ID KU32) (\<lambda>i.
             andThen (if i then kvop (remove_key K RB_ID) else ok ()) (\<lambda>_.
             andThen (corrupt_read K RB KU8) (\<lambda>r.
             andThen (if r then kvop (set_u8 K RB 1) else ok ()) (\<lambda>_.
               ok (Some RepairedReport)))))
           else andThen (any_corrupt K COUNTER_KEYS) (\<lambda>c4.
             if c4 then andThen (repair_counter K) (\<lambda>_. ok (Some RepairedCounter))
             else andThen (corrupt_read K REJ_VER KStr) (\<lambda>c5.
               if c5 then andThen (kvop (remove_key K REJ_VER)) (\<lambda>_. ok (Some RepairedRefusal))
               else ok None)))))"

definition corrupt_present :: "'k ota_kv \<Rightarrow> ('k ota_store, store_error, bool) prog" where
  "corrupt_present K =
     orElse (any_corrupt K ATTEMPT_KEYS)
    (orElse (attempt_label_corrupt K)
    (orElse (any_corrupt K REQUEST_KEYS)
    (orElse (request_label_corrupt K)
    (orElse (any_corrupt K REPORT_KEYS)
    (orElse (any_corrupt K COUNTER_KEYS)
            (corrupt_read K REJ_VER KStr))))))"

section \<open>The read phase of the boot\<close>

definition read_phase :: "'k ota_kv \<Rightarrow> ('k ota_store, store_error, boot_records) prog" where
  "read_phase K =
     andThen (read_attempt K) (\<lambda>attempt.
     andThen (request K) (\<lambda>_.
     andThen (report K) (\<lambda>_.
     onResult (refused K) (\<lambda>_.
     andThen (case attempt of
                Some a \<Rightarrow> report_persisted_for K (ar_attempt_id (sa_record a))
              | None \<Rightarrow> ok False) (\<lambda>persisted.
       ok \<lparr>br_attempt = attempt, br_report_persisted = persisted\<rparr>)))))"

section \<open>Helper lemmas on labels\<close>

lemma slot_from_label_label: "slot_label slot = Some l \<Longrightarrow> slot_from_label l = Some slot"
  by (cases slot) (auto simp: slot_label_def slot_from_label_def FACTORY_SLOT_def split: if_splits)

lemma slot_label_from_label: "slot_from_label l = Some slot \<Longrightarrow> slot_label slot = Some l"
  by (auto simp: slot_label_def slot_from_label_def FACTORY_SLOT_def split: if_splits)

lemma length_slot_label: "slot_label slot = Some l \<Longrightarrow> length l \<le> kvstr_cap"
  by (cases slot) (auto simp: slot_label_def kvstr_cap_def split: if_splits)

lemma length_version_str [simp]: "length (version_str v) \<le> kvstr_cap"
  using version_display_fits [of v] by (simp add: version_str_def kvstr_cap_def)

lemma version_parse_ok_str [simp]: "version_parse_ok (version_str v) = Some v"
  by (simp add: version_str_def)

lemma label_str_unknown [simp]: "label_str ''unknown'' = ''unknown''"
  by (simp add: label_str_def kvstr_cap_def)

lemma label_str_bootloader [simp]: "label_str ''bootloader'' = ''bootloader''"
  by (simp add: label_str_def kvstr_cap_def)

end
