(* ===== verification/Ota_Store_Laws.thy ===== *)
theory Ota_Store_Laws
  imports Ota_Store
begin

text \<open>
  Crash consistency and functional correctness of the OTA record store, for every backend that
  keeps the \<^verbatim>\<open>OtaKv\<close> contract.

  The lemmas of \<open>ota_kv_contract\<close> speak of every end of a store operation: the normal one and
  each point where a backend error or a power loss stops it, because the error postcondition of
  \<open>spec_prog\<close> is a statement about the durable content left behind.  The lemmas of
  \<open>ota_kv_reliable\<close> say what an operation returns and leaves when the backend reports no fault.
\<close>

section \<open>What the records mean on flash\<close>

definition ATTEMPT_RECORD :: "ota_key list" where
  "ATTEMPT_RECORD = [ATT_VER, ATT_SLOT, ATT_ACT, ATT_BOOT, ATT_INV, ATT_ID, ATT_WHY]"

definition attempt_visible :: "flash_map \<Rightarrow> bool" where
  "attempt_visible m \<longleftrightarrow> m ATT_VER \<noteq> None \<and> m ATT_SLOT \<noteq> None"

definition attempt_written :: "version \<Rightarrow> string \<Rightarrow> bool \<Rightarrow> u32 \<Rightarrow> flash_map \<Rightarrow> bool" where
  "attempt_written ver label was_inv rid m \<longleftrightarrow>
     m ATT_VER = Some (Str (version_str ver)) \<and> m ATT_SLOT = Some (Str label) \<and>
     m ATT_ID = Some (U32 rid) \<and> m ATT_INV = Some (U8 (u8_of_bool was_inv)) \<and>
     m ATT_BOOT = None \<and> m ATT_ACT = None \<and> m ATT_WHY = None"

definition same_on :: "ota_key set \<Rightarrow> flash_map \<Rightarrow> flash_map \<Rightarrow> bool" where
  "same_on S m m' \<longleftrightarrow> (\<forall>key \<in> S. m' key = m key)"

definition report_durable :: "u32 \<Rightarrow> flash_map \<Rightarrow> bool" where
  "report_durable rid m \<longleftrightarrow> m RB = Some (U8 1) \<and> m RB_ID = Some (U32 rid)"

definition refusal_durable :: "version option \<Rightarrow> flash_map \<Rightarrow> bool" where
  "refusal_durable left m \<longleftrightarrow> (case left of None \<Rightarrow> True | Some v \<Rightarrow> m REJ_VER = Some (Str (version_str v)))"

definition stored_id :: "flash_map \<Rightarrow> ota_key \<Rightarrow> u32" where
  "stored_id m key = (case m key of Some (U32 x) \<Rightarrow> x | _ \<Rightarrow> 0)"

definition REPORT_RECORD :: "ota_key set" where
  "REPORT_RECORD = {RB, RB_WHY, RB_ID}"

definition REQUEST_RECORD :: "ota_key set" where
  "REQUEST_RECORD = {RQ_ID, RQ_WHY, RQ_FROM}"

definition admission_open :: "flash_map \<Rightarrow> bool" where
  "admission_open m \<longleftrightarrow> \<not> attempt_visible m \<and> m RQ_FROM = None \<and> m RB \<noteq> Some (U8 1)"

definition slot_on_flash :: "flash_map \<Rightarrow> slot_id option" where
  "slot_on_flash m = (case (m ATT_VER, m ATT_SLOT) of
       (Some _, Some (Str l)) \<Rightarrow> slot_from_label l
     | _ \<Rightarrow> None)"

definition request_on_flash :: "flash_map \<Rightarrow> rollback_request \<Rightarrow> bool" where
  "request_on_flash m req \<longleftrightarrow>
     (\<exists>l. m RQ_FROM = Some (Str l) \<and> slot_from_label l = Some (rq_from req)) \<and>
     m RQ_ID = Some (U32 (rq_id req))"

definition accounted :: "rollback_request \<Rightarrow> flash_map \<Rightarrow> bool" where
  "accounted req m \<longleftrightarrow> m RB_ID = Some (U32 (rq_id req)) \<or> m RB = Some (U8 1)"

text \<open>
  What \<open>settle_request\<close> promises: a request for a slot that was left disappears only after a report
  accounts for it, and a report that awaits delivery keeps waiting.
\<close>

definition settled :: "slot_id \<Rightarrow> flash_map \<Rightarrow> settle_outcome \<Rightarrow> flash_map \<Rightarrow> bool" where
  "settled running m r m' \<longleftrightarrow> same_on (- (REQUEST_RECORD \<union> REPORT_RECORD)) m m' \<and> m' RQ_FROM = None \<and>
     (m RB = Some (U8 1) \<longrightarrow> m' RB = Some (U8 1)) \<and>
     (case r of
        NoRequest \<Rightarrow> m' = m
      | DroppedNotRolledBack \<Rightarrow> same_on REPORT_RECORD m m' \<and> (\<exists>req. request_on_flash m req \<and> rq_from req = running)
      | Reported \<Rightarrow> \<exists>req. request_on_flash m req \<and> rq_from req \<noteq> running \<and> report_durable (rq_id req) m'
      | _ \<Rightarrow> \<exists>req. request_on_flash m req \<and> rq_from req \<noteq> running \<and> accounted req m')"

definition settle_stopped :: "slot_id \<Rightarrow> flash_map \<Rightarrow> store_error \<Rightarrow> flash_map \<Rightarrow> bool" where
  "settle_stopped running m e m' \<longleftrightarrow> same_on (- (REQUEST_RECORD \<union> REPORT_RECORD)) m m' \<and>
     (m RB = Some (U8 1) \<longrightarrow> m' RB = Some (U8 1)) \<and>
     (same_on REQUEST_RECORD m m' \<or>
      m' RQ_FROM = None \<and> (\<exists>req. request_on_flash m req \<and> (rq_from req = running \<or> accounted req m')))"

definition ID_KEYS :: "ota_key list" where
  "ID_KEYS = [ATT_CTR, ATT_ID, RB_ID, RQ_ID]"

definition next_id :: "flash_map \<Rightarrow> u32" where
  "next_id m = (let floor = fold (\<lambda>key h. max h (stored_id m key)) ID_KEYS 0
                in if floor + 1 = 0 then 1 else floor + 1)"

abbreviation store_spec ::
  "('k \<Rightarrow> bool) \<Rightarrow> ('k \<Rightarrow> flash_map) \<Rightarrow> ('k ota_store, 'e, 'a) prog \<Rightarrow> ('a \<Rightarrow> flash_map \<Rightarrow> bool) \<Rightarrow>
   ('e \<Rightarrow> flash_map \<Rightarrow> bool) \<Rightarrow> flash_map \<Rightarrow> bool" where
  "store_spec I flash \<equiv> spec_prog (\<lambda>st. I (os_kv st)) (\<lambda>st. flash (os_kv st))"

section \<open>Shared rules\<close>

lemma spec_option [spec_rules]:
  "(x = None \<Longrightarrow> spec_prog I \<alpha> p Q E m) \<Longrightarrow> (\<And>v. x = Some v \<Longrightarrow> spec_prog I \<alpha> (q v) Q E m) \<Longrightarrow>
   spec_prog I \<alpha> (case x of None \<Rightarrow> p | Some v \<Rightarrow> q v) Q E m"
  by (cases x) auto

lemma spec_admission [spec_rules]:
  "(x = Open \<Longrightarrow> spec_prog I \<alpha> p Q E m) \<Longrightarrow> (\<And>v. x = admission.Blocked v \<Longrightarrow> spec_prog I \<alpha> (q v) Q E m) \<Longrightarrow>
   spec_prog I \<alpha> (case x of Open \<Rightarrow> p | admission.Blocked v \<Rightarrow> q v) Q E m"
  by (cases x) auto

lemma spec_sum [spec_rules]:
  "(\<And>e. x = Inl e \<Longrightarrow> spec_prog I \<alpha> (p e) Q E m) \<Longrightarrow> (\<And>v. x = Inr v \<Longrightarrow> spec_prog I \<alpha> (q v) Q E m) \<Longrightarrow>
   spec_prog I \<alpha> (case x of Inl e \<Rightarrow> p e | Inr v \<Rightarrow> q v) Q E m"
  by (cases x) auto

lemma spec_store_error [spec_rules]:
  "(\<And>k. x = Kv k \<Longrightarrow> spec_prog I \<alpha> (p k) Q E m) \<Longrightarrow> (\<And>c. x = Corrupt c \<Longrightarrow> spec_prog I \<alpha> (pc c) Q E m) \<Longrightarrow>
   (\<And>b. x = NotAdmitted b \<Longrightarrow> spec_prog I \<alpha> (pn b) Q E m) \<Longrightarrow>
   (x = store_error.ReportPending \<Longrightarrow> spec_prog I \<alpha> pr Q E m) \<Longrightarrow>
   (x = InvalidSlot \<Longrightarrow> spec_prog I \<alpha> pi Q E m) \<Longrightarrow>
   spec_prog I \<alpha> (case x of Kv k \<Rightarrow> p k | Corrupt c \<Rightarrow> pc c | NotAdmitted b \<Rightarrow> pn b
                  | store_error.ReportPending \<Rightarrow> pr | InvalidSlot \<Rightarrow> pi) Q E m"
  by (cases x) auto

lemma spec_let [spec_rules]:
  "spec_prog I \<alpha> (f x) Q E m \<Longrightarrow> spec_prog I \<alpha> (let y = x in f y) Q E m"
  by simp

lemma spec_draw_entropy [spec_rules]:
  "(\<And>x. Q x m) \<Longrightarrow> store_spec I flash draw_entropy Q E m"
  by (simp add: spec_prog_def draw_entropy_def)

lemma spec_orElse [spec_rules]:
  assumes "spec_prog I \<alpha> p (\<lambda>b. spec_prog I \<alpha> (if b then ok True else q) Q E) E m"
  shows "spec_prog I \<alpha> (orElse p q) Q E m"
  unfolding orElse_def by (rule spec_andThen) (rule assms)

lemma kvop_spec:
  assumes "spec_prog I \<alpha> p Q (\<lambda>e. E (Kv e)) m"
  shows "spec_prog (\<lambda>st. I (os_kv st)) (\<lambda>st. \<alpha> (os_kv st)) (kvop p) Q E m"
  using assms by (fastforce simp: spec_prog_def kvop_def split: prod.splits sum.splits)

lemma same_on_refl [simp]: "same_on S m m"
  by (simp add: same_on_def)

lemma same_on_trans: "same_on S m m1 \<Longrightarrow> same_on S m1 m2 \<Longrightarrow> same_on S m m2"
  by (simp add: same_on_def)

lemma same_on_upd [simp]: "key \<notin> S \<Longrightarrow> same_on S m (m'(key := v)) = same_on S m m'"
  by (auto simp: same_on_def)

lemma same_on_mono: "same_on T m m' \<Longrightarrow> S \<subseteq> T \<Longrightarrow> same_on S m m'"
  by (auto simp: same_on_def)

lemma same_onD: "same_on S m m' \<Longrightarrow> key \<in> S \<Longrightarrow> m' key = m key"
  by (simp add: same_on_def)

lemma report_durable_same: "same_on REPORT_RECORD m m' \<Longrightarrow> report_durable rid m' = report_durable rid m"
  by (simp add: same_on_def report_durable_def REPORT_RECORD_def)

lemma refusal_durable_same: "same_on {REJ_VER} m m' \<Longrightarrow> refusal_durable left m' = refusal_durable left m"
  by (simp add: same_on_def refusal_durable_def split: option.splits)

lemma accounted_same: "same_on REPORT_RECORD m m' \<Longrightarrow> accounted req m' = accounted req m"
  by (simp add: same_on_def accounted_def REPORT_RECORD_def)

lemma record_sets:
  "REPORT_RECORD \<subseteq> - set ATTEMPT_RECORD" "REQUEST_RECORD \<subseteq> - set ATTEMPT_RECORD" "REJ_VER \<notin> set ATTEMPT_RECORD"
  "REPORT_RECORD \<subseteq> - REQUEST_RECORD" "REJ_VER \<notin> REPORT_RECORD" "REJ_VER \<notin> REQUEST_RECORD" "ATT_VER \<in> set ATTEMPT_RECORD"
  by (auto simp: REPORT_RECORD_def REQUEST_RECORD_def ATTEMPT_RECORD_def)

lemma settle_stoppedI:
  "same_on (- REPORT_RECORD) m m' \<Longrightarrow> (m RB = Some (U8 1) \<longrightarrow> m' RB = Some (U8 1)) \<Longrightarrow> settle_stopped running m e m'"
  using record_sets by (auto simp: settle_stopped_def same_on_def)

lemma spec_frame_andThen:
  assumes "spec_prog I \<alpha> p P E m" and "\<And>x m'. P x m' \<Longrightarrow> spec_prog I \<alpha> (f x) Q E m'"
  shows "spec_prog I \<alpha> (andThen p f) Q E m"
  using assms by (auto intro!: spec_andThen elim: spec_mono)

lemma spec_lawI:
  assumes "\<And>s r s'. \<alpha> s = m \<Longrightarrow> p s = (r, s') \<Longrightarrow>
     (case r of Inr x \<Rightarrow> Q x (\<alpha> s') | Inl e \<Rightarrow> E e (\<alpha> s'))"
  shows "spec_prog (\<lambda>_. True) \<alpha> p Q E m"
  using assms by (simp add: spec_prog_def)

lemma next_id_fresh:
  "next_id m \<noteq> 0 \<and> ((\<exists>key \<in> set ID_KEYS. stored_id m key = - 1) \<or> (\<forall>key \<in> set ID_KEYS. stored_id m key < next_id m))"
proof -
  define h where "h = fold (\<lambda>key h. max h (stored_id m key)) ID_KEYS 0"
  have le: "stored_id m key \<le> h" if "key \<in> set ID_KEYS" for key
    using that by (auto simp: h_def ID_KEYS_def le_max_iff_disj)
  have mem: "h = 0 \<or> (\<exists>key \<in> set ID_KEYS. stored_id m key = h)"
    by (auto simp: h_def ID_KEYS_def max_def)
  have n: "next_id m = (if h + 1 = 0 then 1 else h + 1)"
    by (simp add: next_id_def h_def Let_def)
  show ?thesis
  proof (cases "h + 1 = 0")
    case True
    then have "h = - 1" by (simp add: eq_neg_iff_add_eq_0)
    with mem True n show ?thesis by auto
  next
    case False
    then have "h < h + 1" using unatSuc [of h] by (simp add: add.commute word_less_nat_alt)
    with le n False show ?thesis by (auto intro: le_less_trans)
  qed
qed

section \<open>Every end of an operation\<close>

context ota_kv_contract
begin

lemma kv_get_u8 [spec_rules]:
  assumes "\<And>v. m key = map_option U8 v \<Longrightarrow> Q v m" and "\<And>e. E e m"
  shows "spec_prog (\<lambda>_. True) flash (get_u8 K key) Q E m"
  using assms by (intro spec_lawI) (drule law_get_u8, force split: sum.splits)

lemma kv_get_u32 [spec_rules]:
  assumes "\<And>v. m key = map_option U32 v \<Longrightarrow> Q v m" and "\<And>e. E e m"
  shows "spec_prog (\<lambda>_. True) flash (get_u32 K key) Q E m"
  using assms by (intro spec_lawI) (drule law_get_u32, force split: sum.splits)

lemma kv_get_str [spec_rules]:
  assumes "\<And>v. m key = map_option Str v \<Longrightarrow> Q v m" and "\<And>e. E e m"
  shows "spec_prog (\<lambda>_. True) flash (get_str K key) Q E m"
  using assms by (intro spec_lawI) (drule law_get_str, force split: sum.splits)

lemma wp_get_u8 [spec_rules]:
  assumes "\<And>v. m key = map_option U8 v \<Longrightarrow> Q v m" and "\<And>e. E (Kv e) m"
  shows "store_spec (\<lambda>_. True) flash (kvop (get_u8 K key)) Q E m"
  by (intro kvop_spec kv_get_u8 assms)

lemma wp_get_u32 [spec_rules]:
  assumes "\<And>v. m key = map_option U32 v \<Longrightarrow> Q v m" and "\<And>e. E (Kv e) m"
  shows "store_spec (\<lambda>_. True) flash (kvop (get_u32 K key)) Q E m"
  by (intro kvop_spec kv_get_u32 assms)

lemma wp_get_str [spec_rules]:
  assumes "\<And>v. m key = map_option Str v \<Longrightarrow> Q v m" and "\<And>e. E (Kv e) m"
  shows "store_spec (\<lambda>_. True) flash (kvop (get_str K key)) Q E m"
  by (intro kvop_spec kv_get_str assms)

lemma wp_set_u8 [spec_rules]:
  assumes "Q () (m(key \<mapsto> U8 x))" and "\<And>e. E (Kv e) m" and "\<And>e. E (Kv e) (m(key \<mapsto> U8 x))"
  shows "store_spec (\<lambda>_. True) flash (kvop (set_u8 K key x)) Q E m"
  using assms by (intro kvop_spec spec_lawI) (drule law_set_u8, force split: sum.splits)

lemma wp_set_u32 [spec_rules]:
  assumes "Q () (m(key \<mapsto> U32 x))" and "\<And>e. E (Kv e) m" and "\<And>e. E (Kv e) (m(key \<mapsto> U32 x))"
  shows "store_spec (\<lambda>_. True) flash (kvop (set_u32 K key x)) Q E m"
  using assms by (intro kvop_spec spec_lawI) (drule law_set_u32, force split: sum.splits)

lemma wp_set_str [spec_rules]:
  assumes "Q () (m(key \<mapsto> Str x))" and "\<And>e. E (Kv e) m" and "\<And>e. E (Kv e) (m(key := None))"
    and "\<And>e. E (Kv e) (m(key \<mapsto> Str x))"
  shows "store_spec (\<lambda>_. True) flash (kvop (set_str K key x)) Q E m"
  using assms by (intro kvop_spec spec_lawI) (drule law_set_str, force split: sum.splits)

lemma wp_remove [spec_rules]:
  assumes "Q () (m(key := None))" and "\<And>e. E (Kv e) m" and "\<And>e. E (Kv e) (m(key := None))"
  shows "store_spec (\<lambda>_. True) flash (kvop (remove_key K key)) Q E m"
  using assms by (intro kvop_spec spec_lawI) (drule law_remove, force split: sum.splits)

lemma wp_reason [spec_rules]:
  assumes "\<And>v. m key = map_option Str v \<Longrightarrow> Q v m" and "Q (Some ''unknown'') m" and "\<And>e. E (Kv e) m"
  shows "store_spec (\<lambda>_. True) flash (kvop (reason K key)) Q E m"
  unfolding reason_def by (intro kvop_spec spec_rules) (auto intro: assms)

lemma wp_corrupt_read [spec_rules]:
  assumes "\<And>b. Q b m" and "\<And>e. E (Kv e) m"
  shows "store_spec (\<lambda>_. True) flash (corrupt_read K key ty) Q E m"
  unfolding corrupt_read_def Let_def
  by (rule kvop_spec, cases ty) (auto intro!: spec_rules intro: assms)

lemma wp_flag [spec_rules]:
  assumes "\<And>v. m key = map_option U8 v \<Longrightarrow> Q (v = Some 1) m" and "\<And>e. E (Kv e) m"
  shows "store_spec (\<lambda>_. True) flash (flag K key) Q E m"
  unfolding flag_def by (intro spec_rules assms)

lemma wp_remove_all:
  assumes "Q () (m |` (- set keys))" and "\<And>e n. E (Kv e) (m |` (- set (take n keys)))"
  shows "store_spec (\<lambda>_. True) flash (forEach keys (\<lambda>key. kvop (remove_key K key))) Q E m"
  using assms
proof (induction keys arbitrary: m)
  case Nil
  then show ?case by (simp add: spec_ok)
next
  case (Cons key keys)
  have step: "m(key := None) |` (- A) = m |` (- insert key A)" for A
    by (rule ext) (simp add: restrict_map_def)
  have all: "f |` (- {}) = f" for f :: flash_map
    by (rule ext) (simp add: restrict_map_def)
  have e0: "E (Kv e) m" for e using Cons.prems(2) [of e 0] by simp
  have en: "E (Kv e) (m(key := None) |` (- set (take n keys)))" for e n
    using Cons.prems(2) [of e "Suc n"] unfolding step by simp
  have e1: "E (Kv e) (m(key := None))" for e
    using en [of e 0] unfolding take_0 list.set(1) all by this
  have q: "Q () (m(key := None) |` (- set keys))"
    using Cons.prems(1) unfolding step by simp
  show ?case
    unfolding forEach.simps by (intro spec_andThen wp_remove Cons.IH e0 e1 en q)
qed

lemma wp_attempt_exists [spec_rules]:
  assumes "Q (attempt_visible m) m" and "\<And>e. E (Kv e) m"
  shows "store_spec (\<lambda>_. True) flash (attempt_exists K) Q E m"
  unfolding attempt_exists_def
  by (intro spec_rules) (use assms in \<open>auto simp: attempt_visible_def\<close>)

lemma wp_request_armed [spec_rules]:
  assumes "Q (m RQ_FROM \<noteq> None) m" and "\<And>e. E (Kv e) m"
  shows "store_spec (\<lambda>_. True) flash (request_armed K) Q E m"
  unfolding request_armed_def by (intro spec_rules) (use assms in auto)

lemma wp_report_undelivered [spec_rules]:
  assumes "Q (m RB = Some (U8 1)) m" and "\<And>e. E (Kv e) m"
  shows "store_spec (\<lambda>_. True) flash (report_undelivered K) Q E m"
  unfolding report_undelivered_def by (intro spec_rules) (use assms in auto)

lemma wp_admission [spec_rules]:
  assumes "admission_open m \<Longrightarrow> Q Open m" and "\<And>b. Q (admission.Blocked b) m"
  shows "store_spec (\<lambda>_. True) flash (admission K) Q E m"
  unfolding admission_def
  by (intro spec_rules) (use assms in \<open>auto simp: admission_open_def from_records_def\<close>)

lemma wp_attempt_slot [spec_rules]:
  assumes "Q (slot_on_flash m) m" and "\<And>e. E e m"
  shows "store_spec (\<lambda>_. True) flash (attempt_slot K) Q E m"
  unfolding attempt_slot_def
  by (intro spec_rules) (use assms in \<open>auto simp: slot_on_flash_def split: option.splits\<close>)

lemma wp_request [spec_rules]:
  assumes "m RQ_FROM = None \<Longrightarrow> Q None m" and "\<And>req. request_on_flash m req \<Longrightarrow> Q (Some req) m"
    and "\<And>e. E e m"
  shows "store_spec (\<lambda>_. True) flash (request K) Q E m"
  unfolding request_def
  by (intro spec_rules) (use assms in \<open>auto simp: request_on_flash_def\<close>)

lemma wp_highest_id:
  assumes "(\<forall>key \<in> set keys. m key = None \<or> (\<exists>x. m key = Some (U32 x))) \<Longrightarrow>
      Q (fold (\<lambda>key h. max h (stored_id m key)) keys h0) m"
    and "\<And>e. E (Kv e) m"
  shows "store_spec (\<lambda>_. True) flash (highest_id K h0 keys) Q E m"
  using assms
proof (induction keys arbitrary: h0)
  case Nil
  then show ?case by (auto intro: spec_rules)
next
  case (Cons key keys)
  show ?case
    unfolding highest_id.simps
    by (intro spec_rules Cons.IH)
       (use Cons.prems in \<open>auto simp: stored_id_def split: option.splits\<close>)
qed

lemma wp_epoch [spec_rules]:
  assumes "\<And>ep m'. same_on (- {ATT_EPOCH}) m m' \<Longrightarrow> m' ATT_EPOCH = Some (U32 ep) \<Longrightarrow> Q ep m'"
    and "\<And>e m'. same_on (- {ATT_EPOCH}) m m' \<Longrightarrow> E (Kv e) m'"
  shows "store_spec (\<lambda>_. True) flash (epoch K) Q E m"
  unfolding epoch_def by (intro spec_rules assms) auto

lemma wp_next_attempt_id [spec_rules]:
  assumes "\<And>m'. same_on (- {ATT_EPOCH, ATT_CTR}) m m' \<Longrightarrow> m' ATT_CTR = Some (U32 (next_id m)) \<Longrightarrow> Q (next_id m) m'"
    and "\<And>e m'. same_on (- {ATT_EPOCH, ATT_CTR}) m m' \<Longrightarrow> E (Kv e) m'"
  shows "store_spec (\<lambda>_. True) flash (next_attempt_id K) Q E m"
  unfolding next_attempt_id_def
proof (intro spec_andThen wp_epoch wp_highest_id spec_let wp_set_u32 spec_ok)
  fix m' e
  assume s: "same_on (- {ATT_EPOCH}) m m'"
  then have w: "same_on (- {ATT_EPOCH, ATT_CTR}) m m'" by (auto simp: same_on_def)
  from w show "E (Kv e) m'" "E (Kv e) m'" "E (Kv e) m'" by (auto intro: assms(2))
  have ids: "(let floor = fold (\<lambda>key h. max h (stored_id m' key)) [ATT_CTR, ATT_ID, RB_ID, RQ_ID] 0
     in if floor + 1 = 0 then 1 else floor + 1) = next_id m"
    using s by (simp add: next_id_def ID_KEYS_def stored_id_def same_on_def)
  let ?h = "fold (\<lambda>key h. max h (stored_id m' key)) [ATT_CTR, ATT_ID, RB_ID, RQ_ID] 0"
  let ?n = "if ?h + 1 = 0 then 1 else ?h + 1"
  have n: "?n = next_id m" using ids by (simp only: Let_def)
  show "E (Kv e) (m'(ATT_CTR \<mapsto> U32 ?n))" using w by (intro assms(2)) simp
  show "Q ?n (m'(ATT_CTR \<mapsto> U32 ?n))" unfolding n using w by (intro assms(1)) simp_all
qed

lemma wp_clear_attempt [spec_rules]:
  assumes "\<And>m'. same_on (- set ATTEMPT_RECORD) m m' \<Longrightarrow> \<forall>key \<in> set ATTEMPT_RECORD. m' key = None \<Longrightarrow> Q () m'"
    and "\<And>e m'. same_on (- set ATTEMPT_RECORD) m m' \<Longrightarrow>
      m' = m \<or> m' ATT_VER = None \<and> (\<forall>key \<in> set ATTEMPT_RECORD. m' key = None \<or> m' key = m key) \<Longrightarrow> E (Kv e) m'"
  shows "store_spec (\<lambda>_. True) flash (clear_attempt K) Q E m"
  unfolding clear_attempt_def ATTEMPT_RECORD_def [symmetric]
proof (intro wp_remove_all assms)
  show "same_on (- set ATTEMPT_RECORD) m (m |` (- set ATTEMPT_RECORD))"
    and "\<forall>key \<in> set ATTEMPT_RECORD. (m |` (- set ATTEMPT_RECORD)) key = None"
    by (auto simp: same_on_def)
  fix n
  let ?m = "m |` (- set (take n ATTEMPT_RECORD))"
  show "same_on (- set ATTEMPT_RECORD) m ?m"
    by (auto simp: same_on_def restrict_map_def dest: in_set_takeD)
  show "?m = m \<or> ?m ATT_VER = None \<and> (\<forall>key \<in> set ATTEMPT_RECORD. ?m key = None \<or> ?m key = m key)"
    by (cases n) (auto simp: restrict_map_def ATTEMPT_RECORD_def)
qed

lemma spec_begin_attempt:
  "store_spec (\<lambda>_. True) flash (begin_attempt K ver slot was_inv)
     (\<lambda>rid m'. admission_open m \<and> rid = next_id m \<and> same_on (REPORT_RECORD \<union> REQUEST_RECORD \<union> {REJ_VER}) m m' \<and>
        m' ATT_CTR = Some (U32 rid) \<and>
        (\<exists>label. slot_label slot = Some label \<and> attempt_written ver label was_inv rid m'))
     (\<lambda>e m'. same_on (REPORT_RECORD \<union> REQUEST_RECORD \<union> {REJ_VER}) m m' \<and>
        (m' = m \<or> admission_open m \<and> (attempt_visible m' \<longrightarrow>
           (\<exists>label. slot_label slot = Some label \<and> attempt_written ver label was_inv (next_id m) m'))))
     m"
proof -
  have vis: "admission_open m \<Longrightarrow> same_on (- {ATT_EPOCH, ATT_CTR}) m m' \<Longrightarrow> \<not> attempt_visible m'" for m'
    by (auto simp: admission_open_def attempt_visible_def same_on_def)
  have keep: "same_on (- {ATT_EPOCH, ATT_CTR}) m m' \<Longrightarrow>
      same_on (REPORT_RECORD \<union> REQUEST_RECORD \<union> {REJ_VER}) m m'" for m'
    by (auto simp: same_on_def REPORT_RECORD_def REQUEST_RECORD_def)
  show ?thesis
    unfolding begin_attempt_def forEach.simps
    by (intro spec_rules)
       (auto dest: vis keep simp: attempt_visible_def attempt_written_def same_on_def
          REPORT_RECORD_def REQUEST_RECORD_def split: if_splits)
qed

lemma spec_persist_report:
  "store_spec (\<lambda>_. True) flash (persist_report K rid why)
     (\<lambda>_ m'. same_on (- REPORT_RECORD) m m' \<and> report_durable rid m' \<and> m' RB_WHY = Some (Str why))
     (\<lambda>e m'. same_on (- REPORT_RECORD) m m' \<and> (m RB = Some (U8 1) \<longrightarrow> m' RB = Some (U8 1)) \<and>
        (e = store_error.ReportPending \<longrightarrow> m' = m))
     m"
  unfolding persist_report_def scrub_def
  by (intro spec_rules) (auto simp: REPORT_RECORD_def report_durable_def)

lemma spec_report_rollback:
  "store_spec (\<lambda>_. True) flash (report_rollback K rid left already)
     (\<lambda>_ m'. (\<not> already \<longrightarrow> report_durable rid m') \<and> (already \<longrightarrow> same_on REPORT_RECORD m m') \<and>
        refusal_durable left m' \<and> (\<forall>key \<in> set ATTEMPT_RECORD. m' key = None) \<and>
        same_on (- (REPORT_RECORD \<union> {REJ_VER} \<union> set ATTEMPT_RECORD)) m m')
     (\<lambda>e m'. same_on (- (REPORT_RECORD \<union> {REJ_VER} \<union> set ATTEMPT_RECORD)) m m' \<and>
        (same_on (set ATTEMPT_RECORD) m m' \<or>
         m' ATT_VER = None \<and> (\<not> already \<longrightarrow> report_durable rid m') \<and> (already \<longrightarrow> same_on REPORT_RECORD m m') \<and>
         refusal_durable left m'))
     m"
  (is "store_spec _ _ _ ?Q ?E m")
proof -
  let ?R = "\<lambda>m1. same_on (- REPORT_RECORD) m m1 \<and> (\<not> already \<longrightarrow> report_durable rid m1) \<and>
     (already \<longrightarrow> same_on REPORT_RECORD m m1)"
  let ?S = "\<lambda>m2. same_on (- (REPORT_RECORD \<union> {REJ_VER})) m m2 \<and> (\<not> already \<longrightarrow> report_durable rid m2) \<and>
     (already \<longrightarrow> same_on REPORT_RECORD m m2) \<and> refusal_durable left m2"
  have early: "same_on (- (REPORT_RECORD \<union> {REJ_VER})) m m' \<Longrightarrow> ?E e m'" for e m'
    by (auto simp: same_on_def ATTEMPT_RECORD_def REPORT_RECORD_def)
  have clear: "?S m2 \<Longrightarrow> store_spec (\<lambda>_. True) flash (clear_attempt K) ?Q ?E m2" for m2
  proof (intro wp_clear_attempt)
    fix e m'
    assume s: "?S m2" and k: "same_on (- set ATTEMPT_RECORD) m2 m'"
    have rep: "same_on REPORT_RECORD m2 m'" and rej: "same_on {REJ_VER} m2 m'"
      and rest: "same_on (- (REPORT_RECORD \<union> {REJ_VER} \<union> set ATTEMPT_RECORD)) m m'"
      using k s record_sets by (auto simp: same_on_def)
    have kept: "(\<not> already \<longrightarrow> report_durable rid m') \<and> (already \<longrightarrow> same_on REPORT_RECORD m m') \<and> refusal_durable left m'"
      using s report_durable_same [OF rep] refusal_durable_same [OF rej] rep same_on_trans by blast
    show "?Q () m'" if "\<forall>key \<in> set ATTEMPT_RECORD. m' key = None"
      using that kept rest by simp
    show "?E (Kv e) m'"
      if "m' = m2 \<or> m' ATT_VER = None \<and> (\<forall>key \<in> set ATTEMPT_RECORD. m' key = None \<or> m' key = m2 key)"
      using that kept rest s early [of m2] by (elim disjE) simp_all
  qed
  have refuse: "?R m1 \<Longrightarrow> store_spec (\<lambda>_. True) flash
      (case left of Some v \<Rightarrow> andThen (scrub K REJ_VER KStr) (\<lambda>_. kvop (set_str K REJ_VER (version_str v)))
                  | None \<Rightarrow> ok ()) (\<lambda>_. ?S) ?E m1" for m1
    unfolding scrub_def
    by (intro spec_rules early) (auto simp: same_on_def report_durable_def refusal_durable_def REPORT_RECORD_def)
  have pers: "store_spec (\<lambda>_. True) flash
      (if \<not> already then andThen (kvop (reason K ATT_WHY)) (\<lambda>w.
          persist_report K rid (case w of Some x \<Rightarrow> x | None \<Rightarrow> label_str ''bootloader''))
       else ok ()) (\<lambda>_. ?R) ?E m"
    by (intro spec_rules spec_mono [OF spec_persist_report] early) (auto simp: same_on_def)
  show ?thesis
    unfolding report_rollback_def
    by (intro spec_frame_andThen [OF pers] spec_frame_andThen [OF refuse] clear)
qed

lemma spec_complete_attempt:
  "store_spec (\<lambda>_. True) flash (complete_attempt K running)
     (\<lambda>_ m'. same_on (- insert REJ_VER (set ATTEMPT_RECORD)) m m' \<and> (\<forall>key \<in> set ATTEMPT_RECORD. m' key = None) \<and>
        (m' REJ_VER = None \<or> (\<exists>s. m' REJ_VER = Some (Str s) \<and> m REJ_VER = m' REJ_VER \<and> version_parse_ok s = Some running)))
     (\<lambda>e m'. same_on (- insert REJ_VER (set ATTEMPT_RECORD)) m m' \<and>
        (same_on (set ATTEMPT_RECORD) m m' \<or> m' ATT_VER = None) \<and> (m' REJ_VER = m REJ_VER \<or> m' REJ_VER = None))
     m"
  (is "store_spec _ _ _ ?Q ?E m")
proof -
  let ?lifted = "\<lambda>m1. m1 REJ_VER = None \<or> (\<exists>s. m1 REJ_VER = Some (Str s) \<and> m REJ_VER = m1 REJ_VER \<and> version_parse_ok s = Some running)"
  let ?S = "\<lambda>m1. same_on (- {REJ_VER}) m m1 \<and> ?lifted m1"
  have rej: "same_on (- set ATTEMPT_RECORD) m1 m' \<Longrightarrow> m' REJ_VER = m1 REJ_VER" for m1 m'
    using record_sets by (auto simp: same_on_def)
  have frame: "?S m1 \<Longrightarrow> same_on (- set ATTEMPT_RECORD) m1 m' \<Longrightarrow> same_on (- insert REJ_VER (set ATTEMPT_RECORD)) m m'" for m1 m'
    by (auto simp: same_on_def)
  have early: "same_on (- {REJ_VER}) m m' \<Longrightarrow> m' REJ_VER = m REJ_VER \<or> m' REJ_VER = None \<Longrightarrow> ?E e m'" for e m'
    using record_sets by (auto simp: same_on_def)
  have refusal: "store_spec (\<lambda>_. True) flash (onResult (kvop (get_str K REJ_VER)) (\<lambda>r. case r of
         Inr (Some ver) \<Rightarrow> if version_parse_ok ver = Some running then ok () else kvop (remove_key K REJ_VER)
       | Inl (Kv e) \<Rightarrow> if is_corrupt_code e then kvop (remove_key K REJ_VER) else fail (Kv e)
       | Inl e \<Rightarrow> fail e
       | Inr None \<Rightarrow> ok ())) (\<lambda>_. ?S) ?E m"
    by (intro spec_rules early) auto
  have clear: "store_spec (\<lambda>_. True) flash (clear_attempt K) ?Q ?E m1" if S: "?S m1" for m1
  proof (rule wp_clear_attempt)
    fix m' e
    assume k: "same_on (- set ATTEMPT_RECORD) m1 m'"
    show "?Q () m'" if "\<forall>key \<in> set ATTEMPT_RECORD. m' key = None"
      using that frame [OF S k] rej [OF k] S by simp
    show "?E (Kv e) m'"
      if "m' = m1 \<or> m' ATT_VER = None \<and> (\<forall>key \<in> set ATTEMPT_RECORD. m' key = None \<or> m' key = m1 key)"
      using that frame [OF S k] rej [OF k] S early [of m1] by (elim disjE) auto
  qed
  show ?thesis
    unfolding complete_attempt_def by (intro spec_frame_andThen [OF refusal] clear)
qed

lemma spec_mark_report_delivered:
  "store_spec (\<lambda>_. True) flash (mark_report_delivered K rid)
     (\<lambda>r m'. case r of
          Marked \<Rightarrow> report_durable rid m \<and> m' = m(RB \<mapsto> U8 0)
        | NotPending \<Rightarrow> m' = m \<and> (m RB \<noteq> Some (U8 1) \<or> m RB_ID = None)
        | OtherReport other \<Rightarrow> m' = m \<and> report_durable other m \<and> other \<noteq> rid)
     (\<lambda>e m'. m' = m \<or> report_durable rid m \<and> m' = m(RB \<mapsto> U8 0))
     m"
  unfolding mark_report_delivered_def
  by (intro spec_rules) (auto simp: report_durable_def)

lemma wp_remove_request [spec_rules]:
  assumes "\<And>m'. same_on (- REQUEST_RECORD) m m' \<Longrightarrow> \<forall>key \<in> REQUEST_RECORD. m' key = None \<Longrightarrow> Q () m'"
    and "\<And>e m'. same_on (- REQUEST_RECORD) m m' \<Longrightarrow> m' = m \<or> m' RQ_FROM = None \<Longrightarrow> E (Kv e) m'"
  shows "store_spec (\<lambda>_. True) flash (remove_request K) Q E m"
  unfolding remove_request_def by (intro spec_rules assms) (auto simp: REQUEST_RECORD_def)

lemma spec_note_rollback:
  "store_spec (\<lambda>_. True) flash (note_rollback K why slot)
     (\<lambda>r m'. case r of
          KeptFirst \<Rightarrow> m' = m
        | Written (RollbackNoted (AttemptReason s)) \<Rightarrow>
            s = slot \<and> slot_on_flash m = Some slot \<and> m' = m(ATT_WHY \<mapsto> Str (reason_as_str why))
        | Written (RollbackNoted (Request s i)) \<Rightarrow>
            s = slot \<and> slot_on_flash m \<noteq> Some slot \<and> m RQ_FROM = None \<and> i = next_id m \<and>
            request_on_flash m' \<lparr>rq_id = i, rq_why = reason_as_str why, rq_from = slot\<rparr> \<and>
            m' RQ_WHY = Some (Str (reason_as_str why)) \<and>
            same_on (- (REQUEST_RECORD \<union> {ATT_EPOCH, ATT_CTR})) m m')
     (\<lambda>e m'. same_on (- (REQUEST_RECORD \<union> {ATT_EPOCH, ATT_CTR, ATT_WHY})) m m' \<and>
        (m RQ_FROM = None \<longrightarrow> m' RQ_FROM = None \<or>
           request_on_flash m' \<lparr>rq_id = next_id m, rq_why = reason_as_str why, rq_from = slot\<rparr> \<and>
           m' RQ_WHY = Some (Str (reason_as_str why))))
     m"
proof -
  have scrubbed: "next_id (m(RQ_WHY := v)) = next_id m" for v
    by (simp add: next_id_def ID_KEYS_def stored_id_def)
  show ?thesis
    unfolding note_rollback_def scrub_def
    by (intro spec_rules)
       (auto simp: request_on_flash_def REQUEST_RECORD_def same_on_def scrubbed slot_from_label_label)
qed

lemma spec_withdraw_rollback:
  "store_spec (\<lambda>_. True) flash (withdraw_rollback K (RollbackNoted target))
     (\<lambda>_ m'. m' = m \<or> (case target of
          AttemptReason s \<Rightarrow> slot_on_flash m = Some s \<and> m' = m(ATT_WHY := None)
        | Request s i \<Rightarrow> (\<exists>why. request_on_flash m \<lparr>rq_id = i, rq_why = why, rq_from = s\<rparr>) \<and>
            same_on (- REQUEST_RECORD) m m' \<and> (\<forall>key \<in> REQUEST_RECORD. m' key = None)))
     (\<lambda>e m'. m' = m \<or> (case target of
          AttemptReason s \<Rightarrow> slot_on_flash m = Some s \<and> m' = m(ATT_WHY := None)
        | Request s i \<Rightarrow> (\<exists>why. request_on_flash m \<lparr>rq_id = i, rq_why = why, rq_from = s\<rparr>) \<and>
            same_on (- REQUEST_RECORD) m m' \<and> m' RQ_FROM = None))
     m"
  unfolding withdraw_rollback_def
  by (cases target) (auto intro!: spec_rules simp: request_on_flash_def)

lemma spec_refuse_version:
  "store_spec (\<lambda>_. True) flash (refuse_version K ver)
     (\<lambda>r m'. case r of
          AlreadyRefused \<Rightarrow> m' = m \<and> (\<exists>s. m REJ_VER = Some (Str s) \<and> version_parse_ok s = Some ver)
        | RefusalWritten previous \<Rightarrow> m' = m(REJ_VER \<mapsto> Str (version_str ver)) \<and>
            (case m REJ_VER of None \<Rightarrow> previous = None | Some v \<Rightarrow> (\<exists>s. v = Str s \<and> previous = version_parse_ok s)))
     (\<lambda>e m'. m' = m \<or> m' = m(REJ_VER := None) \<or> m' = m(REJ_VER \<mapsto> Str (version_str ver)))
     m"
  unfolding refuse_version_def by (intro spec_rules) (auto split: option.splits)

lemma spec_restore_refusal:
  "store_spec (\<lambda>_. True) flash (restore_refusal K previous)
     (\<lambda>_ m'. m' = m(REJ_VER := map_option (Str \<circ> version_str) previous))
     (\<lambda>e m'. m' = m \<or> m' = m(REJ_VER := None) \<or> m' = m(REJ_VER := map_option (Str \<circ> version_str) previous))
     m"
  unfolding restore_refusal_def by (intro spec_rules) auto

lemma spec_settle_remove:
  assumes m1: "same_on (- REPORT_RECORD) m m1" "m RB = Some (U8 1) \<longrightarrow> m1 RB = Some (U8 1)" "request_on_flash m req"
    and r: "if r = DroppedNotRolledBack then m1 = m \<and> rq_from req = running
            else r \<noteq> NoRequest \<and> rq_from req \<noteq> running \<and> accounted req m1"
    and rep: "r = Reported \<Longrightarrow> report_durable (rq_id req) m1"
  shows "store_spec (\<lambda>_. True) flash (andThen (remove_request K) (\<lambda>_. ok r)) (settled running m) (settle_stopped running m) m1"
proof (intro spec_andThen wp_remove_request spec_ok)
  fix e m'
  assume k: "same_on (- REQUEST_RECORD) m1 m'"
  then have rep: "same_on REPORT_RECORD m1 m'" using record_sets by (auto elim: same_on_mono)
  then have rb: "m' RB = m1 RB" by (simp add: same_on_def REPORT_RECORD_def)
  have frame: "same_on (- (REQUEST_RECORD \<union> REPORT_RECORD)) m m'"
    using k m1(1) by (auto simp: same_on_def)
  show "settled running m r m'" if "\<forall>key \<in> REQUEST_RECORD. m' key = None"
    using that frame rb rep m1 r accounted_same [OF rep, of req] report_durable_same [OF rep] assms(5)
    by (cases r) (auto simp: settled_def REQUEST_RECORD_def)
  have "rq_from req = running \<or> accounted req m'"
    using r accounted_same [OF rep, of req] by (simp split: if_splits)
  then show "settle_stopped running m (Kv e) m'" if "m' = m1 \<or> m' RQ_FROM = None"
    using that frame rb m1 settle_stoppedI [OF m1(1,2)]
    by (elim disjE) (simp_all add: settle_stopped_def, blast+)
qed

lemma spec_settle_persist:
  assumes "request_on_flash m req" "rq_from req \<noteq> running"
  shows "store_spec (\<lambda>_. True) flash
      (andThen (persist_report K (rq_id req) (rq_why req)) (\<lambda>_. andThen (remove_request K) (\<lambda>_. ok Reported)))
      (settled running m) (settle_stopped running m) m"
  by (rule spec_frame_andThen [OF spec_mono [OF spec_persist_report, where E' = "settle_stopped running m"]],
      assumption, rule settle_stoppedI, blast, blast, rule spec_settle_remove [OF _ _ assms(1)])
     (use assms(2) in \<open>simp_all add: report_durable_def accounted_def\<close>)

lemma spec_settle_left:
  assumes req: "request_on_flash m req" "rq_from req \<noteq> running"
    and m: "m RB = map_option U8 v" "m RB_ID = map_option U32 i"
  shows "store_spec (\<lambda>_. True) flash
      (if i = Some (rq_id req) then andThen (remove_request K) (\<lambda>_. ok AlreadyReported)
       else if v = Some 1 \<and> i = None then
         andThen (kvop (set_u32 K RB_ID (rq_id req))) (\<lambda>_. andThen (remove_request K) (\<lambda>_. ok AlreadyReported))
       else if v = Some 1 then andThen (remove_request K) (\<lambda>_. ok MergedIntoPending)
       else andThen (persist_report K (rq_id req) (rq_why req)) (\<lambda>_. andThen (remove_request K) (\<lambda>_. ok Reported)))
      (settled running m) (settle_stopped running m) m"
proof -
  have adopt: "same_on (- REPORT_RECORD) m (m(RB_ID \<mapsto> x))" for x by (simp add: REPORT_RECORD_def)
  have "store_spec (\<lambda>_. True) flash
     (andThen (kvop (set_u32 K RB_ID (rq_id req))) (\<lambda>_. andThen (remove_request K) (\<lambda>_. ok AlreadyReported)))
     (settled running m) (settle_stopped running m) m" if "v = Some 1"
    by (rule spec_andThen, rule wp_set_u32, rule spec_settle_remove [OF adopt _ req(1)])
       (use that m req(2) in \<open>auto simp: accounted_def intro: settle_stoppedI adopt\<close>)
  then show ?thesis
    using m req(2) spec_settle_persist [OF req]
    by (auto intro!: spec_settle_remove [OF _ _ req(1)] simp: accounted_def)
qed

lemma spec_settle_request:
  "store_spec (\<lambda>_. True) flash (settle_request K running) (settled running m) (settle_stopped running m) m"
  unfolding settle_request_def
proof (rule spec_andThen, rule wp_request, goal_cases)
  case 1
  then show ?case by (auto intro: spec_ok simp: settled_def)
next
  case (2 req)
  show ?case
    unfolding option.case
    by (intro spec_if spec_settle_remove [OF _ _ 2] spec_andThen wp_flag wp_get_u32 spec_settle_left [OF 2])
       (auto intro: settle_stoppedI)
next
  case 3
  show ?case by (rule settle_stoppedI) auto
qed

end

end
