(* ===== verification/Ota_Boot.thy ===== *)
theory Ota_Boot
  imports Ota_Store_Laws
begin

text \<open>
  Boot orchestration (\<^verbatim>\<open>juggler/src/ota/persist/boot.rs\<close>): the early-boot slot note and the
  two-phase boot reconciliation over the record store.

  The lemmas follow one boot through its read phase and the sequence of its action, at every point
  where a backend error or a power loss may stop it: reading fails closed, a rollback is reported
  before its attempt disappears, and the version that was left stays refused.
\<close>

section \<open>Model\<close>

datatype hardware_read_error = Busy | Read int

record busy_tally =
  bt_any :: bool
  bt_all_busy :: bool
  bt_last_code :: int

definition tally_new :: busy_tally where
  "tally_new = \<lparr>bt_any = False, bt_all_busy = True, bt_last_code = 0\<rparr>"

definition tally_record :: "int \<Rightarrow> bool \<Rightarrow> busy_tally \<Rightarrow> busy_tally" where
  "tally_record c busy t = t\<lparr>bt_any := True, bt_all_busy := bt_all_busy t \<and> busy, bt_last_code := c\<rparr>"

definition tally_into_error :: "busy_tally \<Rightarrow> hardware_read_error" where
  "tally_into_error t = (if bt_any t \<and> \<not> bt_all_busy t then Read (bt_last_code t) else hardware_read_error.Busy)"

datatype note_boot = NbNoAttempt | AlreadyActivated | OtherSlot | Activated

datatype note_boot_error = NbStore store_error | NbHardware hardware_read_error

datatype boot_fault = HardwareFault hardware_read_error | StoreFault store_error

datatype boot_disposition =
    Settled settle_outcome
  | AwaitingHealthCheck
  | RollBackNow
  | ReportedRollback
  | Deferred
  | Incomplete store_error
  | FailedClosed boot_fault

record boot_warnings =
  bw_activation_not_recorded :: "store_error option"
  bw_reason_not_recorded :: "store_error option"

definition no_warnings :: boot_warnings where
  "no_warnings = \<lparr>bw_activation_not_recorded = None, bw_reason_not_recorded = None\<rparr>"

record boot_outcome =
  bo_disposition :: boot_disposition
  bo_action :: "reconcile_action option"
  bo_slot_released :: bool
  bo_admission_open_at_boot :: bool
  bo_refuse_mark_valid :: bool
  bo_roll_back_now :: bool
  bo_report_pending :: bool
  bo_warnings :: boot_warnings

definition note_boot_slot ::
  "'k ota_kv \<Rightarrow> hardware_read_error + slot_id \<Rightarrow> ('k ota_store, note_boot_error, note_boot) prog" where
  "note_boot_slot K read_running =
     onResult (read_attempt K) (\<lambda>r. case r of
       Inl e \<Rightarrow> fail (NbStore e)
     | Inr None \<Rightarrow> ok NbNoAttempt
     | Inr (Some attempt) \<Rightarrow>
         if ar_activated (sa_record attempt) then ok AlreadyActivated
         else (case read_running of
             Inl e \<Rightarrow> fail (NbHardware e)
           | Inr running \<Rightarrow>
               if running \<noteq> ar_slot (sa_record attempt) then ok OtherSlot
               else onResult (mark_activated K) (\<lambda>w. case w of
                      Inl e \<Rightarrow> fail (NbStore e)
                    | Inr _ \<Rightarrow> ok Activated)))"

definition settle :: "'k ota_kv \<Rightarrow> slot_id \<Rightarrow> ('k ota_store, store_error, boot_disposition) prog" where
  "settle K running_slot =
     andThen (settle_request K running_slot) (\<lambda>o'. ok (case o' of
       Reported \<Rightarrow> ReportedRollback
     | outcome \<Rightarrow> Settled outcome))"

definition note_activation :: "'k ota_kv \<Rightarrow> boot_warnings \<Rightarrow> ('k ota_store, store_error, boot_warnings) prog" where
  "note_activation K w =
     onResult (mark_activated K) (\<lambda>r. case r of
       Inl e \<Rightarrow> ok (w\<lparr>bw_activation_not_recorded := Some e\<rparr>)
     | Inr _ \<Rightarrow> ok w)"

text \<open>
  The warnings are threaded as a value.  Only the two branches that cannot fail change them, so a
  failing sequence leaves them as they were passed in.
\<close>

definition sequence ::
  "'k ota_kv \<Rightarrow> hardware_facts \<Rightarrow> reconcile_action \<Rightarrow> version option \<Rightarrow> boot_warnings \<Rightarrow>
   ('k ota_store, store_error, boot_disposition \<times> boot_warnings) prog" where
  "sequence K hw action running_version w =
     (let settled = andThen (settle K (hw_running_slot hw)) (\<lambda>d. ok (d, w)) in
      case action of
        NoAttempt \<Rightarrow> settled
      | Defer \<Rightarrow> ok (Deferred, w)
      | ClearAttempt \<Rightarrow> andThen (clear_attempt K) (\<lambda>_. settled)
      | CompleteAttempt \<Rightarrow>
          andThen (case running_version of
              Some ver \<Rightarrow> complete_attempt K ver
            | None \<Rightarrow> clear_attempt K) (\<lambda>_. settled)
      | AwaitHealthCheck mark \<Rightarrow>
          andThen (if mark then note_activation K w else ok w) (\<lambda>w1. ok (AwaitingHealthCheck, w1))
      | RefuseImage _ mark \<Rightarrow>
          andThen (if mark then note_activation K w else ok w) (\<lambda>w1.
          onResult (note_rollback K VersionMismatch (hw_running_slot hw)) (\<lambda>r. case r of
            Inl e \<Rightarrow> ok (RollBackNow, w1\<lparr>bw_reason_not_recorded := Some e\<rparr>)
          | Inr _ \<Rightarrow> ok (RollBackNow, w1)))
      | ReportRollback attempt_id left already \<Rightarrow>
          andThen (report_rollback K attempt_id left already) (\<lambda>_. ok (ReportedRollback, w)))"

definition outcome ::
  "'k ota_kv \<Rightarrow> hardware_facts option \<Rightarrow> boot_disposition \<Rightarrow> reconcile_action option \<Rightarrow> boot_warnings \<Rightarrow>
   ('k ota_store, store_error, boot_outcome) prog" where
  "outcome K hw disposition action w =
     (let failed_closed = (case disposition of FailedClosed _ \<Rightarrow> True | _ \<Rightarrow> False);
          roll_back_now = (disposition = RollBackNow);
          unverified = (case hw of Some h \<Rightarrow> hw_running_state h = slot_state.PendingVerify | None \<Rightarrow> True);
          slot_released = (\<not> unverified)
      in andThen (if slot_released \<and> \<not> failed_closed
                  then andThen (admission K) (\<lambda>a. ok (a = Open))
                  else ok False) (\<lambda>admission_open.
         onResult (report_undelivered K) (\<lambda>u.
           ok \<lparr>bo_disposition = disposition, bo_action = action, bo_slot_released = slot_released,
                bo_admission_open_at_boot = admission_open,
                bo_refuse_mark_valid = (failed_closed \<or> roll_back_now),
                bo_roll_back_now = roll_back_now,
                bo_report_pending = (case u of Inr b \<Rightarrow> b | Inl _ \<Rightarrow> True),
                bo_warnings = w\<rparr>)))"

definition boot_facts_of :: "hardware_facts \<Rightarrow> version option \<Rightarrow> bool \<Rightarrow> boot_facts" where
  "boot_facts_of hw running_version persisted =
     \<lparr>bf_running_slot = hw_running_slot hw, bf_running_state = hw_running_state hw,
      bf_running_version = running_version, bf_update_slot = update_slot_facts (hw_update_slot hw),
      bf_report_persisted = persisted\<rparr>"

definition reconcile_boot ::
  "'k ota_kv \<Rightarrow> hardware_read_error + hardware_facts \<Rightarrow> version option \<Rightarrow>
   ('k ota_store, store_error, boot_outcome) prog" where
  "reconcile_boot K hw running_version = (case hw of
       Inl e \<Rightarrow> outcome K None (FailedClosed (HardwareFault e)) None no_warnings
     | Inr h \<Rightarrow>
         onResult (read_phase K) (\<lambda>r. case r of
           Inl e \<Rightarrow> outcome K (Some h) (FailedClosed (StoreFault e)) None no_warnings
         | Inr records \<Rightarrow>
             (let action = reconcile (map_option sa_record (br_attempt records))
                             (boot_facts_of h running_version (br_report_persisted records))
              in onResult (sequence K h action running_version no_warnings) (\<lambda>s. case s of
                   Inl e \<Rightarrow> outcome K (Some h) (Incomplete e) (Some action) no_warnings
                 | Inr (d, w) \<Rightarrow> outcome K (Some h) d (Some action) w))))"

section \<open>Every end of a boot\<close>

definition attempt_on_flash :: "flash_map \<Rightarrow> attempt_record \<Rightarrow> bool" where
  "attempt_on_flash m a \<longleftrightarrow>
     (\<exists>ver. m ATT_VER = Some (Str ver) \<and> ar_version a = version_parse_ok ver) \<and>
     slot_on_flash m = Some (ar_slot a) \<and> m ATT_ID = Some (U32 (ar_attempt_id a)) \<and>
     ar_boot_selected a = (m ATT_BOOT = Some (U8 1)) \<and> ar_activated a = (m ATT_ACT = Some (U8 1)) \<and>
     ar_slot_was_invalid a = (m ATT_INV = Some (U8 1))"

definition outcome_ok ::
  "hardware_facts option \<Rightarrow> boot_disposition \<Rightarrow> reconcile_action option \<Rightarrow> boot_warnings \<Rightarrow> flash_map \<Rightarrow> boot_outcome \<Rightarrow> bool"
where
  "outcome_ok hw d action w m out \<longleftrightarrow>
     bo_disposition out = d \<and> bo_action out = action \<and> bo_warnings out = w \<and>
     bo_slot_released out = (\<exists>h. hw = Some h \<and> hw_running_state h \<noteq> slot_state.PendingVerify) \<and>
     (bo_admission_open_at_boot out \<longrightarrow> admission_open m \<and> bo_slot_released out \<and> (\<forall>f. d \<noteq> FailedClosed f)) \<and>
     bo_refuse_mark_valid out = ((\<exists>f. d = FailedClosed f) \<or> d = RollBackNow) \<and>
     bo_roll_back_now out = (d = RollBackNow) \<and> (m RB = Some (U8 1) \<longrightarrow> bo_report_pending out)"

text \<open>An interrupted sequence leaves the attempt as it was, or not visible at all.\<close>

definition attempt_whole :: "flash_map \<Rightarrow> flash_map \<Rightarrow> bool" where
  "attempt_whole m m' \<longleftrightarrow> same_on (set ATTEMPT_RECORD) m m' \<or> \<not> attempt_visible m'"

definition sequence_ok :: "flash_map \<Rightarrow> boot_disposition \<Rightarrow> flash_map \<Rightarrow> bool" where
  "sequence_ok m d m' \<longleftrightarrow> (case d of
       Settled _ \<Rightarrow> \<not> attempt_visible m' \<and> m' RQ_FROM = None
     | AwaitingHealthCheck \<Rightarrow> m' = m \<or> m' = m(ATT_ACT \<mapsto> U8 1)
     | RollBackNow \<Rightarrow> same_on (REPORT_RECORD \<union> {REJ_VER, ATT_VER, ATT_SLOT, ATT_ID, ATT_BOOT, ATT_INV}) m m'
     | ReportedRollback \<Rightarrow> \<not> attempt_visible m' \<and> m' RB = Some (U8 1)
     | Deferred \<Rightarrow> m' = m
     | Incomplete _ \<Rightarrow> attempt_whole m m'
     | FailedClosed _ \<Rightarrow> False)"

definition boot_ok :: "hardware_read_error + hardware_facts \<Rightarrow> flash_map \<Rightarrow> boot_outcome \<Rightarrow> flash_map \<Rightarrow> bool" where
  "boot_ok hw m out m' \<longleftrightarrow>
     outcome_ok (case hw of Inr h \<Rightarrow> Some h | Inl _ \<Rightarrow> None) (bo_disposition out) (bo_action out) (bo_warnings out) m' out \<and>
     (case bo_disposition out of FailedClosed _ \<Rightarrow> m' = m | d \<Rightarrow> sequence_ok m d m') \<and>
     ((\<exists>f. bo_disposition out = FailedClosed f) \<longleftrightarrow> bo_action out = None)"

definition rollback_recorded :: "attempt_record \<Rightarrow> flash_map \<Rightarrow> bool" where
  "rollback_recorded a m \<longleftrightarrow>
     report_durable (ar_attempt_id a) m \<and> refusal_durable (ar_version a) m \<and> \<not> attempt_visible m"

lemma attempt_on_flash_visible: "attempt_on_flash m a \<Longrightarrow> attempt_visible m"
  by (auto simp: attempt_on_flash_def slot_on_flash_def attempt_visible_def split: option.splits kv_val.splits)

lemma attempt_on_flash_unique: "attempt_on_flash m a \<Longrightarrow> attempt_on_flash m b \<Longrightarrow> b = a"
  by (auto simp: attempt_on_flash_def intro: attempt_record.equality)

text \<open>What the read phase tells of the content it read.\<close>

definition boot_read_ok :: "flash_map \<Rightarrow> boot_records \<Rightarrow> bool" where
  "boot_read_ok m r \<longleftrightarrow> (case br_attempt r of
       None \<Rightarrow> \<not> attempt_visible m \<and> \<not> br_report_persisted r
     | Some sa \<Rightarrow> attempt_on_flash m (sa_record sa) \<and>
         br_report_persisted r = report_durable (ar_attempt_id (sa_record sa)) m)"

text \<open>Each record that is there has the keys, types and labels of its kind.\<close>

definition records_readable :: "flash_map \<Rightarrow> bool" where
  "records_readable m \<longleftrightarrow>
     (attempt_visible m \<longrightarrow> (\<exists>a. attempt_on_flash m a)) \<and>
     (m RQ_FROM \<noteq> None \<longrightarrow> (\<exists>req. request_on_flash m req)) \<and>
     (m RB \<noteq> None \<longrightarrow> (\<exists>x. m RB = Some (U8 x)) \<and> (\<exists>i. m RB_ID = map_option U32 i))"

lemma boot_rollback_action:
  assumes r: "boot_read_ok m r" and a: "attempt_on_flash m a" "ar_slot a \<noteq> hw_running_slot h" "ar_activated a \<or> ar_boot_selected a"
  shows "reconcile (map_option sa_record (br_attempt r)) (boot_facts_of h rv (br_report_persisted r)) =
      ReportRollback (ar_attempt_id a) (ar_version a) (br_report_persisted r)"
    and "br_report_persisted r \<Longrightarrow> report_durable (ar_attempt_id a) m"
proof -
  obtain sa where "br_attempt r = Some sa" "sa_record sa = a"
    "br_report_persisted r = report_durable (ar_attempt_id a) m"
    using r attempt_on_flash_visible [OF a(1)] attempt_on_flash_unique [OF a(1)]
    by (auto simp: boot_read_ok_def split: option.splits)
  then show "reconcile (map_option sa_record (br_attempt r)) (boot_facts_of h rv (br_report_persisted r)) =
      ReportRollback (ar_attempt_id a) (ar_version a) (br_report_persisted r)"
    and "br_report_persisted r \<Longrightarrow> report_durable (ar_attempt_id a) m"
    using a(2,3) by (auto simp: reconcile_def boot_facts_of_def)
qed

lemma reconcile_facts:
  "reconcile att facts = NoAttempt \<Longrightarrow> att = None"
  "reconcile att facts = ReportRollback i l already \<Longrightarrow>
     (\<exists>a. att = Some a \<and> i = ar_attempt_id a \<and> l = ar_version a) \<and> already = bf_report_persisted facts"
  by (auto simp: reconcile_def Let_def split: option.splits if_splits slot_state.splits prod.splits)

lemma attempt_on_flash_same:
  "same_on (set ATTEMPT_RECORD) m m' \<Longrightarrow> attempt_on_flash m' a = attempt_on_flash m a"
  by (simp add: same_on_def attempt_on_flash_def ATTEMPT_RECORD_def slot_on_flash_def)

context ota_kv_contract
begin

lemma wp_read_attempt [spec_rules]:
  assumes "\<not> attempt_visible m \<Longrightarrow> Q None m"
    and "\<And>sa. attempt_on_flash m (sa_record sa) \<Longrightarrow> attempt_visible m \<Longrightarrow> Q (Some sa) m" and "\<And>e. E e m"
  shows "store_spec (\<lambda>_. True) flash (read_attempt K) Q E m"
proof -
  have vis: "attempt_visible m" if "slot_on_flash m = Some s" for s
    using that by (auto simp: slot_on_flash_def attempt_visible_def split: option.splits kv_val.splits)
  show ?thesis
    unfolding read_attempt_def attempt_slot_def
    by (intro spec_rules)
       (use assms vis in \<open>auto simp: attempt_on_flash_def attempt_visible_def slot_on_flash_def split: if_splits\<close>)
qed

lemma wp_report_persisted_for [spec_rules]:
  assumes "Q (report_durable rid m) m" and "\<And>e. E e m"
  shows "store_spec (\<lambda>_. True) flash (report_persisted_for K rid) Q E m"
proof -
  have "report_durable rid m = (i = Some rid \<and> rb = 1)" if "m RB = Some (U8 rb)" "m RB_ID = map_option U32 i" for rb i
    using that by (auto simp: report_durable_def)
  moreover have "report_durable rid m = False" if "m RB = None"
    using that by (simp add: report_durable_def)
  ultimately show ?thesis
    unfolding report_persisted_for_def by (intro spec_rules) (use assms in auto)
qed

lemma wp_read_phase [spec_rules]:
  assumes "\<And>r. boot_read_ok m r \<Longrightarrow> Q r m" and "\<And>e. E e m"
  shows "store_spec (\<lambda>_. True) flash (read_phase K) Q E m"
  unfolding read_phase_def report_def refused_def
  by (intro spec_rules) (auto intro!: assms simp: boot_read_ok_def)

lemma spec_read_phase_readable:
  "store_spec (\<lambda>_. True) flash (read_phase K) (\<lambda>_ m'. records_readable m') (\<lambda>_ _. True) m"
  unfolding read_phase_def report_def refused_def
  by (intro spec_rules) (auto simp: records_readable_def)

lemma wp_outcome:
  assumes "\<And>out. outcome_ok hw d action w m out \<Longrightarrow> Q out m"
  shows "store_spec (\<lambda>_. True) flash (outcome K hw d action w) Q E m"
  unfolding outcome_def Let_def
  by (intro spec_rules assms)
     (auto simp: outcome_ok_def split: option.splits boot_disposition.splits if_splits)

lemma spec_settle:
  "store_spec (\<lambda>_. True) flash (settle K running)
     (\<lambda>d m'. same_on (- (REQUEST_RECORD \<union> REPORT_RECORD)) m m' \<and> m' RQ_FROM = None \<and>
        (d = ReportedRollback \<and> m' RB = Some (U8 1) \<or> (\<exists>r. d = Settled r)))
     (\<lambda>e m'. same_on (- (REQUEST_RECORD \<union> REPORT_RECORD)) m m') m"
  unfolding settle_def
  by (rule spec_frame_andThen [OF spec_mono [OF spec_settle_request]], assumption)
     (auto simp: settled_def settle_stopped_def report_durable_def split: settle_outcome.splits intro!: spec_ok)

lemma spec_settle_after:
  assumes "\<not> attempt_visible m"
  shows "store_spec (\<lambda>_. True) flash (andThen (settle K running) (\<lambda>d. ok (d, w)))
     (\<lambda>x m'. \<not> attempt_visible m' \<and> m' RQ_FROM = None \<and>
        (fst x = ReportedRollback \<and> m' RB = Some (U8 1) \<or> (\<exists>r. fst x = Settled r)))
     (\<lambda>_ m'. \<not> attempt_visible m') m"
  by (rule spec_frame_andThen [OF spec_mono [OF spec_settle]], assumption)
     (use assms in \<open>auto simp: same_on_def attempt_visible_def REQUEST_RECORD_def REPORT_RECORD_def intro!: spec_ok\<close>)

lemma spec_mark_activated [spec_rules]:
  assumes "Q () (m(ATT_ACT \<mapsto> U8 1))" and "\<And>e. E (Kv e) m" and "\<And>e. E (Kv e) (m(ATT_ACT \<mapsto> U8 1))"
  shows "store_spec (\<lambda>_. True) flash (mark_activated K) Q E m"
  unfolding mark_activated_def by (intro spec_rules assms)

lemma wp_note_activation:
  assumes "\<And>w'. Q w' (m(ATT_ACT \<mapsto> U8 1))" and "\<And>w'. Q w' m"
  shows "store_spec (\<lambda>_. True) flash (note_activation K w) Q E m"
  unfolding note_activation_def by (intro spec_rules assms)

text \<open>What a completed sequence leaves, by the disposition it returns.\<close>

lemma spec_sequence:
  assumes "action = NoAttempt \<Longrightarrow> \<not> attempt_visible m"
    and "\<And>i l. action = ReportRollback i l True \<Longrightarrow> report_durable i m"
  shows "store_spec (\<lambda>_. True) flash (sequence K hw action rv w) (\<lambda>x. sequence_ok m (fst x)) (\<lambda>_. attempt_whole m) m"
proof -
  have hidden: "\<not> attempt_visible m'" if "\<forall>key \<in> set ATTEMPT_RECORD. m' key = None" for m'
    using that record_sets by (auto simp: attempt_visible_def)
  have settle: "store_spec (\<lambda>_. True) flash (andThen (settle K (hw_running_slot hw)) (\<lambda>d. ok (d, w)))
      (\<lambda>x. sequence_ok m (fst x)) (\<lambda>_. attempt_whole m) m1" if "\<not> attempt_visible m1" for m1
    by (rule spec_mono [OF spec_settle_after [OF that]]) (auto simp: sequence_ok_def attempt_whole_def split: prod.splits)
  have clear: "store_spec (\<lambda>_. True) flash (clear_attempt K)
      (\<lambda>_. store_spec (\<lambda>_. True) flash (andThen (settle K (hw_running_slot hw)) (\<lambda>d. ok (d, w)))
        (\<lambda>x. sequence_ok m (fst x)) (\<lambda>_. attempt_whole m)) (\<lambda>_. attempt_whole m) m"
    by (rule wp_clear_attempt) (simp add: settle hidden, auto simp: attempt_whole_def attempt_visible_def same_on_def)
  show ?thesis
  proof (cases action)
    case NoAttempt
    then show ?thesis by (simp add: sequence_def settle assms(1))
  next
    case (AwaitHealthCheck mark)
    then show ?thesis
      by (simp add: sequence_def) (intro conjI impI spec_rules wp_note_activation; simp add: sequence_ok_def)
  next
    case CompleteAttempt
    have "store_spec (\<lambda>_. True) flash (complete_attempt K v)
      (\<lambda>_. store_spec (\<lambda>_. True) flash (andThen (settle K (hw_running_slot hw)) (\<lambda>d. ok (d, w)))
        (\<lambda>x. sequence_ok m (fst x)) (\<lambda>_. attempt_whole m)) (\<lambda>_. attempt_whole m) m" for v
      by (rule spec_mono [OF spec_complete_attempt]) (simp add: settle hidden, auto simp: attempt_whole_def attempt_visible_def)
    with CompleteAttempt clear show ?thesis
      by (cases rv) (auto simp: sequence_def intro!: spec_andThen)
  next
    case ClearAttempt
    then show ?thesis using clear by (auto simp: sequence_def intro!: spec_andThen)
  next
    case (RefuseImage p mark)
    have refuse: "store_spec (\<lambda>_. True) flash (note_rollback K VersionMismatch (hw_running_slot hw))
       (\<lambda>_. sequence_ok m RollBackNow) (\<lambda>_. sequence_ok m RollBackNow) m1" if "m1 = m \<or> m1 = m(ATT_ACT \<mapsto> U8 1)" for m1
      by (rule spec_mono [OF spec_note_rollback])
         (use that in \<open>auto simp: sequence_ok_def same_on_def REQUEST_RECORD_def REPORT_RECORD_def
            split: reason_note.splits rollback_noted.splits noted_target.splits\<close>)
    have refuse': "store_spec (\<lambda>_. True) flash
        (onResult (note_rollback K VersionMismatch (hw_running_slot hw)) (\<lambda>r. case r of
            Inl e \<Rightarrow> ok (RollBackNow, w1\<lparr>bw_reason_not_recorded := Some e\<rparr>)
          | Inr _ \<Rightarrow> ok (RollBackNow, w1)))
       (\<lambda>x. sequence_ok m (fst x)) (\<lambda>_. attempt_whole m) m1" if "m1 = m \<or> m1 = m(ATT_ACT \<mapsto> U8 1)" for m1 w1
      by (rule spec_onResult, rule spec_mono [OF refuse [OF that]]) (auto intro: spec_ok)
    show ?thesis
      unfolding RefuseImage sequence_def Let_def reconcile_action.case
      by (intro spec_andThen spec_if wp_note_activation spec_ok refuse') auto
  next
    case (ReportRollback i l already)
    show ?thesis
      unfolding ReportRollback sequence_def Let_def reconcile_action.case
      by (rule spec_frame_andThen [OF spec_mono [OF spec_report_rollback]], assumption,
          fastforce simp: attempt_whole_def attempt_visible_def, rule spec_ok)
         (use ReportRollback assms(2) record_sets in
           \<open>cases already, auto simp: sequence_ok_def report_durable_def attempt_visible_def same_on_def REPORT_RECORD_def\<close>)
  next
    case Defer
    then show ?thesis by (simp add: sequence_def sequence_ok_def spec_ok)
  qed
qed

lemma spec_reconcile_boot:
  "store_spec (\<lambda>_. True) flash (reconcile_boot K hw rv) (boot_ok hw m) (\<lambda>_ _. False) m"
proof (cases hw)
  case (Inl e)
  then show ?thesis
    by (simp add: reconcile_boot_def) (intro wp_outcome, auto simp: boot_ok_def outcome_ok_def sequence_ok_def)
next
  case (Inr h)
  have fin: "store_spec (\<lambda>_. True) flash (outcome K (Some h) d (Some action) w) (boot_ok hw m) (\<lambda>_ _. False) m1"
    if "sequence_ok m d m1" for d action w m1
    using that Inr by (intro wp_outcome) (cases d, auto simp: boot_ok_def outcome_ok_def sequence_ok_def)
  have run: "store_spec (\<lambda>_. True) flash
      (onResult (sequence K h action rv no_warnings) (\<lambda>s. case s of
          Inl e \<Rightarrow> outcome K (Some h) (Incomplete e) (Some action) no_warnings
        | Inr (d, w) \<Rightarrow> outcome K (Some h) d (Some action) w)) (boot_ok hw m) (\<lambda>_ _. False) m"
    if act: "action = NoAttempt \<Longrightarrow> \<not> attempt_visible m" "\<And>i l. action = ReportRollback i l True \<Longrightarrow> report_durable i m"
    for action
    by (rule spec_onResult, rule spec_mono [OF spec_sequence [OF act]])
       (auto intro!: fin simp: sequence_ok_def split: prod.splits)
  show ?thesis
    unfolding Inr reconcile_boot_def sum.case
  proof (rule spec_onResult, rule wp_read_phase, goal_cases)
    case (1 r)
    show ?case
      unfolding sum.case Let_def
      by (rule run [unfolded Inr]) (use 1 in \<open>auto dest!: reconcile_facts simp: boot_read_ok_def boot_facts_of_def split: option.splits\<close>)
  next
    case (2 e)
    then show ?case
      using Inr by (simp, intro wp_outcome) (auto simp: boot_ok_def outcome_ok_def sequence_ok_def)
  qed
qed

lemma spec_boot_no_facts:
  "store_spec (\<lambda>_. True) flash (reconcile_boot K (Inl e) rv)
     (\<lambda>out m'. \<exists>f. bo_disposition out = FailedClosed f) (\<lambda>_ _. False) m"
  unfolding reconcile_boot_def sum.case by (rule wp_outcome) (simp add: outcome_ok_def)

lemma spec_boot_unreadable:
  assumes "\<not> records_readable m"
  shows "store_spec (\<lambda>_. True) flash (reconcile_boot K hw rv)
     (\<lambda>out m'. \<exists>f. bo_disposition out = FailedClosed f) (\<lambda>_ _. False) m"
proof (cases hw)
  case (Inl e)
  then show ?thesis by (simp add: spec_boot_no_facts)
next
  case (Inr h)
  have read: "store_spec (\<lambda>_. True) flash (read_phase K) (\<lambda>_ m'. m' = m) (\<lambda>_ m'. m' = m) m" by (intro wp_read_phase) simp_all
  show ?thesis unfolding Inr reconcile_boot_def sum.case
    by (rule spec_onResult, rule spec_mono [OF spec_conj [OF read spec_read_phase_readable]])
       (use assms in \<open>auto intro!: wp_outcome simp: outcome_ok_def\<close>)
qed

lemma boot_read_error:
  assumes "read_phase K st = (Inl e, st1)" and "reconcile_boot K (Inr h) rv st = (Inr out, st')"
  shows "bo_disposition out = FailedClosed (StoreFault e)"
proof -
  have run: "outcome K (Some h) (FailedClosed (StoreFault e)) None no_warnings st1 = (Inr out, st')"
    using assms by (simp add: reconcile_boot_def onResult_def)
  have "store_spec (\<lambda>_. True) flash (outcome K (Some h) (FailedClosed (StoreFault e)) None no_warnings)
      (\<lambda>out m'. bo_disposition out = FailedClosed (StoreFault e)) (\<lambda>_ _. False) (flash (os_kv st1))"
    by (rule wp_outcome) (simp add: outcome_ok_def)
  from spec_progD(2) [OF this _ refl run refl] show ?thesis by simp
qed

lemma spec_sequence_rollback:
  assumes "already \<Longrightarrow> report_durable i m"
  shows "store_spec (\<lambda>_. True) flash (sequence K h (ReportRollback i l already) rv w)
     (\<lambda>x m'. fst x = ReportedRollback \<and> report_durable i m' \<and> refusal_durable l m' \<and> \<not> attempt_visible m')
     (\<lambda>e m'. same_on (set ATTEMPT_RECORD) m m' \<or> report_durable i m' \<and> refusal_durable l m' \<and> \<not> attempt_visible m') m"
  unfolding sequence_def Let_def reconcile_action.case
  by (rule spec_frame_andThen [OF spec_mono [OF spec_report_rollback]], assumption)
     (use assms record_sets in
       \<open>cases already, auto simp: attempt_visible_def report_durable_same intro!: spec_ok\<close>)

lemma spec_boot_rollback:
  assumes a: "attempt_on_flash m a" "ar_slot a \<noteq> hw_running_slot h" "ar_activated a \<or> ar_boot_selected a"
  shows "store_spec (\<lambda>_. True) flash (reconcile_boot K (Inr h) rv)
     (\<lambda>out m'. (case bo_disposition out of
          ReportedRollback \<Rightarrow> rollback_recorded a m'
        | FailedClosed _ \<Rightarrow> m' = m
        | Incomplete _ \<Rightarrow> same_on (set ATTEMPT_RECORD) m m' \<or> rollback_recorded a m'
        | _ \<Rightarrow> False))
     (\<lambda>_ _. False) m"
  (is "store_spec _ _ _ ?Q _ m")
  unfolding reconcile_boot_def sum.case
proof (rule spec_onResult, rule wp_read_phase, goal_cases)
    case (1 r)
    show ?case
      unfolding sum.case Let_def boot_rollback_action(1) [OF 1 a]
      by (rule spec_onResult, rule spec_mono [OF spec_sequence_rollback])
         (use boot_rollback_action(2) [OF 1 a] in \<open>auto simp: rollback_recorded_def outcome_ok_def intro!: wp_outcome split: prod.splits\<close>)
  next
    case (2 e)
    show ?case unfolding sum.case by (rule wp_outcome) (auto simp: outcome_ok_def)
qed

end

end
