(* ===== verification/Ota_Reason.thy ===== *)
theory Ota_Reason
  imports Ota_Decision
begin

text \<open>
  The failure codes of the OTA status topic (\<^verbatim>\<open>juggler/src/ota/wire/reason.rs\<close>): the code of each
  reason, the parser of codes and the mapping from an offer decision.
\<close>

section \<open>Model\<close>

datatype fail_reason =
    CommandInvalid | Busy | WorkerUnavailable | PendingVerify | ManifestFetch
  | ManifestInvalid | TargetMismatch | VersionInvalid | PreviouslyRolledBack | UpToDate
  | Downgrade | AttemptUnresolved | ReportPending | PartitionNotFound | AttemptNotPersisted
  | VersionMismatch | RollbackUnavailable | RepairFailed | RepairNotNeeded
  | Ota ota_error

definition fail_reason_as_str :: "fail_reason \<Rightarrow> string" where
  "fail_reason_as_str r = (case r of
       fail_reason.CommandInvalid \<Rightarrow> ''command_invalid''
     | fail_reason.Busy \<Rightarrow> ''busy''
     | fail_reason.WorkerUnavailable \<Rightarrow> ''worker_unavailable''
     | fail_reason.PendingVerify \<Rightarrow> ''pending_verify''
     | fail_reason.ManifestFetch \<Rightarrow> ''manifest_fetch''
     | fail_reason.ManifestInvalid \<Rightarrow> ''manifest_invalid''
     | fail_reason.TargetMismatch \<Rightarrow> ''target_mismatch''
     | fail_reason.VersionInvalid \<Rightarrow> ''version_invalid''
     | fail_reason.PreviouslyRolledBack \<Rightarrow> ''previously_rolled_back''
     | fail_reason.UpToDate \<Rightarrow> ''up_to_date''
     | fail_reason.Downgrade \<Rightarrow> ''downgrade''
     | fail_reason.AttemptUnresolved \<Rightarrow> ''attempt_unresolved''
     | fail_reason.ReportPending \<Rightarrow> ''report_pending''
     | fail_reason.PartitionNotFound \<Rightarrow> ''partition_not_found''
     | fail_reason.AttemptNotPersisted \<Rightarrow> ''attempt_not_persisted''
     | fail_reason.VersionMismatch \<Rightarrow> ''version_mismatch''
     | fail_reason.RollbackUnavailable \<Rightarrow> ''rollback_unavailable''
     | fail_reason.RepairFailed \<Rightarrow> ''repair_failed''
     | fail_reason.RepairNotNeeded \<Rightarrow> ''repair_not_needed''
     | Ota e \<Rightarrow> ota_error_code e)"

definition fail_reason_from_code :: "string \<Rightarrow> fail_reason option" where
  "fail_reason_from_code c =
     (if c = ''command_invalid'' then Some fail_reason.CommandInvalid
      else if c = ''busy'' then Some fail_reason.Busy
      else if c = ''worker_unavailable'' then Some fail_reason.WorkerUnavailable
      else if c = ''pending_verify'' then Some fail_reason.PendingVerify
      else if c = ''manifest_fetch'' then Some fail_reason.ManifestFetch
      else if c = ''manifest_invalid'' then Some fail_reason.ManifestInvalid
      else if c = ''target_mismatch'' then Some fail_reason.TargetMismatch
      else if c = ''version_invalid'' then Some fail_reason.VersionInvalid
      else if c = ''previously_rolled_back'' then Some fail_reason.PreviouslyRolledBack
      else if c = ''up_to_date'' then Some fail_reason.UpToDate
      else if c = ''downgrade'' then Some fail_reason.Downgrade
      else if c = ''attempt_unresolved'' then Some fail_reason.AttemptUnresolved
      else if c = ''report_pending'' then Some fail_reason.ReportPending
      else if c = ''partition_not_found'' then Some fail_reason.PartitionNotFound
      else if c = ''attempt_not_persisted'' then Some fail_reason.AttemptNotPersisted
      else if c = ''version_mismatch'' then Some fail_reason.VersionMismatch
      else if c = ''rollback_unavailable'' then Some fail_reason.RollbackUnavailable
      else if c = ''repair_failed'' then Some fail_reason.RepairFailed
      else if c = ''repair_not_needed'' then Some fail_reason.RepairNotNeeded
      else if c = ''server_unreachable'' then Some (Ota ota_error.ServerUnreachable)
      else if c = ''download_failed'' then Some (Ota (DownloadFailed 0))
      else if c = ''download_timeout'' then Some (Ota ota_error.DownloadTimeout)
      else if c = ''checksum_mismatch'' then Some (Ota ota_error.ChecksumMismatch)
      else if c = ''flash_write_failed'' then Some (Ota ota_error.FlashWriteFailed)
      else if c = ''insufficient_space'' then Some (Ota ota_error.InsufficientSpace)
      else None)"

definition fail_reason_from_offer :: "offer_decision \<Rightarrow> admission \<Rightarrow> fail_reason option" where
  "fail_reason_from_offer d adm = (case d of
       offer_decision.Apply \<Rightarrow> None
     | offer_decision.Skip \<Rightarrow> Some UpToDate
     | offer_decision.Reject \<Rightarrow> Some Downgrade
     | offer_decision.Refused \<Rightarrow> Some PreviouslyRolledBack
     | offer_decision.Blocked \<Rightarrow> Some (case adm of
           admission.Blocked blocked_by.ReportPending \<Rightarrow> fail_reason.ReportPending
         | admission.Blocked blocked_by.AttemptUnresolved \<Rightarrow> fail_reason.AttemptUnresolved
         | Open \<Rightarrow> fail_reason.AttemptUnresolved))"

section \<open>Codes round-trip\<close>

lemma fail_reason_from_code_as_str:
  "\<exists>r'. fail_reason_from_code (fail_reason_as_str r) = Some r' \<and> fail_reason_as_str r' = fail_reason_as_str r \<and>
     ((\<forall>e. r \<noteq> Ota e) \<longrightarrow> r' = r)"
proof (cases r)
  case (Ota e)
  then show ?thesis
    by (cases e) (simp_all add: fail_reason_as_str_def fail_reason_from_code_def ota_error_code_def)
qed (simp_all add: fail_reason_as_str_def fail_reason_from_code_def)

lemma fail_reason_code_sound: "fail_reason_from_code c = Some r \<Longrightarrow> fail_reason_as_str r = c"
  by (auto simp: fail_reason_from_code_def fail_reason_as_str_def ota_error_code_def split: if_splits)

lemma offer_reason_iff_not_applied:
  "fail_reason_from_offer (decide_offer running offered refused adm) adm = None \<longleftrightarrow>
     decide_offer running offered refused adm = offer_decision.Apply"
  by (auto simp: fail_reason_from_offer_def split: offer_decision.splits)

end
