(* ===== verification/Ota_Recovery.thy ===== *)
theory Ota_Recovery
  imports Ota_Store_Ops
begin

text \<open>
  The record store on a backend that reports no fault (\<open>ota_kv_reliable\<close>): an attempt that was
  begun is read back, a repair pass fixes exactly the group it names, the bounded repair loop ends
  with every record readable, and a boot that follows no longer fails on its records.
\<close>

section \<open>Readability of the records\<close>

definition val_type :: "kv_val \<Rightarrow> key_type" where
  "val_type v = (case v of U8 _ \<Rightarrow> KU8 | U32 _ \<Rightarrow> KU32 | Str _ \<Rightarrow> KStr)"

definition mistyped :: "flash_map \<Rightarrow> ota_key \<Rightarrow> key_type \<Rightarrow> bool" where
  "mistyped m key ty = (case m key of None \<Rightarrow> False | Some v \<Rightarrow> val_type v \<noteq> ty)"

definition any_mistyped :: "flash_map \<Rightarrow> (ota_key \<times> key_type) list \<Rightarrow> bool" where
  "any_mistyped m keys \<longleftrightarrow> (\<exists>(key, ty) \<in> set keys. mistyped m key ty)"

definition attempt_label_bad :: "flash_map \<Rightarrow> bool" where
  "attempt_label_bad m \<longleftrightarrow> attempt_visible m \<and>
     (slot_on_flash m = None \<or> slot_on_flash m = Some FACTORY_SLOT \<or> m ATT_ID = None)"

definition request_label_bad :: "flash_map \<Rightarrow> bool" where
  "request_label_bad m = (case m RQ_FROM of
       Some (Str l) \<Rightarrow> slot_from_label l = None \<or> m RQ_ID = None
     | _ \<Rightarrow> False)"

definition group_bad :: "repaired_record \<Rightarrow> flash_map \<Rightarrow> bool" where
  "group_bad g m = (case g of
       RepairedAttempt \<Rightarrow> any_mistyped m ATTEMPT_KEYS \<or> attempt_label_bad m
     | RepairedRequest \<Rightarrow> any_mistyped m REQUEST_KEYS \<or> request_label_bad m
     | RepairedReport \<Rightarrow> any_mistyped m REPORT_KEYS
     | RepairedCounter \<Rightarrow> any_mistyped m COUNTER_KEYS
     | RepairedRefusal \<Rightarrow> mistyped m REJ_VER KStr)"

definition repair_ok :: "flash_map \<Rightarrow> repaired_record option \<Rightarrow> flash_map \<Rightarrow> bool" where
  "repair_ok m r m' \<longleftrightarrow> (case r of
       None \<Rightarrow> m' = m \<and> (\<forall>g. \<not> group_bad g m)
     | Some g \<Rightarrow> group_bad g m \<and> \<not> group_bad g m' \<and> (\<forall>g'. g' \<noteq> g \<longrightarrow> group_bad g' m' = group_bad g' m) \<and>
         (m RB = Some (U8 1) \<longrightarrow> m' RB = Some (U8 1)))"

definition group_keys :: "repaired_record \<Rightarrow> ota_key set" where
  "group_keys g = (case g of
       RepairedAttempt \<Rightarrow> set ATTEMPT_RECORD
     | RepairedRequest \<Rightarrow> REQUEST_RECORD
     | RepairedReport \<Rightarrow> {RB, RB_ID}
     | RepairedCounter \<Rightarrow> {ATT_CTR, ATT_EPOCH}
     | RepairedRefusal \<Rightarrow> {REJ_VER})"

lemma mistyped_ex: "mistyped m key ty \<longleftrightarrow> (\<exists>v. m key = Some v \<and> val_type v \<noteq> ty)"
  by (auto simp: mistyped_def split: option.splits)

lemma request_label_bad_ex:
  "request_label_bad m \<longleftrightarrow> (\<exists>l. m RQ_FROM = Some (Str l) \<and> (slot_from_label l = None \<or> m RQ_ID = None))"
  by (auto simp: request_label_bad_def split: option.splits kv_val.splits)

lemma val_type_simps [simp]: "val_type (U8 x) = KU8" "val_type (U32 y) = KU32" "val_type (Str z) = KStr"
  by (simp_all add: val_type_def)

lemma mistyped_upd [simp]:
  "mistyped (m(k := v)) key ty =
     (if key = k then (\<exists>x. v = Some x \<and> val_type x \<noteq> ty) else mistyped m key ty)"
  by (simp add: mistyped_ex)

lemma typed_u8: "\<not> mistyped m key KU8 \<Longrightarrow> m key = None \<or> (\<exists>x. m key = Some (U8 x))"
  by (cases "m key") (auto simp: mistyped_ex val_type_def split: kv_val.splits)

lemma typed_u32: "\<not> mistyped m key KU32 \<Longrightarrow> m key = None \<or> (\<exists>x. m key = Some (U32 x))"
  by (cases "m key") (auto simp: mistyped_ex val_type_def split: kv_val.splits)

lemma typed_str: "\<not> mistyped m key KStr \<Longrightarrow> m key = None \<or> (\<exists>x. m key = Some (Str x))"
  by (cases "m key") (auto simp: mistyped_ex val_type_def split: kv_val.splits)

definition key_type_of :: "ota_key \<Rightarrow> key_type" where
  "key_type_of key = (case key of
       RB \<Rightarrow> KU8 | ATT_BOOT \<Rightarrow> KU8 | ATT_ACT \<Rightarrow> KU8 | ATT_INV \<Rightarrow> KU8
     | RB_ID \<Rightarrow> KU32 | ATT_CTR \<Rightarrow> KU32 | ATT_EPOCH \<Rightarrow> KU32 | ATT_ID \<Rightarrow> KU32 | RQ_ID \<Rightarrow> KU32
     | _ \<Rightarrow> KStr)"

lemma key_type_of_simps [simp]:
  "key_type_of RB = KU8" "key_type_of ATT_BOOT = KU8" "key_type_of ATT_ACT = KU8" "key_type_of ATT_INV = KU8"
  "key_type_of RB_ID = KU32" "key_type_of ATT_CTR = KU32" "key_type_of ATT_EPOCH = KU32" "key_type_of ATT_ID =
  KU32" "key_type_of RQ_ID = KU32" "key_type_of RB_WHY = KStr" "key_type_of ATT_VER = KStr" "key_type_of
  ATT_SLOT = KStr" "key_type_of ATT_WHY = KStr" "key_type_of RQ_WHY = KStr" "key_type_of RQ_FROM = KStr"
  "key_type_of REJ_VER = KStr"
  by (simp_all add: key_type_of_def)

definition well_typed :: "flash_map \<Rightarrow> bool" where
  "well_typed m \<longleftrightarrow> (\<forall>key. \<not> mistyped m key (key_type_of key))"

lemma well_typedD: "well_typed m \<Longrightarrow> key_type_of key = ty \<Longrightarrow> mistyped m key ty = False"
  by (auto simp: well_typed_def)

lemma well_typed_upd:
  "well_typed m \<Longrightarrow> well_typed (m(key := None))"
  "well_typed m \<Longrightarrow> val_type x = key_type_of key \<Longrightarrow> well_typed (m(key \<mapsto> x))"
  by (auto simp: well_typed_def)

lemma mistyped_same: "m' key = m key \<Longrightarrow> mistyped m' key ty = mistyped m key ty"
  by (simp add: mistyped_ex)

lemma group_bad_same:
  assumes "same_on (group_keys g) m m'"
  shows "group_bad g m' = group_bad g m"
  using assms
  by (cases g)
     (simp_all add: same_on_def group_keys_def group_bad_def any_mistyped_def mistyped_ex ATTEMPT_RECORD_def
        ATTEMPT_KEYS_def REQUEST_RECORD_def REQUEST_KEYS_def REPORT_KEYS_def COUNTER_KEYS_def
        attempt_label_bad_def attempt_visible_def slot_on_flash_def request_label_bad_ex)

lemma group_keys_disjoint: "g \<noteq> g' \<Longrightarrow> group_keys g' \<subseteq> - group_keys g"
  by (cases g; cases g') (auto simp: group_keys_def ATTEMPT_RECORD_def REQUEST_RECORD_def)

lemma repair_okI:
  assumes "same_on (- group_keys g) m m'" "group_bad g m" "\<not> group_bad g m'"
    and "m RB = Some (U8 1) \<Longrightarrow> m' RB = Some (U8 1)"
  shows "repair_ok m (Some g) m'"
  using assms group_bad_same group_keys_disjoint same_on_mono unfolding repair_ok_def option.case by metis

definition bad_count :: "flash_map \<Rightarrow> nat" where
  "bad_count m = length (filter (\<lambda>g. group_bad g m)
     [RepairedAttempt, RepairedRequest, RepairedReport, RepairedCounter, RepairedRefusal])"

lemma bad_count_0: "bad_count m = 0 \<longleftrightarrow> (\<forall>g. \<not> group_bad g m)"
proof -
  have "(\<forall>g. P g) \<longleftrightarrow> P RepairedAttempt \<and> P RepairedRequest \<and> P RepairedReport \<and> P RepairedCounter \<and> P RepairedRefusal"
    for P :: "repaired_record \<Rightarrow> bool" by (metis repaired_record.exhaust)
  then show ?thesis by (auto simp: bad_count_def)
qed

lemma bad_count_le: "bad_count m \<le> 5"
  by (simp add: bad_count_def)

lemma bad_count_step:
  "group_bad g m \<Longrightarrow> \<not> group_bad g m' \<Longrightarrow> \<forall>g'. g' \<noteq> g \<longrightarrow> group_bad g' m' = group_bad g' m \<Longrightarrow>
   bad_count m = Suc (bad_count m')"
  by (cases g) (auto simp: bad_count_def)

lemma group_bad_ex:
  "(\<exists>g. group_bad g m) \<longleftrightarrow>
     any_mistyped m ATTEMPT_KEYS \<or> attempt_label_bad m \<or> any_mistyped m REQUEST_KEYS \<or> request_label_bad m \<or>
     any_mistyped m REPORT_KEYS \<or> any_mistyped m COUNTER_KEYS \<or> mistyped m REJ_VER KStr"
proof -
  have "(\<exists>g. P g) \<longleftrightarrow> P RepairedAttempt \<or> P RepairedRequest \<or> P RepairedReport \<or> P RepairedCounter \<or> P RepairedRefusal"
    for P :: "repaired_record \<Rightarrow> bool" by (metis repaired_record.exhaust)
  then show ?thesis by (simp add: group_bad_def disj_ac)
qed

definition refused_on :: "flash_map \<Rightarrow> version option" where
  "refused_on m = (case m REJ_VER of Some (Str s) \<Rightarrow> version_parse_ok s | _ \<Rightarrow> None)"

lemma refused_on_upd [simp]:
  "refused_on (m(REJ_VER \<mapsto> Str (version_str v))) = Some v" "key \<noteq> REJ_VER \<Longrightarrow> refused_on (m(key := x)) = refused_on m"
  "refused_on (m(REJ_VER := None)) = None"
  by (simp_all add: refused_on_def)

text \<open>What an armed operator rollback left on flash, relative to the content \<open>m\<close> it started from.\<close>

definition armed_ok :: "flash_map \<Rightarrow> slot_id \<Rightarrow> version \<Rightarrow> armed_rollback \<Rightarrow> flash_map \<Rightarrow> bool" where
  "armed_ok m slot running armed m' \<longleftrightarrow> well_typed m' \<and> refused_on m' = Some running \<and>
     same_on (- (REQUEST_RECORD \<union> {ATT_EPOCH, ATT_CTR, REJ_VER})) m m' \<and>
     (case ab_noted armed of
        Some (RollbackNoted (Request s i)) \<Rightarrow> s = slot \<and> m' RQ_ID = Some (U32 i) \<and>
          (\<exists>l. m' RQ_FROM = Some (Str l) \<and> slot_from_label l = Some slot)
      | _ \<Rightarrow> False) \<and>
     (case ab_refusal armed of None \<Rightarrow> refused_on m = Some running | Some previous \<Rightarrow> previous = refused_on m)"

section \<open>Rules for a backend without faults\<close>

lemma spec_soundI:
  assumes "\<And>s r s'. I s \<Longrightarrow> \<alpha> s = m \<Longrightarrow> p s = (r, s') \<Longrightarrow>
     I s' \<and> (case r of Inr x \<Rightarrow> Q x (\<alpha> s') | Inl e \<Rightarrow> E e (\<alpha> s'))"
  shows "spec_prog I \<alpha> p Q E m"
  by (rule spec_progI) (rule assms, assumption, assumption, rule prod.collapse [symmetric])

context ota_kv_reliable
begin

lemma kv_rel_get_u8 [spec_rules]:
  assumes "\<And>v. m key = map_option U8 v \<Longrightarrow> Q v m" and "mistyped m key KU8 \<Longrightarrow> E (KvError CODE_TYPE_MISMATCH) m"
  shows "spec_prog sound flash (get_u8 K key) Q E m"
proof (rule spec_soundI)
  fix s r s' assume s: "sound s" "flash s = m" and g: "get_u8 K key s = (r, s')"
  show "sound s' \<and> (case r of Inr x \<Rightarrow> Q x (flash s') | Inl e \<Rightarrow> E e (flash s'))"
    using sound_get_u8 [OF s(1), of key] law_get_u8 [OF g] assms s(2) g
    by (auto simp: mistyped_ex split: sum.splits option.splits kv_val.splits)
qed

lemma rel_get_u8 [spec_rules]:
  assumes "\<And>v. m key = map_option U8 v \<Longrightarrow> Q v m"
    and "mistyped m key KU8 \<Longrightarrow> E (Kv (KvError CODE_TYPE_MISMATCH)) m"
  shows "store_spec sound flash (kvop (get_u8 K key)) Q E m"
  by (intro kvop_spec kv_rel_get_u8 assms)

lemma kv_rel_get_u32 [spec_rules]:
  assumes "\<And>v. m key = map_option U32 v \<Longrightarrow> Q v m" and "mistyped m key KU32 \<Longrightarrow> E (KvError CODE_TYPE_MISMATCH) m"
  shows "spec_prog sound flash (get_u32 K key) Q E m"
proof (rule spec_soundI)
  fix s r s' assume s: "sound s" "flash s = m" and g: "get_u32 K key s = (r, s')"
  show "sound s' \<and> (case r of Inr x \<Rightarrow> Q x (flash s') | Inl e \<Rightarrow> E e (flash s'))"
    using sound_get_u32 [OF s(1), of key] law_get_u32 [OF g] assms s(2) g
    by (auto simp: mistyped_ex split: sum.splits option.splits kv_val.splits)
qed

lemma rel_get_u32 [spec_rules]:
  assumes "\<And>v. m key = map_option U32 v \<Longrightarrow> Q v m"
    and "mistyped m key KU32 \<Longrightarrow> E (Kv (KvError CODE_TYPE_MISMATCH)) m"
  shows "store_spec sound flash (kvop (get_u32 K key)) Q E m"
  by (intro kvop_spec kv_rel_get_u32 assms)

lemma kv_rel_get_str [spec_rules]:
  assumes "\<And>v. m key = map_option Str v \<Longrightarrow> Q v m" and "mistyped m key KStr \<Longrightarrow> E (KvError CODE_TYPE_MISMATCH) m"
  shows "spec_prog sound flash (get_str K key) Q E m"
proof (rule spec_soundI)
  fix s r s' assume s: "sound s" "flash s = m" and g: "get_str K key s = (r, s')"
  show "sound s' \<and> (case r of Inr x \<Rightarrow> Q x (flash s') | Inl e \<Rightarrow> E e (flash s'))"
    using sound_get_str [OF s(1), of key] law_get_str [OF g] assms s(2) g
    by (auto simp: mistyped_ex split: sum.splits option.splits kv_val.splits)
qed

lemma rel_get_str [spec_rules]:
  assumes "\<And>v. m key = map_option Str v \<Longrightarrow> Q v m"
    and "mistyped m key KStr \<Longrightarrow> E (Kv (KvError CODE_TYPE_MISMATCH)) m"
  shows "store_spec sound flash (kvop (get_str K key)) Q E m"
  by (intro kvop_spec kv_rel_get_str assms)

lemma rel_set_u8 [spec_rules]:
  assumes "Q () (m(key \<mapsto> U8 x))"
  shows "store_spec sound flash (kvop (set_u8 K key x)) Q E m"
proof (rule kvop_spec, rule spec_soundI)
  fix s r s' assume s: "sound s" "flash s = m" and g: "set_u8 K key x s = (r, s')"
  show "sound s' \<and> (case r of Inr y \<Rightarrow> Q y (flash s') | Inl e \<Rightarrow> E (Kv e) (flash s'))"
    using sound_set_u8 [OF s(1), of key x] law_set_u8 [OF g] assms s(2) g by (auto split: sum.splits)
qed

lemma rel_set_u32 [spec_rules]:
  assumes "Q () (m(key \<mapsto> U32 x))"
  shows "store_spec sound flash (kvop (set_u32 K key x)) Q E m"
proof (rule kvop_spec, rule spec_soundI)
  fix s r s' assume s: "sound s" "flash s = m" and g: "set_u32 K key x s = (r, s')"
  show "sound s' \<and> (case r of Inr y \<Rightarrow> Q y (flash s') | Inl e \<Rightarrow> E (Kv e) (flash s'))"
    using sound_set_u32 [OF s(1), of key x] law_set_u32 [OF g] assms s(2) g by (auto split: sum.splits)
qed

lemma rel_set_str [spec_rules]:
  assumes "length x \<le> kvstr_cap" and "Q () (m(key \<mapsto> Str x))"
  shows "store_spec sound flash (kvop (set_str K key x)) Q E m"
proof (rule kvop_spec, rule spec_soundI)
  fix s r s' assume s: "sound s" "flash s = m" and g: "set_str K key x s = (r, s')"
  show "sound s' \<and> (case r of Inr y \<Rightarrow> Q y (flash s') | Inl e \<Rightarrow> E (Kv e) (flash s'))"
    using sound_set_str [OF s(1), of x key] law_set_str [OF g] assms s(2) g by (auto split: sum.splits)
qed

lemma rel_remove [spec_rules]:
  assumes "Q () (m(key := None))"
  shows "store_spec sound flash (kvop (remove_key K key)) Q E m"
proof (rule kvop_spec, rule spec_soundI)
  fix s r s' assume s: "sound s" "flash s = m" and g: "remove_key K key s = (r, s')"
  show "sound s' \<and> (case r of Inr y \<Rightarrow> Q y (flash s') | Inl e \<Rightarrow> E (Kv e) (flash s'))"
    using sound_remove [OF s(1), of key] law_remove [OF g] assms s(2) g by (auto split: sum.splits)
qed

lemma rel_corrupt_read [spec_rules]:
  assumes "Q (mistyped m key ty) m"
  shows "store_spec sound flash (corrupt_read K key ty) Q E m"
proof -
  have typed: "mistyped m key KU8 = False" if "m key = map_option U8 v" for v
    using that by (auto simp: mistyped_ex)
  have typed32: "mistyped m key KU32 = False" if "m key = map_option U32 v" for v
    using that by (auto simp: mistyped_ex)
  have typedstr: "mistyped m key KStr = False" if "m key = map_option Str v" for v
    using that by (auto simp: mistyped_ex)
  show ?thesis
    unfolding corrupt_read_def Let_def
    by (rule kvop_spec, cases ty)
       (use assms in \<open>auto intro!: spec_rules simp: typed typed32 typedstr is_corrupt_code_def\<close>)
qed

lemma rel_any_corrupt [spec_rules]:
  assumes "Q (any_mistyped m keys) m"
  shows "store_spec sound flash (any_corrupt K keys) Q E m"
  using assms
proof (induction keys)
  case Nil
  then show ?case by (simp add: any_mistyped_def spec_ok)
next
  case (Cons kt keys)
  then show ?case by (cases kt) (auto simp: any_mistyped_def intro!: spec_rules)
qed

lemma rel_reason [spec_rules]:
  assumes "\<And>v. m key = map_option Str v \<Longrightarrow> Q v m" and "mistyped m key KStr \<Longrightarrow> Q (Some ''unknown'') m"
  shows "store_spec sound flash (kvop (reason K key)) Q E m"
  unfolding reason_def
  by (intro kvop_spec spec_rules) (use assms in \<open>auto simp: is_corrupt_code_def\<close>)

lemma rel_flag [spec_rules]:
  assumes "\<And>v. m key = map_option U8 v \<Longrightarrow> Q (v = Some 1) m"
    and "mistyped m key KU8 \<Longrightarrow> E (Kv (KvError CODE_TYPE_MISMATCH)) m"
  shows "store_spec sound flash (flag K key) Q E m"
  unfolding flag_def by (intro spec_rules assms)

lemma rel_attempt_label_corrupt:
  assumes "\<not> any_mistyped m ATTEMPT_KEYS" and "Q (attempt_label_bad m) m"
  shows "store_spec sound flash (attempt_label_corrupt K) Q E m"
proof -
  have ty: "mistyped m ATT_VER KStr = False" "mistyped m ATT_SLOT KStr = False" "mistyped m ATT_ID KU32 = False"
    using assms(1) by (auto simp: any_mistyped_def ATTEMPT_KEYS_def)
  show ?thesis
    unfolding attempt_label_corrupt_def attempt_slot_def
    by (intro spec_rules)
       (use assms(2) in \<open>auto simp: ty attempt_label_bad_def attempt_visible_def slot_on_flash_def\<close>)
qed

lemma rel_request_label_corrupt:
  assumes "\<not> any_mistyped m REQUEST_KEYS" and "Q (request_label_bad m) m"
  shows "store_spec sound flash (request_label_corrupt K) Q E m"
proof -
  have ty: "mistyped m RQ_FROM KStr = False" "mistyped m RQ_ID KU32 = False"
    using assms(1) by (auto simp: any_mistyped_def REQUEST_KEYS_def)
  show ?thesis
    unfolding request_label_corrupt_def request_def
    by (intro spec_rules) (use assms(2) in \<open>auto simp: ty request_label_bad_ex\<close>)
qed

lemma rel_clear_attempt:
  assumes "\<And>m'. same_on (- set ATTEMPT_RECORD) m m' \<Longrightarrow> \<forall>key \<in> set ATTEMPT_RECORD. m' key = None \<Longrightarrow> Q () m'"
  shows "store_spec sound flash (clear_attempt K) Q E m"
  unfolding clear_attempt_def forEach.simps
  by (intro spec_rules assms) (auto simp: ATTEMPT_RECORD_def)

lemma rel_remove_request:
  assumes "\<And>m'. same_on (- REQUEST_RECORD) m m' \<Longrightarrow> \<forall>key \<in> REQUEST_RECORD. m' key = None \<Longrightarrow> Q () m'"
  shows "store_spec sound flash (remove_request K) Q E m"
  unfolding remove_request_def by (intro spec_rules assms) (auto simp: REQUEST_RECORD_def)

lemma rel_highest_id:
  assumes "\<And>key. key \<in> set keys \<Longrightarrow> \<not> mistyped m key KU32" and "\<And>h. Q h m"
  shows "store_spec sound flash (highest_id K h0 keys) Q E m"
  using assms(1)
proof (induction keys arbitrary: h0)
  case Nil
  then show ?case by (simp add: assms(2) spec_ok)
next
  case (Cons key keys)
  then show ?case by (auto intro!: spec_rules Cons.IH)
qed

lemma rel_repair_counter:
  assumes "\<And>key. key \<in> {ATT_ID, RB_ID, RQ_ID} \<Longrightarrow> \<not> mistyped m key KU32" and "any_mistyped m COUNTER_KEYS"
    and "\<And>m'. same_on (- {ATT_EPOCH, ATT_CTR}) m m' \<Longrightarrow> \<not> any_mistyped m' COUNTER_KEYS \<Longrightarrow> Q () m'"
  shows "store_spec sound flash (repair_counter K) Q E m"
  unfolding repair_counter_def
  by (intro spec_rules rel_highest_id assms(3))
     (use assms(1,2) in \<open>auto simp: any_mistyped_def COUNTER_KEYS_def\<close>)

lemma spec_repair_report:
  assumes "any_mistyped m REPORT_KEYS"
  shows "store_spec sound flash
     (andThen (corrupt_read K RB_ID KU32) (\<lambda>i.
      andThen (if i then kvop (remove_key K RB_ID) else ok ()) (\<lambda>_.
      andThen (corrupt_read K RB KU8) (\<lambda>r.
      andThen (if r then kvop (set_u8 K RB 1) else ok ()) (\<lambda>_.
        ok (Some RepairedReport)))))) (repair_ok m) (\<lambda>_ _. False) m"
  by (intro spec_rules repair_okI)
     (use assms in \<open>auto simp: group_bad_def any_mistyped_def REPORT_KEYS_def group_keys_def mistyped_ex\<close>)

lemma rel_attempt_group:
  assumes "Q (group_bad RepairedAttempt m) m"
  shows "store_spec sound flash (orElse (any_corrupt K ATTEMPT_KEYS) (attempt_label_corrupt K)) Q E m"
  by (rule spec_orElse, rule rel_any_corrupt, rule spec_if, rule spec_ok, (rule rel_attempt_label_corrupt)?)
     (use assms in \<open>simp_all add: group_bad_def rel_attempt_label_corrupt\<close>)

lemma rel_request_group:
  assumes "Q (group_bad RepairedRequest m) m"
  shows "store_spec sound flash (orElse (any_corrupt K REQUEST_KEYS) (request_label_corrupt K)) Q E m"
  by (rule spec_orElse, rule rel_any_corrupt, rule spec_if, rule spec_ok)
     (use assms in \<open>simp_all add: group_bad_def rel_request_label_corrupt\<close>)

lemma spec_repair_attempt:
  assumes "group_bad RepairedAttempt m"
  shows "store_spec sound flash (andThen (clear_attempt K) (\<lambda>_. ok (Some RepairedAttempt))) (repair_ok m) (\<lambda>_ _. False) m"
  by (intro spec_andThen rel_clear_attempt spec_ok repair_okI)
     (use assms in \<open>auto simp: group_keys_def group_bad_def any_mistyped_def ATTEMPT_KEYS_def mistyped_ex
        attempt_label_bad_def attempt_visible_def ATTEMPT_RECORD_def same_on_def\<close>)

lemma spec_repair_request:
  assumes "group_bad RepairedRequest m"
  shows "store_spec sound flash (andThen (remove_request K) (\<lambda>_. ok (Some RepairedRequest))) (repair_ok m) (\<lambda>_ _. False) m"
  by (intro spec_andThen rel_remove_request spec_ok repair_okI)
     (use assms in \<open>auto simp: group_keys_def group_bad_def any_mistyped_def REQUEST_KEYS_def mistyped_ex
        request_label_bad_ex REQUEST_RECORD_def same_on_def\<close>)

lemma spec_repair_counter:
  assumes "group_bad RepairedCounter m" "\<not> group_bad RepairedAttempt m" "\<not> group_bad RepairedRequest m" "\<not> group_bad RepairedReport m"
  shows "store_spec sound flash (andThen (repair_counter K) (\<lambda>_. ok (Some RepairedCounter))) (repair_ok m) (\<lambda>_ _. False) m"
  by (intro spec_andThen rel_repair_counter spec_ok repair_okI)
     (use assms in \<open>auto simp: group_keys_def group_bad_def any_mistyped_def ATTEMPT_KEYS_def REQUEST_KEYS_def
        REPORT_KEYS_def COUNTER_KEYS_def same_on_def insert_commute\<close>)

lemma spec_repair_corrupt:
  "store_spec sound flash (repair_corrupt K) (repair_ok m) (\<lambda>_ _. False) m"
  unfolding repair_corrupt_def
  apply (rule spec_andThen, rule rel_attempt_group, rule spec_if, erule spec_repair_attempt)
  apply (rule spec_andThen, rule rel_request_group, rule spec_if, erule spec_repair_request)
  apply (rule spec_andThen, rule rel_any_corrupt, rule spec_if, erule spec_repair_report)
  apply (rule spec_andThen, rule rel_any_corrupt, rule spec_if, rule spec_repair_counter)
      apply (simp_all add: group_bad_def)
  apply (intro spec_rules)
   apply (auto intro!: repair_okI simp: group_bad_def group_keys_def, simp add: repair_ok_def group_bad_def split: repaired_record.splits)
  done

lemma rel_corrupt_present:
  assumes "Q (\<exists>g. group_bad g m) m"
  shows "store_spec sound flash (corrupt_present K) Q E m"
  unfolding corrupt_present_def
  by (intro spec_orElse rel_any_corrupt spec_if spec_ok rel_attempt_label_corrupt rel_request_label_corrupt
      rel_corrupt_read)
     (use assms in \<open>auto simp: group_bad_ex\<close>)

lemma spec_repair_loop:
  "store_spec sound flash (repair_loop K left n)
     (\<lambda>n' m'. n' = n + of_nat (bad_count m) \<and> bad_count m \<le> left \<and> bad_count m' = 0 \<and>
        (m RB = Some (U8 1) \<longrightarrow> m' RB = Some (U8 1)))
     (\<lambda>e _. e = Capped \<and> left < bad_count m) m"
proof (induction left arbitrary: n m)
  case 0
  show ?case
    unfolding repair_loop.simps
    using bad_count_0 [of m]
    by (intro spec_onResult rel_corrupt_present) (cases "\<exists>g. group_bad g m", auto intro!: spec_rules)
next
  case (Suc left)
  show ?case
    unfolding repair_loop.simps
  proof (rule spec_onResult, rule spec_mono [OF spec_repair_corrupt], goal_cases)
    case (1 r m1)
    show ?case
    proof (cases r)
      case None
      with 1 bad_count_0 [of m] show ?thesis by (auto simp: repair_ok_def intro!: spec_ok)
    next
      case (Some g)
      with 1 have c: "bad_count m = Suc (bad_count m1)" and rb: "m RB = Some (U8 1) \<longrightarrow> m1 RB = Some (U8 1)"
        by (auto simp: repair_ok_def intro: bad_count_step)
      show ?thesis
        unfolding Some sum.case option.case by (rule spec_mono [OF Suc.IH]) (use c rb in auto)
    qed
  qed simp
qed

lemma rel_read_phase:
  assumes "\<And>g. \<not> group_bad g m" and "\<And>r. Q r m"
  shows "store_spec sound flash (read_phase K) Q E m"
proof -
  have ty: "mistyped m ATT_VER KStr = False" "mistyped m ATT_SLOT KStr = False" "mistyped m ATT_ID KU32 = False"
    "mistyped m ATT_BOOT KU8 = False" "mistyped m ATT_ACT KU8 = False" "mistyped m ATT_INV KU8 = False"
    "mistyped m RQ_FROM KStr = False" "mistyped m RQ_ID KU32 = False" "mistyped m RB KU8 = False" "mistyped m RB_ID KU32 = False"
    and lab: "\<not> attempt_label_bad m" "\<not> request_label_bad m"
    using assms(1) [of RepairedAttempt] assms(1) [of RepairedRequest] assms(1) [of RepairedReport]
    by (auto simp: group_bad_def any_mistyped_def ATTEMPT_KEYS_def REQUEST_KEYS_def REPORT_KEYS_def)
  show ?thesis
    unfolding read_phase_def report_def refused_def read_attempt_def attempt_slot_def request_def report_persisted_for_def
    by (intro spec_rules assms(2))
       (use lab in \<open>auto simp: ty attempt_label_bad_def request_label_bad_ex attempt_visible_def slot_on_flash_def\<close>)
qed

lemma rel_attempt_exists [spec_rules]:
  assumes "Q (attempt_visible m) m" and "\<not> mistyped m ATT_VER KStr" "\<not> mistyped m ATT_SLOT KStr"
  shows "store_spec sound flash (attempt_exists K) Q E m"
  unfolding attempt_exists_def
  by (intro spec_rules) (use assms in \<open>auto simp: attempt_visible_def\<close>)

lemma rel_request_armed [spec_rules]:
  assumes "Q (m RQ_FROM \<noteq> None) m" and "\<not> mistyped m RQ_FROM KStr"
  shows "store_spec sound flash (request_armed K) Q E m"
  unfolding request_armed_def by (intro spec_rules) (use assms in auto)

lemma rel_admission [spec_rules]:
  assumes "Q (if attempt_visible m \<or> m RQ_FROM \<noteq> None then admission.Blocked blocked_by.AttemptUnresolved
              else if m RB = Some (U8 1) then admission.Blocked blocked_by.ReportPending else Open) m"
    and "well_typed m"
  shows "store_spec sound flash (admission K) Q E m"
  unfolding admission_def report_undelivered_def
  by (intro spec_rules) (use assms in \<open>auto simp: from_records_def well_typedD split: if_splits\<close>)

lemma rel_next_attempt_id [spec_rules]:
  assumes "well_typed m"
    and "\<And>rid m'. same_on (- {ATT_EPOCH, ATT_CTR}) m m' \<Longrightarrow> well_typed m' \<Longrightarrow> Q rid m'"
  shows "store_spec sound flash (next_attempt_id K) Q E m"
proof -
  have "store_spec sound flash (epoch K) (\<lambda>_ m'. same_on (- {ATT_EPOCH}) m m' \<and> well_typed m') E m"
    unfolding epoch_def
    by (intro spec_rules) (use assms(1) in \<open>auto simp: well_typed_upd well_typedD\<close>)
  then show ?thesis
    unfolding next_attempt_id_def
    by (rule spec_frame_andThen, intro spec_rules rel_highest_id assms(2))
       (auto simp: well_typed_upd same_on_def well_typedD)
qed

lemma rel_attempt_slot [spec_rules]:
  assumes "well_typed m"
    and "\<And>s. s = slot_on_flash m \<Longrightarrow> s \<noteq> Some FACTORY_SLOT \<Longrightarrow> (s = None \<longleftrightarrow> \<not> attempt_visible m) \<Longrightarrow> Q s m"
    and "attempt_label_bad m \<Longrightarrow> E (Corrupt UnknownAttemptSlotLabel) m"
  shows "store_spec sound flash (attempt_slot K) Q E m"
  unfolding attempt_slot_def
  by (intro spec_rules)
     (use assms in
       \<open>auto simp: slot_on_flash_def attempt_visible_def attempt_label_bad_def well_typedD\<close>)

lemma spec_begin_attempt_ok:
  assumes m: "well_typed m" "admission_open m" and slot: "slot \<noteq> FACTORY_SLOT" "slot_label slot = Some label"
  shows "store_spec sound flash (begin_attempt K ver slot was_inv)
     (\<lambda>rid m'. attempt_written ver label was_inv rid m' \<and> well_typed m' \<and> m' RQ_FROM = None) (\<lambda>_ _. False) m"
proof -
  have len: "length label \<le> kvstr_cap" using slot(2) by (rule length_slot_label)
  show ?thesis
    unfolding begin_attempt_def forEach.simps
    by (intro spec_rules)
       (use m slot len in \<open>auto simp: admission_open_def attempt_written_def well_typed_upd well_typedD
          same_on_def split: if_splits\<close>)
qed

lemma rel_read_written:
  assumes m: "attempt_written ver label was_inv rid m" "well_typed m" and slot: "slot \<noteq> FACTORY_SLOT" "slot_label slot = Some label"
    and Q: "Q (Some \<lparr>sa_record = \<lparr>ar_attempt_id = rid, ar_version = Some ver, ar_slot = slot, ar_boot_selected = False,
         ar_activated = False, ar_slot_was_invalid = was_inv\<rparr>, sa_why = None\<rparr>) m"
  shows "store_spec sound flash (read_attempt K) Q E m"
  unfolding read_attempt_def
  by (intro spec_rules)
     (use m Q slot_from_label_label [OF slot(2)] slot(1) in
       \<open>auto simp: attempt_written_def slot_on_flash_def attempt_visible_def attempt_label_bad_def u8_of_bool_def mistyped_ex
          split: if_splits\<close>)

lemma spec_rollback_arm:
  assumes m: "well_typed m" "admission_open m" and slot: "slot_label slot = Some label"
  shows "store_spec sound flash (rollback_arm K slot running) (armed_ok m slot running) (\<lambda>_ _. False) m"
proof -
  have len: "length label \<le> kvstr_cap" "length (reason_as_str Operator) \<le> kvstr_cap"
    using length_slot_label [OF slot] length_reason_as_str by (auto simp: kvstr_cap_def)
  have hidden: "slot_on_flash m = None" using m(2) by (auto simp: admission_open_def attempt_visible_def slot_on_flash_def split: option.splits kv_val.splits)
  have refuse: "store_spec sound flash (refuse_version K running)
     (\<lambda>r m'. (r = AlreadyRefused \<and> m' = m1 \<and> refused_on m1 = Some running) \<or>
        (r = RefusalWritten (refused_on m1) \<and> m' = m1(REJ_VER \<mapsto> Str (version_str running)))) (\<lambda>_ _. False) m1"
    if "well_typed m1" for m1
    unfolding refuse_version_def
    by (intro spec_rules) (use that in \<open>auto simp: well_typedD refused_on_def split: option.splits\<close>)
  have noted: "store_spec sound flash (note_rollback K Operator slot)
     (\<lambda>r m1. \<exists>i. r = Written (RollbackNoted (Request slot i)) \<and> well_typed m1 \<and>
        same_on (- (REQUEST_RECORD \<union> {ATT_EPOCH, ATT_CTR})) m m1 \<and>
        m1 RQ_ID = Some (U32 i) \<and> m1 RQ_FROM = Some (Str label)) (\<lambda>_ _. False) m"
    unfolding note_rollback_def scrub_def
    by (intro spec_rules)
       (use m slot len hidden in \<open>auto simp: well_typed_upd well_typedD admission_open_def attempt_label_bad_def
          same_on_def REQUEST_RECORD_def\<close>)
  have open_now: "(if attempt_visible m \<or> m RQ_FROM \<noteq> None then admission.Blocked blocked_by.AttemptUnresolved
      else if m RB = Some (U8 1) then admission.Blocked blocked_by.ReportPending else Open) = Open"
    using m(2) by (simp add: admission_open_def)
  show ?thesis
    unfolding rollback_arm_def
  proof (rule spec_onResult, rule rel_admission, unfold open_now sum.case admission.case,
      rule spec_onResult, rule spec_mono [OF noted], goal_cases)
    case (1 r m1)
    then obtain i where r: "r = Written (RollbackNoted (Request slot i))" and m1: "well_typed m1"
      and rest: "same_on (- (REQUEST_RECORD \<union> {ATT_EPOCH, ATT_CTR})) m m1"
        "m1 RQ_ID = Some (U32 i)" "m1 RQ_FROM = Some (Str label)" by blast
    have rej: "refused_on m1 = refused_on m"
      using rest(1) by (simp add: refused_on_def same_on_def REQUEST_RECORD_def)
    have frame: "same_on (- (REQUEST_RECORD \<union> {ATT_EPOCH, ATT_CTR, REJ_VER})) m m1"
      using rest(1) by (rule same_on_mono) auto
    have fin: "armed_ok m slot running \<lparr>ab_noted = Some (RollbackNoted (Request slot i)), ab_refusal = prev\<rparr> m'"
      if "prev = None \<and> m' = m1 \<and> refused_on m1 = Some running \<or>
          prev = Some (refused_on m1) \<and> m' = m1(REJ_VER \<mapsto> Str (version_str running))" for prev m'
      using that m1 rest(2,3) frame rej slot_from_label_label [OF slot]
      by (auto simp: armed_ok_def well_typed_upd)
    show ?case
      unfolding r sum.case reason_note.case Let_def
      by (rule spec_onResult, rule spec_mono [OF refuse [OF m1]]) (auto intro!: spec_ok fin)
  qed (use m in auto)
qed

lemma spec_rollback_undo:
  assumes "armed_ok m0 slot running armed m" and "m0 RQ_FROM = None"
  shows "store_spec sound flash (rollback_undo K armed)
     (\<lambda>u m'. is_clean u \<and> refused_on m' = refused_on m0 \<and> (\<forall>key \<in> REQUEST_RECORD. m' key = None) \<and>
        same_on (- (REQUEST_RECORD \<union> {ATT_EPOCH, ATT_CTR, REJ_VER})) m0 m') (\<lambda>_ _. False) m"
proof -
  obtain i l where armed: "ab_noted armed = Some (RollbackNoted (Request slot i))"
    and rq: "m RQ_ID = Some (U32 i)" "m RQ_FROM = Some (Str l)" "slot_from_label l = Some slot"
    using assms(1) by (auto simp: armed_ok_def split: option.splits rollback_noted.splits noted_target.splits)
  have m: "well_typed m" "same_on (- (REQUEST_RECORD \<union> {ATT_EPOCH, ATT_CTR, REJ_VER})) m0 m"
    using assms(1) by (auto simp: armed_ok_def)
  let ?R = "\<lambda>m1. same_on (- {REJ_VER}) m m1 \<and> well_typed m1 \<and> refused_on m1 = refused_on m0"
  have restored: "store_spec sound flash
      (case ab_refusal armed of
         Some previous \<Rightarrow> onResult (restore_refusal K previous) (\<lambda>r. ok (Some r))
       | None \<Rightarrow> ok None) (\<lambda>r m1. (\<forall>e. r \<noteq> Some (Inl e)) \<and> ?R m1) (\<lambda>_ _. False) m"
    unfolding restore_refusal_def
    by (intro spec_rules)
       (use assms(1) m(1) in \<open>auto simp: armed_ok_def well_typed_upd refused_on_def split: option.splits\<close>)
  have withdrawn: "store_spec sound flash
      (onResult (withdraw_rollback K (RollbackNoted (Request slot i))) (\<lambda>r. ok (Some r)))
      (\<lambda>r m2. r = Some (Inr ()) \<and> same_on (- REQUEST_RECORD) m1 m2 \<and> (\<forall>key \<in> REQUEST_RECORD. m2 key = None))
      (\<lambda>_ _. False) m1" if "?R m1" for m1
  proof -
    have "m1 RQ_ID = Some (U32 i)" "m1 RQ_FROM = Some (Str l)"
      using that rq by (simp_all add: same_on_def)
    then show ?thesis
      unfolding withdraw_rollback_def request_def rollback_noted.case noted_target.case
      by (intro spec_rules rel_remove_request) (auto simp: rq mistyped_ex)
  qed
  show ?thesis
    unfolding rollback_undo_def armed option.case
  proof (rule spec_frame_andThen [OF restored], rule spec_frame_andThen [OF withdrawn], blast, rule spec_ok, goal_cases)
    case (1 r m1 r' m2)
    then have "refused_on m2 = refused_on m1"
      by (simp add: refused_on_def same_on_def REQUEST_RECORD_def)
    with 1 m(2) show ?case
      by (auto simp: is_clean_def same_on_def split: option.splits sum.splits)
  qed
qed

lemma rel_persist_report:
  assumes "well_typed m" "length why \<le> kvstr_cap"
    and "m RB = Some (U8 1) \<Longrightarrow> m RB_ID = None \<or> m RB_ID = Some (U32 rid)"
    and "\<And>m'. report_durable rid m' \<Longrightarrow> well_typed m' \<Longrightarrow> same_on (- REPORT_RECORD) m m' \<Longrightarrow> Q () m'"
  shows "store_spec sound flash (persist_report K rid why) Q E m"
  unfolding persist_report_def scrub_def
  by (intro spec_rules)
     (use assms in \<open>auto simp: well_typed_upd well_typedD report_durable_def REPORT_RECORD_def\<close>)

lemma rel_report_rollback:
  assumes m: "well_typed m" "\<And>s. m ATT_WHY = Some (Str s) \<Longrightarrow> length s \<le> kvstr_cap"
    and free: "m RB = Some (U8 1) \<Longrightarrow> m RB_ID = None \<or> m RB_ID = Some (U32 rid)"
    and already: "already \<Longrightarrow> report_durable rid m"
  shows "store_spec sound flash (report_rollback K rid left already)
     (\<lambda>_ m'. report_durable rid m' \<and> refusal_durable left m' \<and> \<not> attempt_visible m') (\<lambda>_ _. False) m"
proof -
  let ?R = "\<lambda>m1. well_typed m1 \<and> report_durable rid m1"
  have rep: "store_spec sound flash (if \<not> already then
       andThen (kvop (reason K ATT_WHY)) (\<lambda>w. persist_report K rid (case w of Some x \<Rightarrow> x | None \<Rightarrow> label_str ''bootloader''))
     else ok ()) (\<lambda>_. ?R) (\<lambda>_ _. False) m"
    by (intro spec_rules rel_persist_report)
       (use m free already in \<open>auto simp: well_typedD kvstr_cap_def split: option.splits\<close>)
  have ref: "store_spec sound flash (case left of
        Some v \<Rightarrow> andThen (scrub K REJ_VER KStr) (\<lambda>_. kvop (set_str K REJ_VER (version_str v)))
      | None \<Rightarrow> ok ()) (\<lambda>_ m2. report_durable rid m2 \<and> refusal_durable left m2) (\<lambda>_ _. False) m1" if "?R m1" for m1
    unfolding scrub_def
    by (intro spec_rules) (use that in \<open>auto simp: report_durable_def refusal_durable_def\<close>)
  show ?thesis
    unfolding report_rollback_def
  proof (rule spec_frame_andThen [OF rep], rule spec_frame_andThen [OF ref], assumption, rule rel_clear_attempt, goal_cases)
    case (1 u m1 u' m2 m')
    have "same_on REPORT_RECORD m2 m'" "same_on {REJ_VER} m2 m'"
      using 1(3) record_sets by (auto elim: same_on_mono)
    with 1 report_durable_same refusal_durable_same show ?case
      by (auto simp: attempt_visible_def ATTEMPT_RECORD_def)
  qed
qed

lemma rel_outcome:
  assumes "\<And>out. bo_disposition out = d \<Longrightarrow> Q out m"
  shows "store_spec sound flash (outcome K hw d action w) Q E m"
  unfolding outcome_def Let_def report_undelivered_def admission_def attempt_exists_def request_armed_def
  by (intro spec_rules) (simp_all add: assms)

lemma spec_boot_rollback_ok:
  assumes a: "attempt_on_flash m a" "ar_slot a \<noteq> hw_running_slot h" "ar_activated a \<or> ar_boot_selected a"
    and m: "well_typed m" "\<forall>g. \<not> group_bad g m" "\<And>s. m ATT_WHY = Some (Str s) \<Longrightarrow> length s \<le> kvstr_cap"
    and free: "m RB = Some (U8 1) \<Longrightarrow> m RB_ID = None \<or> m RB_ID = Some (U32 (ar_attempt_id a))"
  shows "store_spec sound flash (reconcile_boot K (Inr h) rv)
     (\<lambda>out m'. bo_disposition out = ReportedRollback \<and> rollback_recorded a m') (\<lambda>_ _. False) m"
  (is "store_spec _ _ _ ?Q _ m")
proof -
  have reads: "store_spec sound flash (read_phase K) (\<lambda>r m'. (m' = m \<and> boot_read_ok m r) \<and> True) (\<lambda>_ _. True \<and> False) m"
    using m(2) by (intro spec_narrow wp_read_phase rel_read_phase) simp_all
  show ?thesis
    unfolding reconcile_boot_def sum.case
  proof (rule spec_onResult, rule spec_mono [OF reads], goal_cases)
    case (1 r m')
    then have r: "boot_read_ok m r" "m' = m" by simp_all
    show ?case
      unfolding r(2) sum.case Let_def boot_rollback_action(1) [OF r(1) a] sequence_def reconcile_action.case
      by (rule spec_onResult, rule spec_andThen, rule spec_mono [OF rel_report_rollback])
         (use m free boot_rollback_action(2) [OF r(1) a] in
           \<open>auto simp: rollback_recorded_def intro!: spec_ok rel_outcome\<close>)
  qed simp
qed

lemma boot_proceeds:
  assumes "sound (os_kv st)" and "\<forall>g. \<not> group_bad g (flash (os_kv st))"
  obtains out st' where "reconcile_boot K (Inr h) rv st = (Inr out, st')" "bo_action out \<noteq> None"
    "\<forall>f. bo_disposition out \<noteq> FailedClosed f"
proof -
  obtain r st1 where reads: "read_phase K st = (Inr r, st1)"
    by (rule spec_totalD [OF rel_read_phase [where Q = "\<lambda>_ _. True"] assms(1) refl]) (use assms(2) in auto)
  define action where "action = reconcile (map_option sa_record (br_attempt r)) (boot_facts_of h rv (br_report_persisted r))"
  let ?rest = "onResult (sequence K h action rv no_warnings) (\<lambda>s. case s of
      Inl e \<Rightarrow> outcome K (Some h) (Incomplete e) (Some action) no_warnings
    | Inr (d, w) \<Rightarrow> outcome K (Some h) d (Some action) w)"
  have eq: "reconcile_boot K (Inr h) rv st = ?rest st1"
    using reads by (simp add: reconcile_boot_def onResult_def action_def Let_def)
  obtain x st' where run: "reconcile_boot K (Inr h) rv st = (x, st')" by fastforce
  obtain out where x: "x = Inr out"
    using spec_progD(3) [OF spec_reconcile_boot _ refl run] by (cases x) auto
  have ok: "boot_ok (Inr h) (flash (os_kv st)) out (flash (os_kv st'))"
    using spec_progD(2) [OF spec_reconcile_boot _ refl run x] by simp
  obtain s st2 where seq: "sequence K h action rv no_warnings st1 = (s, st2)" by fastforce
  obtain d w where last: "outcome K (Some h) d (Some action) w st2 = (Inr out, st')"
    using run seq unfolding eq x by (auto simp: onResult_def split: sum.splits prod.splits)
  have "store_spec (\<lambda>_. True) flash (outcome K (Some h) d (Some action) w) (\<lambda>out _. bo_action out = Some action) (\<lambda>_ _. True)
      (flash (os_kv st2))"
    by (rule wp_outcome) (simp add: outcome_ok_def)
  from spec_progD(2) [OF this _ refl last refl] have "bo_action out = Some action" by simp
  with ok show thesis using that run x by (auto simp: boot_ok_def)
qed

end

end
