(* ===== verification/Ota_Properties.thy ===== *)
theory Ota_Properties
  imports Ota_Recovery
begin

text \<open>
  The correctness properties of the OTA record store and of the boot reconciliation, stated on the
  operations themselves: each takes an arbitrary backend that keeps the \<^verbatim>\<open>OtaKv\<close> contract, a store
  and the result of one call, and speaks of the durable content before and after.  The witnesses run
  the repository's fault-injecting backend.
\<close>

section \<open>Example stores\<close>

definition example_store :: "flash_map \<Rightarrow> fault_kv ota_store" where
  "example_store m = store_open (fault_from_map m) (\<lambda>_. 7)"

definition crashing_store :: "nat \<Rightarrow> flash_map \<Rightarrow> fault_kv ota_store" where
  "crashing_store n m = store_open ((fault_from_map m)\<lparr>fk_crash_after := Some n\<rparr>) (\<lambda>_. 7)"

definition example_attempt :: flash_map where
  "example_attempt = [ATT_VER \<mapsto> Str ''2.0.0'', ATT_SLOT \<mapsto> Str ''ota_1'', ATT_ID \<mapsto> U32 5, ATT_INV \<mapsto> U8 0,
     ATT_BOOT \<mapsto> U8 1, ATT_ACT \<mapsto> U8 1, ATT_CTR \<mapsto> U32 5, ATT_EPOCH \<mapsto> U32 7]"

definition example_hw :: hardware_facts where
  "example_hw = \<lparr>hw_running_slot = SlotId 0, hw_running_state = slot_state.Valid,
     hw_update_slot = Present (SlotId 1) slot_state.Invalid\<rparr>"

lemma example_version: "version_display (Version 2 0 0) = ''2.0.0''"
  by code_simp

lemma example_flash [simp]: "fk_map (os_kv (example_store m)) = m" "fk_map (os_kv (crashing_store n m)) = m"
  by (simp_all add: example_store_def crashing_store_def store_open_def fault_from_map_def fault_new_def)

lemma example_sound [simp]: "fault_free (os_kv (example_store m))"
  by (simp add: example_store_def store_open_def fault_from_map_def fault_new_def fault_free_def)

section \<open>Attempts\<close>

text \<open>
  C2: Beginning an attempt is atomic.  Wherever it stops, the report, the operator request and the
  refusal are as they were; and if an attempt is visible afterwards, then either nothing was written
  at all, or the record is complete (version, slot, fresh id, invalid flag, no stale progress flag
  and no stale reason).
\<close>

theorem begin_attempt_atomic:
  assumes "ota_kv_contract K flash" and "begin_attempt K ver slot was_inv st = (r, st')"
  shows "same_on (REPORT_RECORD \<union> REQUEST_RECORD \<union> {REJ_VER}) (flash (os_kv st)) (flash (os_kv st')) \<and>
    (flash (os_kv st') = flash (os_kv st) \<or> \<not> attempt_visible (flash (os_kv st')) \<or>
     (\<exists>label. slot_label slot = Some label \<and>
        attempt_written ver label was_inv (next_id (flash (os_kv st))) (flash (os_kv st'))))"
proof -
  note spec = spec_progD [OF ota_kv_contract.spec_begin_attempt [OF assms(1)] _ refl assms(2)]
  show ?thesis using spec(2,3) by (cases r) auto
qed

theorem begin_attempt_atomic_witness:
  "attempt_written (Version 2 0 0) ''ota_1'' False 1
     (fk_map (os_kv (snd (begin_attempt fault_ops (Version 2 0 0) (SlotId 1) False (crashing_store 8 Map.empty))))) \<and>
   fst (begin_attempt fault_ops (Version 2 0 0) (SlotId 1) False (crashing_store 8 Map.empty)) = Inl (Kv (KvError CRASHED))"
proof -
  let ?p = "begin_attempt fault_ops (Version 2 0 0) (SlotId 1) False (crashing_store 8 Map.empty)"
  note begin_attempt_atomic [OF fault.ota_kv_contract_axioms, of "Version 2 0 0" "SlotId 1" False
    "crashing_store 8 Map.empty" "fst ?p" "snd ?p", OF surjective_pairing]
  moreover have "attempt_visible (fk_map (os_kv (snd ?p)))" "fst ?p = Inl (Kv (KvError CRASHED))"
    by code_simp+
  moreover have "fk_map (os_kv (snd ?p)) \<noteq> Map.empty"
    using calculation(2) by (auto simp: attempt_visible_def)
  ultimately show ?thesis by (simp add: slot_label_def next_id_def ID_KEYS_def stored_id_def)
qed

text \<open>
  A begun attempt is read back.  On a backend without faults, with readable records and open
  admission, beginning an attempt on an OTA slot succeeds, reading yields exactly the version, slot
  and flag that were given, with neither boot selection nor activation nor a reason recorded, and
  admission is blocked from then on.
\<close>

theorem begin_attempt_read_back:
  assumes "ota_kv_reliable K flash sound" and "sound (os_kv st)"
    and "well_typed (flash (os_kv st))" and "admission_open (flash (os_kv st))"
    and "slot = SlotId 0 \<or> slot = SlotId 1"
  shows "\<exists>rid st'. begin_attempt K ver slot was_inv st = (Inr rid, st') \<and>
    fst (read_attempt K st') = Inr (Some \<lparr>sa_record = \<lparr>ar_attempt_id = rid, ar_version = Some ver, ar_slot = slot,
       ar_boot_selected = False, ar_activated = False, ar_slot_was_invalid = was_inv\<rparr>, sa_why = None\<rparr>) \<and>
    fst (admission K st') = Inr (admission.Blocked blocked_by.AttemptUnresolved)"
proof -
  obtain label where slot: "slot \<noteq> FACTORY_SLOT" "slot_label slot = Some label"
    using assms(5) by (auto simp: slot_label_def FACTORY_SLOT_def)
  obtain rid st' where b: "begin_attempt K ver slot was_inv st = (Inr rid, st')" "sound (os_kv st')"
    and m': "attempt_written ver label was_inv rid (flash (os_kv st'))" "well_typed (flash (os_kv st'))"
    by (rule spec_totalD [OF ota_kv_reliable.spec_begin_attempt_ok [OF assms(1,3,4) slot] assms(2) refl]) blast
  let ?a = "\<lparr>sa_record = \<lparr>ar_attempt_id = rid, ar_version = Some ver, ar_slot = slot, ar_boot_selected = False,
     ar_activated = False, ar_slot_was_invalid = was_inv\<rparr>, sa_why = None\<rparr>"
  have "fst (read_attempt K st') = Inr (Some ?a)"
    by (rule spec_totalD [OF ota_kv_reliable.rel_read_written [OF assms(1) m' slot, where Q = "\<lambda>x _. x = Some ?a"] b(2) refl]) simp_all
  moreover have "fst (admission K st') = Inr (admission.Blocked blocked_by.AttemptUnresolved)"
    by (rule spec_totalD [OF ota_kv_reliable.rel_admission [OF assms(1) _ m'(2),
          where Q = "\<lambda>x _. x = admission.Blocked blocked_by.AttemptUnresolved"] b(2) refl])
       (use m'(1) in \<open>simp_all add: attempt_visible_def attempt_written_def\<close>)
  ultimately show ?thesis using b(1) by blast
qed

theorem begin_attempt_read_back_witness:
  "\<exists>rid st'. begin_attempt fault_ops (Version 2 0 0) (SlotId 1) True (example_store Map.empty) = (Inr rid, st') \<and>
    fst (read_attempt fault_ops st') = Inr (Some \<lparr>sa_record = \<lparr>ar_attempt_id = rid, ar_version = Some (Version 2 0 0),
       ar_slot = SlotId 1, ar_boot_selected = False, ar_activated = False, ar_slot_was_invalid = True\<rparr>, sa_why = None\<rparr>) \<and>
    fst (admission fault_ops st') = Inr (admission.Blocked blocked_by.AttemptUnresolved)"
  by (rule begin_attempt_read_back [OF fault_sound.ota_kv_reliable_axioms])
     (simp_all add: well_typed_def mistyped_ex admission_open_def attempt_visible_def)

text \<open>
  Attempt ids are fresh.  A reserved id is not 0, is stored durably as the counter before it is
  returned, lies above every id that any record still carries unless the 32-bit counter wrapped, and
  reserving changes nothing but the counter and the install epoch.
\<close>

theorem next_attempt_id_fresh:
  assumes "ota_kv_contract K flash" and "next_attempt_id K st = (Inr rid, st')"
  shows "rid \<noteq> 0 \<and> flash (os_kv st') ATT_CTR = Some (U32 rid) \<and>
    ((\<exists>key \<in> set ID_KEYS. stored_id (flash (os_kv st)) key = - 1) \<or>
     (\<forall>key \<in> set ID_KEYS. stored_id (flash (os_kv st)) key < rid)) \<and>
    same_on (- {ATT_EPOCH, ATT_CTR}) (flash (os_kv st)) (flash (os_kv st'))"
proof -
  let ?m = "flash (os_kv st)"
  have "store_spec (\<lambda>_. True) flash (next_attempt_id K)
     (\<lambda>x m'. x = next_id ?m \<and> m' ATT_CTR = Some (U32 x) \<and> same_on (- {ATT_EPOCH, ATT_CTR}) ?m m') (\<lambda>_ _. True) ?m"
    by (rule ota_kv_contract.wp_next_attempt_id [OF assms(1)]) simp_all
  from spec_progD(2) [OF this _ refl assms(2)] next_id_fresh [of ?m] show ?thesis by auto
qed

theorem next_attempt_id_fresh_witness:
  "fk_map (os_kv (snd (next_attempt_id fault_ops (example_store (example_attempt(ATT_CTR \<mapsto> U32 2)))))) ATT_CTR = Some (U32 6)"
proof -
  let ?p = "next_attempt_id fault_ops (example_store (example_attempt(ATT_CTR \<mapsto> U32 2)))"
  have "fst ?p = Inr 6" by code_simp
  then have "?p = (Inr 6, snd ?p)" by (metis surjective_pairing)
  from next_attempt_id_fresh [OF fault.ota_kv_contract_axioms this] show ?thesis by simp
qed

text \<open>
  Clearing an attempt hides it first.  Only the seven attempt keys are touched; a clear that
  stops part-way leaves the attempt either whole or invisible, never half-readable; a clear that
  ends normally leaves none of its keys.
\<close>

theorem clear_attempt_whole_or_hidden:
  assumes "ota_kv_contract K flash" and "clear_attempt K st = (r, st')"
  shows "same_on (- set ATTEMPT_RECORD) (flash (os_kv st)) (flash (os_kv st')) \<and>
    (flash (os_kv st') = flash (os_kv st) \<or> \<not> attempt_visible (flash (os_kv st'))) \<and>
    (r = Inr () \<longrightarrow> (\<forall>key \<in> set ATTEMPT_RECORD. flash (os_kv st') key = None))"
proof -
  let ?m = "flash (os_kv st)"
  let ?P = "\<lambda>m'. same_on (- set ATTEMPT_RECORD) ?m m' \<and> (m' = ?m \<or> \<not> attempt_visible m')"
  have "store_spec (\<lambda>_. True) flash (clear_attempt K)
     (\<lambda>_ m'. ?P m' \<and> (\<forall>key \<in> set ATTEMPT_RECORD. m' key = None)) (\<lambda>_. ?P) ?m"
    using record_sets by (intro ota_kv_contract.wp_clear_attempt [OF assms(1)]) (auto simp: attempt_visible_def)
  from spec_progD(2,3) [OF this _ refl assms(2)] show ?thesis by (cases r) auto
qed

theorem clear_attempt_whole_or_hidden_witness:
  "fst (clear_attempt fault_ops (crashing_store 2 example_attempt)) = Inl (Kv (KvError CRASHED)) \<and>
   \<not> attempt_visible (fk_map (os_kv (snd (clear_attempt fault_ops (crashing_store 2 example_attempt)))))"
proof -
  let ?p = "clear_attempt fault_ops (crashing_store 2 example_attempt)"
  note clear_attempt_whole_or_hidden [OF fault.ota_kv_contract_axioms, of "crashing_store 2 example_attempt" "fst ?p" "snd ?p",
    OF surjective_pairing]
  moreover have "fst ?p = Inl (Kv (KvError CRASHED))" "fk_map (os_kv (snd ?p)) ATT_VER \<noteq> example_attempt ATT_VER"
    by code_simp+
  ultimately show ?thesis by auto
qed

text \<open>
  A validated image completes its attempt without losing anything else.  Completing touches only
  the attempt and the refusal; at the end no attempt key is left and a refusal survives only if it
  names exactly the running version; a completion that stops part-way keeps the attempt whole or
  hides it.
\<close>

theorem complete_attempt_clears:
  assumes "ota_kv_contract K flash" and "complete_attempt K running st = (r, st')"
  shows "same_on (- insert REJ_VER (set ATTEMPT_RECORD)) (flash (os_kv st)) (flash (os_kv st')) \<and>
    (same_on (set ATTEMPT_RECORD) (flash (os_kv st)) (flash (os_kv st')) \<or> \<not> attempt_visible (flash (os_kv st'))) \<and>
    (r = Inr () \<longrightarrow> (\<forall>key \<in> set ATTEMPT_RECORD. flash (os_kv st') key = None) \<and>
       (flash (os_kv st') REJ_VER = None \<or> refused_on (flash (os_kv st')) = Some running))"
  using spec_progD(2,3) [OF ota_kv_contract.spec_complete_attempt [OF assms(1)] _ refl assms(2)] record_sets
  by (cases r) (auto simp: attempt_visible_def refused_on_def)

theorem complete_attempt_clears_witness:
  "fk_map (os_kv (snd (complete_attempt fault_ops (Version 2 0 0) (example_store example_attempt)))) ATT_ID = None"
proof -
  let ?p = "complete_attempt fault_ops (Version 2 0 0) (example_store example_attempt)"
  have "fst ?p = Inr ()" by code_simp
  with complete_attempt_clears [OF fault.ota_kv_contract_axioms, of "Version 2 0 0"
    "example_store example_attempt" "fst ?p" "snd ?p", OF surjective_pairing]
  show ?thesis by (simp add: ATTEMPT_RECORD_def)
qed

section \<open>Reports, requests and refusals\<close>

text \<open>
  A rollback is on record before its attempt disappears.  Wherever reporting a rollback stops,
  either every attempt key is still as it was (so the next boot repeats it), or the attempt is hidden
  and the report with this attempt's id is pending and the version that was left is refused.
\<close>

theorem report_rollback_before_clear:
  assumes "ota_kv_contract K flash" and "report_rollback K rid left False st = (r, st')"
  shows "same_on (set ATTEMPT_RECORD) (flash (os_kv st)) (flash (os_kv st')) \<or>
    \<not> attempt_visible (flash (os_kv st')) \<and> report_durable rid (flash (os_kv st')) \<and>
    refusal_durable left (flash (os_kv st'))"
  using spec_progD(2,3) [OF ota_kv_contract.spec_report_rollback [OF assms(1)] _ refl assms(2)] record_sets
  by (cases r) (auto simp: attempt_visible_def)

theorem report_rollback_before_clear_witness:
  "report_durable 5 (fk_map (os_kv (snd (report_rollback fault_ops 5 (Some (Version 2 0 0)) False (crashing_store 7 example_attempt))))) \<and>
   fst (report_rollback fault_ops 5 (Some (Version 2 0 0)) False (crashing_store 7 example_attempt)) = Inl (Kv (KvError CRASHED))"
proof -
  let ?p = "report_rollback fault_ops 5 (Some (Version 2 0 0)) False (crashing_store 7 example_attempt)"
  have c: "fst ?p = Inl (Kv (KvError CRASHED))" "fk_map (os_kv (snd ?p)) ATT_VER = None" by code_simp+
  moreover have "\<not> same_on (set ATTEMPT_RECORD) example_attempt (fk_map (os_kv (snd ?p)))"
    using c(2) by (simp add: same_on_def ATTEMPT_RECORD_def example_attempt_def)
  ultimately show ?thesis
    using report_rollback_before_clear [OF fault.ota_kv_contract_axioms, of 5 "Some (Version 2 0 0)"
      "crashing_store 7 example_attempt" "fst ?p" "snd ?p", OF surjective_pairing] by simp
qed

text \<open>
  An acknowledgement delivers only the report it names.  The only write that marking a report
  delivered can make is clearing the pending flag of the report with exactly that id; for any other id
  and in every other outcome the stored content is unchanged.
\<close>

theorem mark_delivered_only_own_report:
  assumes "ota_kv_contract K flash" and "ack_delivered K rid st = (r, st')"
  shows "flash (os_kv st') = flash (os_kv st) \<and> r \<noteq> Inr Marked \<or>
    report_durable rid (flash (os_kv st)) \<and> flash (os_kv st') = (flash (os_kv st))(RB \<mapsto> U8 0) \<and>
    (r = Inr Marked \<or> (\<exists>e. r = Inl e))"
proof (cases r)
  case (Inl e)
  then show ?thesis
    using spec_progD(3) [OF ota_kv_contract.spec_mark_report_delivered [OF assms(1)] _ refl
        assms(2) [unfolded ack_delivered_def]] by blast
next
  case (Inr d)
  note post = spec_progD(2) [OF ota_kv_contract.spec_mark_report_delivered [OF assms(1)] _ refl
      assms(2) [unfolded ack_delivered_def] Inr, simplified]
  show ?thesis by (cases d) (use post Inr in simp_all)
qed

theorem mark_delivered_only_own_report_witness:
  "fk_map (os_kv (snd (ack_delivered fault_ops 4 (example_store [RB \<mapsto> U8 1, RB_ID \<mapsto> U32 3])))) RB = Some (U8 1)"
proof -
  let ?m = "[RB \<mapsto> U8 1, RB_ID \<mapsto> U32 3]"
  let ?p = "ack_delivered fault_ops 4 (example_store ?m)"
  have "fst ?p = Inr (OtherReport 3)" by code_simp
  with mark_delivered_only_own_report [OF fault.ota_kv_contract_axioms, of 4 "example_store ?m" "fst ?p" "snd ?p",
    OF surjective_pairing] show ?thesis by simp
qed

text \<open>
  An operator's rollback request is never lost.  Settling leaves a pending report pending and
  touches only the request and the report; the request marker disappears only if no rollback happened
  (its slot is running) or a report accounts for it; and \<^verbatim>\<open>Reported\<close> means the report with the
  request's id is durable.
\<close>

theorem settle_request_accounts:
  assumes "ota_kv_contract K flash" and "settle_request K running st = (r, st')"
  shows "same_on (- (REQUEST_RECORD \<union> REPORT_RECORD)) (flash (os_kv st)) (flash (os_kv st')) \<and>
    (flash (os_kv st) RB = Some (U8 1) \<longrightarrow> flash (os_kv st') RB = Some (U8 1)) \<and>
    (flash (os_kv st) RQ_FROM \<noteq> None \<and> flash (os_kv st') RQ_FROM = None \<longrightarrow>
       (\<exists>req. request_on_flash (flash (os_kv st)) req \<and> (rq_from req = running \<or> accounted req (flash (os_kv st'))))) \<and>
    (r = Inr Reported \<longrightarrow> (\<exists>req. request_on_flash (flash (os_kv st)) req \<and> report_durable (rq_id req) (flash (os_kv st'))))"
proof (cases r)
  case (Inl e)
  then show ?thesis
    using spec_progD(3) [OF ota_kv_contract.spec_settle_request [OF assms(1)] _ refl assms(2)]
    by (auto simp: settle_stopped_def same_on_def REQUEST_RECORD_def)
next
  case (Inr x)
  then show ?thesis
    using spec_progD(2) [OF ota_kv_contract.spec_settle_request [OF assms(1)] _ refl assms(2)]
    by (auto simp: settled_def report_durable_def accounted_def split: settle_outcome.splits)
qed

theorem settle_request_accounts_witness:
  "fk_map (os_kv (snd (settle_request fault_ops (SlotId 1)
     (crashing_store 6 [RQ_FROM \<mapsto> Str ''ota_0'', RQ_ID \<mapsto> U32 9, RQ_WHY \<mapsto> Str ''operator''])))) RB = Some (U8 1)"
proof -
  let ?m = "[RQ_FROM \<mapsto> Str ''ota_0'', RQ_ID \<mapsto> U32 9, RQ_WHY \<mapsto> Str ''operator'']"
  let ?p = "settle_request fault_ops (SlotId 1) (crashing_store 6 ?m)"
  note settle_request_accounts [OF fault.ota_kv_contract_axioms, of "SlotId 1" "crashing_store 6 ?m" "fst ?p" "snd ?p",
    OF surjective_pairing]
  moreover have "fk_map (os_kv (snd ?p)) RQ_FROM = None" "fk_map (os_kv (snd ?p)) RB_ID = Some (U32 9)"
    "fk_map (os_kv (snd ?p)) RB = Some (U8 1)" by code_simp+
  ultimately show ?thesis by simp
qed

text \<open>
  An operator rollback that fails to start is taken back completely.  From readable records and
  open admission, arming a rollback of a slot that has a label succeeds and refuses the running
  version; undoing it then reports no error, leaves no request, restores the refused version, and
  every other record except the id counter and the epoch is as before arming.
\<close>

theorem rollback_arm_undo:
  assumes "ota_kv_reliable K flash sound" and "sound (os_kv st)"
    and "well_typed (flash (os_kv st))" and "admission_open (flash (os_kv st))"
    and "slot_label slot = Some label"
  shows "\<exists>armed st1 undone st2. rollback_arm K slot running st = (Inr armed, st1) \<and>
    refused_on (flash (os_kv st1)) = Some running \<and> flash (os_kv st1) RQ_FROM \<noteq> None \<and>
    rollback_undo K armed st1 = (Inr undone, st2) \<and> is_clean undone \<and>
    refused_on (flash (os_kv st2)) = refused_on (flash (os_kv st)) \<and> flash (os_kv st2) RQ_FROM = None \<and>
    same_on (- (REQUEST_RECORD \<union> {ATT_EPOCH, ATT_CTR, REJ_VER})) (flash (os_kv st)) (flash (os_kv st2))"
proof -
  obtain armed st1 where arm: "rollback_arm K slot running st = (Inr armed, st1)" "sound (os_kv st1)"
    and armed: "armed_ok (flash (os_kv st)) slot running armed (flash (os_kv st1))"
    by (rule spec_totalD [OF ota_kv_reliable.spec_rollback_arm [OF assms(1,3,4,5)] assms(2) refl]) blast
  have "flash (os_kv st) RQ_FROM = None" using assms(4) by (simp add: admission_open_def)
  from spec_totalD [OF ota_kv_reliable.spec_rollback_undo [OF assms(1) armed this] arm(2) refl]
  obtain u st2 where undo: "rollback_undo K armed st1 = (Inr u, st2)"
    and post: "is_clean u" "refused_on (flash (os_kv st2)) = refused_on (flash (os_kv st))"
      "\<forall>key \<in> REQUEST_RECORD. flash (os_kv st2) key = None"
      "same_on (- (REQUEST_RECORD \<union> {ATT_EPOCH, ATT_CTR, REJ_VER})) (flash (os_kv st)) (flash (os_kv st2))"
    by blast
  have "refused_on (flash (os_kv st1)) = Some running" "flash (os_kv st1) RQ_FROM \<noteq> None"
    using armed by (auto simp: armed_ok_def split: option.splits rollback_noted.splits noted_target.splits)
  moreover have "flash (os_kv st2) RQ_FROM = None" using post(3) by (simp add: REQUEST_RECORD_def)
  ultimately show ?thesis using arm(1) undo post(1,2,4) by blast
qed

theorem rollback_arm_undo_witness:
  "\<exists>armed st1 undone st2. rollback_arm fault_ops (SlotId 1) (Version 1 0 0) (example_store [REJ_VER \<mapsto> Str ''0.9.0'']) = (Inr armed, st1) \<and>
    refused_on (fk_map (os_kv st1)) = Some (Version 1 0 0) \<and> fk_map (os_kv st1) RQ_FROM \<noteq> None \<and>
    rollback_undo fault_ops armed st1 = (Inr undone, st2) \<and> is_clean undone \<and>
    refused_on (fk_map (os_kv st2)) = refused_on [REJ_VER \<mapsto> Str ''0.9.0''] \<and> fk_map (os_kv st2) RQ_FROM = None \<and>
    same_on (- (REQUEST_RECORD \<union> {ATT_EPOCH, ATT_CTR, REJ_VER})) [REJ_VER \<mapsto> Str ''0.9.0''] (fk_map (os_kv st2))"
  using rollback_arm_undo [OF fault_sound.ota_kv_reliable_axioms, of "example_store [REJ_VER \<mapsto> Str ''0.9.0'']" "SlotId 1"
      "''ota_1''" "Version 1 0 0"]
  by (simp add: well_typed_def mistyped_ex admission_open_def attempt_visible_def slot_label_def split: if_splits)

section \<open>Admission\<close>

text \<open>
  Admission opens only over a settled store.  If a live admission check answers \<^verbatim>\<open>Open\<close> then no
  attempt is visible, no rollback request is armed and no report awaits delivery; and the check never
  writes.
\<close>

theorem admission_open_only_if_settled:
  assumes "ota_kv_contract K flash" and "admission K st = (r, st')"
  shows "flash (os_kv st') = flash (os_kv st) \<and> (r = Inr Open \<longrightarrow> admission_open (flash (os_kv st)))"
proof -
  have "store_spec (\<lambda>_. True) flash (admission K) (\<lambda>a m'. m' = flash (os_kv st) \<and> (a = Open \<longrightarrow> admission_open m'))
      (\<lambda>_ _. False) (flash (os_kv st))"
    by (rule ota_kv_contract.wp_admission [OF assms(1)]) simp_all
  from spec_progD(2,3) [OF this _ refl assms(2)] show ?thesis by (cases r) auto
qed

theorem admission_open_only_if_settled_witness: "\<not> attempt_visible [RB \<mapsto> U8 0, ATT_VER \<mapsto> Str ''1.0.0'']"
proof -
  let ?p = "admission fault_ops (example_store [RB \<mapsto> U8 0, ATT_VER \<mapsto> Str ''1.0.0''])"
  have "fst ?p = Inr Open" by code_simp
  with admission_open_only_if_settled [OF fault.ota_kv_contract_axioms, of
    "example_store [RB \<mapsto> U8 0, ATT_VER \<mapsto> Str ''1.0.0'']" "fst ?p" "snd ?p", OF surjective_pairing]
  show ?thesis by (simp add: admission_open_def)
qed

section \<open>Boot\<close>

text \<open>
  C4: The boot fails closed.  Boot reconciliation always returns an outcome.  If the hardware facts
  are missing, if a read of the records fails, or if a record on flash lacks a key or has a key of
  another type or an unknown label, it has failed closed.  When it fails closed or defers, nothing
  durable changed; failed closed also means that the image must not be marked valid, that admission is
  closed and that no rollback is started.  A settled boot leaves no visible attempt and no request, a
  reported rollback is on flash and announced as pending, a health check changes at most the activation
  flag, an unverified image never opens admission, and a boot that stops halfway had readable records
  and leaves the attempt as it was or not visible at all.
\<close>

theorem boot_fails_closed:
  assumes "ota_kv_contract K flash" and "reconcile_boot K hw rv st = (r, st')"
  shows "\<exists>out. r = Inr out \<and>
    ((\<exists>e. hw = Inl e) \<longrightarrow> (\<exists>f. bo_disposition out = FailedClosed f)) \<and>
    (\<forall>h e st1. hw = Inr h \<and> read_phase K st = (Inl e, st1) \<longrightarrow> bo_disposition out = FailedClosed (StoreFault e)) \<and>
    (\<not> records_readable (flash (os_kv st)) \<longrightarrow> (\<exists>f. bo_disposition out = FailedClosed f)) \<and>
    bo_refuse_mark_valid out = ((\<exists>f. bo_disposition out = FailedClosed f) \<or> bo_disposition out = RollBackNow) \<and>
    bo_roll_back_now out = (bo_disposition out = RollBackNow) \<and>
    (bo_admission_open_at_boot out \<longrightarrow> admission_open (flash (os_kv st')) \<and> bo_slot_released out) \<and>
    (bo_slot_released out \<longrightarrow> (\<exists>h. hw = Inr h \<and> hw_running_state h \<noteq> slot_state.PendingVerify)) \<and>
    (case bo_disposition out of
       FailedClosed _ \<Rightarrow> flash (os_kv st') = flash (os_kv st) \<and> \<not> bo_admission_open_at_boot out
     | Deferred \<Rightarrow> flash (os_kv st') = flash (os_kv st)
     | AwaitingHealthCheck \<Rightarrow> same_on (- {ATT_ACT}) (flash (os_kv st)) (flash (os_kv st'))
     | boot_disposition.Settled _ \<Rightarrow> \<not> attempt_visible (flash (os_kv st')) \<and> flash (os_kv st') RQ_FROM = None
     | ReportedRollback \<Rightarrow> \<not> attempt_visible (flash (os_kv st')) \<and> flash (os_kv st') RB = Some (U8 1) \<and> bo_report_pending out
     | RollBackNow \<Rightarrow> same_on (REPORT_RECORD \<union> {REJ_VER, ATT_VER, ATT_SLOT, ATT_ID, ATT_BOOT, ATT_INV})
         (flash (os_kv st)) (flash (os_kv st'))
     | Incomplete _ \<Rightarrow> records_readable (flash (os_kv st)) \<and>
         (same_on (set ATTEMPT_RECORD) (flash (os_kv st)) (flash (os_kv st')) \<or> \<not> attempt_visible (flash (os_kv st'))))"
proof -
  obtain out where r: "r = Inr out"
    using spec_progD(3) [OF ota_kv_contract.spec_reconcile_boot [OF assms(1)] _ refl assms(2)] by (cases r) auto
  have b: "boot_ok hw (flash (os_kv st)) out (flash (os_kv st'))"
    using spec_progD(2) [OF ota_kv_contract.spec_reconcile_boot [OF assms(1)] _ refl assms(2) r] by simp
  have hw: "\<exists>f. bo_disposition out = FailedClosed f" if "hw = Inl e" for e
    using spec_progD(2) [OF ota_kv_contract.spec_boot_no_facts [OF assms(1)] _ refl assms(2) [unfolded that] r] by simp
  have unreadable: "\<exists>f. bo_disposition out = FailedClosed f" if "\<not> records_readable (flash (os_kv st))"
    using spec_progD(2) [OF ota_kv_contract.spec_boot_unreadable [OF assms(1) that] _ refl assms(2) r] by simp
  have failed: "bo_disposition out = FailedClosed (StoreFault e)" if "hw = Inr h" "read_phase K st = (Inl e, st1)" for h e st1
    using ota_kv_contract.boot_read_error [OF assms(1) that(2)] assms(2) that(1) r by blast
  have incomplete: "records_readable (flash (os_kv st))" if "bo_disposition out = Incomplete e" for e
    using that unreadable by (cases "records_readable (flash (os_kv st))") auto
  have errors: "\<forall>h e st1. hw = Inr h \<and> read_phase K st = (Inl e, st1) \<longrightarrow> bo_disposition out = FailedClosed (StoreFault e)"
    "\<not> records_readable (flash (os_kv st)) \<longrightarrow> (\<exists>f. bo_disposition out = FailedClosed f)"
    "(\<exists>e. hw = Inl e) \<longrightarrow> (\<exists>f. bo_disposition out = FailedClosed f)"
    using failed unreadable hw by blast+
  show ?thesis
    by (rule exI [of _ out], intro conjI r errors)
      (use b incomplete in \<open>auto simp: boot_ok_def outcome_ok_def sequence_ok_def attempt_whole_def split: boot_disposition.splits sum.splits\<close>)
qed

theorem boot_fails_closed_witness:
  "fk_map (os_kv (snd (reconcile_boot fault_ops (Inr example_hw) None (example_store [ATT_VER \<mapsto> Str ''2.0.0'', ATT_SLOT \<mapsto> U8 3])))) =
     [ATT_VER \<mapsto> Str ''2.0.0'', ATT_SLOT \<mapsto> U8 3]"
proof -
  let ?m = "[ATT_VER \<mapsto> Str ''2.0.0'', ATT_SLOT \<mapsto> U8 3]"
  let ?p = "reconcile_boot fault_ops (Inr example_hw) None (example_store ?m)"
  have "map_sum id bo_disposition (fst ?p) = Inr (FailedClosed (StoreFault (Kv (KvError CODE_TYPE_MISMATCH))))"
    by code_simp
  with boot_fails_closed [OF fault.ota_kv_contract_axioms, of "Inr example_hw" None "example_store ?m" "fst ?p" "snd ?p",
    OF surjective_pairing]
  show ?thesis by auto
qed

text \<open>
  C1: A rollback survives every interruption of the boot that reports it.  When the attempt on flash
  was booted or selected and another slot is running now, then whatever the backend does during
  reconciliation (any error, a power loss after any commit), the attempt is still there for the next
  boot or its rollback is completely recorded: report pending under its id, left version refused,
  attempt gone.  The boot ends as reported, incomplete or failed closed, nothing else.
\<close>

theorem boot_rollback_never_lost:
  assumes "ota_kv_contract K flash" and "reconcile_boot K (Inr h) rv st = (r, st')"
    and "attempt_on_flash (flash (os_kv st)) a" and "ar_slot a \<noteq> hw_running_slot h"
    and "ar_activated a \<or> ar_boot_selected a"
  shows "(attempt_on_flash (flash (os_kv st')) a \<or> rollback_recorded a (flash (os_kv st'))) \<and>
    (\<exists>out. r = Inr out \<and> (case bo_disposition out of
        ReportedRollback \<Rightarrow> rollback_recorded a (flash (os_kv st'))
      | Incomplete _ \<Rightarrow> True
      | FailedClosed _ \<Rightarrow> flash (os_kv st') = flash (os_kv st)
      | _ \<Rightarrow> False))"
proof -
  note spec = ota_kv_contract.spec_boot_rollback [OF assms(1,3,4,5)]
  obtain out where r: "r = Inr out"
    using spec_progD(3) [OF spec _ refl assms(2)] by (cases r) auto
  note post = spec_progD(2) [OF spec _ refl assms(2) r]
  show ?thesis
    using post r assms(3) attempt_on_flash_same [of "flash (os_kv st)" "flash (os_kv st')" a]
    by (cases "bo_disposition out") auto
qed

theorem boot_rollback_never_lost_witness:
  "rollback_recorded \<lparr>ar_attempt_id = 5, ar_version = Some (Version 2 0 0), ar_slot = SlotId 1, ar_boot_selected = True,
      ar_activated = True, ar_slot_was_invalid = False\<rparr>
     (fk_map (os_kv (snd (reconcile_boot fault_ops (Inr example_hw) None (crashing_store 8 example_attempt)))))"
proof -
  let ?a = "\<lparr>ar_attempt_id = 5, ar_version = Some (Version 2 0 0), ar_slot = SlotId 1, ar_boot_selected = True,
      ar_activated = True, ar_slot_was_invalid = False\<rparr>"
  let ?p = "reconcile_boot fault_ops (Inr example_hw) None (crashing_store 8 example_attempt)"
  have v: "version_parse_ok ''2.0.0'' = Some (Version 2 0 0)"
    by (rule version_parse_ok_display [of "Version 2 0 0", unfolded example_version])
  have a: "attempt_on_flash example_attempt ?a"
    by (simp add: attempt_on_flash_def example_attempt_def slot_on_flash_def slot_from_label_def v)
  have "map_sum id bo_disposition (fst ?p) = Inr (Incomplete (Kv (KvError CRASHED)))"
    "fk_map (os_kv (snd ?p)) ATT_VER = None" by code_simp+
  moreover have "\<not> attempt_on_flash (fk_map (os_kv (snd ?p))) ?a"
    using calculation(2) by (simp add: attempt_on_flash_def)
  ultimately show ?thesis
    using boot_rollback_never_lost [OF fault.ota_kv_contract_axioms, of example_hw None "crashing_store 8 example_attempt"
      "fst ?p" "snd ?p" ?a, OF surjective_pairing] a
    by (simp add: example_hw_def)
qed

text \<open>
  C3: A boot on a healthy backend finishes the rollback report.  With readable records and no pending
  report of another event, the boot ends as \<^verbatim>\<open>ReportedRollback\<close> with the report durable, the left version
  refused and the attempt gone: what an interrupted boot left is completed by the next one.
\<close>

theorem boot_completes_rollback:
  assumes "ota_kv_reliable K flash sound" and "sound (os_kv st)"
    and "attempt_on_flash (flash (os_kv st)) a" and "ar_slot a \<noteq> hw_running_slot h"
    and "ar_activated a \<or> ar_boot_selected a"
    and "well_typed (flash (os_kv st))" and "bad_count (flash (os_kv st)) = 0"
    and "\<And>s. flash (os_kv st) ATT_WHY = Some (Str s) \<Longrightarrow> length s \<le> kvstr_cap"
    and "flash (os_kv st) RB = Some (U8 1) \<Longrightarrow>
      flash (os_kv st) RB_ID = None \<or> flash (os_kv st) RB_ID = Some (U32 (ar_attempt_id a))"
  shows "\<exists>out st'. reconcile_boot K (Inr h) rv st = (Inr out, st') \<and>
    bo_disposition out = ReportedRollback \<and> rollback_recorded a (flash (os_kv st'))"
  by (rule spec_totalD [OF ota_kv_reliable.spec_boot_rollback_ok [OF assms(1,3,4,5,6) _ assms(8,9)] assms(2) refl])
     (use assms(7) bad_count_0 in auto)

theorem boot_completes_rollback_witness:
  "\<exists>out st'. reconcile_boot fault_ops (Inr example_hw) None (example_store (example_attempt(RB \<mapsto> U8 1))) = (Inr out, st') \<and>
    bo_disposition out = ReportedRollback \<and>
    rollback_recorded \<lparr>ar_attempt_id = 5, ar_version = Some (Version 2 0 0), ar_slot = SlotId 1, ar_boot_selected = True,
      ar_activated = True, ar_slot_was_invalid = False\<rparr> (fk_map (os_kv st'))"
proof -
  have v: "version_parse_ok ''2.0.0'' = Some (Version 2 0 0)"
    by (rule version_parse_ok_display [of "Version 2 0 0", unfolded example_version])
  show ?thesis
    by (rule boot_completes_rollback [OF fault_sound.ota_kv_reliable_axioms])
       (auto simp: example_attempt_def example_hw_def attempt_on_flash_def slot_on_flash_def slot_from_label_def v
          well_typed_def mistyped_ex bad_count_def group_bad_def any_mistyped_def ATTEMPT_KEYS_def REQUEST_KEYS_def
          REPORT_KEYS_def COUNTER_KEYS_def attempt_label_bad_def request_label_bad_ex FACTORY_SLOT_def split: if_splits)
qed

section \<open>Repair\<close>



text \<open>
  Repaired records no longer wedge the boot.  When no record group is unreadable, a boot on a
  backend without faults whose hardware facts are available never fails closed.
\<close>

theorem repaired_boot_proceeds:
  assumes "ota_kv_reliable K flash sound" and "sound (os_kv st)" and "bad_count (flash (os_kv st)) = 0"
  shows "\<exists>out st'. reconcile_boot K (Inr h) rv st = (Inr out, st') \<and> bo_action out \<noteq> None \<and>
    (\<forall>f. bo_disposition out \<noteq> FailedClosed f)"
  by (rule ota_kv_reliable.boot_proceeds [OF assms(1,2)]) (use assms(3) bad_count_0 in auto)

theorem repaired_boot_proceeds_witness:
  "\<exists>out st'. reconcile_boot fault_ops (Inr example_hw) None (example_store [RB \<mapsto> U8 1, ATT_WHY \<mapsto> U8 0]) = (Inr out, st') \<and>
    bo_action out \<noteq> None \<and> (\<forall>f. bo_disposition out \<noteq> FailedClosed f)"
  by (rule repaired_boot_proceeds [OF fault_sound.ota_kv_reliable_axioms example_sound], simp, code_simp)

end
