(* ===== verification/Ota_Write_Align.thy ===== *)
theory Ota_Write_Align
  imports Juggler_Prelude
begin

text \<open>
  Word-aligned flash writes from an arbitrarily chunked stream (\<^verbatim>\<open>juggler/src/ota/write_align.rs\<close>).

  The aligner's state is a record with its eight-byte carry buffer; the write callback is a program
  over the device state, so a failing write leaves exactly what the code leaves.  \<open>nor_write\<close> is the
  device the aligner is written for: it takes a write only if offset and length are multiples of the
  write size and the write continues the image.  The invariant relates the carry to the stream seen
  so far; from it follows that the device never refuses a write and ends up with the padded stream.
\<close>

section \<open>Model\<close>

definition MAX_WRITE_SIZE :: nat where "MAX_WRITE_SIZE = 8"

record chunk_aligner =
  write_size :: nat
  carry :: "u8 list"
  carry_len :: nat
  carry_offset :: u32

datatype 'e align_error = OutOfOrder | Write 'e

text \<open>\<open>None\<close> is the panic of the constructor's assertion.\<close>

definition aligner_new :: "nat \<Rightarrow> chunk_aligner option" where
  "aligner_new ws =
     (if ws \<in> {1, 2, 4, 8} then
        Some \<lparr>write_size = ws, carry = replicate MAX_WRITE_SIZE 0, carry_len = 0, carry_offset = 0\<rparr>
      else None)"

text \<open>\<^verbatim>\<open>buf[from..from + src.len()].copy_from_slice(src)\<close>\<close>

definition copy_into :: "'b list \<Rightarrow> nat \<Rightarrow> 'b list \<Rightarrow> 'b list" where
  "copy_into buf from src = take from buf @ src @ drop (from + length src) buf"

definition call_write ::
  "(u32 \<Rightarrow> u8 list \<Rightarrow> ('w, 'e, unit) prog) \<Rightarrow> u32 \<Rightarrow> u8 list \<Rightarrow> (chunk_aligner \<times> 'w, 'e align_error, unit) prog" where
  "call_write write off data = (\<lambda>(al, w). case write off data w of
       (Inl e, w') \<Rightarrow> (Inl (Write e), (al, w'))
     | (Inr _, w') \<Rightarrow> (Inr (), (al, w')))"

definition with_aligner :: "(chunk_aligner \<Rightarrow> chunk_aligner) \<Rightarrow> (chunk_aligner \<times> 'w, 'e align_error, unit) prog" where
  "with_aligner f = (\<lambda>(al, w). (Inr (), (f al, w)))"

text \<open>Whole words go out straight from the caller's buffer; the remainder waits in the carry.\<close>

definition push_rest ::
  "(u32 \<Rightarrow> u8 list \<Rightarrow> ('w, 'e, unit) prog) \<Rightarrow> u8 list \<Rightarrow> (chunk_aligner \<times> 'w, 'e align_error, unit) prog" where
  "push_rest write bytes = (\<lambda>(al, w).
     let whole = length bytes - length bytes mod write_size al;
         rest = drop whole bytes
     in andThen
          (if 0 < whole then
             andThen (call_write write (carry_offset al) (take whole bytes))
               (\<lambda>_. with_aligner (\<lambda>a. a\<lparr>carry_offset := carry_offset a + of_nat whole\<rparr>))
           else ok ())
          (\<lambda>_. if rest \<noteq> [] then
                  with_aligner (\<lambda>a. a\<lparr>carry := copy_into (carry a) 0 rest, carry_len := length rest\<rparr>)
                else ok ()) (al, w))"

definition push ::
  "(u32 \<Rightarrow> u8 list \<Rightarrow> ('w, 'e, unit) prog) \<Rightarrow> u32 \<Rightarrow> u8 list \<Rightarrow> (chunk_aligner \<times> 'w, 'e align_error, unit) prog" where
  "push write offset bytes = (\<lambda>(al, w).
     if offset \<noteq> carry_offset al + of_nat (carry_len al) then (Inl OutOfOrder, (al, w))
     else if 0 < carry_len al then
       (let take' = min (write_size al - carry_len al) (length bytes);
            al1 = al\<lparr>carry := copy_into (carry al) (carry_len al) (take take' bytes), carry_len := carry_len al + take'\<rparr>
        in if carry_len al1 < write_size al1 then (Inr (), (al1, w))
           else andThen (call_write write (carry_offset al1) (take (write_size al1) (carry al1)))
                  (\<lambda>_. andThen (with_aligner (\<lambda>a. a\<lparr>carry_offset := carry_offset a + of_nat (write_size a), carry_len := 0\<rparr>))
                  (\<lambda>_. push_rest write (drop take' bytes))) (al1, w))
     else push_rest write bytes (al, w))"

definition finish ::
  "(u32 \<Rightarrow> u8 list \<Rightarrow> ('w, 'e, unit) prog) \<Rightarrow> u32 \<Rightarrow> (chunk_aligner \<times> 'w, 'e align_error, unit) prog" where
  "finish write end' = (\<lambda>(al, w).
     if carry_len al = 0 then (Inr (), (al, w))
     else if end' \<noteq> carry_offset al + of_nat (carry_len al) then (Inl OutOfOrder, (al, w))
     else
       let al1 = al\<lparr>carry := copy_into (carry al) (carry_len al) (replicate (write_size al - carry_len al) 255)\<rparr>
       in andThen (call_write write (carry_offset al1) (take (write_size al1) (carry al1)))
            (\<lambda>_. with_aligner (\<lambda>a. a\<lparr>carry_offset := carry_offset a + of_nat (write_size a), carry_len := 0\<rparr>)) (al1, w))"

definition round_up :: "u32 \<Rightarrow> u32 \<Rightarrow> u32" where
  "round_up len align = (if len mod align = 0 then len div align else len div align + 1) * align"

section \<open>The device and the stream\<close>

datatype nor_error = Misaligned | NotContiguous

definition nor_write :: "nat \<Rightarrow> u32 \<Rightarrow> u8 list \<Rightarrow> (u8 list, nor_error, unit) prog" where
  "nor_write ws off data = (\<lambda>img.
     if unat off mod ws \<noteq> 0 \<or> length data mod ws \<noteq> 0 then (Inl Misaligned, img)
     else if unat off \<noteq> length img then (Inl NotContiguous, img)
     else (Inr (), img @ data))"

text \<open>Pushing the chunks of a download one after the other, each at the offset the stream has reached.\<close>

fun push_all :: "nat \<Rightarrow> nat \<Rightarrow> u8 list list \<Rightarrow> (chunk_aligner \<times> u8 list, nor_error align_error, unit) prog" where
  "push_all ws off [] = ok ()"
| "push_all ws off (c # cs) = andThen (push (nor_write ws) (of_nat off) c) (\<lambda>_. push_all ws (off + length c) cs)"

definition aligner_inv :: "nat \<Rightarrow> chunk_aligner \<Rightarrow> u8 list \<Rightarrow> u8 list \<Rightarrow> bool" where
  "aligner_inv ws al img stream \<longleftrightarrow>
     0 < ws \<and> ws \<le> MAX_WRITE_SIZE \<and> write_size al = ws \<and> length (carry al) = MAX_WRITE_SIZE \<and> carry_len al < ws \<and>
     ws dvd length img \<and> carry_offset al = of_nat (length img) \<and>
     stream = img @ take (carry_len al) (carry al) \<and> length stream < 2 ^ 32"

section \<open>Every chunking yields the same aligned writes\<close>

lemma length_copy_into: "from + length src \<le> length buf \<Longrightarrow> length (copy_into buf from src) = length buf"
  by (simp add: copy_into_def)

lemma take_copy_into: "from \<le> length buf \<Longrightarrow> take (from + length src) (copy_into buf from src) = take from buf @ src"
  by (simp add: copy_into_def)

lemma nor_write_ok:
  assumes "ws dvd length img" "ws dvd length data" "length img < 2 ^ 32"
  shows "nor_write ws (of_nat (length img)) data img = (Inr (), img @ data)"
  using assms by (simp add: nor_write_def unat_of_nat take_bit_nat_eq_self mod_eq_0_iff_dvd)

lemma push_rest_inv:
  assumes inv: "aligner_inv ws al img stream" and empty: "carry_len al = 0" and len: "length stream + length bytes < 2 ^ 32"
  shows "\<exists>al' img'. push_rest (nor_write ws) bytes (al, img) = (Inr (), (al', img')) \<and>
    aligner_inv ws al' img' (stream @ bytes)"
proof -
  define whole where "whole = length bytes - length bytes mod ws"
  have ws: "0 < ws" "ws \<le> MAX_WRITE_SIZE" "write_size al = ws" "length (carry al) = MAX_WRITE_SIZE"
    and im: "ws dvd length img" "carry_offset al = of_nat (length img)" "stream = img"
    using inv empty by (auto simp: aligner_inv_def)
  have whole: "whole \<le> length bytes" "ws dvd whole" "length (drop whole bytes) < ws"
    using ws(1) by (simp_all add: whole_def)
  have w: "nor_write ws (of_nat (length img)) (take whole bytes) img = (Inr (), img @ take whole bytes)"
    using im len whole by (intro nor_write_ok) (auto simp: min_def)
  define al1 where "al1 = (if 0 < whole then al\<lparr>carry_offset := carry_offset al + of_nat whole\<rparr> else al)"
  define al2 where "al2 = (if drop whole bytes \<noteq> []
    then al1\<lparr>carry := copy_into (carry al) 0 (drop whole bytes), carry_len := length (drop whole bytes)\<rparr> else al1)"
  have "push_rest (nor_write ws) bytes (al, img) = (Inr (), (al2, img @ take whole bytes))"
    unfolding push_rest_def Let_def prod.case ws(3) whole_def [symmetric]
    using w im(2) by (auto simp: prog_defs call_write_def with_aligner_def al1_def al2_def)
  moreover have "take (length (drop whole bytes)) (copy_into (carry al) 0 (drop whole bytes)) = drop whole bytes"
    "length (copy_into (carry al) 0 (drop whole bytes)) = MAX_WRITE_SIZE"
    using ws whole(3) by (simp_all add: copy_into_def)
  then have "aligner_inv ws al2 (img @ take whole bytes) (stream @ bytes)"
    using ws im len whole empty by (auto simp: aligner_inv_def al1_def al2_def)
  ultimately show ?thesis by blast
qed

lemma push_inv:
  assumes inv: "aligner_inv ws al img stream" and len: "length stream + length bytes < 2 ^ 32"
  shows "\<exists>al' img'. push (nor_write ws) (of_nat (length stream)) bytes (al, img) = (Inr (), (al', img')) \<and>
    aligner_inv ws al' img' (stream @ bytes)"
proof (cases "carry_len al = 0")
  case True
  then have "of_nat (length stream) = carry_offset al + of_nat (carry_len al)"
    using inv by (simp add: aligner_inv_def)
  with True push_rest_inv [OF inv True len] show ?thesis by (simp add: push_def)
next
  case False
  have ws: "0 < ws" "ws \<le> MAX_WRITE_SIZE" "write_size al = ws" "length (carry al) = MAX_WRITE_SIZE" "carry_len al < ws"
    and im: "ws dvd length img" "carry_offset al = of_nat (length img)" "stream = img @ take (carry_len al) (carry al)"
    using inv by (auto simp: aligner_inv_def)
  have off: "of_nat (length stream) = carry_offset al + of_nat (carry_len al)"
    using ws im by (simp add: min_def)
  define t where "t = min (ws - carry_len al) (length bytes)"
  define al1 where "al1 = al\<lparr>carry := copy_into (carry al) (carry_len al) (take t bytes), carry_len := carry_len al + t\<rparr>"
  have t: "t \<le> length bytes" "carry_len al + t \<le> ws" using ws(5) by (auto simp: t_def)
  have lt: "length (take t bytes) = t" using t(1) by simp
  have carry1: "take (carry_len al + t) (carry al1) = take (carry_len al) (carry al) @ take t bytes"
    "length (carry al1) = MAX_WRITE_SIZE"
    using take_copy_into [of "carry_len al" "carry al" "take t bytes", unfolded lt]
      length_copy_into [of "carry_len al" "take t bytes" "carry al", unfolded lt] ws t
    by (simp_all add: al1_def)
  show ?thesis
  proof (cases "carry_len al + t < ws")
    case True
    then have "t = length bytes" by (auto simp: t_def)
    then have "aligner_inv ws al1 img (stream @ bytes)"
      using ws im carry1 True len by (simp add: aligner_inv_def al1_def)
    moreover have "push (nor_write ws) (of_nat (length stream)) bytes (al, img) = (Inr (), (al1, img))"
      using False off True ws
      by (simp add: push_def Let_def t_def [symmetric] al1_def)
    ultimately show ?thesis by blast
  next
    case filled: False
    then have full: "carry_len al + t = ws" using t(2) by simp
    define al2 where "al2 = al1\<lparr>carry_offset := carry_offset al + of_nat ws, carry_len := 0\<rparr>"
    let ?word = "take ws (carry al1)"
    have "take t bytes @ drop t bytes = bytes" by simp
    then have word: "?word = take (carry_len al) (carry al) @ take t bytes" "stream @ bytes = (img @ ?word) @ drop t bytes"
      using carry1 full im(3) by simp_all
    have inv2: "aligner_inv ws al2 (img @ ?word) (img @ ?word)"
      using ws im carry1 full len t word by (simp add: aligner_inv_def al2_def al1_def)
    have written: "nor_write ws (of_nat (length img)) ?word img = (Inr (), img @ ?word)"
      using im ws carry1 len by (intro nor_write_ok) simp_all
    have "push (nor_write ws) (of_nat (length stream)) bytes (al, img) = push_rest (nor_write ws) (drop t bytes) (al2, img @ ?word)"
      using False off filled ws written im(2)
      by (simp add: push_def Let_def t_def [symmetric] al1_def [symmetric] prog_defs call_write_def with_aligner_def)
         (simp add: al2_def al1_def)
    moreover have "length (img @ ?word) + length (drop t bytes) < 2 ^ 32"
      using len unfolding word(2) [symmetric] length_append [symmetric] by simp
    ultimately show ?thesis
      using push_rest_inv [OF inv2, of "drop t bytes"] by (simp add: al2_def word(2))
  qed
qed

lemma push_all_inv:
  assumes "aligner_inv ws al img stream" and "length stream + length (concat cs) < 2 ^ 32"
  shows "\<exists>al' img'. push_all ws (length stream) cs (al, img) = (Inr (), (al', img')) \<and>
    aligner_inv ws al' img' (stream @ concat cs)"
  using assms
proof (induction cs arbitrary: al img stream)
  case Nil
  then show ?case by (simp add: ok_def)
next
  case (Cons c cs)
  then obtain al1 img1 where p: "push (nor_write ws) (of_nat (length stream)) c (al, img) = (Inr (), (al1, img1))"
    and inv: "aligner_inv ws al1 img1 (stream @ c)"
    using push_inv [of ws al img stream c] by auto
  from Cons.IH [OF inv] Cons.prems(2) p show ?case by (simp add: andThen_def)
qed

definition pad_len :: "nat \<Rightarrow> nat \<Rightarrow> nat" where
  "pad_len ws n = (ws - n mod ws) mod ws"

lemma finish_inv:
  assumes inv: "aligner_inv ws al img stream"
  shows "\<exists>al' img'. finish (nor_write ws) (of_nat (length stream)) (al, img) = (Inr (), (al', img')) \<and>
    img' = stream @ replicate (pad_len ws (length stream)) 255 \<and> carry_len al' = 0"
proof -
  have ws: "0 < ws" "ws \<le> MAX_WRITE_SIZE" "write_size al = ws" "length (carry al) = MAX_WRITE_SIZE" "carry_len al < ws"
    and im: "ws dvd length img" "carry_offset al = of_nat (length img)" "stream = img @ take (carry_len al) (carry al)"
    and small: "length img < 2 ^ 32"
    using inv by (auto simp: aligner_inv_def)
  have len: "length stream = length img + carry_len al" using ws im(3) by simp
  with im(1) ws(5) have m: "length stream mod ws = carry_len al" by auto
  show ?thesis
  proof (cases "carry_len al = 0")
    case True
    then show ?thesis using im m by (auto simp: finish_def pad_len_def)
  next
    case False
    let ?pad = "replicate (ws - carry_len al) (255 :: u8)"
    have w: "take ws (copy_into (carry al) (carry_len al) ?pad) = take (carry_len al) (carry al) @ ?pad"
      using take_copy_into [of "carry_len al" "carry al" ?pad] ws by simp
    have "nor_write ws (of_nat (length img)) (take (carry_len al) (carry al) @ ?pad) img =
        (Inr (), img @ take (carry_len al) (carry al) @ ?pad)"
      using im(1) small ws by (intro nor_write_ok) simp_all
    then show ?thesis
      using False ws im len w m
      by (simp add: finish_def Let_def prog_defs call_write_def with_aligner_def pad_len_def)
  qed
qed

lemma round_up_unat:
  assumes "0 < align" and "unat len + unat align \<le> 2 ^ 32"
  shows "unat (round_up len align) = unat len + pad_len (unat align) (unat len)"
proof -
  let ?n = "unat len" and ?a = "unat align"
  have a: "0 < ?a" using assms(1) by (simp add: word_less_nat_alt)
  have m: "len mod align = 0 \<longleftrightarrow> ?n mod ?a = 0" by (metis unat_mod_distrib unat_eq_0)
  have d: "len div align = of_nat (?n div ?a)" by (simp add: unat_div_distrib [symmetric])
  have pad: "pad_len ?a ?n < ?a" using a by (simp add: pad_len_def)
  have "round_up len align = of_nat (?n + pad_len ?a ?n)"
  proof (cases "?n mod ?a = 0")
    case True
    then have "?n div ?a * ?a = ?n" by auto
    then have "of_nat (?n div ?a) * align = (of_nat ?n :: u32)"
      by (metis of_nat_mult of_nat_unat ucast_id)
    with True m d show ?thesis by (simp add: round_up_def pad_len_def)
  next
    case False
    then have "pad_len ?a ?n = ?a - ?n mod ?a" using a by (simp add: pad_len_def)
    moreover have "(?n div ?a + 1) * ?a = ?n div ?a * ?a + ?a" by simp
    ultimately have "(?n div ?a + 1) * ?a = ?n + pad_len ?a ?n"
      using mod_less_divisor [OF a, of ?n] div_mult_mod_eq [of ?n ?a] by linarith
    then have "(of_nat (?n div ?a + 1) :: u32) * of_nat ?a = of_nat (?n + pad_len ?a ?n)"
      by (metis of_nat_mult)
    with False m d show ?thesis by (simp add: round_up_def add.commute)
  qed
  moreover have "unat (of_nat (?n + pad_len ?a ?n) :: u32) = ?n + pad_len ?a ?n"
    using assms(2) pad by (intro unat_of_nat_less) simp
  ultimately show ?thesis by simp
qed

text \<open>
  Every chunking of a download yields the padded image.  For each write size the constructor
  accepts and every list of chunks that together stay below 4 GiB, pushing them one after the other and
  finishing never fails, the device never sees a misaligned or non-contiguous write, and it ends up
  with exactly the bytes of the stream, padded with the erased value to the write size.
\<close>

theorem aligned_writes_reproduce_stream:
  assumes "aligner_new ws = Some al" and "length (concat cs) < 2 ^ 32"
  shows "\<exists>al1 img1 al2. push_all ws 0 cs (al, []) = (Inr (), (al1, img1)) \<and>
    finish (nor_write ws) (of_nat (length (concat cs))) (al1, img1) =
      (Inr (), (al2, concat cs @ replicate (pad_len ws (length (concat cs))) 255))"
proof -
  have "aligner_inv ws al [] []"
    using assms(1) by (auto simp: aligner_new_def aligner_inv_def MAX_WRITE_SIZE_def split: if_splits)
  from push_all_inv [OF this, of cs] assms(2) obtain al1 img1
    where "push_all ws 0 cs (al, []) = (Inr (), (al1, img1))" "aligner_inv ws al1 img1 (concat cs)" by auto
  with finish_inv [of ws al1 img1 "concat cs"] show ?thesis by blast
qed

theorem aligned_writes_reproduce_stream_witness:
  "\<exists>al1 img1 al2. push_all 4 0 [[1, 2, 3], [], [4, 5]] (the (aligner_new 4), []) = (Inr (), (al1, img1)) \<and>
    finish (nor_write 4) 5 (al1, img1) = (Inr (), (al2, [1, 2, 3, 4, 5] @ replicate 3 255))"
proof -
  have "aligner_new 4 = Some (the (aligner_new 4))" by (simp add: aligner_new_def)
  moreover have "concat [[1, 2, 3], [], [4, 5]] = [1, 2, 3, 4, 5 :: u8]" "pad_len 4 (Suc (Suc (Suc (Suc (Suc 0))))) = 3"
    by (simp_all add: pad_len_def)
  ultimately show ?thesis
    using aligned_writes_reproduce_stream [of 4 "the (aligner_new 4)" "[[1, 2, 3], [], [4, 5]]"] by simp
qed

end
