(* ===== verification/Ota_Health.thy ===== *)
theory Ota_Health
  imports Ota_Boot
begin

text \<open>
  The health policy of a freshly activated image (\<^verbatim>\<open>juggler/src/ota/runtime/health.rs\<close>), a state
  machine that decides when the image is marked valid and what happens when it never proves healthy.
  A step takes the elapsed time since boot, the refusal flag and the answer to the previous action.

  Durations are numbers of nanoseconds; the counters keep their 32 bits.  The lemmas follow a run with
  its history: nothing touches a slot that was not read as pending verification, an image is marked
  valid only after the dwell time and an unrefused healthy answer, and a driver that answers what it is
  asked brings the policy to a verdict within a computable number of steps after the deadline.
\<close>

section \<open>Model\<close>

datatype deadline_action = RollbackAtDeadline | NoteAndRestart rollback_reason

record health_config =
  hc_healthy_dwell :: duration
  hc_failure_deadline :: duration
  hc_poll_interval :: duration
  hc_slot_retry :: duration
  hc_slot_min_attempts :: u32
  hc_slot_warn_every :: u32
  hc_complete_attempts :: u32
  hc_complete_retry :: duration
  hc_rollback_attempts :: u32
  hc_rollback_retry :: duration
  hc_deadline_action :: deadline_action

datatype slot_reading = SrPendingVerify | SrNotPending | SrBusy | SrFailed

datatype health_event =
    EvBegin | EvWoke | EvSlot slot_reading | EvHealthy bool | EvMarked bool | EvCompleted bool
  | EvNoted | EvRollbackReturned bool | EvRestartReturned

datatype health_verdict =
    Applied | ApplyNotRecorded | NothingToVerify | DeadlineRolledBack | DeadlineRollbackFailed
  | RestartReturned | SlotUnreadable | AlreadyRunning

datatype health_action =
    ReadSlot | Sleep duration | Evaluate | MarkValid | CompleteTheAttempt | NoteRollback rollback_reason
  | Rollback | Restart | Finish health_verdict

definition publishes_applied :: "health_verdict \<Rightarrow> bool" where
  "publishes_applied v \<longleftrightarrow> v = Applied \<or> v = ApplyNotRecorded"

definition arms_completion_retry :: "health_verdict \<Rightarrow> bool" where
  "arms_completion_retry v \<longleftrightarrow> v = ApplyNotRecorded"

definition opens_admission :: "health_verdict \<Rightarrow> bool" where
  "opens_admission v \<longleftrightarrow>
     v \<in> {Applied, ApplyNotRecorded, NothingToVerify, DeadlineRolledBack, DeadlineRollbackFailed, RestartReturned}"

definition initial_admission :: "boot_outcome \<Rightarrow> bool" where
  "initial_admission out \<longleftrightarrow> bo_slot_released out \<and> \<not> bo_refuse_mark_valid out \<and> \<not> bo_roll_back_now out \<and>
     (case bo_disposition out of FailedClosed _ \<Rightarrow> False | _ \<Rightarrow> True)"

datatype phase =
    PhReadSlot | PhPoll | PhEvaluating | PhMarking | PhCompleting | PhCompleteWait | PhNoting bool
  | PhRollingBack | PhRollbackWait | PhRestarting | PhDone health_verdict

record health_machine =
  hm_cfg :: health_config
  hm_phase :: phase
  hm_pending :: health_action
  hm_failed_reads :: u32
  hm_warn :: "u32 option"
  hm_complete_tries :: u32
  hm_rollback_tries :: u32

definition health_new :: "health_config \<Rightarrow> health_machine" where
  "health_new cfg = \<lparr>hm_cfg = cfg, hm_phase = PhReadSlot, hm_pending = ReadSlot, hm_failed_reads = 0,
     hm_warn = None, hm_complete_tries = 0, hm_rollback_tries = 0\<rparr>"

definition take_warning :: "health_machine \<Rightarrow> u32 option \<times> health_machine" where
  "take_warning m = (hm_warn m, m\<lparr>hm_warn := None\<rparr>)"

definition health_finish :: "health_verdict \<Rightarrow> health_machine \<Rightarrow> health_action \<times> health_machine" where
  "health_finish v m = (Finish v, m\<lparr>hm_phase := PhDone v\<rparr>)"

definition after_unhealthy :: "duration \<Rightarrow> health_machine \<Rightarrow> health_action \<times> health_machine" where
  "after_unhealthy elapsed m =
     (if elapsed < hc_failure_deadline (hm_cfg m)
      then (Sleep (hc_poll_interval (hm_cfg m)), m\<lparr>hm_phase := PhPoll\<rparr>)
      else (case hc_deadline_action (hm_cfg m) of
              RollbackAtDeadline \<Rightarrow> (NoteRollback HealthDeadline, m\<lparr>hm_phase := PhNoting False\<rparr>)
            | NoteAndRestart why \<Rightarrow> (NoteRollback why, m\<lparr>hm_phase := PhNoting True\<rparr>)))"

definition poll_tick :: "duration \<Rightarrow> bool \<Rightarrow> health_machine \<Rightarrow> health_action \<times> health_machine" where
  "poll_tick elapsed refuse m =
     (if \<not> refuse \<and> hc_healthy_dwell (hm_cfg m) \<le> elapsed
      then (Evaluate, m\<lparr>hm_phase := PhEvaluating\<rparr>)
      else after_unhealthy elapsed m)"

definition on_slot :: "duration \<Rightarrow> bool \<Rightarrow> slot_reading \<Rightarrow> health_machine \<Rightarrow> health_action \<times> health_machine" where
  "on_slot elapsed refuse reading m = (case reading of
       SrNotPending \<Rightarrow> health_finish NothingToVerify m
     | SrPendingVerify \<Rightarrow> poll_tick elapsed refuse (m\<lparr>hm_phase := PhPoll\<rparr>)
     | SrBusy \<Rightarrow> (Sleep (hc_slot_retry (hm_cfg m)), m)
     | SrFailed \<Rightarrow>
         (let m1 = m\<lparr>hm_failed_reads := hm_failed_reads m + 1\<rparr>;
              every = max (hc_slot_warn_every (hm_cfg m)) 1;
              m2 = (if hm_failed_reads m1 mod every = 1 mod every then m1\<lparr>hm_warn := Some (hm_failed_reads m1)\<rparr> else m1)
          in if hc_slot_min_attempts (hm_cfg m) \<le> hm_failed_reads m2 \<and> hc_failure_deadline (hm_cfg m) \<le> elapsed
             then health_finish SlotUnreadable m2
             else (Sleep (hc_slot_retry (hm_cfg m)), m2)))"

definition advance :: "duration \<Rightarrow> bool \<Rightarrow> health_event \<Rightarrow> health_machine \<Rightarrow> health_action \<times> health_machine" where
  "advance elapsed refuse event m = (case (hm_phase m, event) of
       (PhReadSlot, EvBegin) \<Rightarrow> (ReadSlot, m)
     | (PhReadSlot, EvWoke) \<Rightarrow> (ReadSlot, m)
     | (PhReadSlot, EvSlot reading) \<Rightarrow> on_slot elapsed refuse reading m
     | (PhPoll, EvWoke) \<Rightarrow> poll_tick elapsed refuse m
     | (PhEvaluating, EvHealthy True) \<Rightarrow> (MarkValid, m\<lparr>hm_phase := PhMarking\<rparr>)
     | (PhEvaluating, EvHealthy False) \<Rightarrow> after_unhealthy elapsed m
     | (PhMarking, EvMarked True) \<Rightarrow> (CompleteTheAttempt, m\<lparr>hm_phase := PhCompleting\<rparr>)
     | (PhMarking, EvMarked False) \<Rightarrow> after_unhealthy elapsed m
     | (PhCompleting, EvCompleted True) \<Rightarrow> health_finish Applied m
     | (PhCompleting, EvCompleted False) \<Rightarrow>
         (let m1 = m\<lparr>hm_complete_tries := hm_complete_tries m + 1\<rparr>
          in if hm_complete_tries m1 < hc_complete_attempts (hm_cfg m)
             then (Sleep (hc_complete_retry (hm_cfg m)), m1\<lparr>hm_phase := PhCompleteWait\<rparr>)
             else health_finish ApplyNotRecorded m1)
     | (PhCompleteWait, EvWoke) \<Rightarrow> (CompleteTheAttempt, m\<lparr>hm_phase := PhCompleting\<rparr>)
     | (PhNoting restart, EvNoted) \<Rightarrow>
         (if restart then (Restart, m\<lparr>hm_phase := PhRestarting\<rparr>) else (Rollback, m\<lparr>hm_phase := PhRollingBack\<rparr>))
     | (PhRollingBack, EvRollbackReturned True) \<Rightarrow> health_finish DeadlineRolledBack m
     | (PhRollingBack, EvRollbackReturned False) \<Rightarrow>
         (let m1 = m\<lparr>hm_rollback_tries := hm_rollback_tries m + 1\<rparr>
          in if hm_rollback_tries m1 < hc_rollback_attempts (hm_cfg m)
             then (Sleep (hc_rollback_retry (hm_cfg m)), m1\<lparr>hm_phase := PhRollbackWait\<rparr>)
             else health_finish DeadlineRollbackFailed m1)
     | (PhRollbackWait, EvWoke) \<Rightarrow> (Rollback, m\<lparr>hm_phase := PhRollingBack\<rparr>)
     | (PhRestarting, EvRestartReturned) \<Rightarrow> health_finish RestartReturned m
     | (PhDone verdict, _) \<Rightarrow> (Finish verdict, m)
     | _ \<Rightarrow> (hm_pending m, m))"

text \<open>One input of the machine is the elapsed time, the refusal flag and the event.\<close>

type_synonym health_input = "duration \<times> bool \<times> health_event"

definition health_step :: "health_machine \<Rightarrow> health_input \<Rightarrow> health_action \<times> health_machine" where
  "health_step m i = (case i of (elapsed, refuse, event) \<Rightarrow>
     (case advance elapsed refuse event m of (action, m') \<Rightarrow> (action, m'\<lparr>hm_pending := action\<rparr>)))"

section \<open>Phases and evidence\<close>

text \<open>The pending action always fits the phase.\<close>

fun coherent :: "health_config \<Rightarrow> phase \<Rightarrow> health_action \<Rightarrow> bool" where
  "coherent cfg PhReadSlot a = (a = ReadSlot \<or> a = Sleep (hc_slot_retry cfg))"
| "coherent cfg PhPoll a = (a = Sleep (hc_poll_interval cfg))"
| "coherent cfg PhEvaluating a = (a = Evaluate)"
| "coherent cfg PhMarking a = (a = MarkValid)"
| "coherent cfg PhCompleting a = (a = CompleteTheAttempt)"
| "coherent cfg PhCompleteWait a = (a = Sleep (hc_complete_retry cfg))"
| "coherent cfg (PhNoting restart) a = (a = NoteRollback (case hc_deadline_action cfg of
     RollbackAtDeadline \<Rightarrow> HealthDeadline | NoteAndRestart why \<Rightarrow> why) \<and> restart = (hc_deadline_action cfg \<noteq> RollbackAtDeadline))"
| "coherent cfg PhRollingBack a = (a = Rollback \<and> hc_deadline_action cfg = RollbackAtDeadline)"
| "coherent cfg PhRollbackWait a = (a = Sleep (hc_rollback_retry cfg) \<and> hc_deadline_action cfg = RollbackAtDeadline)"
| "coherent cfg PhRestarting a = (a = Restart \<and> hc_deadline_action cfg \<noteq> RollbackAtDeadline)"
| "coherent cfg (PhDone v) a = (a = Finish v)"

text \<open>What the inputs so far must contain for the machine to be in a phase.\<close>

definition seen_pending :: "health_input list \<Rightarrow> bool" where
  "seen_pending is \<longleftrightarrow> (\<exists>e r. (e, r, EvSlot SrPendingVerify) \<in> set is)"

definition dwelt :: "health_config \<Rightarrow> health_input list \<Rightarrow> bool" where
  "dwelt cfg is \<longleftrightarrow> (\<exists>e ev. (e, False, ev) \<in> set is \<and> hc_healthy_dwell cfg \<le> e)"

definition vouched :: "health_input list \<Rightarrow> bool" where
  "vouched is \<longleftrightarrow> (\<exists>e r. (e, r, EvHealthy True) \<in> set is)"

definition marked :: "health_input list \<Rightarrow> bool" where
  "marked is \<longleftrightarrow> (\<exists>e r. (e, r, EvMarked True) \<in> set is)"

definition late :: "health_config \<Rightarrow> health_input list \<Rightarrow> bool" where
  "late cfg is \<longleftrightarrow> (\<exists>e r ev. (e, r, ev) \<in> set is \<and> hc_failure_deadline cfg \<le> e)"

fun evidence :: "health_config \<Rightarrow> health_input list \<Rightarrow> phase \<Rightarrow> bool" where
  "evidence cfg is PhReadSlot = True"
| "evidence cfg is PhPoll = seen_pending is"
| "evidence cfg is PhEvaluating = (seen_pending is \<and> dwelt cfg is)"
| "evidence cfg is PhMarking = (seen_pending is \<and> dwelt cfg is \<and> vouched is)"
| "evidence cfg is PhCompleting = (seen_pending is \<and> dwelt cfg is \<and> vouched is \<and> marked is)"
| "evidence cfg is PhCompleteWait = (seen_pending is \<and> dwelt cfg is \<and> vouched is \<and> marked is)"
| "evidence cfg is (PhNoting _) = (seen_pending is \<and> late cfg is)"
| "evidence cfg is PhRollingBack = (seen_pending is \<and> late cfg is)"
| "evidence cfg is PhRollbackWait = (seen_pending is \<and> late cfg is)"
| "evidence cfg is PhRestarting = (seen_pending is \<and> late cfg is)"
| "evidence cfg is (PhDone v) = (case v of
     Applied \<Rightarrow> seen_pending is \<and> dwelt cfg is \<and> vouched is \<and> marked is
   | ApplyNotRecorded \<Rightarrow> seen_pending is \<and> dwelt cfg is \<and> vouched is \<and> marked is
   | NothingToVerify \<Rightarrow> True
   | SlotUnreadable \<Rightarrow> late cfg is
   | AlreadyRunning \<Rightarrow> False
   | _ \<Rightarrow> seen_pending is \<and> late cfg is)"

lemma evidence_mono: "evidence cfg is ph \<Longrightarrow> evidence cfg (is @ js) ph"
  by (cases ph) (auto simp: seen_pending_def dwelt_def vouched_def marked_def late_def split: health_verdict.splits)

text \<open>An answer that fits the phase it leads to, with the evidence for that phase.\<close>

definition sound_answer :: "health_config \<Rightarrow> health_input list \<Rightarrow> health_action \<times> health_machine \<Rightarrow> bool" where
  "sound_answer cfg is am \<longleftrightarrow>
     hm_cfg (snd am) = cfg \<and> coherent cfg (hm_phase (snd am)) (fst am) \<and> evidence cfg is (hm_phase (snd am))"

named_theorems answers "sub-steps that give a sound answer"

lemma answer_finish [answers]:
  "hm_cfg m = cfg \<Longrightarrow> evidence cfg is (PhDone v) \<Longrightarrow> sound_answer cfg is (health_finish v m)"
  by (simp add: sound_answer_def health_finish_def)

lemma answer_after_unhealthy [answers]:
  assumes "hm_cfg m = cfg" "seen_pending is" "(e, r, ev) \<in> set is"
  shows "sound_answer cfg is (after_unhealthy e m)"
  using assms by (force simp: sound_answer_def after_unhealthy_def late_def split: deadline_action.splits)

lemma answer_poll_tick [answers]:
  assumes "hm_cfg m = cfg" "seen_pending is" "(e, r, ev) \<in> set is"
  shows "sound_answer cfg is (poll_tick e r m)"
proof (cases "\<not> r \<and> hc_healthy_dwell cfg \<le> e")
  case True
  with assms show ?thesis by (auto simp: sound_answer_def poll_tick_def dwelt_def)
next
  case False
  then have "poll_tick e r m = after_unhealthy e m" using assms(1) by (auto simp: poll_tick_def)
  with answer_after_unhealthy [OF assms] show ?thesis by simp
qed

lemma answer_on_slot [answers]:
  assumes "hm_cfg m = cfg" "hm_phase m = PhReadSlot" "(e, r, EvSlot reading) \<in> set is"
  shows "sound_answer cfg is (on_slot e r reading m)"
proof (cases reading)
  case SrPendingVerify
  with assms(3) have "seen_pending is" by (auto simp: seen_pending_def)
  with SrPendingVerify assms show ?thesis by (simp add: on_slot_def answer_poll_tick)
next
  case SrFailed
  have "hc_failure_deadline cfg \<le> e \<Longrightarrow> late cfg is" using assms(3) by (auto simp: late_def)
  with SrFailed assms show ?thesis
    by (auto simp: on_slot_def Let_def sound_answer_def health_finish_def)
qed (use assms in \<open>auto simp: on_slot_def health_finish_def sound_answer_def\<close>)

lemma answer_advance:
  assumes "hm_cfg m = cfg" and "coherent cfg (hm_phase m) (hm_pending m)" and "evidence cfg is (hm_phase m)"
  shows "sound_answer cfg (is @ [(e, r, ev)]) (advance e r ev m)"
proof -
  let ?is = "is @ [(e, r, ev)]"
  have ev: "evidence cfg ?is (hm_phase m)" using assms(3) by (rule evidence_mono)
  have last: "(e, r, ev) \<in> set ?is" by simp
  have keep: "sound_answer cfg ?is (hm_pending m, m)" using assms(1,2) ev by (simp add: sound_answer_def)
  have v: "ev = EvHealthy True \<Longrightarrow> vouched ?is" "ev = EvMarked True \<Longrightarrow> marked ?is"
    by (auto simp: vouched_def marked_def)
  show ?thesis
  proof (cases "hm_phase m")
    case PhReadSlot
    have "sound_answer cfg ?is (ReadSlot, m)" using assms(1) PhReadSlot by (simp add: sound_answer_def)
    moreover have "sound_answer cfg ?is (on_slot e r reading m)" if "ev = EvSlot reading" for reading
      using answer_on_slot [OF assms(1) PhReadSlot] last that by simp
    ultimately show ?thesis using PhReadSlot keep by (cases ev) (simp_all add: advance_def)
  next
    case PhPoll
    then show ?thesis using assms(1) keep ev answer_poll_tick [OF assms(1) _ last] by (cases ev) (auto simp: advance_def)
  next
    case PhEvaluating
    then show ?thesis
      using assms(1) keep ev v answer_after_unhealthy [OF assms(1) _ last]
      by (cases ev) (auto simp: advance_def sound_answer_def split: bool.splits)
  next
    case PhMarking
    then show ?thesis
      using assms(1) keep ev v answer_after_unhealthy [OF assms(1) _ last]
      by (cases ev) (auto simp: advance_def sound_answer_def split: bool.splits)
  next
    case PhCompleting
    then show ?thesis
      using assms(1) keep ev by (cases ev) (auto simp: advance_def sound_answer_def Let_def health_finish_def split: bool.splits)
  next
    case (PhNoting restart)
    then show ?thesis using assms keep ev by (cases ev) (auto simp: advance_def sound_answer_def)
  next
    case PhRollingBack
    then show ?thesis
      using assms keep ev by (cases ev) (auto simp: advance_def sound_answer_def Let_def health_finish_def split: bool.splits)
  next
    case PhRestarting
    then show ?thesis using assms keep ev by (cases ev) (auto simp: advance_def sound_answer_def health_finish_def)
  next
    case (PhDone v)
    then show ?thesis using assms keep ev by (cases ev) (auto simp: advance_def sound_answer_def)
  qed (use assms keep ev in \<open>cases ev; auto simp: advance_def sound_answer_def\<close>)+
qed

text \<open>The invariant of the policy with its history, and what a run from the start establishes.\<close>

definition health_inv :: "health_config \<Rightarrow> health_input list \<Rightarrow> health_machine \<Rightarrow> bool" where
  "health_inv cfg is m \<longleftrightarrow> sound_answer cfg is (hm_pending m, m)"

lemma cfg_new [simp]: "hm_cfg (health_new cfg) = cfg"
  by (simp add: health_new_def)

lemma health_inv_new: "health_inv cfg [] (health_new cfg)"
  by (simp add: health_inv_def sound_answer_def health_new_def)

lemma health_inv_step: "health_inv cfg is m \<Longrightarrow> health_inv cfg (is @ [i]) (snd (health_step m i))"
  using answer_advance [of m cfg "is" "fst i" "fst (snd i)" "snd (snd i)"]
  by (cases i) (auto simp: health_inv_def sound_answer_def health_step_def split: prod.splits)

lemma health_inv_run: "health_inv cfg is (run_state health_step (health_new cfg) is)"
proof (induction "is" rule: rev_induct)
  case Nil
  then show ?case by (simp add: health_inv_new)
next
  case (snoc i "is")
  then show ?case by (simp add: health_inv_step)
qed

lemma pending_last_output:
  "hm_pending (snd (health_step m i)) = fst (health_step m i)"
  by (cases i) (auto simp: health_step_def split: prod.splits)

interpretation health: polled_machine health_step "\<lambda>m. \<exists>cfg. m = health_new cfg" "\<lambda>m. \<exists>is. health_inv (hm_cfg m) is m"
proof unfold_locales
  fix m i
  show "\<exists>cfg. m = health_new cfg \<Longrightarrow> \<exists>is. health_inv (hm_cfg m) is m"
    by (elim exE) (auto intro!: exI [of _ "[]"] simp: health_inv_new)
  assume "\<exists>is. health_inv (hm_cfg m) is m"
  then obtain "is" where "health_inv (hm_cfg m) is m" by blast
  from health_inv_step [OF this, of i] show "\<exists>is. health_inv (hm_cfg (snd (health_step m i))) is (snd (health_step m i))"
    by (auto simp: health_inv_def sound_answer_def)
qed

section \<open>The policy reaches a verdict\<close>

fun answers_action :: "health_action \<Rightarrow> health_event \<Rightarrow> bool" where
  "answers_action ReadSlot ev = (\<exists>reading. ev = EvSlot reading \<and> reading \<noteq> SrBusy)"
| "answers_action (Sleep _) ev = (ev = EvWoke)"
| "answers_action Evaluate ev = (\<exists>b. ev = EvHealthy b)"
| "answers_action MarkValid ev = (\<exists>b. ev = EvMarked b)"
| "answers_action CompleteTheAttempt ev = (\<exists>b. ev = EvCompleted b)"
| "answers_action (NoteRollback _) ev = (ev = EvNoted)"
| "answers_action Rollback ev = (\<exists>b. ev = EvRollbackReturned b)"
| "answers_action Restart ev = (ev = EvRestartReturned)"
| "answers_action (Finish _) ev = True"

text \<open>A driver that answers every action (a free OTA handle included) after the failure deadline.\<close>

fun answered_late :: "health_machine \<Rightarrow> health_input list \<Rightarrow> bool" where
  "answered_late m [] = True"
| "answered_late m ((e, r, ev) # is) =
     (hc_failure_deadline (hm_cfg m) \<le> e \<and> answers_action (hm_pending m) ev \<and>
      answered_late (snd (health_step m (e, r, ev))) is)"

text \<open>Counters have not run past their bound while the policy is undecided.\<close>

definition tries_ok :: "health_machine \<Rightarrow> bool" where
  "tries_ok m \<longleftrightarrow> (\<exists>v. hm_phase m = PhDone v) \<or>
     (hm_complete_tries m = 0 \<or> hm_complete_tries m < hc_complete_attempts (hm_cfg m)) \<and>
     (hm_rollback_tries m = 0 \<or> hm_rollback_tries m < hc_rollback_attempts (hm_cfg m))"

definition health_left :: "health_machine \<Rightarrow> nat" where
  "health_left m =
     (let C = 3 * (unat (hc_complete_attempts (hm_cfg m)) - unat (hm_complete_tries m));
          R = 3 * (unat (hc_rollback_attempts (hm_cfg m)) - unat (hm_rollback_tries m));
          S = 3 * (unat (hc_slot_min_attempts (hm_cfg m)) - unat (hm_failed_reads m))
      in case hm_phase m of
           PhDone _ \<Rightarrow> 0 | PhRestarting \<Rightarrow> 1
         | PhRollingBack \<Rightarrow> R + 1 | PhRollbackWait \<Rightarrow> R + 2 | PhNoting _ \<Rightarrow> R + 3
         | PhCompleting \<Rightarrow> C + 1 | PhCompleteWait \<Rightarrow> C + 2
         | PhMarking \<Rightarrow> C + R + 4 | PhEvaluating \<Rightarrow> C + R + 5 | PhPoll \<Rightarrow> C + R + 6
         | PhReadSlot \<Rightarrow> C + R + S + 7 + (if hm_pending m = ReadSlot then 0 else 1))"

text \<open>Each step keeps the counters in bounds; late and answered, it brings the verdict closer.\<close>

lemma tries_ok_step: "tries_ok m \<Longrightarrow> tries_ok (snd (health_step m i))"
  by (cases i; cases "hm_phase m"; cases "snd (snd i)")
     (auto simp: tries_ok_def health_step_def advance_def on_slot_def poll_tick_def after_unhealthy_def
       health_finish_def Let_def split: bool.splits slot_reading.splits deadline_action.splits if_splits)

lemma failed_reads_step: "unat (hm_failed_reads (snd (health_step m i))) \<le> Suc (unat (hm_failed_reads m))"
proof -
  have "unat (hm_failed_reads m + 1) \<le> Suc (unat (hm_failed_reads m))"
    by (cases "hm_failed_reads m + 1 = 0") (auto simp: unat_succ)
  then show ?thesis
    by (cases i; cases "hm_phase m"; cases "snd (snd i)")
       (auto simp: health_step_def advance_def on_slot_def poll_tick_def after_unhealthy_def
         health_finish_def Let_def split: bool.splits slot_reading.splits deadline_action.splits if_splits)
qed

lemma health_left_step:
  assumes "coherent (hm_cfg m) (hm_phase m) (hm_pending m)" and "tries_ok m" and "\<forall>v. hm_phase m \<noteq> PhDone v"
    and "hc_failure_deadline (hm_cfg m) \<le> e" and "answers_action (hm_pending m) ev"
    and "hm_failed_reads m \<noteq> - 1"
  shows "health_left (snd (health_step m (e, r, ev))) < health_left m"
proof (cases "hm_phase m")
  case PhReadSlot
  show ?thesis
  proof (cases "hm_pending m = ReadSlot")
    case True
    with assms(5) obtain reading where ev: "ev = EvSlot reading" "reading \<noteq> SrBusy" by auto
    have "hm_failed_reads m + 1 \<noteq> 0" using assms(6) by (simp add: eq_neg_iff_add_eq_0)
    then have "unat (hm_failed_reads m + 1) = Suc (unat (hm_failed_reads m))" by (rule unat_succ)
    with PhReadSlot True ev assms(4) show ?thesis
      by (cases reading) (auto simp: health_step_def advance_def on_slot_def poll_tick_def after_unhealthy_def
        health_finish_def health_left_def Let_def word_le_nat_alt split: deadline_action.splits)
  next
    case False
    with assms(1,5) PhReadSlot show ?thesis by (auto simp: health_step_def advance_def health_left_def Let_def)
  qed
next
  case PhCompleting
  with assms(2) have "hm_complete_tries m = 0 \<or> hm_complete_tries m < hc_complete_attempts (hm_cfg m)"
    by (simp add: tries_ok_def)
  then have "unat (hm_complete_tries m + 1) = Suc (unat (hm_complete_tries m))" by (rule unat_succ_less)
  with PhCompleting assms(1,5) show ?thesis
    by (auto simp: health_step_def advance_def health_left_def health_finish_def Let_def word_less_nat_alt
      split: bool.splits)
next
  case PhRollingBack
  with assms(2) have "hm_rollback_tries m = 0 \<or> hm_rollback_tries m < hc_rollback_attempts (hm_cfg m)"
    by (simp add: tries_ok_def)
  then have "unat (hm_rollback_tries m + 1) = Suc (unat (hm_rollback_tries m))" by (rule unat_succ_less)
  with PhRollingBack assms(1,5) show ?thesis
    by (auto simp: health_step_def advance_def health_left_def health_finish_def Let_def word_less_nat_alt
      split: bool.splits)
qed (use assms(1,3-5) in \<open>auto simp: health_step_def advance_def poll_tick_def after_unhealthy_def health_finish_def
       health_left_def Let_def split: bool.splits deadline_action.splits\<close>)

lemma done_stays: "hm_phase m = PhDone v \<Longrightarrow> hm_phase (run_state health_step m is) = PhDone v \<and>
    set (run_outputs health_step m is) \<subseteq> {Finish v}"
proof (induction "is" arbitrary: m)
  case (Cons i "is")
  have "hm_phase (snd (health_step m i)) = PhDone v" "fst (health_step m i) = Finish v"
    using Cons.prems by (cases i; auto simp: health_step_def advance_def)+
  with Cons.IH [OF this(1)] show ?case by simp
qed simp

lemma answered_late_done:
  assumes "health_inv (hm_cfg m) h m" and "tries_ok m" and "answered_late m is" and "health_left m \<le> length is"
    and "unat (hm_failed_reads m) + length is < 2 ^ 32 - 1"
  shows "\<exists>v. hm_phase (run_state health_step m is) = PhDone v"
  using assms
proof (induction "is" arbitrary: m h)
  case Nil
  then show ?case by (cases "hm_phase m") (auto simp: health_left_def Let_def)
next
  case (Cons i "is")
  obtain e r ev where i: "i = (e, r, ev)" by (cases i)
  let ?m = "snd (health_step m i)"
  have inv: "health_inv (hm_cfg ?m) (h @ [i]) ?m"
    using health_inv_step [OF Cons.prems(1), of i] by (auto simp: health_inv_def sound_answer_def)
  show ?case
  proof (cases "\<exists>v. hm_phase m = PhDone v")
    case True
    with done_stays [of m _ "i # is"] show ?thesis by auto
  next
    case False
    have "hm_failed_reads m \<noteq> - 1"
    proof
      assume "hm_failed_reads m = - 1"
      then have "unat (hm_failed_reads m) = 2 ^ 32 - 1" by (simp add: unsigned_minus_1_eq_mask mask_eq_exp_minus_1)
      with Cons.prems(5) show False by simp
    qed
    with False Cons.prems i have "health_left ?m < health_left m"
      by (auto intro!: health_left_step simp: health_inv_def sound_answer_def)
    moreover have "unat (hm_failed_reads ?m) + length is < 2 ^ 32 - 1"
      using failed_reads_step [of m i] Cons.prems(5) by simp
    ultimately show ?thesis
      using Cons.IH [OF inv tries_ok_step [OF Cons.prems(2)]] Cons.prems(3,4) i by simp
  qed
qed

lemma tries_ok_run: "tries_ok (run_state health_step (health_new cfg) is)"
  by (induction "is" rule: rev_induct) (simp_all add: tries_ok_step, simp add: tries_ok_def health_new_def)

lemma failed_reads_run: "unat (hm_failed_reads (run_state health_step (health_new cfg) is)) \<le> length is"
proof (induction "is" rule: rev_induct)
  case (snoc i "is")
  then show ?case using failed_reads_step [of "run_state health_step (health_new cfg) is" i] by simp
qed (simp add: health_new_def)

section \<open>Properties\<close>

text \<open>A short policy for the witnesses, and its healthy and its unhealthy run.\<close>

definition example_health :: health_config where
  "example_health = \<lparr>hc_healthy_dwell = 30, hc_failure_deadline = 120, hc_poll_interval = 5, hc_slot_retry = 1,
     hc_slot_min_attempts = 1, hc_slot_warn_every = 0, hc_complete_attempts = 2, hc_complete_retry = 1,
     hc_rollback_attempts = 1, hc_rollback_retry = 1, hc_deadline_action = RollbackAtDeadline\<rparr>"

definition healthy_run :: "health_input list" where
  "healthy_run = [(0, False, EvBegin), (1, False, EvSlot SrPendingVerify), (40, False, EvWoke), (40, False, EvHealthy True),
     (41, False, EvMarked True)]"

definition unhealthy_run :: "health_input list" where
  "unhealthy_run = [(130, True, EvSlot SrPendingVerify), (130, True, EvNoted)] @
     replicate 20 (130, True, EvRollbackReturned False)"

text \<open>
  C6: Only a proven image is marked valid and no slot that is not pending is touched.  Whatever the
  driver feeds in, when the policy asks to mark the image valid, the slot was read as pending
  verification, an unrefused event arrived after the dwell time and the app vouched for the image;
  it asks for the completion of the attempt only after marking succeeded; it notes a rollback, rolls
  back or restarts only for a slot read as pending and after the failure deadline.
\<close>

theorem health_acts_on_evidence:
  "case fst (health_step (run_state health_step (health_new cfg) is) i) of
     MarkValid \<Rightarrow> seen_pending (is @ [i]) \<and> dwelt cfg (is @ [i]) \<and> vouched (is @ [i])
   | CompleteTheAttempt \<Rightarrow> seen_pending (is @ [i]) \<and> dwelt cfg (is @ [i]) \<and> vouched (is @ [i]) \<and> marked (is @ [i])
   | NoteRollback _ \<Rightarrow> seen_pending (is @ [i]) \<and> late cfg (is @ [i])
   | Rollback \<Rightarrow> seen_pending (is @ [i]) \<and> late cfg (is @ [i]) \<and> hc_deadline_action cfg = RollbackAtDeadline
   | Restart \<Rightarrow> seen_pending (is @ [i]) \<and> late cfg (is @ [i]) \<and> hc_deadline_action cfg \<noteq> RollbackAtDeadline
   | _ \<Rightarrow> True"
proof -
  let ?m = "snd (health_step (run_state health_step (health_new cfg) is) i)"
  have "health_inv cfg (is @ [i]) ?m" by (intro health_inv_step health_inv_run)
  then have "coherent cfg (hm_phase ?m) (hm_pending ?m)" "evidence cfg (is @ [i]) (hm_phase ?m)"
    by (auto simp: health_inv_def sound_answer_def)
  then show ?thesis unfolding pending_last_output by (cases "hm_phase ?m") auto
qed

text \<open>
  A verdict is final and means what it says.  Once the policy answers with a verdict, every later
  step repeats it; and a verdict that publishes the update as applied was reached only after the slot
  was pending, the dwell time had passed, the app vouched and marking succeeded.
\<close>

theorem health_verdict_final:
  assumes "fst (health_step (run_state health_step (health_new cfg) is) i) = Finish v"
  shows "set (run_outputs health_step (run_state health_step (health_new cfg) (is @ [i])) js) \<subseteq> {Finish v} \<and>
    (if publishes_applied v then seen_pending (is @ [i]) \<and> dwelt cfg (is @ [i]) \<and> vouched (is @ [i]) \<and> marked (is @ [i])
     else v = NothingToVerify \<or> late cfg (is @ [i]))"
proof -
  let ?m = "snd (health_step (run_state health_step (health_new cfg) is) i)"
  have "health_inv cfg (is @ [i]) ?m" by (intro health_inv_step health_inv_run)
  then have co: "coherent cfg (hm_phase ?m) (Finish v)" and ev: "evidence cfg (is @ [i]) (hm_phase ?m)"
    unfolding assms [symmetric] pending_last_output [symmetric] by (auto simp: health_inv_def sound_answer_def)
  from co have d: "hm_phase ?m = PhDone v" by (cases "hm_phase ?m") auto
  with ev done_stays [OF d, of js] show ?thesis
    by (cases v) (auto simp: publishes_applied_def)
qed

theorem health_verdict_final_witness:
  "fst (health_step (run_state health_step (health_new example_health) healthy_run) (42, False, EvCompleted True)) = Finish Applied \<and>
    vouched (healthy_run @ [(42, False, EvCompleted True)])"
proof -
  have "fst (health_step (run_state health_step (health_new example_health) healthy_run) (42, False, EvCompleted True)) = Finish Applied"
    by (simp add: health_step_def advance_def on_slot_def poll_tick_def after_unhealthy_def health_finish_def
      health_new_def example_health_def healthy_run_def)
  with health_verdict_final [OF this] show ?thesis by (simp add: publishes_applied_def)
qed

text \<open>
  C7: The policy always ends.  After any history, a driver that answers each action it is asked for
  once the failure deadline has passed (with the slot handle free) brings the policy to a verdict
  within a number of steps bounded by the configured attempts, as long as the 32-bit count of slot
  reads cannot wrap.
\<close>

theorem health_policy_reaches_verdict:
  assumes "m = run_state health_step (health_new cfg) h"
    and "answered_late m is" and "health_left m \<le> length is" and "length h + length is < 2 ^ 32 - 1"
  shows "\<exists>v. hm_phase (run_state health_step m is) = PhDone v"
proof -
  have inv: "health_inv cfg h m" using health_inv_run assms(1) by simp
  then have "hm_cfg m = cfg" by (simp add: health_inv_def sound_answer_def)
  with inv answered_late_done [of m h "is"] assms tries_ok_run failed_reads_run [of cfg h] show ?thesis by simp
qed

theorem health_policy_reaches_verdict_witness:
  "\<exists>v. hm_phase (run_state health_step (health_new example_health) unhealthy_run) = PhDone v"
proof (rule health_policy_reaches_verdict [of _ example_health "[]"])
  show "answered_late (health_new example_health) unhealthy_run"
    by (simp add: health_step_def advance_def on_slot_def poll_tick_def after_unhealthy_def health_finish_def
      health_new_def example_health_def unhealthy_run_def eval_nat_numeral ex_bool_eq)
qed (simp_all add: health_left_def health_new_def example_health_def unhealthy_run_def Let_def)

end
