(* ===== verification/Backoff.thy ===== *)
theory Backoff
  imports Juggler_Prelude
begin

text \<open>
  The exponential back-off iterator (\<^verbatim>\<open>juggler/src/backoff.rs\<close>) that the Wi-Fi link and the MQTT
  session share.  The delays it yields are those of the plain formula, for every number of calls: the
  saturations of the code are exactly what the clamp to the maximum absorbs.
\<close>

section \<open>Model\<close>

record exponential_backoff =
  base_ms :: u64
  max_ms :: u64
  attempt :: u32

definition backoff_new :: "u64 \<Rightarrow> u64 \<Rightarrow> exponential_backoff" where
  "backoff_new base m = \<lparr>base_ms = base, max_ms = m, attempt = 0\<rparr>"

definition backoff_reset :: "exponential_backoff \<Rightarrow> exponential_backoff" where
  "backoff_reset b = b\<lparr>attempt := 0\<rparr>"

definition backoff_next :: "exponential_backoff \<Rightarrow> u64 \<times> exponential_backoff" where
  "backoff_next b =
     (let shift = one_shl_or_max (attempt b);
          delay = min (saturating_mul (base_ms b) shift) (max_ms b)
      in (delay, b\<lparr>attempt := saturating_add (attempt b) 1\<rparr>))"

text \<open>The delays of \<open>n\<close> calls in a row.\<close>

fun backoff_take :: "nat \<Rightarrow> exponential_backoff \<Rightarrow> u64 list" where
  "backoff_take 0 b = []"
| "backoff_take (Suc n) b = (case backoff_next b of (d, b') \<Rightarrow> d # backoff_take n b')"

section \<open>Reference\<close>

definition delay_spec :: "u64 \<Rightarrow> u64 \<Rightarrow> nat \<Rightarrow> nat" where
  "delay_spec base m k = min (unat base * 2 ^ k) (unat m)"

lemma delay_spec_mono: "j \<le> k \<Longrightarrow> delay_spec base m j \<le> delay_spec base m k"
  unfolding delay_spec_def by (intro min.mono mult_le_mono2 power_increasing) simp_all

lemma delay_spec_le: "delay_spec base m k \<le> unat m"
  by (simp add: delay_spec_def)

lemma delay_spec_saturated:
  assumes "64 \<le> k" "64 \<le> j"
  shows "delay_spec base m k = delay_spec base m j"
proof -
  have big: "unat m \<le> unat base * 2 ^ n" if n: "64 \<le> n" and b: "unat base \<noteq> 0" for n
  proof -
    have "unat m \<le> 1 * 2 ^ 64" using unat_less_pow [of m] by simp
    also have "\<dots> \<le> unat base * 2 ^ n"
      using b n by (intro mult_le_mono power_increasing) (simp_all add: Suc_le_eq)
    finally show ?thesis .
  qed
  show ?thesis
    using big [OF assms(1)] big [OF assms(2)] by (cases "unat base = 0") (simp_all add: delay_spec_def min_def)
qed

lemma unat_min: "unat (min a b) = min (unat a) (unat (b :: 'l::len word))"
  by (simp add: min_def word_le_nat_alt)

lemma unat_saturating_mul:
  "unat (saturating_mul a b) = min (unat a * unat b) (2 ^ LENGTH('l) - 1)" for a b :: "'l::len word"
proof (cases "unat a * unat b < 2 ^ LENGTH('l)")
  case True
  then have "unat (a * b) = unat a * unat b" by (simp add: unat_word_ariths)
  with True show ?thesis by (simp add: saturating_mul_def)
next
  case False
  then show ?thesis by (simp add: saturating_mul_def unsigned_minus_1_eq_mask mask_eq_exp_minus_1)
qed

lemma unat_one_shl_or_max: "unat (one_shl_or_max n) = (if unat n < 64 then 2 ^ unat n else 2 ^ 64 - 1)"
proof (cases "unat n < 64")
  case True
  then have "(2 :: nat) ^ unat n < 2 ^ 64" by (intro power_strict_increasing) simp_all
  then have "unat (2 ^ unat n :: u64) = 2 ^ unat n" using unat_of_nat_less [of "2 ^ unat n", where 'l = 64] by simp
  with True show ?thesis by (simp add: one_shl_or_max_def word_less_nat_alt push_bit_eq_mult)
next
  case False
  then show ?thesis
    by (simp add: one_shl_or_max_def word_less_nat_alt unsigned_minus_1_eq_mask mask_eq_exp_minus_1)
qed

lemma backoff_next_delay: "unat (fst (backoff_next b)) = delay_spec (base_ms b) (max_ms b) (unat (attempt b))"
proof -
  have m: "unat (max_ms b) \<le> 2 ^ 64 - 1" using unat_less_pow [of "max_ms b"] by simp
  have "unat (fst (backoff_next b)) =
      min (unat (base_ms b) * unat (one_shl_or_max (attempt b))) (unat (max_ms b))"
    using m by (simp add: backoff_next_def unat_min unat_saturating_mul)
  also have "\<dots> = delay_spec (base_ms b) (max_ms b) (unat (attempt b))"
  proof (cases "unat (attempt b) < 64")
    case True
    then show ?thesis by (simp add: unat_one_shl_or_max delay_spec_def)
  next
    case False
    have "delay_spec (base_ms b) (max_ms b) (unat (attempt b)) = delay_spec (base_ms b) (max_ms b) 64"
      using False by (intro delay_spec_saturated) simp_all
    moreover have "min (unat (base_ms b) * (2 ^ 64 - 1)) (unat (max_ms b)) = min (unat (base_ms b) * 2 ^ 64) (unat (max_ms b))"
      using m by (cases "unat (base_ms b)") auto
    ultimately show ?thesis using False by (simp add: unat_one_shl_or_max delay_spec_def)
  qed
  finally show ?thesis .
qed

lemma backoff_next_state [simp]:
  "base_ms (snd (backoff_next b)) = base_ms b" "max_ms (snd (backoff_next b)) = max_ms b"
  "attempt (snd (backoff_next b)) = saturating_add (attempt b) 1"
  by (simp_all add: backoff_next_def Let_def)

lemma backoff_next_step:
  "delay_spec base m (unat (saturating_add (att :: u32) 1) + k) = delay_spec base m (unat att + Suc k)"
proof (cases "unat att + 1 < 2 ^ 32")
  case True
  then show ?thesis by (simp add: unat_saturating_add)
next
  case False
  then show ?thesis by (intro delay_spec_saturated) (simp_all add: unat_saturating_add)
qed

lemma backoff_take_spec:
  "map unat (backoff_take n b) = map (\<lambda>k. delay_spec (base_ms b) (max_ms b) (unat (attempt b) + k)) [0 ..< n]"
proof (induction n arbitrary: b)
  case (Suc n)
  show ?case
    using Suc [of "snd (backoff_next b)"]
    by (simp add: map_upt_Suc backoff_next_delay backoff_next_step case_prod_unfold del: upt_Suc)
qed simp

section \<open>Properties\<close>

text \<open>
  The delays are those of the formula.  However often a fresh iterator is called, its \<open>k\<close>-th
  delay is the smaller of \<open>base * 2 ^ k\<close> and the maximum, computed without any bound on the integers;
  so the sequence never decreases and never exceeds the maximum.
\<close>

theorem backoff_delays:
  "map unat (backoff_take n (backoff_new base m)) = map (delay_spec base m) [0 ..< n] \<and>
   sorted (map unat (backoff_take n (backoff_new base m)))"
proof -
  have "map unat (backoff_take n (backoff_new base m)) = map (delay_spec base m) [0 ..< n]"
    by (simp add: backoff_take_spec backoff_new_def)
  moreover have "sorted (map (delay_spec base m) [0 ..< n])"
    by (auto simp: sorted_iff_nth_mono intro: delay_spec_mono)
  ultimately show ?thesis by simp
qed

end
