(* ===== verification/Wifi_Link.thy ===== *)
theory Wifi_Link
  imports Backoff
begin

text \<open>
  Station link supervision (\<^verbatim>\<open>juggler/src/wifi/link.rs\<close>) and the hand-over of suspend and resume
  to the task that runs the radio (\<^verbatim>\<open>juggler/src/wifi/handover.rs\<close>).

  The machine decides when to connect, the tier decides how.  The lemmas show what holds along every
  run: a suspended link never asks for a connection, readiness needs an association and an address of
  that same association, the reconnect delays follow the back-off formula, and the hand-over gives the
  runner the action of the latest call, however the calls interleave.
\<close>

section \<open>The link machine\<close>

definition RECONNECT_BACKOFF_BASE_MS :: u64 where
  "RECONNECT_BACKOFF_BASE_MS = 1000"

definition RECONNECT_BACKOFF_MAX_MS :: u64 where
  "RECONNECT_BACKOFF_MAX_MS = 30000"

datatype link_input =
  InStart | InConnected | InDisconnected | InBackoffElapsed | InSuspend | InResume | InNetworkUp | InNetworkDown

datatype link_action = NoAction | Connect | Disconnect | Wait u64

datatype link_state = Idle | Connecting | Connected | InBackoff | Suspended

record link_machine =
  lm_state :: link_state
  lm_backoff :: exponential_backoff
  lm_max_ms :: u64
  lm_failed_attempts :: u32
  lm_network_up :: bool
  lm_connects :: u32

definition link_with_backoff :: "u64 \<Rightarrow> u64 \<Rightarrow> link_machine" where
  "link_with_backoff base m = \<lparr>lm_state = Idle, lm_backoff = backoff_new base m, lm_max_ms = m,
     lm_failed_attempts = 0, lm_network_up = False, lm_connects = 0\<rparr>"

definition link_new :: link_machine where
  "link_new = link_with_backoff RECONNECT_BACKOFF_BASE_MS RECONNECT_BACKOFF_MAX_MS"

definition link_is_ready :: "link_machine \<Rightarrow> bool" where
  "link_is_ready l \<longleftrightarrow> lm_state l = Connected \<and> lm_network_up l"

definition link_restart :: "link_machine \<Rightarrow> link_machine" where
  "link_restart l = l\<lparr>lm_state := Idle, lm_backoff := backoff_reset (lm_backoff l), lm_failed_attempts := 0,
     lm_network_up := False\<rparr>"

definition fresh_attempts :: "link_machine \<Rightarrow> link_machine" where
  "fresh_attempts l = l\<lparr>lm_backoff := backoff_reset (lm_backoff l), lm_failed_attempts := 0\<rparr>"

definition link_associated :: "link_machine \<Rightarrow> link_machine" where
  "link_associated l = fresh_attempts (l\<lparr>lm_state := Connected, lm_connects := lm_connects l + 1\<rparr>)"

definition link_lost :: "link_machine \<Rightarrow> link_action \<times> link_machine" where
  "link_lost l = (case backoff_next (lm_backoff l) of (ms, b) \<Rightarrow>
     (Wait ms, l\<lparr>lm_state := InBackoff, lm_failed_attempts := saturating_add (lm_failed_attempts l) 1, lm_backoff := b\<rparr>))"

text \<open>The match of the source, arm by arm, then the reset of the address outside \<open>Connected\<close>.\<close>

definition link_arm :: "link_machine \<Rightarrow> link_input \<Rightarrow> link_action \<times> link_machine" where
  "link_arm l i = (case (lm_state l, i) of
       (Connected, InNetworkUp) \<Rightarrow> (NoAction, l\<lparr>lm_network_up := True\<rparr>)
     | (_, InNetworkUp) \<Rightarrow> (NoAction, l\<lparr>lm_network_up := False\<rparr>)
     | (_, InNetworkDown) \<Rightarrow> (NoAction, l\<lparr>lm_network_up := False\<rparr>)
     | (Suspended, InConnected) \<Rightarrow> (Disconnect, l)
     | (Suspended, InResume) \<Rightarrow> (Connect, fresh_attempts (l\<lparr>lm_state := Connecting\<rparr>))
     | (Suspended, _) \<Rightarrow> (NoAction, l)
     | (_, InSuspend) \<Rightarrow> (Disconnect, l\<lparr>lm_state := Suspended\<rparr>)
     | (Idle, InStart) \<Rightarrow> (Connect, l\<lparr>lm_state := Connecting\<rparr>)
     | (InBackoff, InBackoffElapsed) \<Rightarrow> (Connect, l\<lparr>lm_state := Connecting\<rparr>)
     | (Idle, InConnected) \<Rightarrow> (NoAction, link_associated l)
     | (Connecting, InConnected) \<Rightarrow> (NoAction, link_associated l)
     | (InBackoff, InConnected) \<Rightarrow> (NoAction, link_associated l)
     | (Connecting, InDisconnected) \<Rightarrow> link_lost l
     | (Connected, InDisconnected) \<Rightarrow> link_lost l
     | _ \<Rightarrow> (NoAction, l))"

definition link_poll :: "link_machine \<Rightarrow> link_input \<Rightarrow> link_action \<times> link_machine" where
  "link_poll l i = (case link_arm l i of (action, l') \<Rightarrow>
     (action, if lm_state l' \<noteq> Connected then l'\<lparr>lm_network_up := False\<rparr> else l'))"

section \<open>The hand-over\<close>

record link_handover =
  lh_machine :: link_machine
  lh_pending :: "link_action option"
  lh_suspends :: u32
  lh_parked :: u32

definition handover_new :: link_handover where
  "handover_new = \<lparr>lh_machine = link_new, lh_pending = None, lh_suspends = 0, lh_parked = 0\<rparr>"

definition handover_suspend :: "link_handover \<Rightarrow> bool \<times> link_handover" where
  "handover_suspend h = (case link_poll (lh_machine h) InSuspend of (action, l) \<Rightarrow>
     if action = NoAction then (False, h\<lparr>lh_machine := l\<rparr>)
     else (True, h\<lparr>lh_machine := l, lh_suspends := lh_suspends h + 1, lh_pending := Some action\<rparr>))"

definition handover_resume :: "link_handover \<Rightarrow> bool \<times> link_handover" where
  "handover_resume h = (case link_poll (lh_machine h) InResume of (action, l) \<Rightarrow>
     if action = NoAction then (False, h\<lparr>lh_machine := l\<rparr>)
     else (True, h\<lparr>lh_machine := l, lh_pending := Some action\<rparr>))"

definition handover_take :: "link_handover \<Rightarrow> link_action \<times> link_handover" where
  "handover_take h =
     ((case (lh_pending h, lm_state (lh_machine h)) of
         (Some Disconnect, Suspended) \<Rightarrow> Disconnect
       | (Some Connect, Connecting) \<Rightarrow> Connect
       | _ \<Rightarrow> NoAction), h\<lparr>lh_pending := None\<rparr>)"

definition handover_poll :: "link_handover \<Rightarrow> link_input \<Rightarrow> link_action \<times> link_handover" where
  "handover_poll h i = (case link_poll (lh_machine h) i of (action, l) \<Rightarrow> (action, h\<lparr>lh_machine := l\<rparr>))"

definition handover_restart :: "link_handover \<Rightarrow> bool \<times> link_handover" where
  "handover_restart h =
     (let suspended = (lm_state (lh_machine h) = Suspended);
          l = link_restart (lh_machine h);
          l' = (if suspended then snd (link_poll l InSuspend) else l)
      in (suspended, h\<lparr>lh_machine := l', lh_pending := None\<rparr>))"

definition begin_park :: "link_handover \<Rightarrow> u32" where
  "begin_park h = lh_suspends h"

definition end_park :: "u32 \<Rightarrow> link_handover \<Rightarrow> link_handover" where
  "end_park epoch h = h\<lparr>lh_parked := epoch\<rparr>"

definition handover_is_suspended :: "link_handover \<Rightarrow> bool" where
  "handover_is_suspended h \<longleftrightarrow> lm_state (lh_machine h) = Suspended \<and> lh_parked h = lh_suspends h"

section \<open>Invariant of the link machine\<close>

text \<open>
  The address belongs to an association; the failed attempts are the position of the back-off; both
  start over in \<open>Connected\<close> and the back-off window never changes.
\<close>

definition link_ok :: "u64 \<Rightarrow> u64 \<Rightarrow> link_machine \<Rightarrow> bool" where
  "link_ok base m l \<longleftrightarrow> base_ms (lm_backoff l) = base \<and> max_ms (lm_backoff l) = m \<and> lm_max_ms l = m \<and>
     attempt (lm_backoff l) = lm_failed_attempts l \<and> (lm_network_up l \<longrightarrow> lm_state l = Connected) \<and>
     (lm_state l \<in> {Idle, Connected} \<longrightarrow> lm_failed_attempts l = 0) \<and>
     (lm_state l = InBackoff \<longrightarrow> lm_failed_attempts l \<noteq> 0)"

lemmas link_defs = link_poll_def link_arm_def link_lost_def link_associated_def fresh_attempts_def backoff_reset_def

lemma saturating_add_1_nonzero [simp]: "saturating_add x 1 \<noteq> (0 :: u32)"
proof
  assume "saturating_add x 1 = (0 :: u32)"
  then have "unat (saturating_add x (1 :: u32)) = 0" by simp
  then show False by (simp add: unat_saturating_add min_def split: if_splits)
qed

lemma link_ok_new: "link_ok base m (link_with_backoff base m)"
  by (simp add: link_ok_def link_with_backoff_def backoff_new_def)

lemma link_ok_poll: "link_ok base m l \<Longrightarrow> link_ok base m (snd (link_poll l i))"
  by (cases "lm_state l"; cases i)
     (auto simp: link_ok_def link_defs case_prod_unfold)

lemma link_ok_restart: "link_ok base m l \<Longrightarrow> link_ok base m (link_restart l)"
  by (simp add: link_ok_def link_restart_def backoff_reset_def)

interpretation link: polled_machine link_poll "\<lambda>l. \<exists>base m. l = link_with_backoff base m"
  "\<lambda>l. \<exists>base m. link_ok base m l"
  by unfold_locales (auto intro: link_ok_new link_ok_poll)

lemma link_ok_run: "link_ok base m (run_state link_poll (link_with_backoff base m) is)"
  by (induction "is" rule: rev_induct) (simp_all add: link_ok_new link_ok_poll)

section \<open>Lemmas on one poll\<close>

lemma poll_suspended:
  assumes "lm_state l = Suspended" "i \<noteq> InResume"
  shows "lm_state (snd (link_poll l i)) = Suspended \<and>
    fst (link_poll l i) = (if i = InConnected then Disconnect else NoAction) \<and>
    lm_connects (snd (link_poll l i)) = lm_connects l"
  using assms by (cases i) (simp_all add: link_defs)

lemma poll_suspend [simp]: "lm_state (snd (link_poll l InSuspend)) = Suspended"
  by (cases "lm_state l") (simp_all add: link_defs)

lemma poll_suspend_action:
  "fst (link_poll l InSuspend) = (if lm_state l = Suspended then NoAction else Disconnect)"
  by (cases "lm_state l") (simp_all add: link_defs)

lemma poll_resume_action:
  "fst (link_poll l InResume) = (if lm_state l = Suspended then Connect else NoAction)"
  "lm_state l \<noteq> Suspended \<Longrightarrow> lm_state (snd (link_poll l InResume)) = lm_state l"
  "lm_state l = Suspended \<Longrightarrow> lm_state (snd (link_poll l InResume)) = Connecting"
  by (cases "lm_state l"; simp add: link_defs)+

lemma poll_to_suspended: "lm_state (snd (link_poll l i)) = Suspended \<Longrightarrow> lm_state l = Suspended \<or> i = InSuspend"
  by (cases "lm_state l"; cases i) (simp_all add: link_defs case_prod_unfold)

text \<open>What each answer of the machine says about the state it leaves.\<close>

lemma poll_answer:
  "case fst (link_poll l i) of
     Connect \<Rightarrow> lm_state (snd (link_poll l i)) = Connecting
   | Disconnect \<Rightarrow> lm_state (snd (link_poll l i)) = Suspended
   | Wait _ \<Rightarrow> lm_state (snd (link_poll l i)) = InBackoff
   | NoAction \<Rightarrow> lm_state (snd (link_poll l i)) = lm_state l \<or> lm_state (snd (link_poll l i)) = Connected"
  by (cases "lm_state l"; cases i) (simp_all add: link_defs case_prod_unfold)

lemma run_suspended:
  assumes "lm_state l = Suspended" "InResume \<notin> set is"
  shows "lm_state (run_state link_poll l is) = Suspended \<and>
    run_outputs link_poll l is = map (\<lambda>i. if i = InConnected then Disconnect else NoAction) is \<and>
    lm_connects (run_state link_poll l is) = lm_connects l"
  using assms
proof (induction "is" arbitrary: l)
  case (Cons i "is")
  have i: "lm_state (snd (link_poll l i)) = Suspended"
    "fst (link_poll l i) = (if i = InConnected then Disconnect else NoAction)"
    "lm_connects (snd (link_poll l i)) = lm_connects l" and rest: "InResume \<notin> set is"
    using Cons.prems poll_suspended [of l i] by auto
  from Cons.IH [OF i(1) rest] i(2,3) show ?case by simp
qed simp

text \<open>Readiness by the history alone: an association that nothing ended, and an address after it.\<close>

definition ends_link :: "link_input \<Rightarrow> bool" where
  "ends_link i \<longleftrightarrow> i = InDisconnected \<or> i = InSuspend"

definition linked_since :: "u64 \<Rightarrow> u64 \<Rightarrow> link_input list \<Rightarrow> link_input list \<Rightarrow> link_input list \<Rightarrow> bool" where
  "linked_since base m is a b \<longleftrightarrow> is = a @ InConnected # b \<and> list_all (Not \<circ> ends_link) b \<and>
     lm_state (run_state link_poll (link_with_backoff base m) a) \<noteq> Suspended"

lemma poll_connected_iff:
  "lm_state (snd (link_poll l i)) = Connected \<longleftrightarrow>
     (if lm_state l = Connected then \<not> ends_link i else i = InConnected \<and> lm_state l \<noteq> Suspended)"
  by (cases "lm_state l"; cases i) (simp_all add: link_defs ends_link_def case_prod_unfold)

lemma poll_up_iff:
  "lm_network_up (snd (link_poll l i)) \<longleftrightarrow> lm_state (snd (link_poll l i)) = Connected \<and>
     (i = InNetworkUp \<or> lm_network_up l \<and> i \<noteq> InNetworkDown)"
  by (cases "lm_state l"; cases i) (auto simp: link_defs case_prod_unfold)

lemma linked_since_snoc: "linked_since base m is a b \<Longrightarrow> \<not> ends_link i \<Longrightarrow> linked_since base m (is @ [i]) a (b @ [i])"
  by (auto simp: linked_since_def)

lemma linked_since_state:
  assumes "linked_since base m is a b"
  shows "lm_state (run_state link_poll (link_with_backoff base m) is) = Connected"
proof -
  let ?l = "snd (link_poll (run_state link_poll (link_with_backoff base m) a) InConnected)"
  have "lm_state (run_state link_poll l b) = Connected" if "lm_state l = Connected" for l
    using assms that unfolding linked_since_def
  proof (induction b arbitrary: l "is" rule: rev_induct)
    case (snoc i b)
    then show ?case by (simp add: poll_connected_iff)
  qed simp
  moreover have "lm_state ?l = Connected"
    using assms by (auto simp: poll_connected_iff linked_since_def ends_link_def)
  ultimately show ?thesis using assms by (auto simp: linked_since_def)
qed

lemma connected_linked_since:
  "lm_state (run_state link_poll (link_with_backoff base m) is) = Connected \<Longrightarrow> \<exists>a b. linked_since base m is a b"
proof (induction "is" rule: rev_induct)
  case Nil
  then show ?case by (simp add: link_with_backoff_def)
next
  case (snoc i "is")
  let ?l = "run_state link_poll (link_with_backoff base m) is"
  show ?case
  proof (cases "lm_state ?l = Connected")
    case True
    with snoc have "\<not> ends_link i" by (simp add: poll_connected_iff)
    with True snoc.IH show ?thesis by (blast intro: linked_since_snoc)
  next
    case False
    with snoc.prems have "linked_since base m (is @ [i]) is []"
      by (auto simp: linked_since_def poll_connected_iff split: if_splits)
    then show ?thesis by blast
  qed
qed

lemma connected_run_snoc_up:
  assumes "linked_since base m is a b"
  shows "lm_network_up (run_state link_poll (link_with_backoff base m) is) \<longleftrightarrow>
    lm_network_up (run_state link_poll (link_with_backoff base m) (a @ [InConnected])) \<and> InNetworkDown \<notin> set b \<or>
    (\<exists>c d. b = c @ InNetworkUp # d \<and> InNetworkDown \<notin> set d)"
  using assms
proof (induction b arbitrary: "is" rule: rev_induct)
  case Nil
  then show ?case by (simp add: linked_since_def)
next
  case (snoc i b)
  let ?is = "a @ InConnected # b"
  have ls: "linked_since base m ?is a b" and i: "\<not> ends_link i" and eq: "is = ?is @ [i]"
    using snoc.prems by (auto simp: linked_since_def)
  have up: "lm_network_up (run_state link_poll (link_with_backoff base m) is) \<longleftrightarrow>
      i = InNetworkUp \<or> lm_network_up (run_state link_poll (link_with_backoff base m) ?is) \<and> i \<noteq> InNetworkDown"
    using linked_since_state [OF ls] i unfolding eq run_state_append
    by (simp add: poll_up_iff poll_connected_iff)
  have d: "(\<exists>c d. b @ [i] = c @ InNetworkUp # d \<and> InNetworkDown \<notin> set d) \<longleftrightarrow>
      i = InNetworkUp \<or> i \<noteq> InNetworkDown \<and> (\<exists>c d. b = c @ InNetworkUp # d \<and> InNetworkDown \<notin> set d)" (is "?L = ?R")
  proof
    assume ?L
    then obtain c d where "b @ [i] = c @ InNetworkUp # d" "InNetworkDown \<notin> set d" by blast
    then show ?R by (cases d rule: rev_cases) auto
  next
    assume ?R
    then consider "b @ [i] = b @ InNetworkUp # []" "InNetworkDown \<notin> set []"
      | c d where "b @ [i] = c @ InNetworkUp # (d @ [i])" "InNetworkDown \<notin> set (d @ [i])"
      by force
    then show ?L by cases blast+
  qed
  show ?case unfolding up d snoc.IH [OF ls]
    by (cases "i = InNetworkUp"; cases "i = InNetworkDown") simp_all
qed

text \<open>The delays of one outage.\<close>

lemma poll_backoff_elapsed:
  "lm_state l = InBackoff \<Longrightarrow> fst (link_poll l InBackoffElapsed) = Connect \<and>
     lm_state (snd (link_poll l InBackoffElapsed)) = Connecting \<and>
     lm_failed_attempts (snd (link_poll l InBackoffElapsed)) = lm_failed_attempts l"
  by (simp add: link_defs)

lemma losses_run:
  assumes "link_ok base m l" "lm_state l \<in> {Connecting, Connected}"
  shows "run_outputs link_poll l (concat (replicate n [InDisconnected, InBackoffElapsed])) =
    concat (map (\<lambda>k. [Wait (of_nat (delay_spec base m (unat (lm_failed_attempts l) + k))), Connect]) [0 ..< n])"
  using assms
proof (induction n arbitrary: l)
  case (Suc n)
  let ?l1 = "snd (link_poll l InDisconnected)"
  let ?l2 = "snd (link_poll ?l1 InBackoffElapsed)"
  have p1: "link_poll l InDisconnected = (Wait (fst (backoff_next (lm_backoff l))),
      l\<lparr>lm_state := InBackoff, lm_failed_attempts := saturating_add (lm_failed_attempts l) 1,
        lm_backoff := snd (backoff_next (lm_backoff l)), lm_network_up := False\<rparr>)"
    using Suc.prems by (auto simp: link_defs case_prod_unfold)
  have ms: "fst (backoff_next (lm_backoff l)) = of_nat (delay_spec base m (unat (lm_failed_attempts l)))"
    using backoff_next_delay [of "lm_backoff l"] Suc.prems(1) unfolding link_ok_def by (metis of_nat_unat ucast_id)
  have p2: "fst (link_poll ?l1 InBackoffElapsed) = Connect" "lm_state ?l2 = Connecting"
      "lm_failed_attempts ?l2 = saturating_add (lm_failed_attempts l) 1"
    using poll_backoff_elapsed [of ?l1] by (simp_all add: p1)
  have "link_ok base m ?l2" using Suc.prems(1) by (intro link_ok_poll)
  from Suc.IH [OF this] p1 ms p2 show ?case
    by (simp add: map_upt_Suc backoff_next_step del: upt_Suc)
qed simp

section \<open>Lemmas on the hand-over\<close>

text \<open>
  The calls on a shared hand-over: suspend and resume from other tasks, the rest from the runner, which
  passes to \<open>end_park\<close> the epoch it got from its last \<open>begin_park\<close>.
\<close>

datatype handover_op = HSuspend | HResume | HTake | HPoll link_input | HRestart | HBeginPark | HEndPark

record handover_system =
  hs_handover :: link_handover
  hs_epoch :: "u32 option"

definition handover_start :: handover_system where
  "handover_start = \<lparr>hs_handover = handover_new, hs_epoch = None\<rparr>"

definition handover_step :: "handover_system \<Rightarrow> handover_op \<Rightarrow> link_action \<times> handover_system" where
  "handover_step s op = (case op of
       HSuspend \<Rightarrow> (NoAction, s\<lparr>hs_handover := snd (handover_suspend (hs_handover s))\<rparr>)
     | HResume \<Rightarrow> (NoAction, s\<lparr>hs_handover := snd (handover_resume (hs_handover s))\<rparr>)
     | HTake \<Rightarrow> (case handover_take (hs_handover s) of (a, h) \<Rightarrow> (a, s\<lparr>hs_handover := h\<rparr>))
     | HPoll i \<Rightarrow> (case handover_poll (hs_handover s) i of (a, h) \<Rightarrow> (a, s\<lparr>hs_handover := h\<rparr>))
     | HRestart \<Rightarrow> (NoAction, s\<lparr>hs_handover := snd (handover_restart (hs_handover s))\<rparr>)
     | HBeginPark \<Rightarrow> (NoAction, s\<lparr>hs_epoch := Some (begin_park (hs_handover s))\<rparr>)
     | HEndPark \<Rightarrow> (NoAction, case hs_epoch s of None \<Rightarrow> s
                                 | Some e \<Rightarrow> s\<lparr>hs_handover := end_park e (hs_handover s)\<rparr>))"

abbreviation link_of :: "handover_system \<Rightarrow> link_machine" where
  "link_of s \<equiv> lh_machine (hs_handover s)"

abbreviation handover_after :: "handover_op list \<Rightarrow> handover_system" where
  "handover_after ops \<equiv> run_state handover_step handover_start ops"

lemmas handover_defs = handover_step_def handover_suspend_def handover_resume_def handover_take_def handover_poll_def
  handover_restart_def begin_park_def end_park_def

text \<open>The calls that neither take the pending action nor change what the latest call asked for.\<close>

fun keeps_suspend :: "handover_op \<Rightarrow> bool" where
  "keeps_suspend (HPoll i) = (i \<noteq> InResume)"
| "keeps_suspend op = (op \<in> {HSuspend, HBeginPark, HEndPark})"

fun keeps_resume :: "handover_op \<Rightarrow> bool" where
  "keeps_resume (HPoll i) = (i \<in> {InStart, InBackoffElapsed, InResume, InNetworkUp, InNetworkDown})"
| "keeps_resume op = (op \<in> {HResume, HBeginPark, HEndPark})"

lemma pending_disconnect_step:
  assumes "lm_state (link_of s) = Suspended" "lh_pending (hs_handover s) = Some Disconnect" "keeps_suspend op"
  shows "lm_state (link_of (snd (handover_step s op))) = Suspended \<and>
    lh_pending (hs_handover (snd (handover_step s op))) = Some Disconnect"
  using assms by (cases op) (auto simp: handover_defs case_prod_unfold poll_suspend_action poll_suspended split: option.splits)

lemma pending_connect_step:
  assumes "lm_state (link_of s) = Connecting" "lh_pending (hs_handover s) = Some Connect" "keeps_resume op"
  shows "lm_state (link_of (snd (handover_step s op))) = Connecting \<and>
    lh_pending (hs_handover (snd (handover_step s op))) = Some Connect"
  using assms by (cases op) (auto simp: handover_defs link_defs case_prod_unfold split: option.splits)

lemma pending_disconnect_run:
  assumes "lm_state (link_of s) = Suspended" "lh_pending (hs_handover s) = Some Disconnect" "list_all keeps_suspend ops"
  shows "fst (handover_step (run_state handover_step s ops) HTake) = Disconnect"
  using assms
proof (induction ops arbitrary: s)
  case (Cons op ops)
  then show ?case using pending_disconnect_step [of s op] by simp
qed (simp add: handover_defs)

lemma pending_connect_run:
  assumes "lm_state (link_of s) = Connecting" "lh_pending (hs_handover s) = Some Connect" "list_all keeps_resume ops"
  shows "fst (handover_step (run_state handover_step s ops) HTake) = Connect"
  using assms
proof (induction ops arbitrary: s)
  case (Cons op ops)
  then show ?case using pending_connect_step [of s op] by simp
qed (simp add: handover_defs)

text \<open>A park that was begun at a suspend epoch, and one that was also ended.\<close>

definition begun_at :: "handover_op list \<Rightarrow> u32 \<Rightarrow> bool" where
  "begun_at ops e \<longleftrightarrow> (\<exists>a b. ops = a @ HBeginPark # b \<and> lh_suspends (hs_handover (handover_after a)) = e)"

definition parked_at :: "handover_op list \<Rightarrow> u32 \<Rightarrow> bool" where
  "parked_at ops e \<longleftrightarrow>
     (\<exists>a b. ops = a @ HBeginPark # b \<and> lh_suspends (hs_handover (handover_after a)) = e \<and> HEndPark \<in> set b)"

lemma begun_at_snoc: "begun_at ops e \<Longrightarrow> begun_at (ops @ [op]) e"
  unfolding begun_at_def by (metis append_Cons append_assoc)

lemma parked_at_snoc: "parked_at ops e \<Longrightarrow> parked_at (ops @ [op]) e"
  unfolding parked_at_def by (metis Cons_eq_appendI UnCI append.assoc set_append)

lemma parked_at_end: "begun_at ops e \<Longrightarrow> parked_at (ops @ [HEndPark]) e"
  unfolding begun_at_def parked_at_def by fastforce

lemma begun_at_begin: "begun_at (ops @ [HBeginPark]) (lh_suspends (hs_handover (handover_after ops)))"
  unfolding begun_at_def by blast

definition park_inv :: "handover_op list \<Rightarrow> handover_system \<Rightarrow> bool" where
  "park_inv ops s \<longleftrightarrow>
     unat (lh_suspends (hs_handover s)) \<le> length ops \<and>
     (lm_state (link_of s) = Suspended \<longrightarrow> lh_suspends (hs_handover s) \<noteq> 0) \<and>
     (\<forall>e. hs_epoch s = Some e \<longrightarrow> begun_at ops e) \<and>
     (lh_parked (hs_handover s) = 0 \<or> parked_at ops (lh_parked (hs_handover s)))"

lemma restart_state: "lm_state (lh_machine (snd (handover_restart h))) = (if lm_state (lh_machine h) = Suspended then Suspended else Idle)"
  by (simp add: handover_restart_def link_restart_def Let_def)

lemma suspends_step:
  "unat (lh_suspends (hs_handover (snd (handover_step s op)))) \<le> Suc (unat (lh_suspends (hs_handover s)))"
proof -
  have "unat (lh_suspends (hs_handover s) + 1) \<le> Suc (unat (lh_suspends (hs_handover s)))"
    by (cases "lh_suspends (hs_handover s) + 1 = 0") (auto simp: unat_succ)
  then show ?thesis by (cases op) (auto simp: handover_defs case_prod_unfold Let_def split: option.splits)
qed

lemma suspended_step:
  assumes "op \<noteq> HPoll InSuspend" and "lm_state (link_of (snd (handover_step s op))) = Suspended"
  shows "lm_state (link_of s) = Suspended \<and> lh_suspends (hs_handover (snd (handover_step s op))) = lh_suspends (hs_handover s) \<or>
    lh_suspends (hs_handover (snd (handover_step s op))) = lh_suspends (hs_handover s) + 1"
proof (cases op)
  case (HPoll i)
  with assms poll_to_suspended [of "link_of s" i] show ?thesis by (auto simp: handover_defs case_prod_unfold)
next
  case HResume
  with assms show ?thesis
    by (cases "lm_state (link_of s) = Suspended")
       (auto simp: handover_defs case_prod_unfold poll_resume_action split: if_splits)
next
  case HRestart
  with assms restart_state [of "hs_handover s"] show ?thesis
    by (auto simp: handover_step_def handover_restart_def Let_def split: if_splits)
qed (use assms in \<open>auto simp: handover_defs case_prod_unfold poll_suspend_action split: option.splits if_splits\<close>)

lemma park_inv_step:
  assumes "park_inv ops (handover_after ops)" and "op \<noteq> HPoll InSuspend" and "length ops < 2 ^ 32 - 1"
  shows "park_inv (ops @ [op]) (handover_after (ops @ [op]))"
proof -
  let ?s = "handover_after ops"
  let ?t = "snd (handover_step ?s op)"
  have len: "unat (lh_suspends (hs_handover ?s)) \<le> length ops" using assms(1) by (simp add: park_inv_def)
  have "unat (lh_suspends (hs_handover ?t)) \<le> length (ops @ [op])" using suspends_step [of ?s op] len by simp
  moreover have "lm_state (link_of ?t) = Suspended \<longrightarrow> lh_suspends (hs_handover ?t) \<noteq> 0"
  proof
    assume "lm_state (link_of ?t) = Suspended"
    moreover have "lh_suspends (hs_handover ?s) + 1 \<noteq> 0"
    proof
      assume "lh_suspends (hs_handover ?s) + 1 = 0"
      then have "lh_suspends (hs_handover ?s) = - 1" by (simp add: eq_neg_iff_add_eq_0)
      then have "unat (lh_suspends (hs_handover ?s)) = 2 ^ 32 - 1"
        by (simp add: unsigned_minus_1_eq_mask mask_eq_exp_minus_1)
      with len assms(3) show False by simp
    qed
    ultimately show "lh_suspends (hs_handover ?t) \<noteq> 0"
      using suspended_step [OF assms(2), of ?s] assms(1) by (auto simp: park_inv_def)
  qed
  moreover have "begun_at (ops @ [op]) e" if e: "hs_epoch ?t = Some e" for e
  proof (cases "op = HBeginPark")
    case True
    with e begun_at_begin [of ops] show ?thesis by (simp add: handover_step_def begin_park_def)
  next
    case False
    with e have "hs_epoch ?s = Some e" by (cases op) (auto simp: handover_step_def case_prod_unfold split: option.splits)
    with assms(1) show ?thesis by (auto simp: park_inv_def intro: begun_at_snoc)
  qed
  moreover have "lh_parked (hs_handover ?t) = 0 \<or> parked_at (ops @ [op]) (lh_parked (hs_handover ?t))"
  proof (cases "op = HEndPark \<and> hs_epoch ?s \<noteq> None")
    case True
    then obtain e where "hs_epoch ?s = Some e" "lh_parked (hs_handover ?t) = e"
      by (auto simp: handover_step_def end_park_def)
    with assms(1) True show ?thesis by (auto simp: park_inv_def intro: parked_at_end)
  next
    case False
    then have "lh_parked (hs_handover ?t) = lh_parked (hs_handover ?s)"
      by (cases op) (auto simp: handover_defs case_prod_unfold Let_def split: option.splits)
    with assms(1) show ?thesis by (auto simp: park_inv_def intro: parked_at_snoc)
  qed
  ultimately show ?thesis by (simp add: park_inv_def)
qed

lemma park_inv_run:
  assumes "HPoll InSuspend \<notin> set ops" and "length ops < 2 ^ 32"
  shows "park_inv ops (handover_after ops)"
  using assms
proof (induction ops rule: rev_induct)
  case Nil
  then show ?case by (simp add: park_inv_def handover_start_def handover_new_def link_new_def link_with_backoff_def)
next
  case (snoc op ops)
  then show ?case by (intro park_inv_step) auto
qed

section \<open>Properties\<close>

text \<open>
  A suspended link stays quiet.  After a suspend, whatever the driver reports, no connect and no
  wait is issued until a resume: a connection that still lands is answered with another disconnect,
  everything else with nothing, and the count of associations does not move; the resume then connects.
\<close>

theorem suspended_link_quiet:
  assumes "l = snd (link_poll l0 InSuspend)" and "InResume \<notin> set is"
  shows "run_outputs link_poll l is = map (\<lambda>i. if i = InConnected then Disconnect else NoAction) is \<and>
    lm_connects (run_state link_poll l is) = lm_connects l \<and>
    fst (link_poll (run_state link_poll l is) InResume) = Connect"
  using run_suspended [of l "is"] assms by (simp add: poll_resume_action)

theorem suspended_link_quiet_witness:
  "run_outputs link_poll (snd (link_poll link_new InSuspend)) [InConnected, InDisconnected, InBackoffElapsed] =
    [Disconnect, NoAction, NoAction]"
  using suspended_link_quiet [OF refl, of "[InConnected, InDisconnected, InBackoffElapsed]" link_new] by simp

text \<open>
  The hand-over gives the runner the action of the latest call.  After a suspend that found the link
  running, the next take answers Disconnect whatever the runner observed in between; after a resume of
  a suspended link it answers Connect unless the runner itself saw the link move on.
\<close>

theorem handover_latest_call_wins:
  assumes "list_all keeps_suspend ops" and "list_all keeps_resume ops'"
  shows "if lm_state (link_of s) \<noteq> Suspended
    then fst (handover_step (run_state handover_step s (HSuspend # ops)) HTake) = Disconnect
    else fst (handover_step (run_state handover_step s (HResume # ops')) HTake) = Connect"
proof (cases "lm_state (link_of s) = Suspended")
  case True
  then have "lm_state (link_of (snd (handover_step s HResume))) = Connecting \<and>
      lh_pending (hs_handover (snd (handover_step s HResume))) = Some Connect"
    by (simp add: handover_defs case_prod_unfold poll_resume_action)
  with True pending_connect_run [OF _ _ assms(2)] show ?thesis by simp
next
  case False
  then have "lm_state (link_of (snd (handover_step s HSuspend))) = Suspended \<and>
      lh_pending (hs_handover (snd (handover_step s HSuspend))) = Some Disconnect"
    by (simp add: handover_defs case_prod_unfold poll_suspend_action)
  with False pending_disconnect_run [OF _ _ assms(1)] show ?thesis by simp
qed

theorem handover_latest_call_wins_witness:
  "fst (handover_step (run_state handover_step handover_start [HSuspend, HPoll InConnected, HPoll InDisconnected]) HTake) = Disconnect"
  using handover_latest_call_wins [of "[HPoll InConnected, HPoll InDisconnected]" "[]" handover_start]
  by (simp add: handover_start_def handover_new_def link_new_def link_with_backoff_def)

text \<open>
  The hand-over reports suspended only when the station is down.  In every interleaving of
  suspends, resumes, restarts and the runner's work (which never feeds a suspend itself), if
  \<open>is_suspended\<close> answers true, the runner began a disconnect after the latest effective suspend and
  has ended it, provided fewer than \<open>2 ^ 32\<close> calls were made.
\<close>

theorem suspended_means_parked:
  assumes "HPoll InSuspend \<notin> set ops" and "length ops < 2 ^ 32"
    and "handover_is_suspended (hs_handover (handover_after ops))"
  shows "\<exists>a b. ops = a @ HBeginPark # b \<and> HEndPark \<in> set b \<and>
    lh_suspends (hs_handover (handover_after a)) = lh_suspends (hs_handover (handover_after ops))"
  using park_inv_run [OF assms(1,2)] assms(3)
  by (auto simp: park_inv_def handover_is_suspended_def parked_at_def)

theorem suspended_means_parked_witness:
  "\<exists>a b. [HSuspend, HBeginPark, HTake, HEndPark] = a @ HBeginPark # b \<and> HEndPark \<in> set b \<and>
    lh_suspends (hs_handover (handover_after a)) = 1"
proof -
  let ?ops = "[HSuspend, HBeginPark, HTake, HEndPark]"
  have e: "lh_suspends (hs_handover (handover_after ?ops)) = 1" by code_simp
  have "handover_is_suspended (hs_handover (handover_after ?ops))" by code_simp
  from suspended_means_parked [OF _ _ this] e show ?thesis by simp
qed

text \<open>
  Readiness is a property of the current association.  A link is ready exactly when the driver
  reported an association while the link was not suspended, nothing ended it since, and the last report
  on the address after it says that the network is up.
\<close>

theorem link_ready_iff:
  "link_is_ready (run_state link_poll (link_with_backoff base m) is) \<longleftrightarrow>
    (\<exists>a b c d. is = a @ InConnected # b \<and> b = c @ InNetworkUp # d \<and> InNetworkDown \<notin> set d \<and>
       list_all (Not \<circ> ends_link) b \<and> lm_state (run_state link_poll (link_with_backoff base m) a) \<noteq> Suspended)"
    (is "?R \<longleftrightarrow> ?E")
proof
  assume ?E
  then obtain a b c d where ls: "linked_since base m is a b" and b: "b = c @ InNetworkUp # d" "InNetworkDown \<notin> set d"
    by (auto simp: linked_since_def)
  then show ?R using linked_since_state [OF ls] connected_run_snoc_up [OF ls] by (auto simp: link_is_ready_def)
next
  assume r: ?R
  then have "lm_state (run_state link_poll (link_with_backoff base m) is) = Connected" by (simp add: link_is_ready_def)
  from connected_linked_since [OF this] obtain a b where "linked_since base m is a b" by blast
  then show ?E
  proof (induction "length a" arbitrary: a b rule: less_induct)
    case less
    let ?l = "run_state link_poll (link_with_backoff base m) a"
    show ?case
    proof (cases "\<exists>c d. b = c @ InNetworkUp # d \<and> InNetworkDown \<notin> set d")
      case True
      with less.prems show ?thesis unfolding linked_since_def by blast
    next
      case False
      with r less.prems have up: "lm_network_up (run_state link_poll (link_with_backoff base m) (a @ [InConnected]))"
        using connected_run_snoc_up [OF less.prems] by (auto simp: link_is_ready_def)
      then have "lm_network_up ?l" by (simp add: poll_up_iff)
      then have "lm_state ?l = Connected" using link_ok_run [of base m a] by (simp add: link_ok_def)
      then obtain a' b' where a': "linked_since base m a a' b'" using connected_linked_since by blast
      with less.prems have "linked_since base m is a' (b' @ InConnected # b)" "length a' < length a"
        by (auto simp: linked_since_def ends_link_def)
      with less.hyps show ?thesis by blast
    qed
  qed
qed

text \<open>
  Reconnect delays double and clamp.  After any history that leaves the link associated, an outage
  with \<open>n\<close> failed attempts waits \<open>min (base * 2 ^ k) max\<close> milliseconds before the \<open>k\<close>-th attempt, then
  connects.
\<close>

theorem reconnect_delays:
  assumes "l = run_state link_poll (link_with_backoff base m) is" and "lm_state l = Connected"
  shows "run_outputs link_poll l (concat (replicate n [InDisconnected, InBackoffElapsed])) =
    concat (map (\<lambda>k. [Wait (of_nat (delay_spec base m k)), Connect]) [0 ..< n])"
proof -
  have ok: "link_ok base m l" using assms(1) link_ok_run by simp
  with assms(2) have "lm_failed_attempts l = 0" by (simp add: link_ok_def)
  with losses_run [OF ok, of n] assms(2) show ?thesis by simp
qed

theorem reconnect_delays_witness:
  "run_outputs link_poll (run_state link_poll link_new [InStart, InConnected]) [InDisconnected, InBackoffElapsed, InDisconnected, InBackoffElapsed] =
    [Wait 1000, Connect, Wait 2000, Connect]"
proof -
  have "lm_state (run_state link_poll link_new [InStart, InConnected]) = Connected" by code_simp
  from reconnect_delays [OF _ this [unfolded link_new_def], of _ _ "[InStart, InConnected]" 2]
  have "run_outputs link_poll (run_state link_poll link_new [InStart, InConnected])
      (concat (replicate 2 [InDisconnected, InBackoffElapsed])) =
    concat (map (\<lambda>k. [Wait (of_nat (delay_spec RECONNECT_BACKOFF_BASE_MS RECONNECT_BACKOFF_MAX_MS k)), Connect]) [0 ..< 2])"
    by (simp only: link_new_def)
  moreover have "concat (map (\<lambda>k. [Wait (of_nat (delay_spec RECONNECT_BACKOFF_BASE_MS RECONNECT_BACKOFF_MAX_MS k)), Connect]) [0 ..< 2])
    = [Wait 1000, Connect, Wait 2000, Connect]" by code_simp
  moreover have "concat (replicate 2 [InDisconnected, InBackoffElapsed]) =
    [InDisconnected, InBackoffElapsed, InDisconnected, InBackoffElapsed]" by (simp add: numeral_2_eq_2)
  ultimately show ?thesis by simp
qed

end
