(* ===== verification/Wifi_Supervisor.thy ===== *)
theory Wifi_Supervisor
  imports Wifi_Link
begin

text \<open>
  The thread-based station supervisor (\<^verbatim>\<open>juggler/src/wifi/supervisor.rs\<close>).

  Every transition and the radio calls it implies run under one lock, so each method, each poll of a
  waiting future and each turn of the worker is one step on the shared core.  The radio is a parameter:
  a record of its four calls on a state of its own.  Calls of readiness sinks and wakers are recorded
  in the core's list of effects.  Instants are numbers of nanoseconds and enter as arguments.

  The lemmas show: the radio is called in a legal order and never asked to connect while suspended; a
  back-off timer exists exactly in the back-off state; driver events that predate the last stop never
  reach the link machine, however late the worker sees them; sinks hear every change of readiness once;
  nobody stays parked on a link that is ready.
\<close>

section \<open>Model\<close>

record ('r, 'e) link_radio =
  rd_start :: "('r, 'e, unit) prog"
  rd_connect :: "('r, 'e, unit) prog"
  rd_disconnect :: "('r, 'e, unit) prog"
  rd_stop :: "('r, 'e, unit) prog"

datatype link_event = LeConnected | LeDisconnected | LeStopped | LeNetworkUp | LeNetworkDown

datatype msg = MEvent link_event | MInput link_input | MWake | MShutdown

type_synonym instant = nat

datatype effect = Told nat bool | Woke nat

record 'r core =
  co_machine :: link_machine
  co_radio :: 'r
  co_radio_started :: bool
  co_stops :: u32
  co_fenced :: u32
  co_backoff_at :: "instant option"
  co_ready_waiters :: "(u64 \<times> nat) list"
  co_next_waiter :: u64
  co_ready_sinks :: "nat list"
  co_ready_reported :: bool
  co_effects :: "effect list"

type_synonym ('r, 'e, 'a) core_prog = "('r core, 'e, 'a) prog"

definition core_new :: "'r \<Rightarrow> link_machine \<Rightarrow> 'r core" where
  "core_new radio machine = \<lparr>co_machine = machine, co_radio = radio, co_radio_started = True, co_stops = 0,
     co_fenced = 0, co_backoff_at = None, co_ready_waiters = [], co_next_waiter = 0, co_ready_sinks = [],
     co_ready_reported = False, co_effects = []\<rparr>"

text \<open>A call of the radio as a step on the core, and the machine's poll on the core.\<close>

definition on_radio :: "('r, 'e, unit) prog \<Rightarrow> ('r, 'e, unit) core_prog" where
  "on_radio p = (\<lambda>c. case p (co_radio c) of (r, radio) \<Rightarrow> (r, c\<lparr>co_radio := radio\<rparr>))"

definition update :: "('r core \<Rightarrow> 'r core) \<Rightarrow> ('r, 'e, unit) core_prog" where
  "update f = (\<lambda>c. (Inr (), f c))"

definition core_poll :: "link_input \<Rightarrow> 'r core \<Rightarrow> link_action \<times> 'r core" where
  "core_poll i c = (case link_poll (co_machine c) i of (a, l) \<Rightarrow> (a, c\<lparr>co_machine := l\<rparr>))"

definition fence_up :: "'r core \<Rightarrow> bool" where
  "fence_up c \<longleftrightarrow> co_fenced c \<noteq> co_stops c"

definition core_connect :: "('r, 'e) link_radio \<Rightarrow> ('r, 'e, unit) core_prog" where
  "core_connect R = (\<lambda>c.
     andThen (if co_radio_started c then ok ()
              else andThen (on_radio (rd_start R)) (\<lambda>_. update (\<lambda>c. c\<lparr>co_radio_started := True\<rparr>)))
       (\<lambda>_. on_radio (rd_connect R)) c)"

definition radio_down :: "('r, 'e) link_radio \<Rightarrow> ('r, 'e, unit) core_prog" where
  "radio_down R = (\<lambda>c.
     (if \<not> co_radio_started c then ok ()
      else onResult (on_radio (rd_disconnect R)) (\<lambda>_.
           andThen (on_radio (rd_stop R)) (\<lambda>_.
           update (\<lambda>c. c\<lparr>co_radio_started := False, co_stops := co_stops c + 1\<rparr>)))) c)"

definition report_ready :: "'r core \<Rightarrow> 'r core" where
  "report_ready c = (let ready = link_is_ready (co_machine c) in
     if ready = co_ready_reported c then c
     else c\<lparr>co_ready_reported := ready,
            co_effects := co_effects c @ map (\<lambda>sink. Told sink ready) (co_ready_sinks c)\<rparr>)"

definition from_millis :: "u64 \<Rightarrow> duration" where
  "from_millis ms = unat ms * 10 ^ 6"

lemma poll_disconnected_no_connect: "fst (core_poll InDisconnected c) \<noteq> Connect"
  by (cases "lm_state (co_machine c)") (simp_all add: core_poll_def link_defs case_prod_unfold)

text \<open>The loop of \<open>step\<close>: a failed connect is a lost link, whose answer is performed next.\<close>

function perform :: "('r, 'e) link_radio \<Rightarrow> instant \<Rightarrow> link_action \<Rightarrow> 'r core \<Rightarrow> 'r core" where
  "perform R now action c = (case action of
       NoAction \<Rightarrow> c
     | Connect \<Rightarrow>
         (case core_connect R c of
            (Inr _, c1) \<Rightarrow> c1
          | (Inl _, c1) \<Rightarrow> (case core_poll InDisconnected c1 of (action', c2) \<Rightarrow> perform R now action' c2))
     | Disconnect \<Rightarrow> snd (radio_down R c)
     | Wait ms \<Rightarrow> c\<lparr>co_backoff_at := Some (now + from_millis ms)\<rparr>)"
  by pat_completeness auto
termination
proof (relation "measure (\<lambda>(R, now, action, c). if action = Connect then 1 else 0)")
  fix R :: "('r, 'e) link_radio" and now action c z c1 y action' c2
  assume "action = Connect" and "(action', c2) = core_poll InDisconnected c1"
  from this(2) have "action' \<noteq> Connect" by (metis fst_conv poll_disconnected_no_connect)
  with \<open>action = Connect\<close> show "((R, now, action', c2), R, now, action, c)
    \<in> measure (\<lambda>(R, now, action, c). if action = Connect then 1 else 0)" by simp
qed simp

declare perform.simps [simp del]

definition step :: "('r, 'e) link_radio \<Rightarrow> instant \<Rightarrow> link_input \<Rightarrow> 'r core \<Rightarrow> 'r core" where
  "step R now i c =
     (case core_poll i c of (action, c1) \<Rightarrow>
        let c2 = perform R now action c1
        in if lm_state (co_machine c2) \<noteq> InBackoff then c2\<lparr>co_backoff_at := None\<rparr> else c2)"

definition supervisor_suspend :: "('r, 'e) link_radio \<Rightarrow> ('r, 'e, unit) core_prog" where
  "supervisor_suspend R = (\<lambda>c.
     case core_poll InSuspend c of (action, c1) \<Rightarrow>
       let c2 = c1\<lparr>co_backoff_at := None\<rparr>
       in if action = NoAction \<and> \<not> co_radio_started c2 then (Inr (), c2)
          else radio_down R (report_ready c2))"

text \<open>The flag tells whether the worker was woken to read the new deadline.\<close>

definition supervisor_resume :: "('r, 'e) link_radio \<Rightarrow> instant \<Rightarrow> 'r core \<Rightarrow> ('e + unit) \<times> bool \<times> 'r core" where
  "supervisor_resume R now c =
     (case core_poll InResume c of (action, c1) \<Rightarrow>
        if action \<noteq> Connect then (Inr (), False, c1)
        else (case core_connect R (c1\<lparr>co_backoff_at := None\<rparr>) of
                (Inr _, c2) \<Rightarrow> (Inr (), False, report_ready c2)
              | (Inl e, c2) \<Rightarrow> (Inl e, True, report_ready (step R now InDisconnected c2))))"

definition supervisor_is_suspended :: "'r core \<Rightarrow> bool" where
  "supervisor_is_suspended c \<longleftrightarrow> lm_state (co_machine c) = Suspended \<and> \<not> co_radio_started c"

definition subscribe_ready :: "nat \<Rightarrow> 'r core \<Rightarrow> bool \<times> 'r core" where
  "subscribe_ready sink c = (let c1 = c\<lparr>co_ready_sinks := co_ready_sinks c @ [sink]\<rparr>
     in (link_is_ready (co_machine c1), c1))"

text \<open>One poll of a waiting future with its registration id; \<open>True\<close> when it completes.\<close>

definition ready_wait_poll :: "nat \<Rightarrow> u64 option \<Rightarrow> 'r core \<Rightarrow> bool \<times> u64 option \<times> 'r core" where
  "ready_wait_poll waker reg c =
     (if link_is_ready (co_machine c)
      then (True, None, case reg of None \<Rightarrow> c
              | Some i \<Rightarrow> c\<lparr>co_ready_waiters := filter (\<lambda>(w, _). w \<noteq> i) (co_ready_waiters c)\<rparr>)
      else
        (let (i, c1) = (case reg of
               Some i \<Rightarrow> (i, c)
             | None \<Rightarrow> (co_next_waiter c, c\<lparr>co_next_waiter := co_next_waiter c + 1\<rparr>))
         in (False, Some i,
             if i \<in> fst ` set (co_ready_waiters c1)
             then c1\<lparr>co_ready_waiters := map (\<lambda>(w, k). if w = i then (w, waker) else (w, k)) (co_ready_waiters c1)\<rparr>
             else c1\<lparr>co_ready_waiters := co_ready_waiters c1 @ [(i, waker)]\<rparr>)))"

definition ready_wait_drop :: "u64 option \<Rightarrow> 'r core \<Rightarrow> 'r core" where
  "ready_wait_drop reg c = (case reg of None \<Rightarrow> c
     | Some i \<Rightarrow> c\<lparr>co_ready_waiters := filter (\<lambda>(w, _). w \<noteq> i) (co_ready_waiters c)\<rparr>)"

text \<open>What the worker makes of a message (\<open>None\<close>: the deadline of the back-off passed).\<close>

datatype turn = Break | Continue | Feed link_input

definition worker_input :: "instant \<Rightarrow> msg option \<Rightarrow> 'r core \<Rightarrow> turn \<times> 'r core" where
  "worker_input now m c =
     (let timer = (case co_backoff_at c of
            Some at \<Rightarrow> (if at \<le> now then (Feed InBackoffElapsed, c\<lparr>co_backoff_at := None\<rparr>) else (Continue, c))
          | None \<Rightarrow> (Continue, c))
      in case m of
           None \<Rightarrow> timer
         | Some MWake \<Rightarrow> timer
         | Some MShutdown \<Rightarrow> (Break, c)
         | Some (MEvent e) \<Rightarrow>
             (if e = LeStopped then (Continue, if fence_up c then c\<lparr>co_fenced := co_fenced c + 1\<rparr> else c)
              else if fence_up c then (Continue, c)
              else (case e of LeConnected \<Rightarrow> (Feed InConnected, c) | LeDisconnected \<Rightarrow> (Feed InDisconnected, c)
                      | LeNetworkUp \<Rightarrow> (Feed InNetworkUp, c) | LeNetworkDown \<Rightarrow> (Feed InNetworkDown, c)
                      | LeStopped \<Rightarrow> (Continue, c)))
         | Some (MInput i) \<Rightarrow> (Feed i, c))"

definition wake_ready :: "'r core \<Rightarrow> 'r core" where
  "wake_ready c = (if link_is_ready (co_machine c)
     then c\<lparr>co_ready_waiters := [], co_effects := co_effects c @ map (\<lambda>(_, w). Woke w) (co_ready_waiters c)\<rparr> else c)"

text \<open>One turn of the worker; \<open>True\<close> while the loop goes on.\<close>

definition worker_turn :: "('r, 'e) link_radio \<Rightarrow> instant \<Rightarrow> msg option \<Rightarrow> 'r core \<Rightarrow> bool \<times> 'r core" where
  "worker_turn R now m c = (case worker_input now m c of
       (Break, c1) \<Rightarrow> (False, c1)
     | (Continue, c1) \<Rightarrow> (True, c1)
     | (Feed i, c1) \<Rightarrow> (True, report_ready (wake_ready (step R now i c1))))"

section \<open>What the operations keep\<close>

text \<open>Fields that the radio calls leave alone.\<close>

definition same_but_radio :: "'r core \<Rightarrow> 'r core \<Rightarrow> bool" where
  "same_but_radio c c' \<longleftrightarrow> c' = c\<lparr>co_radio := co_radio c', co_radio_started := co_radio_started c', co_stops := co_stops c'\<rparr>"

lemma same_but_radioD:
  assumes "same_but_radio c c'"
  shows "co_machine c' = co_machine c" "co_fenced c' = co_fenced c" "co_backoff_at c' = co_backoff_at c"
    "co_ready_waiters c' = co_ready_waiters c" "co_next_waiter c' = co_next_waiter c" "co_ready_sinks c' = co_ready_sinks c"
    "co_ready_reported c' = co_ready_reported c" "co_effects c' = co_effects c"
  using assms unfolding same_but_radio_def by (cases c; cases c'; simp)+

lemmas prog_simps = andThen_def onResult_def ok_def fail_def update_def on_radio_def

lemma connect_frame:
  "same_but_radio c (snd (core_connect R c)) \<and> co_stops (snd (core_connect R c)) = co_stops c \<and>
   (fst (core_connect R c) = Inr () \<longrightarrow> co_radio_started (snd (core_connect R c)))"
  by (auto simp: same_but_radio_def core_connect_def prog_simps split: prod.splits sum.splits)

lemma radio_down_frame:
  "same_but_radio c (snd (radio_down R c)) \<and>
   (if fst (radio_down R c) = Inr () then \<not> co_radio_started (snd (radio_down R c)) \<and>
       co_stops (snd (radio_down R c)) = co_stops c + (if co_radio_started c then 1 else 0)
    else co_radio_started (snd (radio_down R c)) = co_radio_started c \<and> co_stops (snd (radio_down R c)) = co_stops c)"
  by (auto simp: same_but_radio_def radio_down_def prog_simps split: prod.splits sum.splits)

lemmas connect_keeps [simp] = same_but_radioD [OF connect_frame [THEN conjunct1]]
lemmas radio_down_keeps [simp] = same_but_radioD [OF radio_down_frame [THEN conjunct1]]

lemma core_poll_simps [simp]:
  "fst (core_poll i c) = fst (link_poll (co_machine c) i)"
  "snd (core_poll i c) = c\<lparr>co_machine := snd (link_poll (co_machine c) i)\<rparr>"
  by (simp_all add: core_poll_def case_prod_unfold)

text \<open>After a performed answer the machine rests in the state the answer belongs to.\<close>

lemma poll_disconnected_wait:
  "lm_state l = Connecting \<Longrightarrow> \<exists>ms. link_poll l InDisconnected = (Wait ms, snd (link_poll l InDisconnected)) \<and>
     lm_state (snd (link_poll l InDisconnected)) = InBackoff \<and> lm_connects (snd (link_poll l InDisconnected)) = lm_connects l"
  by (simp add: link_defs case_prod_unfold)

lemma perform_cases:
  assumes "action = Connect \<longrightarrow> lm_state (co_machine c) = Connecting"
  obtains (idle) "action = NoAction" "perform R now action c = c"
  | (down) "action = Disconnect" "perform R now action c = snd (radio_down R c)"
  | (waiting) ms where "action = Wait ms" "perform R now action c = c\<lparr>co_backoff_at := Some (now + from_millis ms)\<rparr>"
  | (connected) "action = Connect" "perform R now action c = snd (core_connect R c)" "fst (core_connect R c) = Inr ()"
  | (failed) ms where "action = Connect" "perform R now action c =
      (snd (core_connect R c))\<lparr>co_machine := snd (link_poll (co_machine c) InDisconnected), co_backoff_at := Some (now + from_millis ms)\<rparr>"
      "lm_state (snd (link_poll (co_machine c) InDisconnected)) = InBackoff"
proof (cases action)
  case Connect
  show ?thesis
  proof (cases "fst (core_connect R c)")
    case (Inr u)
    have "perform R now action c = snd (core_connect R c)"
      using Connect Inr by (simp add: perform.simps [of R now Connect] case_prod_unfold)
    with Connect Inr connected show ?thesis by simp
  next
    case (Inl e)
    obtain ms where ms: "link_poll (co_machine c) InDisconnected = (Wait ms, snd (link_poll (co_machine c) InDisconnected))"
      "lm_state (snd (link_poll (co_machine c) InDisconnected)) = InBackoff"
      using poll_disconnected_wait [of "co_machine c"] assms Connect by auto
    have "perform R now action c = (snd (core_connect R c))\<lparr>co_machine := snd (link_poll (co_machine c) InDisconnected),
        co_backoff_at := Some (now + from_millis ms)\<rparr>"
      using Connect Inl arg_cong [OF ms(1), of fst]
      by (simp add: perform.simps [of R now Connect] perform.simps [of R now "Wait ms"] case_prod_unfold)
    with Connect ms(2) failed show ?thesis by blast
  qed
next
  case NoAction then show ?thesis using idle by (simp add: perform.simps)
next
  case Disconnect then show ?thesis using down by (simp add: perform.simps)
next
  case (Wait ms) then show ?thesis using waiting by (simp add: perform.simps)
qed

section \<open>Invariant of the core\<close>

text \<open>
  Between two operations: the timer runs exactly in the back-off state, sinks know the readiness, nobody
  is parked on a ready link, and unless it is suspended the station's radio runs whenever the machine
  believes to be connecting or connected.
\<close>

definition core_ok :: "'r core \<Rightarrow> bool" where
  "core_ok c \<longleftrightarrow> (co_backoff_at c \<noteq> None \<longleftrightarrow> lm_state (co_machine c) = InBackoff) \<and>
     co_ready_reported c = link_is_ready (co_machine c) \<and>
     (link_is_ready (co_machine c) \<longrightarrow> co_ready_waiters c = [])"

lemma report_ready_ok:
  "co_ready_reported (report_ready c) = link_is_ready (co_machine c)"
  "co_machine (report_ready c) = co_machine c" "co_backoff_at (report_ready c) = co_backoff_at c"
  "co_ready_waiters (report_ready c) = co_ready_waiters c" "co_radio (report_ready c) = co_radio c"
  "co_radio_started (report_ready c) = co_radio_started c" "co_stops (report_ready c) = co_stops c"
  "co_fenced (report_ready c) = co_fenced c" "co_ready_sinks (report_ready c) = co_ready_sinks c"
  by (simp_all add: report_ready_def Let_def)

declare report_ready_ok [simp]

lemma wake_ready_simps [simp]:
  "co_machine (wake_ready c) = co_machine c" "co_backoff_at (wake_ready c) = co_backoff_at c"
  "co_ready_reported (wake_ready c) = co_ready_reported c" "co_stops (wake_ready c) = co_stops c"
  "co_fenced (wake_ready c) = co_fenced c" "co_radio (wake_ready c) = co_radio c" "co_ready_sinks (wake_ready c) = co_ready_sinks c"
  "co_radio_started (wake_ready c) = co_radio_started c"
  "co_ready_waiters (wake_ready c) = (if link_is_ready (co_machine c) then [] else co_ready_waiters c)"
  by (simp_all add: wake_ready_def)

text \<open>What a step does, apart from the radio.\<close>

lemma poll_connect_state: "fst (link_poll l i) = Connect \<longrightarrow> lm_state (snd (link_poll l i)) = Connecting"
  using poll_answer [of l i] by (auto split: link_action.splits)

lemma poll_backoff_entry:
  "fst (link_poll l i) = NoAction \<or> fst (link_poll l i) = Disconnect \<Longrightarrow> lm_state (snd (link_poll l i)) = InBackoff \<Longrightarrow>
   lm_state l = InBackoff \<and> i \<noteq> InBackoffElapsed"
  by (cases "lm_state l"; cases i) (simp_all add: link_defs case_prod_unfold)

lemma step_backoff:
  assumes "lm_state (co_machine c) = InBackoff \<and> i \<noteq> InBackoffElapsed \<longrightarrow> co_backoff_at c \<noteq> None"
  shows "co_backoff_at (step R now i c) \<noteq> None \<longleftrightarrow> lm_state (co_machine (step R now i c)) = InBackoff"
proof -
  let ?c = "c\<lparr>co_machine := snd (link_poll (co_machine c) i)\<rparr>" and ?a = "fst (link_poll (co_machine c) i)"
  have s: "step R now i c = (let c2 = perform R now ?a ?c in
      if lm_state (co_machine c2) \<noteq> InBackoff then c2\<lparr>co_backoff_at := None\<rparr> else c2)"
    by (simp add: step_def case_prod_unfold)
  have ans: "?a = Connect \<longrightarrow> lm_state (co_machine ?c) = Connecting" using poll_connect_state by simp
  have entry: "?a = NoAction \<or> ?a = Disconnect \<Longrightarrow> lm_state (snd (link_poll (co_machine c) i)) = InBackoff \<Longrightarrow> co_backoff_at c \<noteq> None"
    using poll_backoff_entry assms by blast
  show ?thesis
    using poll_answer [of "co_machine c" i] entry
    by (cases rule: perform_cases [OF ans, of R now]) (auto simp: s Let_def split: link_action.splits)
qed

lemma step_frame:
  "co_ready_reported (step R now i c) = co_ready_reported c" "co_ready_waiters (step R now i c) = co_ready_waiters c"
  "co_ready_sinks (step R now i c) = co_ready_sinks c" "co_effects (step R now i c) = co_effects c"
  "co_fenced (step R now i c) = co_fenced c"
proof -
  let ?c = "c\<lparr>co_machine := snd (link_poll (co_machine c) i)\<rparr>" and ?a = "fst (link_poll (co_machine c) i)"
  have s: "step R now i c = (let c2 = perform R now ?a ?c in
      if lm_state (co_machine c2) \<noteq> InBackoff then c2\<lparr>co_backoff_at := None\<rparr> else c2)"
    by (simp add: step_def case_prod_unfold)
  have ans: "?a = Connect \<longrightarrow> lm_state (co_machine ?c) = Connecting" using poll_connect_state by simp
  show "co_ready_reported (step R now i c) = co_ready_reported c" "co_ready_waiters (step R now i c) = co_ready_waiters c"
    "co_ready_sinks (step R now i c) = co_ready_sinks c" "co_effects (step R now i c) = co_effects c"
    "co_fenced (step R now i c) = co_fenced c"
    by (cases rule: perform_cases [OF ans, of R now]; simp add: s Let_def)+
qed

lemma core_ok_new: "core_ok (core_new radio link_new)"
  by (simp add: core_ok_def core_new_def link_new_def link_with_backoff_def link_is_ready_def)

lemma core_ok_suspend: "core_ok c \<Longrightarrow> core_ok (snd (supervisor_suspend R c))"
  by (cases "lm_state (co_machine c) = Suspended")
     (auto simp: supervisor_suspend_def case_prod_unfold Let_def core_ok_def link_is_ready_def poll_suspend_action)

lemma poll_resume_ignored:
  "fst (link_poll l InResume) \<noteq> Connect \<Longrightarrow> lm_state (snd (link_poll l InResume)) = lm_state l \<and>
     link_is_ready (snd (link_poll l InResume)) = link_is_ready l"
  by (cases "lm_state l") (auto simp: link_defs link_is_ready_def)

lemma core_ok_resume:
  assumes "core_ok c"
  shows "core_ok (snd (snd (supervisor_resume R now c)))"
proof (cases "fst (link_poll (co_machine c) InResume) = Connect")
  case False
  with assms poll_resume_ignored [OF False] show ?thesis
    by (simp add: supervisor_resume_def case_prod_unfold core_ok_def)
next
  case True
  let ?l = "snd (link_poll (co_machine c) InResume)"
  let ?c1 = "c\<lparr>co_machine := ?l, co_backoff_at := None\<rparr>"
  let ?c2 = "snd (core_connect R ?c1)"
  have l: "lm_state ?l = Connecting" using True poll_connect_state by blast
  show ?thesis
  proof (cases "fst (core_connect R ?c1)")
    case (Inr u)
    with True l show ?thesis
      by (simp add: supervisor_resume_def case_prod_unfold core_ok_def link_is_ready_def)
  next
    case (Inl e)
    have b: "lm_state (snd (link_poll ?l InDisconnected)) = InBackoff" using poll_disconnected_wait [OF l] by blast
    have m: "co_machine (step R now InDisconnected ?c2) = snd (link_poll ?l InDisconnected)"
      using poll_disconnected_wait [OF l]
      by (auto simp: step_def case_prod_unfold Let_def perform.simps dest: arg_cong [where f = fst])
    have "co_backoff_at (step R now InDisconnected ?c2) \<noteq> None"
      using step_backoff [of ?c2 InDisconnected R now] l m b by simp
    with Inl True m b show ?thesis
      by (simp add: supervisor_resume_def case_prod_unfold core_ok_def link_is_ready_def)
  qed
qed

lemma core_ok_turn:
  assumes "core_ok c"
  shows "core_ok (snd (worker_turn R now m c))"
proof -
  obtain t c1 where t: "worker_input now m c = (t, c1)" by fastforce
  have c1: "co_machine c1 = co_machine c" "co_ready_reported c1 = co_ready_reported c" "co_ready_waiters c1 = co_ready_waiters c"
      "co_backoff_at c1 = co_backoff_at c \<or> t = Feed InBackoffElapsed"
    using t by (auto simp: worker_input_def Let_def split: msg.splits option.splits link_event.splits if_splits)
  show ?thesis
  proof (cases t)
    case (Feed i)
    have "lm_state (co_machine c1) = InBackoff \<and> i \<noteq> InBackoffElapsed \<longrightarrow> co_backoff_at c1 \<noteq> None"
      using c1 Feed assms by (auto simp: core_ok_def)
    from step_backoff [OF this, of R now] t Feed show ?thesis
      by (simp add: worker_turn_def core_ok_def)
  qed (use assms t c1 in \<open>auto simp: worker_turn_def core_ok_def\<close>)
qed

lemma core_ok_wait: "core_ok c \<Longrightarrow> core_ok (snd (snd (ready_wait_poll waker reg c)))"
  by (auto simp: ready_wait_poll_def core_ok_def Let_def split: option.splits prod.splits)

lemma core_ok_drop: "core_ok c \<Longrightarrow> core_ok (ready_wait_drop reg c)"
  by (auto simp: ready_wait_drop_def core_ok_def split: option.splits)

lemma core_ok_subscribe: "core_ok c \<Longrightarrow> core_ok (snd (subscribe_ready sink c))"
  by (simp add: subscribe_ready_def core_ok_def)

section \<open>The operations together\<close>

datatype supervisor_op =
    SSuspend | SResume instant | STurn instant "msg option" | SWaitPoll nat "u64 option" | SWaitDrop "u64 option"
  | SSubscribe nat

definition supervisor_step :: "('r, 'e) link_radio \<Rightarrow> 'r core \<Rightarrow> supervisor_op \<Rightarrow> unit \<times> 'r core" where
  "supervisor_step R c op = ((), case op of
       SSuspend \<Rightarrow> snd (supervisor_suspend R c)
     | SResume now \<Rightarrow> snd (snd (supervisor_resume R now c))
     | STurn now m \<Rightarrow> snd (worker_turn R now m c)
     | SWaitPoll waker reg \<Rightarrow> snd (snd (ready_wait_poll waker reg c))
     | SWaitDrop reg \<Rightarrow> ready_wait_drop reg c
     | SSubscribe sink \<Rightarrow> snd (subscribe_ready sink c))"

lemma core_ok_op: "core_ok c \<Longrightarrow> core_ok (snd (supervisor_step R c op))"
  by (cases op) (simp_all add: supervisor_step_def core_ok_suspend core_ok_resume core_ok_turn core_ok_wait core_ok_drop core_ok_subscribe)

interpretation supervisor: polled_machine "supervisor_step R" "\<lambda>c. \<exists>radio. c = core_new radio link_new" core_ok for R
  by unfold_locales (auto intro: core_ok_new core_ok_op)

text \<open>The cases of a step and of a turn, for frame lemmas.\<close>

lemma step_cases:
  obtains (down) "step R now i c = (let c2 = snd (radio_down R (c\<lparr>co_machine := snd (link_poll (co_machine c) i)\<rparr>)) in
        if lm_state (co_machine c2) \<noteq> InBackoff then c2\<lparr>co_backoff_at := None\<rparr> else c2)"
      "fst (link_poll (co_machine c) i) = Disconnect"
  | (connect) l' at where "step R now i c =
        (snd (core_connect R (c\<lparr>co_machine := snd (link_poll (co_machine c) i)\<rparr>)))\<lparr>co_machine := l', co_backoff_at := at\<rparr>"
      "fst (link_poll (co_machine c) i) = Connect"
  | (none) at where "step R now i c = c\<lparr>co_machine := snd (link_poll (co_machine c) i), co_backoff_at := at\<rparr>"
      "fst (link_poll (co_machine c) i) \<noteq> Connect" "fst (link_poll (co_machine c) i) \<noteq> Disconnect"
proof -
  let ?c = "c\<lparr>co_machine := snd (link_poll (co_machine c) i)\<rparr>" and ?a = "fst (link_poll (co_machine c) i)"
  have s: "step R now i c = (let c2 = perform R now ?a ?c in
      if lm_state (co_machine c2) \<noteq> InBackoff then c2\<lparr>co_backoff_at := None\<rparr> else c2)"
    by (simp add: step_def case_prod_unfold)
  have ans: "?a = Connect \<longrightarrow> lm_state (co_machine ?c) = Connecting" using poll_connect_state by simp
  have frame: "(if b then d\<lparr>co_backoff_at := None\<rparr> else d) = d\<lparr>co_machine := co_machine d, co_backoff_at := if b then None else co_backoff_at d\<rparr>"
    for b and d :: "'a core" by simp
  from ans show ?thesis
  proof (cases rule: perform_cases [where R = R and now = now])
    case idle
    then show ?thesis using s frame [of _ ?c] by (intro none [of "if lm_state (co_machine ?c) \<noteq> InBackoff then None else co_backoff_at c"]) (simp_all add: Let_def)
  next
    case down
    then show ?thesis using s by (intro that(1)) (simp_all add: Let_def)
  next
    case (waiting ms)
    then show ?thesis using s frame [of _ "?c\<lparr>co_backoff_at := Some (now + from_millis ms)\<rparr>"]
      by (intro none [of "if lm_state (co_machine ?c) \<noteq> InBackoff then None else Some (now + from_millis ms)"]) (simp_all add: Let_def)
  next
    case connected
    then show ?thesis using s frame [of _ "snd (core_connect R ?c)"]
      by (intro connect [where l' = "co_machine ?c" and at = "if lm_state (co_machine ?c) \<noteq> InBackoff then None else co_backoff_at c"]) (simp_all add: Let_def)
  next
    case (failed ms)
    then show ?thesis using s
      by (intro connect [where l' = "snd (link_poll (co_machine ?c) InDisconnected)" and at = "Some (now + from_millis ms)"]) (simp_all add: Let_def)
  qed
qed

text \<open>
  The radio, seen with a count of the stops it has carried out.  The count is the radio's own: it grows
  with each call of \<^verbatim>\<open>stop\<close> that succeeds, whatever the core makes of it.
\<close>

definition counted_call :: "('r, 'e, unit) prog \<Rightarrow> ('r \<times> nat, 'e, unit) prog" where
  "counted_call p = (\<lambda>(radio, n). case p radio of (r, radio') \<Rightarrow> (r, (radio', n)))"

definition counted :: "('r, 'e) link_radio \<Rightarrow> ('r \<times> nat, 'e) link_radio" where
  "counted R = \<lparr>rd_start = counted_call (rd_start R), rd_connect = counted_call (rd_connect R),
     rd_disconnect = counted_call (rd_disconnect R),
     rd_stop = (\<lambda>(radio, n). case rd_stop R radio of
         (Inr _, radio') \<Rightarrow> (Inr (), (radio', n + 1)) | (Inl e, radio') \<Rightarrow> (Inl e, (radio', n)))\<rparr>"

definition stops_made :: "('r \<times> nat) core \<Rightarrow> nat" where
  "stops_made c = snd (co_radio c)"

text \<open>The core's own counter follows the stops that were made, one at most per step.\<close>

definition stops_grow :: "('r \<times> nat) core \<Rightarrow> ('r \<times> nat) core \<Rightarrow> bool" where
  "stops_grow c c' \<longleftrightarrow> stops_made c' = stops_made c \<and> co_stops c' = co_stops c \<or>
     stops_made c' = stops_made c + 1 \<and> co_stops c' = co_stops c + 1"

lemma stops_grow_mono: "stops_grow c c' \<Longrightarrow> stops_made c \<le> stops_made c'"
  by (auto simp: stops_grow_def)

lemma stops_made_cong: "co_radio c' = co_radio c \<Longrightarrow> stops_made c' = stops_made c"
  by (simp add: stops_made_def)

lemma stops_connect: "stops_grow c (snd (core_connect (counted R) c))"
  by (auto simp: stops_grow_def stops_made_def core_connect_def counted_def counted_call_def prog_simps
    split: prod.splits sum.splits)

lemma stops_radio_down: "stops_grow c (snd (radio_down (counted R) c))"
  by (auto simp: stops_grow_def stops_made_def radio_down_def counted_def counted_call_def prog_simps
    split: prod.splits sum.splits)

lemma stops_step: "stops_grow c (step (counted R) now i c)"
proof (cases rule: step_cases [of "counted R" now i c])
  case down
  then show ?thesis using stops_radio_down [of "c\<lparr>co_machine := snd (link_poll (co_machine c) i)\<rparr>" R]
    by (auto simp: stops_grow_def stops_made_def Let_def split: if_splits)
next
  case (connect l' at)
  then show ?thesis using stops_connect [of "c\<lparr>co_machine := snd (link_poll (co_machine c) i)\<rparr>" R]
      connect_frame [of "c\<lparr>co_machine := snd (link_poll (co_machine c) i)\<rparr>" "counted R"]
    by (auto simp: stops_grow_def stops_made_def)
qed (simp add: stops_grow_def stops_made_def)

lemma worker_input_stops:
  "co_stops (snd (worker_input now m c)) = co_stops c" "co_radio (snd (worker_input now m c)) = co_radio c"
  by (simp_all add: worker_input_def Let_def split: option.splits msg.splits link_event.splits)

lemma stops_turn: "stops_grow c (snd (worker_turn (counted R) now m c))"
  using stops_step [of "snd (worker_input now m c)" R now] worker_input_stops [of now m c]
  by (cases "fst (worker_input now m c)") (simp_all add: worker_turn_def case_prod_unfold stops_grow_def stops_made_def)

lemma stops_suspend:
  "stops_grow c (snd (supervisor_suspend (counted R) c)) \<and> co_fenced (snd (supervisor_suspend (counted R) c)) = co_fenced c"
  using stops_radio_down [of "report_ready (c\<lparr>co_machine := snd (link_poll (co_machine c) InSuspend), co_backoff_at := None\<rparr>)" R]
  by (auto simp: supervisor_suspend_def case_prod_unfold Let_def stops_grow_def stops_made_def split: if_splits)

lemma stops_resume:
  "stops_grow c (snd (snd (supervisor_resume (counted R) now c))) \<and> co_fenced (snd (snd (supervisor_resume (counted R) now c))) = co_fenced c"
proof -
  let ?c1 = "c\<lparr>co_machine := snd (link_poll (co_machine c) InResume), co_backoff_at := None\<rparr>"
  let ?c2 = "snd (core_connect (counted R) ?c1)"
  have same: "stops_grow c ?c2" using stops_connect [of ?c1 R] by (simp add: stops_grow_def stops_made_def)
  have none: "stops_made ?c2 = stops_made c \<and> co_stops ?c2 = co_stops c"
    using same connect_frame [of ?c1 "counted R"] by (auto simp: stops_grow_def)
  show ?thesis
    using none stops_step [of ?c2 R now InDisconnected] step_frame(5) [of "counted R" now InDisconnected]
    by (auto simp: supervisor_resume_def case_prod_unfold stops_grow_def stops_made_def split: sum.splits)
qed

section \<open>The driver and the queue\<close>

text \<open>
  The system around the core.  The driver posts events in order: link events at any time, and one
  Stopped for every successful stop, some time after it.  Each queued message carries the number of
  Stopped events the driver had posted before it.
\<close>

record 'r fenced_system =
  fs_core :: "('r \<times> nat) core"
  fs_queue :: "(msg \<times> nat) list"
  fs_posted :: nat

abbreviation fs_stops :: "'r fenced_system \<Rightarrow> nat" where
  "fs_stops s \<equiv> stops_made (fs_core s)"

inductive fenced_reach :: "('r, 'e) link_radio \<Rightarrow> 'r fenced_system \<Rightarrow> bool" for R where
  start: "fenced_reach R \<lparr>fs_core = core_new (radio, 0) link_new, fs_queue = [], fs_posted = 0\<rparr>"
| call_suspend: "fenced_reach R s \<Longrightarrow> fenced_reach R (s\<lparr>fs_core := snd (supervisor_suspend (counted R) (fs_core s))\<rparr>)"
| call_resume: "fenced_reach R s \<Longrightarrow> supervisor_resume (counted R) now (fs_core s) = (r, wake, c) \<Longrightarrow>
    fenced_reach R (s\<lparr>fs_core := c, fs_queue := fs_queue s @ (if wake then [(MWake, fs_posted s)] else [])\<rparr>)"
| send_start: "fenced_reach R s \<Longrightarrow> fenced_reach R (s\<lparr>fs_queue := fs_queue s @ [(MInput InStart, fs_posted s)]\<rparr>)"
| driver_event: "fenced_reach R s \<Longrightarrow> e \<noteq> LeStopped \<Longrightarrow>
    fenced_reach R (s\<lparr>fs_queue := fs_queue s @ [(MEvent e, fs_posted s)]\<rparr>)"
| driver_stopped: "fenced_reach R s \<Longrightarrow> fs_posted s < fs_stops s \<Longrightarrow>
    fenced_reach R (s\<lparr>fs_queue := fs_queue s @ [(MEvent LeStopped, fs_posted s)], fs_posted := fs_posted s + 1\<rparr>)"
| worker_msg: "fenced_reach R s \<Longrightarrow> fs_queue s = (m, n) # q \<Longrightarrow>
    fenced_reach R (s\<lparr>fs_core := snd (worker_turn (counted R) now (Some m) (fs_core s)), fs_queue := q\<rparr>)"
| worker_timeout: "fenced_reach R s \<Longrightarrow>
    fenced_reach R (s\<lparr>fs_core := snd (worker_turn (counted R) now None (fs_core s))\<rparr>)"

inductive_cases fenced_reachE: "fenced_reach R s"

text \<open>Numbering of a queue: each Stopped raises the number of what follows it.\<close>

fun numbered :: "nat \<Rightarrow> (msg \<times> nat) list \<Rightarrow> nat \<Rightarrow> bool" where
  "numbered n [] m = (n = m)"
| "numbered n ((msg, k) # q) m = (k = n \<and> numbered (if msg = MEvent LeStopped then n + 1 else n) q m)"

lemma numbered_snoc: "numbered n q k \<Longrightarrow> numbered n (q @ [(msg, k)]) (if msg = MEvent LeStopped then k + 1 else k)"
proof (induction q arbitrary: n)
  case (Cons p q)
  then show ?case by (cases p) simp
qed simp

lemma numbered_le: "numbered n q k \<Longrightarrow> n \<le> k"
  by (induction n q k rule: numbered.induct) (auto split: if_splits)

text \<open>The fence counts: stops made, and Stopped events the worker has seen.\<close>

definition fence_ok :: "'r fenced_system \<Rightarrow> bool" where
  "fence_ok s \<longleftrightarrow> (\<exists>seen. numbered seen (fs_queue s) (fs_posted s) \<and> fs_posted s \<le> fs_stops s \<and>
     co_fenced (fs_core s) = of_nat seen \<and> co_stops (fs_core s) = of_nat (fs_stops s))"

lemma of_nat_eq_iff_small:
  "m < 2 ^ 32 \<Longrightarrow> n < 2 ^ 32 \<Longrightarrow> (of_nat m :: u32) = of_nat n \<longleftrightarrow> m = n"
proof -
  assume "m < 2 ^ 32" "n < 2 ^ 32"
  then have "unat (of_nat m :: u32) = m" "unat (of_nat n :: u32) = n" by (simp_all add: unat_of_nat_less)
  then show ?thesis by metis
qed

lemma fence_ok_call:
  assumes "fence_ok s" "stops_grow (fs_core s) c" "co_fenced c = co_fenced (fs_core s)"
    and "q = fs_queue s \<or> q = fs_queue s @ [(MWake, fs_posted s)]"
  shows "fence_ok (s\<lparr>fs_core := c, fs_queue := q\<rparr>)"
proof -
  obtain seen where "numbered seen (fs_queue s) (fs_posted s)" "fs_posted s \<le> fs_stops s"
      "co_fenced (fs_core s) = of_nat seen" "co_stops (fs_core s) = of_nat (fs_stops s)"
    using assms(1) by (auto simp: fence_ok_def)
  moreover from this(1) have "numbered seen q (fs_posted s)" using assms(4) numbered_snoc [of seen "fs_queue s" "fs_posted s" MWake] by auto
  ultimately show ?thesis
    using assms(2,3) by (auto simp: fence_ok_def stops_grow_def add.commute intro!: exI [of _ seen])
qed

lemma fed_fenced:
  "(\<And>i. co_fenced (step R now i c) = co_fenced c) \<Longrightarrow> m \<noteq> Some (MEvent LeStopped) \<Longrightarrow>
   co_fenced (snd (worker_turn R now m c)) = co_fenced c"
  by (auto simp: worker_turn_def worker_input_def Let_def step_frame split: option.splits msg.splits link_event.splits)

lemma turn_stopped:
  "snd (worker_turn R now (Some (MEvent LeStopped)) c) = (if fence_up c then c\<lparr>co_fenced := co_fenced c + 1\<rparr> else c)"
  by (simp add: worker_turn_def worker_input_def Let_def)

lemma fence_ok_msg:
  assumes "fence_ok s" "fs_queue s = (m, n) # q" "fs_stops s < 2 ^ 32"
  shows "fence_ok (s\<lparr>fs_core := snd (worker_turn (counted R) now (Some m) (fs_core s)), fs_queue := q\<rparr>)"
proof -
  obtain seen where s: "numbered seen (fs_queue s) (fs_posted s)" "fs_posted s \<le> fs_stops s"
      "co_fenced (fs_core s) = of_nat seen" "co_stops (fs_core s) = of_nat (fs_stops s)"
    using assms(1) by (auto simp: fence_ok_def)
  show ?thesis
  proof (cases "m = MEvent LeStopped")
    case True
    with s(1) assms(2) have n: "numbered (seen + 1) q (fs_posted s)" by simp
    then have "seen < fs_stops s" using numbered_le s(2) by fastforce
    then have "fence_up (fs_core s)"
      unfolding fence_up_def s(3,4) using of_nat_eq_iff_small assms(3) by simp
    with True n s show ?thesis
      by (auto simp: fence_ok_def turn_stopped stops_made_def intro!: exI [of _ "seen + 1"])
  next
    case False
    with s(1) assms(2) have n: "numbered seen q (fs_posted s)" by simp
    from False have "co_fenced (snd (worker_turn (counted R) now (Some m) (fs_core s))) = co_fenced (fs_core s)"
      by (intro fed_fenced) (simp_all add: step_frame)
    with n s stops_turn [of "fs_core s" R now "Some m"] show ?thesis
      by (auto simp: fence_ok_def stops_grow_def add.commute intro!: exI [of _ seen])
  qed
qed

lemma fence_ok_reach:
  "fenced_reach R s \<Longrightarrow> fs_stops s < 2 ^ 32 \<Longrightarrow> fence_ok s"
proof (induction rule: fenced_reach.induct)
  case (start radio)
  then show ?case by (simp add: fence_ok_def core_new_def stops_made_def)
next
  case (call_suspend s)
  then show ?case using stops_suspend [of "fs_core s" R] stops_grow_mono [OF stops_suspend [THEN conjunct1, of "fs_core s" R]]
      fence_ok_call [of s _ "fs_queue s"] by simp
next
  case (call_resume s now r wake c)
  then show ?case using stops_resume [of "fs_core s" R now] stops_grow_mono [OF stops_resume [THEN conjunct1, of "fs_core s" R now]]
      fence_ok_call [of s c] by auto
next
  case (send_start s)
  then show ?case using numbered_snoc [where msg = "MInput InStart"] by (fastforce simp: fence_ok_def)
next
  case (driver_event s e)
  then have "fence_ok s" by simp
  moreover have "numbered seen (fs_queue s @ [(MEvent e, fs_posted s)]) (fs_posted s)" if "numbered seen (fs_queue s) (fs_posted s)" for seen
    using numbered_snoc [OF that, of "MEvent e"] driver_event(2) by simp
  ultimately show ?case by (auto simp: fence_ok_def)
next
  case (driver_stopped s)
  then have "fence_ok s" by simp
  moreover have "numbered seen (fs_queue s @ [(MEvent LeStopped, fs_posted s)]) (fs_posted s + 1)" if "numbered seen (fs_queue s) (fs_posted s)" for seen
    using numbered_snoc [OF that, of "MEvent LeStopped"] by simp
  ultimately show ?case using driver_stopped(2) by (auto simp: fence_ok_def)
next
  case (worker_msg s m n q now)
  then show ?case using stops_grow_mono [OF stops_turn [of "fs_core s" R now "Some m"]] by (intro fence_ok_msg) auto
next
  case (worker_timeout s now)
  then show ?case
    using stops_turn [of "fs_core s" R now None] fed_fenced [of "counted R" now "fs_core s" None]
      stops_grow_mono [OF stops_turn [of "fs_core s" R now None]] fence_ok_call [of s _ "fs_queue s"] by (simp add: step_frame)
qed

section \<open>The radio's calls\<close>

text \<open>A radio that records its calls with their outcomes; which calls fail is arbitrary.\<close>

datatype radio_call = CStart | CConnect | CDisconnect | CStop

record tape =
  tp_calls :: "(radio_call \<times> bool) list"
  tp_fails :: "nat \<Rightarrow> bool"

definition tape_call :: "radio_call \<Rightarrow> (tape, unit, unit) prog" where
  "tape_call k t = (let good = (\<not> tp_fails t (length (tp_calls t)))
     in (if good then Inr () else Inl (), t\<lparr>tp_calls := tp_calls t @ [(k, good)]\<rparr>))"

definition tape_radio :: "(tape, unit) link_radio" where
  "tape_radio = \<lparr>rd_start = tape_call CStart, rd_connect = tape_call CConnect, rd_disconnect = tape_call CDisconnect,
     rd_stop = tape_call CStop\<rparr>"

text \<open>The order the driver wants: start only a stopped radio, all other calls only on a started one.\<close>

fun radio_order :: "bool \<Rightarrow> (radio_call \<times> bool) list \<Rightarrow> bool option" where
  "radio_order up [] = Some up"
| "radio_order up ((CStart, good) # cs) = (if up then None else radio_order good cs)"
| "radio_order up ((CStop, good) # cs) = (if up then radio_order (\<not> good) cs else None)"
| "radio_order up ((_, _) # cs) = (if up then radio_order up cs else None)"

lemma radio_order_append: "radio_order up (xs @ ys) = Option.bind (radio_order up xs) (\<lambda>u. radio_order u ys)"
  by (induction up xs rule: radio_order.induct) auto

definition in_order :: "tape core \<Rightarrow> bool" where
  "in_order c \<longleftrightarrow> radio_order True (tp_calls (co_radio c)) = Some (co_radio_started c)"

lemma in_order_cong: "co_radio c' = co_radio c \<Longrightarrow> co_radio_started c' = co_radio_started c \<Longrightarrow> in_order c' = in_order c"
  by (simp add: in_order_def)

definition more_calls :: "radio_call set \<Rightarrow> tape core \<Rightarrow> tape core \<Rightarrow> bool" where
  "more_calls K c c' \<longleftrightarrow> (\<exists>new. tp_calls (co_radio c') = tp_calls (co_radio c) @ new \<and> fst ` set new \<subseteq> K)"

lemma more_calls_refl: "co_radio c' = co_radio c \<Longrightarrow> more_calls K c c'"
  by (simp add: more_calls_def)

lemma more_calls_trans: "more_calls K a b \<Longrightarrow> more_calls K b c \<Longrightarrow> more_calls K a c"
  by (fastforce simp: more_calls_def)

lemma connect_in_order: "in_order c \<Longrightarrow> in_order (snd (core_connect tape_radio c))"
  by (auto simp: in_order_def core_connect_def prog_simps tape_radio_def tape_call_def Let_def radio_order_append)

lemma radio_down_in_order: "in_order c \<Longrightarrow> in_order (snd (radio_down tape_radio c))"
  by (auto simp: in_order_def radio_down_def prog_simps tape_radio_def tape_call_def Let_def radio_order_append)

lemma radio_down_calls: "more_calls {CDisconnect, CStop} c (snd (radio_down tape_radio c))"
  by (auto simp: more_calls_def radio_down_def prog_simps tape_radio_def tape_call_def Let_def)

lemma step_in_order: "in_order c \<Longrightarrow> in_order (step tape_radio now i c)"
proof (cases rule: step_cases [of tape_radio now i c])
  case down
  let ?c = "c\<lparr>co_machine := snd (link_poll (co_machine c) i)\<rparr>"
  assume "in_order c"
  then have "in_order (snd (radio_down tape_radio ?c))" using in_order_cong [of ?c c] by (intro radio_down_in_order) simp
  with down show ?thesis by (simp add: Let_def in_order_def)
next
  case (connect l' at)
  let ?c = "c\<lparr>co_machine := snd (link_poll (co_machine c) i)\<rparr>"
  assume "in_order c"
  then have "in_order (snd (core_connect tape_radio ?c))" using in_order_cong [of ?c c] by (intro connect_in_order) simp
  with connect show ?thesis by (simp add: in_order_def)
qed (simp add: in_order_def)

lemma worker_input_radio:
  "co_radio (snd (worker_input now m c)) = co_radio c" "co_radio_started (snd (worker_input now m c)) = co_radio_started c"
  "co_machine (snd (worker_input now m c)) = co_machine c"
  by (simp_all add: worker_input_def Let_def split: option.splits msg.splits link_event.splits)

lemma turn_in_order: "in_order c \<Longrightarrow> in_order (snd (worker_turn tape_radio now m c))"
proof -
  assume "in_order c"
  then have i: "in_order (snd (worker_input now m c))" using worker_input_radio [of now m c] by (simp add: in_order_def)
  show ?thesis
    using i step_in_order [OF i, of now]
    by (cases "fst (worker_input now m c)") (simp_all add: worker_turn_def case_prod_unfold in_order_def)
qed

lemma in_order_op: "in_order c \<Longrightarrow> in_order (snd (supervisor_step tape_radio c op))"
proof (cases op)
  case SSuspend
  let ?c1 = "report_ready (c\<lparr>co_machine := snd (link_poll (co_machine c) InSuspend), co_backoff_at := None\<rparr>)"
  assume o: "in_order c"
  then have "in_order (snd (radio_down tape_radio ?c1))" using in_order_cong [of ?c1 c] by (intro radio_down_in_order) simp
  with o SSuspend show ?thesis
    by (auto simp: supervisor_step_def supervisor_suspend_def case_prod_unfold Let_def in_order_def)
next
  case (SResume now)
  let ?c1 = "c\<lparr>co_machine := snd (link_poll (co_machine c) InResume), co_backoff_at := None\<rparr>"
  assume o: "in_order c"
  then have "in_order (snd (core_connect tape_radio ?c1))" using in_order_cong [of ?c1 c] by (intro connect_in_order) simp
  with o SResume step_in_order [OF this] show ?thesis
    by (auto simp: supervisor_step_def supervisor_resume_def case_prod_unfold in_order_def split: sum.splits)
next
  case (SWaitPoll waker reg)
  assume "in_order c"
  with SWaitPoll show ?thesis
    by (auto simp: supervisor_step_def ready_wait_poll_def in_order_def Let_def split: option.splits)
next
  case (STurn now m)
  assume "in_order c"
  with STurn turn_in_order show ?thesis by (simp add: supervisor_step_def)
qed (auto simp: supervisor_step_def ready_wait_drop_def subscribe_ready_def in_order_def Let_def split: option.splits)

text \<open>While suspended only the stop is retried.\<close>

fun no_resume :: "supervisor_op \<Rightarrow> bool" where
  "no_resume (SResume _) = False"
| "no_resume (STurn _ (Some (MInput i))) = (i = InStart)"
| "no_resume _ = True"

lemma step_suspended:
  assumes "lm_state (co_machine c) = Suspended" "i \<noteq> InResume"
  shows "lm_state (co_machine (step tape_radio now i c)) = Suspended \<and>
    more_calls {CDisconnect, CStop} c (step tape_radio now i c)"
proof (cases rule: step_cases [of tape_radio now i c])
  case down
  then show ?thesis using poll_suspended [OF assms] radio_down_calls [of "c\<lparr>co_machine := snd (link_poll (co_machine c) i)\<rparr>"]
    by (auto simp: Let_def more_calls_def)
next
  case (connect l' at)
  with poll_suspended [OF assms] show ?thesis by (simp split: if_splits)
next
  case (none at)
  with poll_suspended [OF assms] show ?thesis by (simp add: more_calls_refl)
qed

lemma op_suspended:
  assumes "lm_state (co_machine c) = Suspended" "no_resume op"
  shows "lm_state (co_machine (snd (supervisor_step tape_radio c op))) = Suspended \<and>
    more_calls {CDisconnect, CStop} c (snd (supervisor_step tape_radio c op))"
proof (cases op)
  case SSuspend
  with assms radio_down_calls [of "report_ready (c\<lparr>co_machine := snd (link_poll (co_machine c) InSuspend), co_backoff_at := None\<rparr>)"]
  show ?thesis by (auto simp: supervisor_step_def supervisor_suspend_def case_prod_unfold Let_def more_calls_def)
next
  case (STurn now m)
  obtain t c1 where t: "worker_input now m c = (t, c1)" by fastforce
  have c1: "co_machine c1 = co_machine c" "co_radio c1 = co_radio c" using worker_input_radio [of now m c] t by simp_all
  show ?thesis
  proof (cases t)
    case (Feed i)
    then have "i \<noteq> InResume" using assms(2) STurn t
      by (auto simp: worker_input_def Let_def split: option.splits msg.splits link_event.splits if_splits)
    with step_suspended [of c1 i now] assms(1) c1 Feed STurn t show ?thesis
      by (simp add: supervisor_step_def worker_turn_def more_calls_def)
  qed (use assms(1) c1 STurn t in \<open>auto simp: supervisor_step_def worker_turn_def intro: more_calls_refl\<close>)
next
  case (SWaitPoll waker reg)
  with assms show ?thesis
    by (auto simp: supervisor_step_def ready_wait_poll_def Let_def intro!: more_calls_refl split: option.splits)
qed (use assms in \<open>auto simp: supervisor_step_def ready_wait_drop_def subscribe_ready_def Let_def intro!: more_calls_refl split: option.splits\<close>)

lemma run_suspended_core:
  assumes "lm_state (co_machine c) = Suspended" "list_all no_resume ops"
  shows "lm_state (co_machine (run_state (supervisor_step tape_radio) c ops)) = Suspended \<and>
    more_calls {CDisconnect, CStop} c (run_state (supervisor_step tape_radio) c ops)"
  using assms
proof (induction ops arbitrary: c)
  case (Cons op ops)
  have op: "lm_state (co_machine (snd (supervisor_step tape_radio c op))) = Suspended"
    "more_calls {CDisconnect, CStop} c (snd (supervisor_step tape_radio c op))"
    using op_suspended [of c op] Cons.prems by auto
  from Cons.IH [OF op(1)] Cons.prems(2) more_calls_trans [OF op(2)] show ?case by simp
qed (simp add: more_calls_refl)

section \<open>Sinks\<close>

definition told :: "nat \<Rightarrow> 'r core \<Rightarrow> bool list" where
  "told sink c = concat (map (\<lambda>e. case e of Told k b \<Rightarrow> if k = sink then [b] else [] | Woke _ \<Rightarrow> []) (co_effects c))"

fun alternates :: "bool \<Rightarrow> bool list \<Rightarrow> bool" where
  "alternates b [] = True"
| "alternates b (x # xs) = (x = (\<not> b) \<and> alternates x xs)"

lemma alternates_snoc: "alternates b xs \<Longrightarrow> alternates b (xs @ [x]) = (x = (\<not> last (b # xs)))"
  by (induction b xs rule: alternates.induct) auto

definition subscribed_once :: "nat \<Rightarrow> 'r core \<Rightarrow> bool" where
  "subscribed_once sink c \<longleftrightarrow> filter (\<lambda>k. k = sink) (co_ready_sinks c) = [sink]"

lemma told_report:
  "subscribed_once sink c \<Longrightarrow> told sink (report_ready c) =
     told sink c @ (if link_is_ready (co_machine c) = co_ready_reported c then [] else [link_is_ready (co_machine c)])"
proof -
  assume once: "subscribed_once sink c"
  have "concat (map (\<lambda>e. case e of Told k b \<Rightarrow> if k = sink then [b] else [] | Woke _ \<Rightarrow> []) (map (\<lambda>k. Told k r) ks))
      = map (\<lambda>_. r) (filter (\<lambda>k. k = sink) ks)" for r ks
    by (induction ks) auto
  with once show ?thesis by (simp add: told_def report_ready_def subscribed_once_def Let_def)
qed

lemma told_wake [simp]: "told sink (wake_ready c) = told sink c"
proof -
  have "concat (map (\<lambda>e. case e of Told k b \<Rightarrow> if k = sink then [b] else [] | Woke _ \<Rightarrow> []) (map (\<lambda>(_, w). Woke w) ws)) = []"
    for ws :: "(u64 \<times> nat) list" by (induction ws) auto
  then show ?thesis by (simp add: told_def wake_ready_def)
qed

lemma told_cong: "co_effects c' = co_effects c \<Longrightarrow> told sink c' = told sink c"
  by (simp add: told_def)

lemma worker_input_frame:
  "co_ready_reported (snd (worker_input now m c)) = co_ready_reported c" "co_ready_sinks (snd (worker_input now m c)) = co_ready_sinks c"
  "co_effects (snd (worker_input now m c)) = co_effects c"
  by (simp_all add: worker_input_def Let_def split: option.splits msg.splits link_event.splits)

text \<open>Every operation tells a sink the change of readiness it reports, and nothing else.\<close>

definition told_step :: "nat \<Rightarrow> 'r core \<Rightarrow> 'r core \<Rightarrow> bool" where
  "told_step sink c c' \<longleftrightarrow> subscribed_once sink c' \<and> told sink c' =
     told sink c @ (if co_ready_reported c' = co_ready_reported c then [] else [co_ready_reported c'])"

lemma told_step_same:
  "subscribed_once sink c \<Longrightarrow> co_effects c' = co_effects c \<Longrightarrow> co_ready_sinks c' = co_ready_sinks c \<Longrightarrow>
   co_ready_reported c' = co_ready_reported c \<Longrightarrow> told_step sink c c'"
  by (simp add: told_step_def subscribed_once_def told_cong [of c' c])

lemma told_step_report:
  "subscribed_once sink c \<Longrightarrow> co_effects c' = co_effects c \<Longrightarrow> co_ready_sinks c' = co_ready_sinks c \<Longrightarrow>
   co_ready_reported c' = co_ready_reported c \<Longrightarrow> told_step sink c (report_ready c')"
  using told_report [of sink c'] by (auto simp: told_step_def subscribed_once_def told_cong [of c' c])

lemma told_step_after:
  "told_step sink c c' \<Longrightarrow> co_effects c'' = co_effects c' \<Longrightarrow> co_ready_sinks c'' = co_ready_sinks c' \<Longrightarrow>
   co_ready_reported c'' = co_ready_reported c' \<Longrightarrow> told_step sink c c''"
  by (simp add: told_step_def subscribed_once_def told_cong [of c'' c'])

lemma told_op:
  assumes "subscribed_once sink c" "op \<noteq> SSubscribe sink"
  shows "told_step sink c (snd (supervisor_step R c op))"
proof (cases op)
  case SSuspend
  let ?c1 = "c\<lparr>co_machine := snd (link_poll (co_machine c) InSuspend), co_backoff_at := None\<rparr>"
  have "told_step sink c (snd (radio_down R (report_ready ?c1)))"
    by (rule told_step_after [OF told_step_report [OF assms(1), of ?c1]]) simp_all
  with assms(1) SSuspend show ?thesis
    by (auto simp: supervisor_step_def supervisor_suspend_def case_prod_unfold Let_def intro!: told_step_same)
next
  case (SResume now)
  with assms(1) show ?thesis
    by (auto simp: supervisor_step_def supervisor_resume_def case_prod_unfold step_frame
      intro!: told_step_same told_step_report split: sum.splits)
next
  case (STurn now m)
  let ?c1 = "snd (worker_input now m c)"
  have "told_step sink c (report_ready (wake_ready (step R now i ?c1)))" for i
  proof -
    let ?c2 = "step R now i ?c1"
    have o: "subscribed_once sink (wake_ready ?c2)" "told sink (wake_ready ?c2) = told sink c"
      using assms(1) told_cong [of ?c2 c] by (simp_all add: subscribed_once_def step_frame worker_input_frame)
    have "co_ready_reported (wake_ready ?c2) = co_ready_reported c" by (simp add: step_frame worker_input_frame)
    with o told_report [OF o(1)] show ?thesis
      by (auto simp: told_step_def subscribed_once_def)
  qed
  with STurn assms(1) show ?thesis
    by (cases "fst (worker_input now m c)")
       (auto simp: supervisor_step_def worker_turn_def case_prod_unfold worker_input_frame intro!: told_step_same)
next
  case (SWaitPoll waker reg)
  with assms(1) show ?thesis
    by (auto simp: supervisor_step_def ready_wait_poll_def Let_def intro!: told_step_same split: option.splits)
next
  case (SWaitDrop reg)
  with assms(1) show ?thesis by (auto simp: supervisor_step_def ready_wait_drop_def intro!: told_step_same split: option.splits)
next
  case (SSubscribe sink')
  with assms show ?thesis
    by (simp add: supervisor_step_def subscribe_ready_def Let_def told_step_def subscribed_once_def told_def)
qed

lemma told_run:
  assumes "subscribed_once sink c" "SSubscribe sink \<notin> set ops"
  shows "\<exists>new. told sink (run_state (supervisor_step R) c ops) = told sink c @ new \<and> alternates (co_ready_reported c) new \<and>
    last (co_ready_reported c # new) = co_ready_reported (run_state (supervisor_step R) c ops) \<and>
    subscribed_once sink (run_state (supervisor_step R) c ops)"
  using assms(2)
proof (induction ops rule: rev_induct)
  case Nil
  then show ?case using assms(1) by simp
next
  case (snoc op ops)
  let ?c = "run_state (supervisor_step R) c ops"
  obtain new where n: "told sink ?c = told sink c @ new" "alternates (co_ready_reported c) new"
      "last (co_ready_reported c # new) = co_ready_reported ?c" "subscribed_once sink ?c"
    using snoc by auto
  have step: "told_step sink ?c (snd (supervisor_step R ?c op))"
    by (rule told_op [OF n(4)]) (use snoc.prems in auto)
  show ?case
  proof (cases "co_ready_reported (snd (supervisor_step R ?c op)) = co_ready_reported ?c")
    case True
    with n step show ?thesis by (auto simp: told_step_def)
  next
    case False
    let ?b = "co_ready_reported (snd (supervisor_step R ?c op))"
    have "alternates (co_ready_reported c) (new @ [?b])" using n(2,3) False by (simp add: alternates_snoc del: last.simps)
    with n step False show ?thesis by (intro exI [of _ "new @ [?b]"]) (auto simp: told_step_def)
  qed
qed

section \<open>Properties\<close>

text \<open>
  C8: Events that predate a stop never reach the link machine.  In every interleaving of callers, driver
  and worker in which the driver keeps the event order, when the worker feeds a driver event to the
  machine, the driver had posted the Stopped of every stop made so far before that event; and once all
  of them are posted and the queue is drained, the fence is down again.  The stops made are the calls of
  the radio's \<^verbatim>\<open>stop\<close> that succeeded, counted at the radio (\<open>counted\<close>).
\<close>

theorem stop_fence:
  assumes "fenced_reach R s" and "fs_stops s < 2 ^ 32"
  shows "(case fs_queue s of
      (MEvent e, n) # q \<Rightarrow> (if \<exists>i. fst (worker_input now (Some (MEvent e)) (fs_core s)) = Feed i then n = fs_stops s else True)
    | [] \<Rightarrow> (if fs_posted s = fs_stops s then \<not> fence_up (fs_core s) else True)
    | _ \<Rightarrow> True)"
proof -
  obtain seen where s: "numbered seen (fs_queue s) (fs_posted s)" "fs_posted s \<le> fs_stops s"
      "co_fenced (fs_core s) = of_nat seen" "co_stops (fs_core s) = of_nat (fs_stops s)"
    using fence_ok_reach [OF assms] by (auto simp: fence_ok_def)
  have "seen \<le> fs_stops s" using numbered_le [OF s(1)] s(2) by simp
  then have up: "fence_up (fs_core s) \<longleftrightarrow> seen \<noteq> fs_stops s"
    unfolding fence_up_def s(3,4) using of_nat_eq_iff_small assms(2) by simp
  have fed: "\<exists>i. fst (worker_input now (Some (MEvent e)) (fs_core s)) = Feed i \<Longrightarrow> \<not> fence_up (fs_core s)" for e
    by (auto simp: worker_input_def Let_def split: if_splits)
  show ?thesis
  proof (cases "fs_queue s")
    case Nil
    with s(1) up show ?thesis by simp
  next
    case (Cons p q)
    obtain m n where p: "p = (m, n)" by (cases p)
    with Cons s(1) have "n = seen" by simp
    with fed up Cons p show ?thesis by (cases m) simp_all
  qed
qed

theorem stop_fence_witness:
  "fst (worker_input 0 (Some (MEvent LeConnected))
     (snd (supervisor_suspend (counted tape_radio) (core_new (\<lparr>tp_calls = [], tp_fails = \<lambda>_. False\<rparr>, 0) link_new)))) \<noteq> Feed InConnected"
proof -
  let ?c = "core_new (\<lparr>tp_calls = [], tp_fails = \<lambda>_. False\<rparr>, 0) link_new"
  let ?d = "snd (supervisor_suspend (counted tape_radio) ?c)"
  let ?s = "\<lparr>fs_core = ?c, fs_queue = [], fs_posted = 0\<rparr>"
  let ?t = "?s\<lparr>fs_core := ?d, fs_queue := [(MEvent LeConnected, 0)]\<rparr>"
  have "fenced_reach tape_radio (?s\<lparr>fs_core := ?d\<rparr>)" using call_suspend [OF start] by simp
  from driver_event [OF this, of LeConnected] have r: "fenced_reach tape_radio ?t" by simp
  have "fs_stops ?t = 1"
    by (simp add: supervisor_suspend_def radio_down_def prog_simps tape_radio_def tape_call_def report_ready_def counted_def counted_call_def
      stops_made_def core_new_def link_new_def link_with_backoff_def link_defs link_is_ready_def Let_def case_prod_unfold)
  with stop_fence [OF r, of 0] have "\<not> (\<exists>i. fst (worker_input 0 (Some (MEvent LeConnected)) (fs_core ?t)) = Feed i)"
    by (simp split: if_splits)
  then show ?thesis by auto
qed

text \<open>
  C9: The radio is used in order and left alone while suspended.  Whatever calls fail and however
  callers and worker interleave, the radio is started only when stopped and used only when started; and
  after a suspend, with or without error, only disconnects and stops are issued until a resume.
\<close>

theorem radio_used_in_order:
  assumes "list_all no_resume ops'"
  shows "let c = run_state (supervisor_step tape_radio) (core_new \<lparr>tp_calls = [], tp_fails = fails\<rparr> link_new) ops;
      c1 = snd (supervisor_suspend tape_radio c);
      c2 = run_state (supervisor_step tape_radio) c1 ops'
    in radio_order True (tp_calls (co_radio c2)) = Some (co_radio_started c2) \<and>
       more_calls {CDisconnect, CStop} c1 c2 \<and> lm_state (co_machine c2) = Suspended"
proof -
  let ?start = "core_new \<lparr>tp_calls = [], tp_fails = fails\<rparr> link_new"
  have run: "in_order (run_state (supervisor_step tape_radio) ?start ops)" for ops
    by (induction ops rule: rev_induct) (simp_all add: in_order_op, simp add: in_order_def core_new_def)
  let ?c = "run_state (supervisor_step tape_radio) ?start ops"
  let ?c1 = "snd (supervisor_suspend tape_radio ?c)"
  have sus: "snd (supervisor_step tape_radio d SSuspend) = snd (supervisor_suspend tape_radio d)" for d
    by (simp add: supervisor_step_def)
  have "lm_state (co_machine ?c1) = Suspended" by (simp add: supervisor_suspend_def case_prod_unfold Let_def)
  from run_suspended_core [OF this assms] run [of "(ops @ [SSuspend]) @ ops'"] show ?thesis
    by (simp add: in_order_def sus Let_def)
qed

theorem radio_used_in_order_witness:
  "more_calls {CDisconnect, CStop}
     (snd (supervisor_suspend tape_radio (core_new \<lparr>tp_calls = [], tp_fails = \<lambda>n. n = 1\<rparr> link_new)))
     (snd (supervisor_step tape_radio (snd (supervisor_suspend tape_radio (core_new \<lparr>tp_calls = [], tp_fails = \<lambda>n. n = 1\<rparr> link_new)))
        (STurn 0 (Some (MEvent LeConnected)))))"
  using radio_used_in_order [of "[STurn 0 (Some (MEvent LeConnected))]" "\<lambda>n. n = 1" "[]"] by (simp add: Let_def)

text \<open>
  Timer, reports and waiters agree with the link.  After any sequence of operations a back-off timer
  is set exactly in the back-off state, the readiness last reported to the sinks is the readiness of the
  link, and no future is parked on a link that is ready.
\<close>

theorem supervisor_core_consistent:
  "core_ok (run_state (supervisor_step R) (core_new radio link_new) ops)"
  by (rule supervisor.inv_run) blast

text \<open>
  A sink hears every change of readiness exactly once.  The value it gets at registration and the
  calls it gets afterwards alternate, and the last one is the readiness of the link, whatever happened
  before and after the registration.
\<close>

theorem sink_hears_every_change:
  assumes "c = run_state (supervisor_step R) (core_new radio link_new) ops"
    and "sink \<notin> set (co_ready_sinks c)" and "subscribe_ready sink c = (seed, c1)" and "SSubscribe sink \<notin> set ops'"
  shows "\<exists>new. told sink (run_state (supervisor_step R) c1 ops') = told sink c @ new \<and> alternates seed new \<and>
    last (seed # new) = link_is_ready (co_machine (run_state (supervisor_step R) c1 ops'))"
proof -
  have c1: "c1 = snd (supervisor_step R c (SSubscribe sink))" using assms(3) by (simp add: supervisor_step_def)
  have all: "run_state (supervisor_step R) c1 ops' = run_state (supervisor_step R) (core_new radio link_new) (ops @ SSubscribe sink # ops')"
    using assms(1) c1 by simp
  have ok: "core_ok c" "core_ok (run_state (supervisor_step R) c1 ops')"
    unfolding all assms(1) by (rule supervisor.inv_run, blast)+
  have f: "co_ready_sinks c1 = co_ready_sinks c @ [sink]" "co_effects c1 = co_effects c" "co_ready_reported c1 = seed"
    using assms(3) ok(1) by (auto simp: subscribe_ready_def core_ok_def)
  from f(1) assms(2) have once: "subscribed_once sink c1" by (simp add: subscribed_once_def filter_empty_conv) blast
  from told_run [OF once assms(4), of R] obtain new where
      "told sink (run_state (supervisor_step R) c1 ops') = told sink c1 @ new" "alternates seed new"
      "last (seed # new) = co_ready_reported (run_state (supervisor_step R) c1 ops')"
    unfolding f(3) by blast
  with ok(2) show ?thesis unfolding core_ok_def told_cong [OF f(2)] by metis
qed

theorem sink_hears_every_change_witness:
  "\<exists>new. told 7 (run_state (supervisor_step tape_radio) (snd (subscribe_ready 7 (core_new \<lparr>tp_calls = [], tp_fails = \<lambda>_. False\<rparr> link_new)))
     [STurn 0 (Some (MInput InStart)), STurn 0 (Some (MEvent LeConnected)), STurn 0 (Some (MEvent LeNetworkUp))]) = new \<and>
   alternates False new"
proof -
  let ?c = "core_new \<lparr>tp_calls = [], tp_fails = \<lambda>_. False\<rparr> link_new"
  have "fst (subscribe_ready 7 ?c) = False"
    by (simp add: subscribe_ready_def core_new_def link_new_def link_with_backoff_def link_is_ready_def)
  then have "subscribe_ready 7 ?c = (False, snd (subscribe_ready 7 ?c))" by (metis prod.collapse)
  moreover have "7 \<notin> set (co_ready_sinks ?c)" "told 7 ?c = []" by (simp_all add: core_new_def told_def)
  ultimately show ?thesis
    using sink_hears_every_change [of ?c tape_radio "\<lparr>tp_calls = [], tp_fails = \<lambda>_. False\<rparr>" "[]" 7 False _
        "[STurn 0 (Some (MInput InStart)), STurn 0 (Some (MEvent LeConnected)), STurn 0 (Some (MEvent LeNetworkUp))]"]
    by auto
qed

end
