(* ===== verification/Mqtt_Session.thy ===== *)
theory Mqtt_Session
  imports Juggler_Prelude
begin

text \<open>
  The MQTT session lifecycle (\<^verbatim>\<open>juggler/src/mqtt/session.rs\<close>) and the network gate in front of it
  (\<^verbatim>\<open>juggler/src/mqtt/gate.rs\<close>).

  The lemmas follow runs with an observer of the broker: a session is ready only while the network is
  up and the broker holds every subscription, connect work of an older session is ignored, no attempt
  starts without the network, and a shut-down machine stays silent.
\<close>

section \<open>The session machine\<close>

definition SESSION_RETRY_MS :: u64 where
  "SESSION_RETRY_MS = 5000"

datatype session_token = SessionToken u32

datatype session_input =
    SiNetworkUp | SiNetworkDown | SiAttemptStarted | SiConnected bool | SiWorkDone session_token
  | SiWorkFailed session_token | SiDisconnected | SiRetryElapsed | SiShutdown

datatype session_action =
  SaNone | SaConnect | SaConnectWork session_token bool | SaClose | SaWait u64

datatype mqtt_connection_state = McConnecting | McConnected | McDisconnected | McShuttingDown

datatype session_phase =
    SpStarting | SpOffline | SpConnecting | SpWorking session_token | SpReady | SpRetrying
  | SpClosing bool | SpShutdown

record session_machine =
  sm_phase :: session_phase
  sm_network_up :: bool
  sm_generation :: u32
  sm_connects :: u32
  sm_subscribed :: bool
  sm_retry_ms :: u64

definition session_with_retry :: "u64 \<Rightarrow> session_machine" where
  "session_with_retry ms = \<lparr>sm_phase = SpStarting, sm_network_up = False, sm_generation = 0, sm_connects = 0,
     sm_subscribed = False, sm_retry_ms = ms\<rparr>"

definition session_new :: session_machine where
  "session_new = session_with_retry SESSION_RETRY_MS"

definition session_state :: "session_machine \<Rightarrow> mqtt_connection_state" where
  "session_state m = (case sm_phase m of
       SpStarting \<Rightarrow> McConnecting | SpConnecting \<Rightarrow> McConnecting | SpWorking _ \<Rightarrow> McConnecting
     | SpReady \<Rightarrow> McConnected
     | SpOffline \<Rightarrow> McDisconnected | SpRetrying \<Rightarrow> McDisconnected | SpClosing _ \<Rightarrow> McDisconnected
     | SpShutdown \<Rightarrow> McShuttingDown)"

definition can_publish :: "session_machine \<Rightarrow> bool" where
  "can_publish m \<longleftrightarrow> sm_phase m = SpReady"

definition is_current :: "session_machine \<Rightarrow> session_token \<Rightarrow> bool" where
  "is_current m token \<longleftrightarrow> sm_phase m = SpWorking token"

definition driver_idle :: "session_machine \<Rightarrow> bool" where
  "driver_idle m \<longleftrightarrow> sm_phase m = SpClosing True"

definition session_busy :: "session_phase \<Rightarrow> bool" where
  "session_busy p = (case p of SpConnecting \<Rightarrow> True | SpWorking _ \<Rightarrow> True | SpReady \<Rightarrow> True | SpRetrying \<Rightarrow> True | _ \<Rightarrow> False)"

definition on_connected :: "bool \<Rightarrow> session_machine \<Rightarrow> session_action \<times> session_machine" where
  "on_connected session_present m =
     (let g = sm_generation m + 1;
          token = SessionToken g;
          subscribe = (\<not> (session_present \<and> sm_subscribed m))
      in (SaConnectWork token subscribe,
          m\<lparr>sm_generation := g, sm_phase := SpWorking token,
            sm_subscribed := (if subscribe then False else sm_subscribed m)\<rparr>))"

definition on_disconnected :: "session_machine \<Rightarrow> session_action \<times> session_machine" where
  "on_disconnected m =
     (if sm_network_up m then (SaWait (sm_retry_ms m), m\<lparr>sm_phase := SpRetrying\<rparr>)
      else (SaNone, m\<lparr>sm_phase := SpOffline\<rparr>))"

definition session_poll :: "session_machine \<Rightarrow> session_input \<Rightarrow> session_action \<times> session_machine" where
  "session_poll m i = (case (sm_phase m, i) of
       (SpShutdown, _) \<Rightarrow> (SaNone, m)
     | (p, SiShutdown) \<Rightarrow> (if session_busy p then SaClose else SaNone, m\<lparr>sm_phase := SpShutdown\<rparr>)
     | (SpStarting, SiNetworkUp) \<Rightarrow> (SaConnect, m\<lparr>sm_network_up := True, sm_phase := SpConnecting\<rparr>)
     | (SpOffline, SiNetworkUp) \<Rightarrow> (SaConnect, m\<lparr>sm_network_up := True, sm_phase := SpConnecting\<rparr>)
     | (_, SiNetworkUp) \<Rightarrow> (SaNone, m\<lparr>sm_network_up := True\<rparr>)
     | (SpConnecting, SiNetworkDown) \<Rightarrow> (SaClose, m\<lparr>sm_network_up := False, sm_phase := SpClosing False\<rparr>)
     | (SpWorking _, SiNetworkDown) \<Rightarrow> (SaClose, m\<lparr>sm_network_up := False, sm_phase := SpClosing False\<rparr>)
     | (SpReady, SiNetworkDown) \<Rightarrow> (SaClose, m\<lparr>sm_network_up := False, sm_phase := SpClosing False\<rparr>)
     | (SpRetrying, SiNetworkDown) \<Rightarrow> (SaClose, m\<lparr>sm_network_up := False, sm_phase := SpClosing True\<rparr>)
     | (_, SiNetworkDown) \<Rightarrow> (SaNone, m\<lparr>sm_network_up := False\<rparr>)
     | (SpRetrying, SiAttemptStarted) \<Rightarrow> (SaNone, m\<lparr>sm_phase := SpConnecting\<rparr>)
     | (SpStarting, SiAttemptStarted) \<Rightarrow> (SaClose, m\<lparr>sm_phase := SpClosing False\<rparr>)
     | (SpOffline, SiAttemptStarted) \<Rightarrow> (SaClose, m\<lparr>sm_phase := SpClosing False\<rparr>)
     | (SpConnecting, SiConnected session_present) \<Rightarrow> on_connected session_present m
     | (SpWorking current, SiWorkDone token) \<Rightarrow>
         (if token = current
          then (SaNone, m\<lparr>sm_subscribed := True, sm_phase := SpReady, sm_connects := sm_connects m + 1\<rparr>)
          else (SaNone, m))
     | (SpWorking current, SiWorkFailed token) \<Rightarrow>
         (if token = current then (SaClose, m\<lparr>sm_phase := SpClosing False\<rparr>) else (SaNone, m))
     | (SpConnecting, SiDisconnected) \<Rightarrow> on_disconnected m
     | (SpWorking _, SiDisconnected) \<Rightarrow> on_disconnected m
     | (SpReady, SiDisconnected) \<Rightarrow> on_disconnected m
     | (SpClosing _, SiDisconnected) \<Rightarrow> on_disconnected m
     | (SpRetrying, SiRetryElapsed) \<Rightarrow> (SaConnect, m\<lparr>sm_phase := SpConnecting\<rparr>)
     | _ \<Rightarrow> (SaNone, m))"

section \<open>The network gate\<close>

record network_gate = gate_up :: bool

definition gate_new :: network_gate where
  "gate_new = \<lparr>gate_up = False\<rparr>"

definition gate_feed :: "network_gate \<Rightarrow> bool \<Rightarrow> session_input option \<times> network_gate" where
  "gate_feed g ready =
     (if ready = gate_up g then (None, g)
      else (Some (if ready then SiNetworkUp else SiNetworkDown), g\<lparr>gate_up := ready\<rparr>))"

section \<open>Phases and the network\<close>

lemmas session_defs = session_poll_def on_connected_def on_disconnected_def session_busy_def

text \<open>Which phases an up or a down network allows.\<close>

definition session_ok :: "session_machine \<Rightarrow> bool" where
  "session_ok m = (case sm_phase m of
       SpStarting \<Rightarrow> \<not> sm_network_up m | SpOffline \<Rightarrow> \<not> sm_network_up m
     | SpConnecting \<Rightarrow> sm_network_up m | SpReady \<Rightarrow> sm_network_up m | SpRetrying \<Rightarrow> sm_network_up m
     | SpWorking token \<Rightarrow> sm_network_up m \<and> token = SessionToken (sm_generation m)
     | SpClosing _ \<Rightarrow> True | SpShutdown \<Rightarrow> True)"

lemma session_ok_new: "session_ok (session_with_retry ms)"
  by (simp add: session_ok_def session_with_retry_def)

lemma session_ok_poll: "session_ok m \<Longrightarrow> session_ok (snd (session_poll m i))"
  by (cases "sm_phase m"; cases i) (auto simp: session_ok_def session_defs Let_def)

interpretation session: polled_machine session_poll "\<lambda>m. \<exists>ms. m = session_with_retry ms" session_ok
  by unfold_locales (auto intro: session_ok_new session_ok_poll)

abbreviation session_after :: "u64 \<Rightarrow> session_input list \<Rightarrow> session_machine" where
  "session_after ms is \<equiv> run_state session_poll (session_with_retry ms) is"

lemma session_ok_run: "session_ok (session_after ms is)"
  by (intro session.inv_run) blast

text \<open>The last word of the inputs on the network, and whether they shut the machine down.\<close>

fun net_report :: "bool \<Rightarrow> session_input list \<Rightarrow> bool" where
  "net_report b [] = b"
| "net_report b (SiNetworkUp # is) = net_report True is"
| "net_report b (SiNetworkDown # is) = net_report False is"
| "net_report b (_ # is) = net_report b is"

lemma net_report_snoc:
  "net_report b (is @ [i]) = (if i = SiNetworkUp then True else if i = SiNetworkDown then False else net_report b is)"
  by (induction b "is" rule: net_report.induct) (cases i; simp)+

lemma poll_network:
  "sm_phase (snd (session_poll m i)) \<noteq> SpShutdown \<Longrightarrow> sm_phase m \<noteq> SpShutdown \<and> sm_network_up (snd (session_poll m i)) =
    (if i = SiNetworkUp then True else if i = SiNetworkDown then False else sm_network_up m)"
  by (cases "sm_phase m"; cases i) (auto simp: session_defs Let_def)

lemma network_run: "sm_phase (session_after ms is) \<noteq> SpShutdown \<Longrightarrow> sm_network_up (session_after ms is) = net_report False is"
proof (induction "is" rule: rev_induct)
  case Nil
  then show ?case by (simp add: session_with_retry_def)
next
  case (snoc i "is")
  then show ?case using poll_network [of "session_after ms is" i] by (simp add: net_report_snoc)
qed

lemma shutdown_run:
  "sm_phase m = SpShutdown \<Longrightarrow> run_state session_poll m is = m \<and> run_outputs session_poll m is = map (\<lambda>_. SaNone) is"
  by (induction "is") (simp_all add: session_poll_def)

section \<open>Subscriptions as the broker sees them\<close>

text \<open>
  The observer watches the wire only: a CONNACK without a kept session means that the broker holds no
  subscription, the end of connect work that subscribed means that it holds all of them.
  \<open>(held, asked)\<close>: the broker holds every subscription; the work in progress subscribes.
\<close>

definition observe :: "session_machine \<Rightarrow> session_input \<Rightarrow> bool \<times> bool \<Rightarrow> bool \<times> bool" where
  "observe m i = (\<lambda>(held, asked).
     case (i, fst (session_poll m i)) of
       (SiConnected present, SaConnectWork _ subscribe) \<Rightarrow> (held \<and> present, subscribe)
     | (SiWorkDone token, _) \<Rightarrow> (if is_current m token then held \<or> asked else held, asked)
     | _ \<Rightarrow> (held, asked))"

fun observe_run :: "session_machine \<Rightarrow> bool \<times> bool \<Rightarrow> session_input list \<Rightarrow> bool \<times> bool" where
  "observe_run m ob [] = ob"
| "observe_run m ob (i # is) = observe_run (snd (session_poll m i)) (observe m i ob) is"

definition subs_ok :: "session_machine \<Rightarrow> bool \<times> bool \<Rightarrow> bool" where
  "subs_ok m ob \<longleftrightarrow> (sm_subscribed m \<longrightarrow> fst ob) \<and> (sm_phase m = SpReady \<longrightarrow> fst ob) \<and>
     (\<forall>t. sm_phase m = SpWorking t \<longrightarrow> fst ob \<or> snd ob)"

lemma subs_ok_poll: "subs_ok m ob \<Longrightarrow> subs_ok (snd (session_poll m i)) (observe m i ob)"
  by (cases ob; cases "sm_phase m"; cases i) (auto simp: subs_ok_def observe_def is_current_def session_defs Let_def)

lemma subs_ok_run: "subs_ok m ob \<Longrightarrow> subs_ok (run_state session_poll m is) (observe_run m ob is)"
  by (induction "is" arbitrary: m ob) (simp_all add: subs_ok_poll)

section \<open>Tokens\<close>

text \<open>The sessions the broker accepted along a run; tokens number them.\<close>

definition accepted :: "session_machine \<Rightarrow> session_input list \<Rightarrow> nat" where
  "accepted m is = length (filter (\<lambda>a. \<exists>t s. a = SaConnectWork t s) (run_outputs session_poll m is))"

lemma accepted_append: "accepted m (is @ js) = accepted m is + accepted (run_state session_poll m is) js"
  by (simp add: accepted_def)

lemma accepted_le: "accepted m is \<le> length is"
  unfolding accepted_def by (metis length_filter_le length_run_outputs)

lemma poll_generation:
  "case fst (session_poll m i) of
     SaConnectWork t _ \<Rightarrow> sm_generation (snd (session_poll m i)) = sm_generation m + 1 \<and> t = SessionToken (sm_generation m + 1)
   | _ \<Rightarrow> sm_generation (snd (session_poll m i)) = sm_generation m"
  by (cases "sm_phase m"; cases i) (auto simp: session_defs Let_def)

lemma generation_run: "sm_generation (session_after ms is) = of_nat (accepted (session_with_retry ms) is)"
proof (induction "is" rule: rev_induct)
  case Nil
  then show ?case by (simp add: session_with_retry_def accepted_def)
next
  case (snoc i "is")
  then show ?case using poll_generation [of "session_after ms is" i]
    by (cases "fst (session_poll (session_after ms is) i)") (simp_all add: accepted_append accepted_def)
qed

lemma working_token: "sm_phase (session_after ms is) = SpWorking t \<Longrightarrow> t = SessionToken (of_nat (accepted (session_with_retry ms) is))"
  using session_ok_run [of ms "is"] by (simp add: session_ok_def generation_run)

lemma poll_stale:
  assumes "\<not> is_current m t"
  shows "session_poll m (SiWorkDone t) = (SaNone, m)" "session_poll m (SiWorkFailed t) = (SaNone, m)"
  using assms by (cases "sm_phase m"; auto simp: session_poll_def is_current_def)+

section \<open>Readiness seen through the gate\<close>

text \<open>
  A tier feeds every readiness observation of the link to the gate and what comes back to the session;
  all other inputs go straight to the session.
\<close>

datatype tier_event = Observed bool | Fed session_input

record mqtt_tier =
  mt_gate :: network_gate
  mt_session :: session_machine

definition tier_new :: "u64 \<Rightarrow> mqtt_tier" where
  "tier_new ms = \<lparr>mt_gate = gate_new, mt_session = session_with_retry ms\<rparr>"

definition tier_step :: "mqtt_tier \<Rightarrow> tier_event \<Rightarrow> session_action \<times> mqtt_tier" where
  "tier_step s e = (case e of
       Observed ready \<Rightarrow>
         (case gate_feed (mt_gate s) ready of
            (None, g) \<Rightarrow> (SaNone, s\<lparr>mt_gate := g\<rparr>)
          | (Some i, g) \<Rightarrow> (case session_poll (mt_session s) i of (a, m) \<Rightarrow> (a, \<lparr>mt_gate = g, mt_session = m\<rparr>)))
     | Fed i \<Rightarrow> (case session_poll (mt_session s) i of (a, m) \<Rightarrow> (a, s\<lparr>mt_session := m\<rparr>)))"

fun own_input :: "tier_event \<Rightarrow> bool" where
  "own_input (Observed _) = True"
| "own_input (Fed i) = (i \<noteq> SiNetworkUp \<and> i \<noteq> SiNetworkDown)"

fun last_observed :: "bool \<Rightarrow> tier_event list \<Rightarrow> bool" where
  "last_observed b [] = b"
| "last_observed b (Observed r # es) = last_observed r es"
| "last_observed b (Fed _ # es) = last_observed b es"

definition tier_ok :: "mqtt_tier \<Rightarrow> bool" where
  "tier_ok s \<longleftrightarrow> session_ok (mt_session s) \<and>
     (sm_phase (mt_session s) = SpShutdown \<or> sm_network_up (mt_session s) = gate_up (mt_gate s))"

lemma tier_ok_new: "tier_ok (tier_new ms)"
  by (simp add: tier_ok_def tier_new_def session_ok_new) (simp add: gate_new_def session_with_retry_def)

lemma tier_ok_step:
  assumes "tier_ok s" "own_input e"
  shows "tier_ok (snd (tier_step s e)) \<and> gate_up (mt_gate (snd (tier_step s e))) = last_observed (gate_up (mt_gate s)) [e]"
proof -
  have n: "sm_phase (snd (session_poll (mt_session s) i)) = SpShutdown \<or> sm_phase (mt_session s) \<noteq> SpShutdown \<and>
      sm_network_up (snd (session_poll (mt_session s) i)) =
        (if i = SiNetworkUp then True else if i = SiNetworkDown then False else sm_network_up (mt_session s))" for i
    using poll_network by blast
  show ?thesis
  proof (cases e)
    case (Observed ready)
    show ?thesis
      using assms Observed session_ok_poll [of "mt_session s"] n [of "if ready then SiNetworkUp else SiNetworkDown"]
      by (cases ready) (auto simp: tier_step_def tier_ok_def gate_feed_def case_prod_unfold)
  next
    case (Fed i)
    then show ?thesis
      using assms session_ok_poll [of "mt_session s" i] n [of i] by (auto simp: tier_step_def tier_ok_def case_prod_unfold)
  qed
qed

lemma tier_ok_run:
  "tier_ok s \<Longrightarrow> list_all own_input es \<Longrightarrow> tier_ok (run_state tier_step s es) \<and>
     gate_up (mt_gate (run_state tier_step s es)) = last_observed (gate_up (mt_gate s)) es"
proof (induction es arbitrary: s)
  case (Cons e es)
  have e: "tier_ok (snd (tier_step s e))" "gate_up (mt_gate (snd (tier_step s e))) = last_observed (gate_up (mt_gate s)) [e]"
    using tier_ok_step Cons.prems by simp_all
  with Cons.IH [OF e(1)] Cons.prems(2) show ?case by (cases e) simp_all
qed simp

section \<open>Properties\<close>

text \<open>
  C10: A ready session has all its subscriptions.  Along every run, when the machine lets publishes
  through, the broker holds every subscription of the client: whatever sequence of kept and forgotten
  sessions, failed work and stale answers led there, the machine asked for the subscriptions again
  whenever they might have been lost.
\<close>

theorem ready_session_subscribed:
  "can_publish (session_after ms is) \<longrightarrow> fst (observe_run (session_with_retry ms) (False, False) is)"
proof -
  have "subs_ok (session_with_retry ms) (False, False)" by (simp add: subs_ok_def session_with_retry_def)
  from subs_ok_run [OF this, of "is"] show ?thesis by (simp add: subs_ok_def can_publish_def)
qed

theorem ready_session_subscribed_witness:
  "fst (observe_run session_new (False, False) [SiNetworkUp, SiConnected True, SiWorkDone (SessionToken 1), SiDisconnected,
     SiRetryElapsed, SiConnected True, SiWorkDone (SessionToken 2)])"
proof -
  let ?is = "[SiNetworkUp, SiConnected True, SiWorkDone (SessionToken 1), SiDisconnected, SiRetryElapsed, SiConnected True, SiWorkDone (SessionToken 2)]"
  have "can_publish (session_after SESSION_RETRY_MS ?is)" by code_simp
  with ready_session_subscribed [of SESSION_RETRY_MS ?is] show ?thesis by (simp add: session_new_def)
qed

text \<open>
  Work of an older session is ignored.  Once the broker has accepted a further session, the end of
  work that was handed out before it, done or failed, neither makes the session ready nor closes it,
  as long as fewer than \<open>2 ^ 32\<close> inputs were fed.
\<close>

theorem stale_work_ignored:
  assumes "SaConnectWork t s \<in> set (run_outputs session_poll (session_with_retry ms) is)"
    and "0 < accepted (session_after ms is) js" and "length (is @ js) < 2 ^ 32"
  shows "session_poll (session_after ms (is @ js)) (SiWorkDone t) = (SaNone, session_after ms (is @ js)) \<and>
    session_poll (session_after ms (is @ js)) (SiWorkFailed t) = (SaNone, session_after ms (is @ js))"
proof -
  have "\<exists>k \<le> accepted (session_with_retry ms) is. t = SessionToken (of_nat k)"
    using assms(1)
  proof (induction "is" rule: rev_induct)
    case (snoc i "is")
    show ?case
    proof (cases "SaConnectWork t s \<in> set (run_outputs session_poll (session_with_retry ms) is)")
      case True
      with snoc.IH show ?thesis by (auto simp: accepted_append intro: trans_le_add1)
    next
      case False
      with snoc.prems have a: "fst (session_poll (session_after ms is) i) = SaConnectWork t s" by simp
      then have "accepted (session_with_retry ms) (is @ [i]) = Suc (accepted (session_with_retry ms) is)"
        by (simp add: accepted_append accepted_def [of _ "[i]"])
      moreover have "t = SessionToken (of_nat (Suc (accepted (session_with_retry ms) is)))"
        using poll_generation [of "session_after ms is" i] a by (simp add: generation_run add.commute)
      ultimately show ?thesis by auto
    qed
  qed simp
  then obtain k where k: "k \<le> accepted (session_with_retry ms) is" "t = SessionToken (of_nat k)" by blast
  let ?n = "accepted (session_with_retry ms) (is @ js)"
  have "k < ?n" using k(1) assms(2) by (simp add: accepted_append)
  moreover have "?n < 2 ^ 32" using accepted_le [of "session_with_retry ms" "is @ js"] assms(3) by simp
  ultimately have "(of_nat k :: u32) \<noteq> of_nat ?n"
    using unat_of_nat_less [of k, where 'l = 32] unat_of_nat_less [of ?n, where 'l = 32] by auto
  then have "\<not> is_current (session_after ms (is @ js)) t"
    unfolding is_current_def k(2) using working_token [of ms "is @ js" "SessionToken (of_nat k)"] by auto
  then show ?thesis by (intro conjI poll_stale)
qed

text \<open>
  The network gates every attempt.  Whenever the machine asks for a connection the last report said
  that the network is up, and so it did whenever publishes are let through; a machine that was shut
  down asks for nothing any more.
\<close>

theorem attempts_only_with_network:
  "(fst (session_poll (session_after ms is) i) = SaConnect \<or> can_publish (session_after ms (is @ [i])) \<longrightarrow>
      net_report False (is @ [i])) \<and>
   run_outputs session_poll (snd (session_poll (session_after ms is) SiShutdown)) js = map (\<lambda>_. SaNone) js"
proof -
  let ?m = "session_after ms (is @ [i])"
  have c: "fst (session_poll m i) = SaConnect \<Longrightarrow> sm_phase (snd (session_poll m i)) = SpConnecting" for m
    by (cases "sm_phase m"; cases i) (auto simp: session_defs Let_def split: if_splits)
  have "sm_phase ?m = SpConnecting \<or> sm_phase ?m = SpReady \<Longrightarrow> net_report False (is @ [i])"
    using session_ok_run [of ms "is @ [i]"] network_run [of ms "is @ [i]"] by (auto simp: session_ok_def)
  moreover have "sm_phase (snd (session_poll m SiShutdown)) = SpShutdown" for m
    by (cases "sm_phase m") (simp_all add: session_poll_def)
  ultimately show ?thesis
    using c [of "session_after ms is"] shutdown_run [of "snd (session_poll (session_after ms is) SiShutdown)" js]
    by (auto simp: can_publish_def)
qed

theorem attempts_only_with_network_witness:
  "net_report False [SiNetworkUp, SiConnected False, SiDisconnected, SiRetryElapsed]"
proof -
  have "fst (session_poll (session_after SESSION_RETRY_MS [SiNetworkUp, SiConnected False, SiDisconnected]) SiRetryElapsed) = SaConnect"
    by code_simp
  with attempts_only_with_network [of SESSION_RETRY_MS "[SiNetworkUp, SiConnected False, SiDisconnected]" SiRetryElapsed "[]"]
  show ?thesis by simp
qed

text \<open>
  Behind the gate the session follows the link.  When the network reaches the session only through
  the gate, publishes are let through and connections asked for only while the last observation found
  the link ready.
\<close>

theorem gated_session_follows_link:
  assumes "list_all own_input (es @ [e])"
  shows "(fst (tier_step (run_state tier_step (tier_new ms) es) e) = SaConnect \<or>
      can_publish (mt_session (run_state tier_step (tier_new ms) (es @ [e])))) \<longrightarrow> last_observed False (es @ [e])"
proof -
  let ?s = "run_state tier_step (tier_new ms) es" and ?t = "run_state tier_step (tier_new ms) (es @ [e])"
  have t: "tier_ok ?t" "gate_up (mt_gate ?t) = last_observed False (es @ [e])"
    using tier_ok_run [OF tier_ok_new assms, of ms] by (simp_all add: tier_new_def gate_new_def)
  have c: "fst (session_poll m i) = SaConnect \<Longrightarrow> sm_phase (snd (session_poll m i)) = SpConnecting" for m i
    by (cases "sm_phase m"; cases i) (auto simp: session_defs Let_def split: if_splits)
  have "fst (tier_step ?s e) = SaConnect \<Longrightarrow> sm_phase (mt_session ?t) = SpConnecting"
    using c [of "mt_session ?s"] by (auto simp: tier_step_def gate_feed_def case_prod_unfold split: tier_event.splits if_splits)
  with t show ?thesis by (auto simp: tier_ok_def session_ok_def can_publish_def)
qed

theorem gated_session_follows_link_witness:
  "can_publish (mt_session (run_state tier_step (tier_new 5000) [Observed True, Fed (SiConnected False), Fed (SiWorkDone (SessionToken 1))])) \<and>
   last_observed False [Observed True, Fed (SiConnected False), Fed (SiWorkDone (SessionToken 1))]"
proof -
  let ?es = "[Observed True, Fed (SiConnected False)]" and ?e = "Fed (SiWorkDone (SessionToken 1))"
  have "can_publish (mt_session (run_state tier_step (tier_new 5000) (?es @ [?e])))" by code_simp
  with gated_session_follows_link [of ?es ?e 5000] show ?thesis by simp
qed

theorem stale_work_ignored_witness:
  "session_poll (session_after 5000 [SiNetworkUp, SiConnected False, SiDisconnected, SiRetryElapsed, SiConnected False])
     (SiWorkDone (SessionToken 1)) =
   (SaNone, session_after 5000 [SiNetworkUp, SiConnected False, SiDisconnected, SiRetryElapsed, SiConnected False])"
proof -
  let ?is = "[SiNetworkUp, SiConnected False]" and ?js = "[SiDisconnected, SiRetryElapsed, SiConnected False]"
  have "SaConnectWork (SessionToken 1) True \<in> set (run_outputs session_poll (session_with_retry 5000) ?is)" by code_simp
  moreover have "0 < accepted (session_after 5000 ?is) ?js"
    by (simp add: accepted_def session_with_retry_def session_defs Let_def ex_bool_eq)
  ultimately show ?thesis using stale_work_ignored [of "SessionToken 1" True 5000 ?is ?js] by simp
qed

end
