(* ===== verification/Mqtt_Transfer.thy ===== *)
theory Mqtt_Transfer
  imports Juggler_Prelude
begin

text \<open>
  Messages on their way in and out of the MQTT client: the assembler that joins a received message
  from its chunks (\<^verbatim>\<open>juggler/src/mqtt/chunks.rs\<close>) and the outbox that holds publishes until a client
  can take them (\<^verbatim>\<open>juggler/src/mqtt/outbox.rs\<close>).

  \<open>usize\<close> has 32 bits on both tiers.  Every method of the outbox holds its lock from beginning to end,
  so a method is one step; \<open>publish_waiting\<close> is modelled by the part it runs under the lock on each
  turn of its loop.  What handing a message to the client means is a parameter of each operation, a
  function of the client, the message and the world its closure captures.
\<close>

section \<open>Chunks\<close>

type_synonym usize = u32

datatype chunk =
    Complete string "u8 list"
  | First string "u8 list" usize
  | Next "u8 list" usize usize

datatype assembled = Message string "u8 list" | Pending | TooLarge | OutOfOrder

datatype progress = Resting | Collecting string "u8 list" usize | Skipping usize

record chunk_assembler =
  ca_max_len :: usize
  ca_progress :: progress
  ca_abandoned :: u32

definition assembler_new :: "usize \<Rightarrow> chunk_assembler" where
  "assembler_new m = \<lparr>ca_max_len = m, ca_progress = Resting, ca_abandoned = 0\<rparr>"

definition abandon :: "chunk_assembler \<Rightarrow> chunk_assembler" where
  "abandon s = (case ca_progress s of
       Collecting _ _ _ \<Rightarrow> s\<lparr>ca_abandoned := ca_abandoned s + 1, ca_progress := Resting\<rparr>
     | _ \<Rightarrow> s\<lparr>ca_progress := Resting\<rparr>)"

definition finish_if_complete :: "chunk_assembler \<Rightarrow> assembled \<times> chunk_assembler" where
  "finish_if_complete s = (case ca_progress s of
       Collecting topic payload whole \<Rightarrow>
         (if length payload = unat whole then (Message topic payload, s\<lparr>ca_progress := Resting\<rparr>) else (Pending, s))
     | _ \<Rightarrow> (Pending, s))"

definition feed :: "chunk_assembler \<Rightarrow> chunk \<Rightarrow> assembled \<times> chunk_assembler" where
  "feed s c = (case c of
       Complete topic bytes \<Rightarrow>
         (let s1 = abandon s
          in if unat (ca_max_len s1) < length bytes then (TooLarge, s1) else (Message topic bytes, s1))
     | First topic bytes whole \<Rightarrow>
         (let s1 = abandon s
          in if ca_max_len s1 < whole then (TooLarge, s1\<lparr>ca_progress := Skipping whole\<rparr>)
             else finish_if_complete (s1\<lparr>ca_progress := Collecting topic bytes whole\<rparr>))
     | Next bytes offset whole \<Rightarrow>
         (case ca_progress s of
            Collecting topic payload expected \<Rightarrow>
              (if expected = whole \<and> unat offset = length payload \<and> offset + of_nat (length bytes) \<le> whole
               then finish_if_complete (s\<lparr>ca_progress := Collecting topic (payload @ bytes) expected\<rparr>)
               else (OutOfOrder, abandon s))
          | Skipping skipped \<Rightarrow>
              (if skipped = whole
               then (Pending, if whole \<le> offset + of_nat (length bytes) then s\<lparr>ca_progress := Resting\<rparr> else s)
               else (OutOfOrder, abandon s))
          | Resting \<Rightarrow> (OutOfOrder, abandon s)))"

section \<open>Outbox\<close>

datatype qos = AtMostOnce | AtLeastOnce | ExactlyOnce

record pending_publish =
  pp_topic :: string
  pp_payload :: "u8 list"
  pp_qos :: qos
  pp_retain :: bool

record 'c outbox =
  ob_client :: "'c option"
  ob_pending :: "pending_publish list"
  ob_depth :: nat
  ob_dropped :: u32

text \<open>The \<open>send\<close> closure: whether the client took the message, the client and the world after it.\<close>

type_synonym ('c, 'w) sender = "'c \<Rightarrow> pending_publish \<Rightarrow> 'w \<Rightarrow> bool \<times> 'c \<times> 'w"

definition outbox_new :: "nat \<Rightarrow> 'c outbox" where
  "outbox_new depth = \<lparr>ob_client = None, ob_pending = [], ob_depth = depth, ob_dropped = 0\<rparr>"

definition count_dropped :: "u32 \<Rightarrow> 'c outbox \<Rightarrow> 'c outbox" where
  "count_dropped n ob = ob\<lparr>ob_dropped := ob_dropped ob + n\<rparr>"

definition hand_over :: "('c, 'w) sender \<Rightarrow> pending_publish \<Rightarrow> 'c \<Rightarrow> 'c outbox \<times> 'w \<Rightarrow> 'c outbox \<times> 'w" where
  "hand_over send msg client = (\<lambda>(ob, w). case send client msg w of (took, client', w') \<Rightarrow>
     (if took then ob\<lparr>ob_client := Some client'\<rparr> else count_dropped 1 (ob\<lparr>ob_client := Some client'\<rparr>), w'))"

fun hand_over_all :: "('c, 'w) sender \<Rightarrow> pending_publish list \<Rightarrow> 'c outbox \<times> 'w \<Rightarrow> 'c outbox \<times> 'w" where
  "hand_over_all send [] s = s"
| "hand_over_all send (msg # msgs) s = (case ob_client (fst s) of
       None \<Rightarrow> s
     | Some client \<Rightarrow> hand_over_all send msgs (hand_over send msg client s))"

definition attach :: "('c, 'w) sender \<Rightarrow> 'c \<Rightarrow> 'c outbox \<times> 'w \<Rightarrow> 'c outbox \<times> 'w" where
  "attach send client = (\<lambda>(ob, w). hand_over_all send (ob_pending ob) (ob\<lparr>ob_client := Some client, ob_pending := []\<rparr>, w))"

definition publish :: "('c, 'w) sender \<Rightarrow> pending_publish \<Rightarrow> 'c outbox \<times> 'w \<Rightarrow> 'c outbox \<times> 'w" where
  "publish send msg = (\<lambda>(ob, w). case ob_client ob of
       Some client \<Rightarrow> hand_over send msg client (ob, w)
     | None \<Rightarrow>
         (let ob1 = (if ob_depth ob \<le> length (ob_pending ob)
                     then count_dropped 1 (ob\<lparr>ob_pending := tl (ob_pending ob)\<rparr>) else ob)
          in (ob1\<lparr>ob_pending := ob_pending ob1 @ [msg]\<rparr>, w)))"

text \<open>One turn of \<open>publish_waiting\<close>: \<open>True\<close> when it returns, \<open>False\<close> when it has to wait for room.\<close>

definition publish_turn :: "('c, 'w) sender \<Rightarrow> pending_publish \<Rightarrow> 'c outbox \<times> 'w \<Rightarrow> bool \<times> 'c outbox \<times> 'w" where
  "publish_turn send msg = (\<lambda>(ob, w). case ob_client ob of
       Some client \<Rightarrow> (True, hand_over send msg client (ob, w))
     | None \<Rightarrow>
         (if length (ob_pending ob) < ob_depth ob
          then (True, ob\<lparr>ob_pending := ob_pending ob @ [msg]\<rparr>, w)
          else (False, ob, w)))"

text \<open>The check the waiting publisher parks on.\<close>

definition has_room :: "'c outbox \<Rightarrow> bool" where
  "has_room ob \<longleftrightarrow> ob_client ob \<noteq> None \<or> length (ob_pending ob) < ob_depth ob"

definition with_client_mut :: "('c \<Rightarrow> 'r \<times> 'c) \<Rightarrow> 'c outbox \<Rightarrow> 'r option \<times> 'c outbox" where
  "with_client_mut f ob = (case ob_client ob of
       None \<Rightarrow> (None, ob)
     | Some client \<Rightarrow> (case f client of (r, client') \<Rightarrow> (Some r, ob\<lparr>ob_client := Some client'\<rparr>)))"

datatype 'r try_client = Attached 'r | Detached | Busy

text \<open>\<open>locked\<close>: the lock is held elsewhere.\<close>

definition try_with_client_mut :: "bool \<Rightarrow> ('c \<Rightarrow> 'r \<times> 'c) \<Rightarrow> 'c outbox \<Rightarrow> 'r try_client \<times> 'c outbox" where
  "try_with_client_mut locked f ob =
     (if locked then (Busy, ob)
      else case ob_client ob of
        None \<Rightarrow> (Detached, ob)
      | Some client \<Rightarrow> (case f client of (r, client') \<Rightarrow> (Attached r, ob\<lparr>ob_client := Some client'\<rparr>)))"

definition take_client :: "'c outbox \<Rightarrow> 'c option \<times> 'c outbox" where
  "take_client ob = (ob_client ob, ob\<lparr>ob_client := None\<rparr>)"

section \<open>Lemmas on the assembler\<close>

lemmas feed_defs = feed_def abandon_def finish_if_complete_def

lemma feed_max_len [simp]: "ca_max_len (snd (feed s c)) = ca_max_len s"
  by (simp add: feed_defs Let_def split: chunk.splits progress.splits)

lemma abandon_progress [simp]: "ca_progress (abandon s) = Resting" "ca_max_len (abandon s) = ca_max_len s"
  by (simp_all add: abandon_def split: progress.splits)

text \<open>The later pieces of a message whose first bytes are there, in order and with the right sizes.\<close>

fun continues :: "usize \<Rightarrow> u8 list \<Rightarrow> chunk list \<Rightarrow> u8 list \<Rightarrow> bool" where
  "continues whole got [] body = (body = got)"
| "continues whole got (Next bytes offset t # cs) body =
     (t = whole \<and> unat offset = length got \<and> length got + length bytes \<le> unat whole \<and> continues whole (got @ bytes) cs body)"
| "continues whole got (_ # cs) body = False"

lemma continues_snoc:
  "continues whole got (cs @ [Next bytes offset whole]) body \<longleftrightarrow>
     (\<exists>p. continues whole got cs p \<and> unat offset = length p \<and> length p + length bytes \<le> unat whole \<and> body = p @ bytes)"
  by (induction whole got cs body rule: continues.induct) auto

lemma continues_length: "continues whole got cs body \<Longrightarrow> length got \<le> length body"
  by (induction whole got cs body rule: continues.induct) auto

text \<open>Chunk lengths are lengths of slices in memory, so a position plus a length fits the word.\<close>

definition fits :: "chunk \<Rightarrow> bool" where
  "fits c = (case c of Next bytes offset _ \<Rightarrow> unat offset + length bytes < 2 ^ 32 | _ \<Rightarrow> True)"

lemma add_le_whole:
  assumes "unat offset + n < 2 ^ 32"
  shows "offset + of_nat n \<le> (whole :: u32) \<longleftrightarrow> unat offset + n \<le> unat whole"
proof -
  have "unat (offset + of_nat n) = unat offset + n"
    using assms unat_of_nat_less [of "unat offset + n", where 'l = 32] by simp
  then show ?thesis by (simp add: word_le_nat_alt)
qed

definition collected :: "chunk list \<Rightarrow> chunk_assembler \<Rightarrow> bool" where
  "collected cs s = (case ca_progress s of
       Collecting topic payload whole \<Rightarrow>
         whole \<le> ca_max_len s \<and> length payload \<noteq> unat whole \<and>
         (\<exists>pre d rest. cs = pre @ First topic d whole # rest \<and> continues whole d rest payload)
     | _ \<Rightarrow> True)"

text \<open>Where a delivered message may come from.\<close>

definition whole_message :: "usize \<Rightarrow> chunk list \<Rightarrow> string \<Rightarrow> u8 list \<Rightarrow> bool" where
  "whole_message m cs topic payload \<longleftrightarrow> length payload \<le> unat m \<and>
     (last cs = Complete topic payload \<or>
      (\<exists>pre d whole rest. cs = pre @ First topic d whole # rest \<and> continues whole d rest payload \<and> length payload = unat whole))"

lemma feed_step:
  assumes "collected cs s" "fits c"
  shows "collected (cs @ [c]) (snd (feed s c)) \<and>
    (\<forall>topic payload. fst (feed s c) = Message topic payload \<longrightarrow> whole_message (ca_max_len s) (cs @ [c]) topic payload)"
proof (cases c)
  case (Complete topic d)
  then show ?thesis by (auto simp: feed_def Let_def collected_def whole_message_def)
next
  case (First topic d whole)
  have "\<exists>pre d' rest. cs @ [First topic d whole] = pre @ First topic d' whole # rest \<and> continues whole d' rest d"
    by (intro exI [of _ cs] exI [of _ d] exI [of _ "[]"]) simp
  with First show ?thesis
    by (auto simp: feed_def Let_def collected_def whole_message_def finish_if_complete_def word_le_nat_alt word_less_nat_alt)
next
  case (Next d offset whole)
  show ?thesis
  proof (cases "ca_progress s")
    case (Collecting topic payload expected)
    show ?thesis
    proof (cases "expected = whole \<and> unat offset = length payload \<and> offset + of_nat (length d) \<le> whole")
      case True
      with assms(2) Next add_le_whole [of offset "length d" whole] have "length payload + length d \<le> unat whole"
        by (simp add: fits_def)
      moreover obtain pre d0 rest where cs: "cs = pre @ First topic d0 whole # rest" "continues whole d0 rest payload"
        using assms(1) Collecting True by (auto simp: collected_def)
      ultimately have "continues whole d0 (rest @ [c]) (payload @ d)"
        unfolding Next using True by (auto simp: continues_snoc)
      with cs(1) have "\<exists>pre d0 rest'. cs @ [c] = pre @ First topic d0 whole # rest' \<and> continues whole d0 rest' (payload @ d)"
        by (intro exI [of _ pre] exI [of _ d0] exI [of _ "rest @ [c]"]) simp
      with True Next Collecting assms(1) \<open>length payload + length d \<le> unat whole\<close> show ?thesis
        by (auto simp: feed_def collected_def whole_message_def finish_if_complete_def word_le_nat_alt)
    next
      case False
      with Next Collecting show ?thesis by (auto simp: feed_def collected_def)
    qed
  qed (use Next in \<open>auto simp: feed_def collected_def\<close>)
qed

lemma feed_run: "list_all fits cs \<Longrightarrow> collected cs (run_state feed (assembler_new m) cs) \<and>
    ca_max_len (run_state feed (assembler_new m) cs) = m"
proof (induction cs rule: rev_induct)
  case Nil
  then show ?case by (simp add: collected_def assembler_new_def)
next
  case (snoc c cs)
  then show ?case using feed_step [of cs "run_state feed (assembler_new m) cs" c] by simp
qed

fun nonempty_next :: "chunk \<Rightarrow> bool" where
  "nonempty_next (Next bytes _ _) = (bytes \<noteq> [])"
| "nonempty_next _ = False"

lemma collecting_run:
  assumes "continues whole got cs body" "list_all nonempty_next cs" "cs \<noteq> []" "length body = unat whole"
    and "ca_progress s = Collecting topic got whole"
  shows "run_outputs feed s cs = replicate (length cs - 1) Pending @ [Message topic body]"
  using assms
proof (induction cs arbitrary: got s)
  case (Cons c cs)
  then obtain d offset where c: "c = Next d offset whole" "unat offset = length got" "d \<noteq> []"
      "length got + length d \<le> unat whole" and rest: "continues whole (got @ d) cs body"
    by (cases c) auto
  have "unat offset + length d < 2 ^ 32" using c(2,4) unat_less_pow [of whole] by simp
  then have "offset + of_nat (length d) \<le> whole" using add_le_whole [of offset "length d" whole] c(2,4) by simp
  with c Cons.prems(5) have step: "feed s c = finish_if_complete (s\<lparr>ca_progress := Collecting topic (got @ d) whole\<rparr>)"
    by (simp add: feed_def)
  show ?case
  proof (cases cs)
    case Nil
    with rest step Cons.prems(4) show ?thesis by (simp add: finish_if_complete_def)
  next
    case (Cons c' cs')
    with Cons.prems(2) obtain d' o' t' where "c' = Next d' o' t'" "d' \<noteq> []" by (cases c') auto
    with rest Cons continues_length [of whole "got @ d @ d'" cs' body] Cons.prems(4)
    have "length (got @ d) < unat whole" by (cases d') auto
    with step have s1: "feed s c = (Pending, s\<lparr>ca_progress := Collecting topic (got @ d) whole\<rparr>)"
      by (simp add: finish_if_complete_def)
    from Cons.IH [OF rest] Cons.prems(2,4) Cons
    have "run_outputs feed (s\<lparr>ca_progress := Collecting topic (got @ d) whole\<rparr>) cs = replicate (length cs - 1) Pending @ [Message topic body]"
      by simp
    with s1 Cons show ?thesis by simp
  qed
qed simp

section \<open>Lemmas on the outbox\<close>

text \<open>The operations on an outbox whose sends are recorded, in order, in the world.\<close>

datatype outbox_op = OpPublish pending_publish | OpWaiting pending_publish | OpAttach | OpTake

definition recording :: "(pending_publish \<Rightarrow> bool) \<Rightarrow> (unit, pending_publish list) sender" where
  "recording takes = (\<lambda>client msg w. (takes msg, client, w @ [msg]))"

type_synonym recorded = "unit outbox \<times> pending_publish list"

definition outbox_step :: "(pending_publish \<Rightarrow> bool) \<Rightarrow> recorded \<Rightarrow> outbox_op \<Rightarrow> bool \<times> recorded" where
  "outbox_step takes s op = (case op of
       OpPublish msg \<Rightarrow> (True, publish (recording takes) msg s)
     | OpWaiting msg \<Rightarrow> publish_turn (recording takes) msg s
     | OpAttach \<Rightarrow> (True, attach (recording takes) () s)
     | OpTake \<Rightarrow> (True, apfst (\<lambda>ob. snd (take_client ob)) s))"

text \<open>The messages the callers gave away: those of every publish that returned.\<close>

fun given :: "(pending_publish \<Rightarrow> bool) \<Rightarrow> recorded \<Rightarrow> outbox_op list \<Rightarrow> pending_publish list" where
  "given takes s [] = []"
| "given takes s (op # ops) =
     (case (op, outbox_step takes s op) of
        (OpPublish msg, (_, s')) \<Rightarrow> msg # given takes s' ops
      | (OpWaiting msg, (True, s')) \<Rightarrow> msg # given takes s' ops
      | (_, (_, s')) \<Rightarrow> given takes s' ops)"

definition held :: "recorded \<Rightarrow> pending_publish list" where
  "held s = snd s @ ob_pending (fst s)"

lemma hand_over_recorded:
  "hand_over (recording takes) msg client (ob, w) =
     (ob\<lparr>ob_client := Some client, ob_dropped := ob_dropped ob + (if takes msg then 0 else 1)\<rparr>, w @ [msg])"
  by (simp add: hand_over_def recording_def count_dropped_def)

lemma hand_over_all_recorded:
  "ob_client ob = Some () \<Longrightarrow> hand_over_all (recording takes) msgs (ob, w) =
     (ob\<lparr>ob_dropped := ob_dropped ob + of_nat (length (filter (Not \<circ> takes) msgs))\<rparr>, w @ msgs)"
  by (induction msgs arbitrary: ob w) (simp_all add: hand_over_recorded add.assoc)

lemma attach_recorded:
  "attach (recording takes) () (ob, w) =
     (ob\<lparr>ob_client := Some (), ob_pending := [], ob_dropped := ob_dropped ob + of_nat (length (filter (Not \<circ> takes) (ob_pending ob)))\<rparr>,
      w @ ob_pending ob)"
  by (simp add: attach_def hand_over_all_recorded)

text \<open>The books of an outbox: everything given away is handed over, held, or counted as dropped.\<close>

definition refused :: "(pending_publish \<Rightarrow> bool) \<Rightarrow> pending_publish list \<Rightarrow> nat" where
  "refused takes msgs = length (filter (Not \<circ> takes) msgs)"

lemma refused_append [simp]: "refused takes (xs @ ys) = refused takes xs + refused takes ys"
  by (simp add: refused_def)

lemma refused_one [simp]: "refused takes [msg] = (if takes msg then 0 else 1)"
  by (simp add: refused_def)

definition books :: "(pending_publish \<Rightarrow> bool) \<Rightarrow> pending_publish list \<Rightarrow> recorded \<Rightarrow> bool" where
  "books takes all s \<longleftrightarrow> subseq (held s) all \<and>
     ob_dropped (fst s) = of_nat (length all - length (held s) + refused takes (snd s)) \<and>
     (ob_client (fst s) \<noteq> None \<longrightarrow> ob_pending (fst s) = []) \<and>
     length (ob_pending (fst s)) \<le> ob_depth (fst s) \<and> 0 < ob_depth (fst s)"

definition gave :: "(pending_publish \<Rightarrow> bool) \<Rightarrow> recorded \<Rightarrow> outbox_op \<Rightarrow> pending_publish list" where
  "gave takes s op = (case op of OpPublish msg \<Rightarrow> [msg] | OpWaiting msg \<Rightarrow> (if fst (outbox_step takes s op) then [msg] else [])
     | _ \<Rightarrow> [])"

lemma given_Cons: "given takes s (op # ops) = gave takes s op @ given takes (snd (outbox_step takes s op)) ops"
  by (cases op) (auto simp: gave_def split: prod.splits bool.splits)

lemma books_send:
  assumes "books takes all (ob, w)" "ob_client ob = Some client"
  shows "books takes (all @ [msg]) (hand_over (recording takes) msg client (ob, w))"
  using assms by (auto simp: books_def hand_over_recorded held_def list_emb_append_mono Suc_diff_le
    dest: list_emb_length intro!: subseq_append')

lemma books_queue:
  assumes "books takes all (ob, w)" "ob_client ob = None" "length (ob_pending ob) < ob_depth ob"
  shows "books takes (all @ [msg]) (ob\<lparr>ob_pending := ob_pending ob @ [msg]\<rparr>, w)"
  using assms list_emb_append_mono [of "(=)" "w @ ob_pending ob" all "[msg]" "[msg]"] list_emb_length [of "(=)" "w @ ob_pending ob" all]
  by (simp add: books_def held_def)

lemma books_evict:
  assumes "books takes all (ob, w)" "ob_client ob = None" "length (ob_pending ob) = ob_depth ob"
  shows "books takes all (count_dropped 1 (ob\<lparr>ob_pending := tl (ob_pending ob)\<rparr>), w)"
proof -
  obtain p ps where p: "ob_pending ob = p # ps" using assms(1,3) by (cases "ob_pending ob") (auto simp: books_def)
  have sub: "subseq (w @ p # ps) all" using assms(1) p by (simp add: books_def held_def)
  have "subseq (w @ ps) (w @ p # ps)" by (intro list_emb_append_mono) auto
  then have "subseq (w @ ps) all" using sub by (rule subseq_order.trans)
  moreover have "Suc (length w + length ps) \<le> length all" using list_emb_length [OF sub] by simp
  moreover from this obtain k where "length all = Suc (length w + length ps) + k" using le_Suc_ex by blast
  ultimately show ?thesis using assms p by (simp add: books_def held_def count_dropped_def)
qed

lemma books_step:
  assumes "books takes all s"
  shows "books takes (all @ gave takes s op) (snd (outbox_step takes s op))"
proof -
  obtain ob w where s: "s = (ob, w)" by (cases s)
  show ?thesis
  proof (cases op)
    case (OpPublish msg)
    show ?thesis
    proof (cases "ob_client ob")
      case None
      let ?ob = "if ob_depth ob \<le> length (ob_pending ob) then count_dropped 1 (ob\<lparr>ob_pending := tl (ob_pending ob)\<rparr>) else ob"
      have "books takes all (?ob, w)" "length (ob_pending ?ob) < ob_depth ?ob" "ob_client ?ob = None"
        using assms s None books_evict [of takes all ob w] by (auto simp: books_def count_dropped_def)
      from books_queue [OF this(1,3,2)] OpPublish None s show ?thesis
        by (simp add: outbox_step_def gave_def publish_def Let_def count_dropped_def)
    next
      case (Some client)
      with OpPublish s assms books_send show ?thesis by (simp add: outbox_step_def gave_def publish_def)
    qed
  next
    case (OpWaiting msg)
    with s assms books_send [of takes all ob w "()" msg] books_queue [of takes all ob w msg] show ?thesis
      by (cases "ob_client ob") (auto simp: outbox_step_def gave_def publish_turn_def)
  next
    case OpAttach
    with s assms show ?thesis
      by (simp add: outbox_step_def gave_def attach_recorded books_def held_def refused_def)
  next
    case OpTake
    with s assms show ?thesis by (simp add: outbox_step_def gave_def take_client_def books_def held_def)
  qed
qed

lemma books_run: "books takes all s \<Longrightarrow> books takes (all @ given takes s ops) (run_state (outbox_step takes) s ops)"
proof (induction ops arbitrary: all s)
  case (Cons op ops)
  from Cons.IH [OF books_step [OF Cons.prems], of op] show ?case by (simp only: given_Cons run_state.simps append_assoc)
qed simp

lemma waiting_keeps:
  assumes "books takes all s" "\<forall>msg. op \<noteq> OpPublish msg"
  shows "held (snd (outbox_step takes s op)) = held s @ gave takes s op"
proof -
  obtain ob w where s: "s = (ob, w)" by (cases s)
  show ?thesis using assms s
    by (cases op; cases "ob_client ob")
       (auto simp: outbox_step_def gave_def publish_turn_def held_def hand_over_recorded attach_recorded take_client_def books_def)
qed

lemma waiting_keeps_run:
  assumes "books takes all s" "\<forall>msg. OpPublish msg \<notin> set ops"
  shows "held (run_state (outbox_step takes) s ops) = held s @ given takes s ops"
  using assms
proof (induction ops arbitrary: all s)
  case (Cons op ops)
  from Cons.IH [OF books_step [OF Cons.prems(1), of op]] Cons.prems waiting_keeps [OF Cons.prems(1), of op] show ?case
    by (auto simp: given_Cons simp del: given.simps)
qed simp

lemma books_new: "0 < depth \<Longrightarrow> books takes [] (outbox_new depth, [])"
  by (simp add: books_def outbox_new_def held_def refused_def)

section \<open>Properties\<close>

text \<open>
  C12: The assembler never splices.  Whatever chunks arrive in whatever order, a message it delivers is
  a complete chunk, or exactly the first piece of one message followed by all of its later pieces in
  order and without a gap; and it is never longer than the cap.
\<close>

theorem assembler_never_splices:
  assumes "list_all fits (cs @ [c])"
    and "fst (feed (run_state feed (assembler_new m) cs) c) = Message topic payload"
  shows "whole_message m (cs @ [c]) topic payload"
  using feed_step [of cs "run_state feed (assembler_new m) cs" c] feed_run [of cs m] assms by auto

theorem assembler_never_splices_witness:
  "whole_message 8 [First ''t'' [1] 3, Next [2] 1 3, Next [3] 2 3] ''t'' [1, 2, 3]"
proof -
  let ?cs = "[First ''t'' [1] 3, Next [2] 1 3]"
  have "list_all fits (?cs @ [Next [3] 2 3])" by (simp add: fits_def)
  moreover have "fst (feed (run_state feed (assembler_new 8) ?cs) (Next [3] 2 3)) = Message ''t'' [1, 2, 3]" by code_simp
  ultimately show ?thesis using assembler_never_splices [of ?cs "Next [3] 2 3" 8] by simp
qed

text \<open>
  The assembler delivers what was split.  From any state, the pieces of a message within the cap,
  in order, the later ones not empty, answer Pending until the last one answers with the message.
\<close>

theorem assembler_delivers:
  assumes "continues whole d rest body" and "list_all nonempty_next rest" and "length body = unat whole"
    and "whole \<le> ca_max_len s"
  shows "run_outputs feed s (First topic d whole # rest) = replicate (length rest) Pending @ [Message topic body]"
proof (cases rest)
  case Nil
  with assms(1,3,4) show ?thesis by (simp add: feed_def finish_if_complete_def Let_def not_less)
next
  case (Cons c cs)
  with assms(2) obtain d' o' t' where "c = Next d' o' t'" "d' \<noteq> []" by (cases c) auto
  with assms(1,3) Cons continues_length [of whole "d @ d'" cs body] have "length d < unat whole" by (cases d') auto
  then have s1: "feed s (First topic d whole) = (Pending, (abandon s)\<lparr>ca_progress := Collecting topic d whole\<rparr>)"
    using assms(4) by (simp add: feed_def finish_if_complete_def Let_def not_less)
  have "run_outputs feed ((abandon s)\<lparr>ca_progress := Collecting topic d whole\<rparr>) rest =
      replicate (length rest - 1) Pending @ [Message topic body]"
    using collecting_run [OF assms(1,2) _ assms(3)] Cons by simp
  with s1 Cons show ?thesis by simp
qed

theorem assembler_delivers_witness:
  "run_outputs feed (snd (feed (assembler_new 8) (First ''old'' [9] 5))) [First ''t'' [1] 3, Next [2] 1 3, Next [3] 2 3] =
    [Pending, Pending, Message ''t'' [1, 2, 3]]"
proof -
  let ?rest = "[Next [2] 1 3, Next [3] 2 3]" and ?s = "snd (feed (assembler_new 8) (First ''old'' [9] 5))"
  have "continues 3 [1] ?rest [1, 2, 3]" "list_all nonempty_next ?rest" "length [1, 2, 3 :: u8] = unat (3 :: u32)"
    by code_simp+
  moreover have "3 \<le> ca_max_len ?s" by (simp add: assembler_new_def)
  ultimately show ?thesis
    using assembler_delivers [of 3 "[1]" ?rest "[1, 2, 3]" ?s "''t''"] by (simp add: numeral_2_eq_2)
qed

text \<open>
  C11: The outbox keeps order and accounts for every message.  For any sequence of publishes of both
  kinds, attached and detached clients, with at least one slot: what was handed to clients followed by
  what is still held is a subsequence of what was given, in the order given; the queue never exceeds
  its depth, nothing is queued behind an attached client, and the dropped counter is the number of
  messages that are neither handed over nor held plus those a client refused (modulo \<open>2 ^ 32\<close>).
\<close>

theorem outbox_accounts:
  assumes "0 < depth"
  shows "books takes (given takes (outbox_new depth, []) ops) (run_state (outbox_step takes) (outbox_new depth, []) ops)"
  using books_run [OF books_new [OF assms], of takes ops] by simp

theorem outbox_accounts_witness:
  "books (\<lambda>_. True) (given (\<lambda>_. True) (outbox_new 2, []) [OpPublish \<lparr>pp_topic = ''a'', pp_payload = [], pp_qos = AtMostOnce, pp_retain = False\<rparr>, OpAttach])
    (run_state (outbox_step (\<lambda>_. True)) (outbox_new 2, []) [OpPublish \<lparr>pp_topic = ''a'', pp_payload = [], pp_qos = AtMostOnce, pp_retain = False\<rparr>, OpAttach])"
  by (rule outbox_accounts) simp

text \<open>
  Waiting publishers lose nothing.  With the waiting publish only, every message whose publish
  returned is handed over or still held, all of them in order; and a publish that has to wait leaves
  the outbox untouched and finds room again exactly when a client is attached or a slot is free.
\<close>

theorem waiting_loses_nothing:
  assumes "0 < depth" and "\<forall>msg. OpPublish msg \<notin> set ops"
  shows "held (run_state (outbox_step takes) (outbox_new depth, []) ops) = given takes (outbox_new depth, []) ops \<and>
    (\<forall>s msg. if has_room (fst s) then fst (publish_turn (recording takes) msg s)
       else publish_turn (recording takes) msg s = (False, s))"
proof
  show "held (run_state (outbox_step takes) (outbox_new depth, []) ops) = given takes (outbox_new depth, []) ops"
    using waiting_keeps_run [OF books_new [OF assms(1)] assms(2), of takes] by (simp add: held_def outbox_new_def)
  show "\<forall>s msg. if has_room (fst s) then fst (publish_turn (recording takes) msg s)
       else publish_turn (recording takes) msg s = (False, s)"
    by (auto simp: has_room_def publish_turn_def split: option.splits prod.splits)
qed

theorem waiting_loses_nothing_witness:
  "held (run_state (outbox_step (\<lambda>_. True)) (outbox_new 1, []) [OpWaiting \<lparr>pp_topic = ''a'', pp_payload = [], pp_qos = AtMostOnce, pp_retain = False\<rparr>, OpAttach]) =
     [\<lparr>pp_topic = ''a'', pp_payload = [], pp_qos = AtMostOnce, pp_retain = False\<rparr>]"
proof -
  let ?msg = "\<lparr>pp_topic = ''a'', pp_payload = [], pp_qos = AtMostOnce, pp_retain = False\<rparr> :: pending_publish"
  have "held (run_state (outbox_step (\<lambda>_. True)) (outbox_new 1, []) [OpWaiting ?msg, OpAttach]) =
      given (\<lambda>_. True) (outbox_new 1, []) [OpWaiting ?msg, OpAttach]"
    using waiting_loses_nothing [of 1 "[OpWaiting ?msg, OpAttach]" "\<lambda>_. True"] by simp
  then show ?thesis by (simp add: outbox_step_def publish_turn_def outbox_new_def)
qed

end
