(* ===== verification/Mqtt_Topics.thy ===== *)
theory Mqtt_Topics
  imports Juggler_Prelude
begin

text \<open>
  Client identifiers, topics and subscription filters (\<^verbatim>\<open>juggler/src/mqtt/mod.rs\<close>): validation and the
  matching of a topic against a filter.

  The byte scan that validates a filter is shown equivalent to the rule on its levels, and the matching
  loop to the matching relation of MQTT 3.1.1, chapter 4.7.  The client identifier that is derived
  from a device name is the longest prefix of whole characters that fits.
\<close>

section \<open>Model\<close>

definition connection_wait_iterations :: "u64 \<Rightarrow> u64" where
  "connection_wait_iterations timeout_ms = timeout_ms div 100 + (if timeout_ms mod 100 = 0 then 0 else 1)"

definition format_broker_url :: "string \<Rightarrow> u16 \<Rightarrow> string" where
  "format_broker_url host port = ''mqtt://'' @ host @ '':'' @ dec_digits (unat port)"

definition CLIENT_ID_MAX_LEN :: nat where
  "CLIENT_ID_MAX_LEN = 23"

definition TOPIC_MAX_LEN :: nat where
  "TOPIC_MAX_LEN = 65535"

definition validate_client_id :: "string \<Rightarrow> string + unit" where
  "validate_client_id cid =
     (if cid = [] then Inl ''MQTT client ID must not be empty''
      else if CLIENT_ID_MAX_LEN < length cid then Inl ''MQTT client ID exceeds the 23-byte MQTT 3.1.1 maximum''
      else Inr ())"

definition validate_topic :: "string \<Rightarrow> string + unit" where
  "validate_topic topic =
     (if topic = [] then Inl ''MQTT topic must not be empty''
      else if TOPIC_MAX_LEN < length topic then Inl ''MQTT topic exceeds the 65535-byte maximum''
      else if CHR 0x00 \<in> set topic then Inl ''MQTT topic must not contain the NUL character''
      else Inr ())"

definition validate_publish_topic :: "string \<Rightarrow> string + unit" where
  "validate_publish_topic topic = (case validate_topic topic of
       Inl e \<Rightarrow> Inl e
     | Inr _ \<Rightarrow>
         if CHR ''+'' \<in> set topic then Inl ''MQTT publish topic must not contain the '+' wildcard''
         else if CHR ''#'' \<in> set topic then Inl ''MQTT publish topic must not contain the '#' wildcard''
         else Inr ())"

text \<open>The check of the byte at position \<open>i\<close>.\<close>

definition filter_byte :: "string \<Rightarrow> nat \<Rightarrow> string option" where
  "filter_byte bytes i =
     (let b = bytes ! i;
          before_ok = (i = 0 \<or> bytes ! (i - 1) = CHR ''/'');
          after_ok = (i + 1 = length bytes \<or> bytes ! (i + 1) = CHR ''/'');
          is_last = (i + 1 = length bytes)
      in if b = CHR ''+'' then
           (if \<not> before_ok \<or> \<not> after_ok then Some ''MQTT subscribe filter '+' must occupy an entire level'' else None)
         else if b = CHR ''#'' then
           (if \<not> is_last \<or> \<not> before_ok
            then Some ''MQTT subscribe filter '#' must be the last character and follow '/' or be sole'' else None)
         else None)"

fun first_error :: "string option list \<Rightarrow> string + unit" where
  "first_error [] = Inr ()"
| "first_error (None # es) = first_error es"
| "first_error (Some e # es) = Inl e"

definition validate_subscribe_filter :: "string \<Rightarrow> string + unit" where
  "validate_subscribe_filter f = (case validate_topic f of
       Inl e \<Rightarrow> Inl e
     | Inr _ \<Rightarrow> first_error (map (filter_byte f) [0 ..< length f]))"

text \<open>\<^verbatim>\<open>str::split(c)\<close>.\<close>

fun split_at_char :: "char \<Rightarrow> string \<Rightarrow> string list" where
  "split_at_char c [] = [[]]"
| "split_at_char c (x # xs) =
     (if x = c then [] # split_at_char c xs
      else (case split_at_char c xs of [] \<Rightarrow> [[x]] | l # ls \<Rightarrow> (x # l) # ls))"

text \<open>The loop over the two level iterators.\<close>

fun match_levels :: "string list \<Rightarrow> string list \<Rightarrow> bool" where
  "match_levels [] [] = True"
| "match_levels (_ # _) [] = False"
| "match_levels [] (f # _) = (f = ''#'')"
| "match_levels (t # ts) (f # fs) =
     (if f = ''#'' then True
      else if f = ''+'' then match_levels ts fs
      else if t \<noteq> f then False
      else match_levels ts fs)"

definition topic_matches_filter :: "string \<Rightarrow> string \<Rightarrow> bool" where
  "topic_matches_filter topic f =
     (if prefix ''$'' topic \<and> (f = ''#'' \<or> prefix ''+'' f \<or> prefix ''/#'' f) then False
      else match_levels (split_at_char (CHR ''/'') topic) (split_at_char (CHR ''/'') f))"

text \<open>\<^verbatim>\<open>char::len_utf8\<close>, read off the first byte of a character in a UTF-8 string.\<close>

definition len_utf8 :: "char \<Rightarrow> nat" where
  "len_utf8 c = (let b = of_char c :: nat in if b < 128 then 1 else if b < 224 then 2 else if b < 240 then 3 else 4)"

text \<open>The loop over \<^verbatim>\<open>chars()\<close>: the byte length of the prefix of whole characters that fits.\<close>

function fitting_len :: "nat \<Rightarrow> string \<Rightarrow> nat" where
  "fitting_len byte_len [] = byte_len"
| "fitting_len byte_len (c # cs) =
     (let n = byte_len + len_utf8 c
      in if CLIENT_ID_MAX_LEN < n then byte_len else fitting_len n (drop (len_utf8 c - 1) cs))"
  by pat_completeness auto
termination by (relation "measure (\<lambda>(_, s). length s)") auto

definition resolve_client_id :: "string option \<Rightarrow> string \<Rightarrow> string \<Rightarrow> string + string" where
  "resolve_client_id operator_id device_name fallback =
     (case operator_id of
        Some cid \<Rightarrow>
          if cid \<noteq> [] then (case validate_client_id cid of Inl e \<Rightarrow> Inl e | Inr _ \<Rightarrow> Inr cid)
          else
            (let derived = take (fitting_len 0 device_name) device_name;
                 chosen = (if derived = [] then fallback else derived)
             in case validate_client_id chosen of Inl e \<Rightarrow> Inl e | Inr _ \<Rightarrow> Inr chosen)
      | None \<Rightarrow>
          (let derived = take (fitting_len 0 device_name) device_name;
               chosen = (if derived = [] then fallback else derived)
           in case validate_client_id chosen of Inl e \<Rightarrow> Inl e | Inr _ \<Rightarrow> Inr chosen))"

definition validate_broker_host :: "string \<Rightarrow> string + unit" where
  "validate_broker_host host = (if host = [] then Inl ''MQTT broker host must not be empty'' else Inr ())"

definition validate_broker_port :: "u16 \<Rightarrow> string + unit" where
  "validate_broker_port port = (if port = 0 then Inl ''MQTT broker port must not be 0'' else Inr ())"

section \<open>Levels\<close>

lemma split_nonempty [simp]: "split_at_char c s \<noteq> []"
  by (induction s) (auto split: list.splits)

lemma split_no_sep: "c \<notin> set s \<Longrightarrow> split_at_char c s = [s]"
  by (induction s) auto

lemma split_sep: "c \<notin> set p \<Longrightarrow> split_at_char c (p @ c # rest) = p # split_at_char c rest"
  by (induction p) auto

lemma split_levels_no_sep: "l \<in> set (split_at_char c s) \<Longrightarrow> c \<notin> set l"
proof (induction s arbitrary: l)
  case (Cons x xs)
  then show ?case by (cases "split_at_char c xs") (auto split: if_splits)
qed simp

text \<open>A string is its first level, alone or followed by the separator and the rest.\<close>

lemma first_level_cases:
  obtains (last) "c \<notin> set s" "split_at_char c s = [s]"
  | (more) p rest where "s = p @ c # rest" "c \<notin> set p" "split_at_char c s = p # split_at_char c rest"
proof (cases "c \<in> set s")
  case True
  then obtain p rest where "s = p @ c # rest" "c \<notin> set p" by (meson split_list_first)
  with split_sep more show ?thesis by metis
next
  case False
  with split_no_sep last show ?thesis by metis
qed

section \<open>Filters by levels\<close>

definition wildcard_free :: "string \<Rightarrow> bool" where
  "wildcard_free l \<longleftrightarrow> CHR ''+'' \<notin> set l \<and> CHR ''#'' \<notin> set l"

fun valid_levels :: "string list \<Rightarrow> bool" where
  "valid_levels [] = True"
| "valid_levels [l] = (l = ''+'' \<or> l = ''#'' \<or> wildcard_free l)"
| "valid_levels (l # ls) = ((l = ''+'' \<or> wildcard_free l) \<and> valid_levels ls)"

text \<open>The byte rule as a property of a position, and its shift over a prefix that ends a level.\<close>

lemma first_error_none: "first_error es = Inr () \<longleftrightarrow> (\<forall>e \<in> set es. e = None)"
  by (induction es rule: first_error.induct) auto

definition byte_ok :: "string \<Rightarrow> nat \<Rightarrow> bool" where
  "byte_ok s i \<longleftrightarrow>
     (s ! i = CHR ''+'' \<longrightarrow> (i = 0 \<or> s ! (i - 1) = CHR ''/'') \<and> (i + 1 = length s \<or> s ! (i + 1) = CHR ''/'')) \<and>
     (s ! i = CHR ''#'' \<longrightarrow> i + 1 = length s \<and> (i = 0 \<or> s ! (i - 1) = CHR ''/''))"

lemma filter_byte_none: "filter_byte s i = None \<longleftrightarrow> byte_ok s i"
  by (auto simp: filter_byte_def byte_ok_def Let_def)

lemma byte_ok_shift:
  assumes "i < length rest"
  shows "byte_ok (p @ CHR ''/'' # rest) (Suc (length p) + i) \<longleftrightarrow> byte_ok rest i"
proof -
  have "(p @ CHR ''/'' # rest) ! (Suc (length p) + i) = rest ! i"
    "Suc (length p) + i + 1 < length (p @ CHR ''/'' # rest) \<Longrightarrow> (p @ CHR ''/'' # rest) ! (Suc (length p) + i + 1) = rest ! (i + 1)"
    by (simp_all add: nth_append)
  moreover have "(p @ CHR ''/'' # rest) ! (Suc (length p) + i - 1) = (if i = 0 then CHR ''/'' else rest ! (i - 1))"
    by (cases i) (simp_all add: nth_append)
  ultimately show ?thesis using assms by (cases "i + 1 = length rest"; cases "i = 0") (simp_all add: byte_ok_def)
qed

lemma level_ok_last:
  assumes "CHR ''/'' \<notin> set s"
  shows "(\<forall>i < length s. byte_ok s i) \<longleftrightarrow> s = ''+'' \<or> s = ''#'' \<or> wildcard_free s"
proof
  assume ok: "\<forall>i < length s. byte_ok s i"
  show "s = ''+'' \<or> s = ''#'' \<or> wildcard_free s"
  proof (cases "wildcard_free s")
    case False
    then obtain i where i: "i < length s" "s ! i = CHR ''+'' \<or> s ! i = CHR ''#''"
      by (auto simp: wildcard_free_def in_set_conv_nth)
    have no: "\<And>j. j < length s \<Longrightarrow> s ! j \<noteq> CHR ''/''" using assms nth_mem by fastforce
    from ok i(1) have "byte_ok s i" by blast
    moreover have "s ! (i - 1) \<noteq> CHR ''/''" "i + 1 = length s \<or> s ! (i + 1) \<noteq> CHR ''/''"
      using i(1) no [of "i - 1"] no [of "i + 1"] by auto
    ultimately have "i = 0" "length s = 1" using i by (auto simp: byte_ok_def)
    with i(2) show ?thesis by (cases s) auto
  qed simp
next
  assume "s = ''+'' \<or> s = ''#'' \<or> wildcard_free s"
  then show "\<forall>i < length s. byte_ok s i"
    by (auto simp: byte_ok_def wildcard_free_def) (metis nth_mem)+
qed

lemma level_ok_first:
  assumes "CHR ''/'' \<notin> set p"
  shows "(\<forall>i < length p. byte_ok (p @ CHR ''/'' # rest) i) \<longleftrightarrow> p = ''+'' \<or> wildcard_free p"
proof
  assume ok: "\<forall>i < length p. byte_ok (p @ CHR ''/'' # rest) i"
  show "p = ''+'' \<or> wildcard_free p"
  proof (cases "wildcard_free p")
    case False
    then obtain i where i: "i < length p" "p ! i = CHR ''+'' \<or> p ! i = CHR ''#''"
      by (auto simp: wildcard_free_def in_set_conv_nth)
    have no: "\<And>j. j < length p \<Longrightarrow> p ! j \<noteq> CHR ''/''" using assms nth_mem by fastforce
    from ok i(1) have b: "byte_ok (p @ CHR ''/'' # rest) i" by blast
    moreover have before: "(p @ CHR ''/'' # rest) ! (i - 1) \<noteq> CHR ''/''" "(p @ CHR ''/'' # rest) ! i = p ! i"
      using i(1) no [of "i - 1"] by (simp_all add: nth_append)
    moreover have inside: "i + 1 \<noteq> length (p @ CHR ''/'' # rest)" using i(1) by simp
    ultimately have plus: "i = 0 \<and> p ! i = CHR ''+'' \<and> (p @ CHR ''/'' # rest) ! (i + 1) = CHR ''/''"
      using i(2) unfolding byte_ok_def by metis
    moreover from this no [of "i + 1"] have "\<not> i + 1 < length p" by (metis nth_append)
    ultimately have "p ! 0 = CHR ''+''" "\<not> 1 < length p" "0 < length p" using i(1) by auto
    then have "p ! 0 = CHR ''+''" "length p = 1" by linarith+
    then show ?thesis by (cases p) auto
  qed simp
next
  assume "p = ''+'' \<or> wildcard_free p"
  then show "\<forall>i < length p. byte_ok (p @ CHR ''/'' # rest) i"
  proof (intro allI impI)
    fix i assume i: "i < length p" and p: "p = ''+'' \<or> wildcard_free p"
    show "byte_ok (p @ CHR ''/'' # rest) i"
    proof (cases "wildcard_free p")
      case True
      with i have "(p @ CHR ''/'' # rest) ! i \<noteq> CHR ''+''" "(p @ CHR ''/'' # rest) ! i \<noteq> CHR ''#''"
        unfolding wildcard_free_def by (metis nth_append nth_mem)+
      then show ?thesis unfolding byte_ok_def by blast
    next
      case False
      with p i have "p = ''+''" "i = 0" by auto
      then show ?thesis by (simp add: byte_ok_def)
    qed
  qed
qed

lemma bytes_ok_levels: "(\<forall>i < length s. byte_ok s i) \<longleftrightarrow> valid_levels (split_at_char (CHR ''/'') s)"
proof (induction "length s" arbitrary: s rule: less_induct)
  case less
  show ?case
  proof (cases rule: first_level_cases [of "CHR ''/''" s])
    case last
    then show ?thesis using level_ok_last by simp
  next
    case (more p rest)
    have sep: "byte_ok s (length p)" using more(1) by (simp add: byte_ok_def)
    have "(\<forall>i < length s. byte_ok s i) \<longleftrightarrow>
        (\<forall>i < length p. byte_ok s i) \<and> byte_ok s (length p) \<and> (\<forall>i < length rest. byte_ok s (Suc (length p) + i))"
    proof (intro iffI conjI allI impI)
      fix i assume h: "(\<forall>i < length p. byte_ok s i) \<and> byte_ok s (length p) \<and> (\<forall>i < length rest. byte_ok s (Suc (length p) + i))"
        and i: "i < length s"
      consider "i < length p" | "i = length p" | j where "i = Suc (length p) + j" "j < length rest"
        using i more(1) by (metis Suc_leI add_less_cancel_left le_Suc_ex length_Cons length_append linorder_neqE_nat add_Suc_shift)
      with h show "byte_ok s i" by cases auto
    qed (use more(1) in auto)
    also have "\<dots> \<longleftrightarrow> (p = ''+'' \<or> wildcard_free p) \<and> valid_levels (split_at_char (CHR ''/'') rest)"
      using level_ok_first [OF more(2), of rest] byte_ok_shift [of _ rest p] less.hyps [of rest] sep more(1) by auto
    also have "\<dots> \<longleftrightarrow> valid_levels (split_at_char (CHR ''/'') s)"
      unfolding more(3) by (cases "split_at_char (CHR ''/'') rest") auto
    finally show ?thesis .
  qed
qed

section \<open>Matching by the standard\<close>

text \<open>The matching relation of the standard on levels.\<close>

inductive levels_match :: "string list \<Rightarrow> string list \<Rightarrow> bool" where
  both_end: "levels_match [] []"
| hash: "levels_match ts [''#'']"
| plus: "levels_match ts fs \<Longrightarrow> levels_match (t # ts) (''+'' # fs)"
| same: "levels_match ts fs \<Longrightarrow> wildcard_free l \<Longrightarrow> levels_match (l # ts) (l # fs)"

inductive_simps levels_match_simps:
  "levels_match [] []" "levels_match [] (f # fs)" "levels_match (t # ts) []" "levels_match (t # ts) (f # fs)"

lemma match_levels_iff: "valid_levels fs \<Longrightarrow> match_levels ts fs \<longleftrightarrow> levels_match ts fs"
proof (induction ts fs rule: match_levels.induct)
  case (4 t ts f fs)
  then show ?case
    by (cases fs) (auto simp: levels_match_simps wildcard_free_def)
next
  case (3 f fs)
  then show ?case by (cases fs) (auto simp: levels_match_simps wildcard_free_def)
qed (auto simp: levels_match_simps)

section \<open>Whole characters\<close>

text \<open>The characters of a UTF-8 string, each as its bytes.\<close>

definition utf8_chars :: "string list \<Rightarrow> bool" where
  "utf8_chars cs \<longleftrightarrow> (\<forall>c \<in> set cs. c \<noteq> [] \<and> length c = len_utf8 (hd c))"

lemma fitting_len_chars:
  "utf8_chars cs \<Longrightarrow> n \<le> CLIENT_ID_MAX_LEN \<Longrightarrow> \<exists>k \<le> length cs. fitting_len n (concat cs) = n + length (concat (take k cs)) \<and>
     n + length (concat (take k cs)) \<le> CLIENT_ID_MAX_LEN \<and>
     (k < length cs \<longrightarrow> CLIENT_ID_MAX_LEN < n + length (concat (take (Suc k) cs)))"
proof (induction cs arbitrary: n)
  case (Cons c cs)
  then obtain b bs where c: "c = b # bs" "length c = len_utf8 b" by (cases c) (auto simp: utf8_chars_def)
  have cs: "utf8_chars cs" using Cons.prems(1) by (simp add: utf8_chars_def)
  have drop: "drop (len_utf8 b - 1) (bs @ concat cs) = concat cs" using c by simp
  show ?case
  proof (cases "CLIENT_ID_MAX_LEN < n + len_utf8 b")
    case True
    with c Cons.prems(2) show ?thesis by (intro exI [of _ 0]) (auto simp: Let_def)
  next
    case False
    then obtain k where "k \<le> length cs" "fitting_len (n + len_utf8 b) (concat cs) = n + len_utf8 b + length (concat (take k cs))"
      "n + len_utf8 b + length (concat (take k cs)) \<le> CLIENT_ID_MAX_LEN"
      "k < length cs \<longrightarrow> CLIENT_ID_MAX_LEN < n + len_utf8 b + length (concat (take (Suc k) cs))"
      using Cons.IH [OF cs, of "n + len_utf8 b"] by auto
    with False c drop show ?thesis by (intro exI [of _ "Suc k"]) (auto simp: Let_def)
  qed
qed simp

section \<open>Properties\<close>

text \<open>
  A filter is accepted exactly when its levels are well formed.  The byte scan accepts a filter if
  and only if it is a valid topic string in which every level is a single plus or free of wildcards,
  and only the last one may be a single hash.
\<close>

theorem subscribe_filter_valid_iff:
  "validate_subscribe_filter f = Inr () \<longleftrightarrow> validate_topic f = Inr () \<and> valid_levels (split_at_char (CHR ''/'') f)"
proof -
  have "first_error (map (filter_byte f) [0 ..< length f]) = Inr () \<longleftrightarrow> (\<forall>i < length f. byte_ok f i)"
    by (auto simp: first_error_none filter_byte_none)
  then show ?thesis by (auto simp: validate_subscribe_filter_def bytes_ok_levels split: sum.splits)
qed

text \<open>
  C39: Matching follows the standard.  For every filter that validation accepts, the matching loop
  answers true exactly when the levels match by the rules of the standard and a topic that begins with
  a dollar sign does not meet a filter that begins with a wildcard.
\<close>

theorem topic_matching_standard:
  assumes "validate_subscribe_filter f = Inr ()"
  shows "topic_matches_filter topic f \<longleftrightarrow>
    levels_match (split_at_char (CHR ''/'') topic) (split_at_char (CHR ''/'') f) \<and>
    \<not> (prefix ''$'' topic \<and> hd (split_at_char (CHR ''/'') f) \<in> {''+'', ''#''})"
proof -
  let ?fs = "split_at_char (CHR ''/'') f" and ?ts = "split_at_char (CHR ''/'') topic"
  have v: "valid_levels ?fs" using assms subscribe_filter_valid_iff by simp
  have m: "match_levels ?ts ?fs = levels_match ?ts ?fs" using match_levels_iff [OF v] .
  have dollar: "\<exists>l ls. ?ts = (CHR ''$'' # l) # ls" if "prefix ''$'' topic"
    using that by (cases topic) (auto split: list.splits)
  show ?thesis
  proof (cases rule: first_level_cases [of "CHR ''/''" f])
    case last
    have "\<not> prefix ''/#'' f" using last(1) by (auto simp: prefix_def)
    moreover have "prefix ''+'' f \<longleftrightarrow> f = ''+''" using v last by (auto simp: prefix_def wildcard_free_def)
    ultimately show ?thesis using m last(2) by (auto simp: topic_matches_filter_def)
  next
    case (more p rest)
    have p: "p = ''+'' \<or> wildcard_free p" using v more(3) by (cases "split_at_char (CHR ''/'') rest") auto
    then have plus: "prefix ''+'' f \<longleftrightarrow> p = ''+''" using more(1) by (cases p) (auto simp: wildcard_free_def)
    have "CHR ''/'' \<in> set f" using more(1) by simp
    then have "f \<noteq> ''#''" by auto
    moreover have "p \<noteq> ''#''" using p by (auto simp: wildcard_free_def)
    moreover have "\<not> levels_match ?ts ?fs" if d: "prefix ''$'' topic" and h: "prefix ''/#'' f"
    proof -
      have "p = []" using h more(1,2) by (cases p) auto
      with more(3) dollar [OF d] show ?thesis by (auto simp: levels_match_simps)
    qed
    ultimately show ?thesis using m plus more(3) by (auto simp: topic_matches_filter_def)
  qed
qed

theorem topic_matching_standard_witness:
  "topic_matches_filter ''a/b/c'' ''a/+/#'' \<longleftrightarrow> levels_match [''a'', ''b'', ''c''] [''a'', ''+'', ''#'']"
proof -
  have "validate_subscribe_filter ''a/+/#'' = Inr ()" by code_simp
  from topic_matching_standard [OF this, of "''a/b/c''"] show ?thesis by simp
qed

text \<open>
  A derived client identifier is the longest whole prefix that fits.  For a device name made of
  whole characters the identifier that is derived without an operator's choice is a prefix of whole
  characters of at most 23 bytes to which the next character would not fit, or the fallback for an
  empty name; and every identifier that is returned passes validation.
\<close>

theorem client_id_resolved:
  assumes "utf8_chars cs"
  shows "\<exists>k \<le> length cs. length (concat (take k cs)) \<le> CLIENT_ID_MAX_LEN \<and>
    (if k < length cs then CLIENT_ID_MAX_LEN < length (concat (take (Suc k) cs)) else True) \<and>
    (case resolve_client_id operator_id (concat cs) fallback of
       Inl _ \<Rightarrow> True
     | Inr cid \<Rightarrow> validate_client_id cid = Inr () \<and>
         cid = (if operator_id \<notin> {None, Some []} then the operator_id
                else if concat (take k cs) = [] then fallback else concat (take k cs)))"
proof -
  obtain k where k: "k \<le> length cs" "fitting_len 0 (concat cs) = length (concat (take k cs))"
    "length (concat (take k cs)) \<le> CLIENT_ID_MAX_LEN" "k < length cs \<longrightarrow> CLIENT_ID_MAX_LEN < length (concat (take (Suc k) cs))"
    using fitting_len_chars [OF assms, of 0] by auto
  have split: "concat cs = concat (take k cs) @ concat (drop k cs)" by (metis append_take_drop_id concat_append)
  have t: "take (fitting_len 0 (concat cs)) (concat cs) = concat (take k cs)" unfolding k(2)
    by (rule trans [OF arg_cong [OF split, of "take (length (concat (take k cs)))"]]) simp
  have "case resolve_client_id operator_id (concat cs) fallback of
       Inl _ \<Rightarrow> True
     | Inr cid \<Rightarrow> validate_client_id cid = Inr () \<and>
         cid = (if operator_id \<notin> {None, Some []} then the operator_id
                else if concat (take k cs) = [] then fallback else concat (take k cs))"
    by (simp add: resolve_client_id_def t Let_def split: option.split sum.split del: concat_eq_Nil_conv)
  with k show ?thesis by (intro exI [of _ k]) simp
qed

theorem client_id_resolved_witness:
  "resolve_client_id None ''device-with-a-rather-long-name'' ''x'' = Inr ''device-with-a-rather-lo'' \<and>
   validate_client_id ''device-with-a-rather-lo'' = Inr ()"
proof -
  let ?cs = "map (\<lambda>c. [c]) ''device-with-a-rather-long-name''"
  have u: "utf8_chars ?cs" by (simp add: utf8_chars_def len_utf8_def)
  have cs: "concat ?cs = ''device-with-a-rather-long-name''" by simp
  have r: "resolve_client_id None ''device-with-a-rather-long-name'' ''x'' = Inr ''device-with-a-rather-lo''" by code_simp
  from client_id_resolved [OF u, of None "''x''"] have "validate_client_id ''device-with-a-rather-lo'' = Inr ()"
    unfolding cs r sum.case by blast
  with r show ?thesis by simp
qed

end
