(* ===== verification/Mqtt_Acks.thy ===== *)
theory Mqtt_Acks
  imports Mqtt_Session "HOL-Library.AList"
begin

text \<open>
  Acknowledged publishes and connection callbacks (\<^verbatim>\<open>juggler/src/mqtt/mod.rs\<close>): the registry that
  correlates message ids with their PUBACK, the connection state table, the lock-free session phase and
  the packed connection epoch.

  The rendezvous slots that publisher and event loop share are addresses into a list; the two hash maps
  are association lists with one entry per key.  A method of the registry is one step.  The lemmas give
  the outcome of a waiter as a function of what happened since its registration, and show what becomes of
  an acknowledgement that arrives after its waiter timed out.
\<close>

section \<open>State table, phase and epoch\<close>

datatype mqtt_event = MeConnected | MeDisconnected | MeShutdownRequested

definition next_state :: "mqtt_connection_state \<Rightarrow> mqtt_event \<Rightarrow> mqtt_connection_state option" where
  "next_state current event = (case (current, event) of
       (McConnecting, MeConnected) \<Rightarrow> Some McConnected
     | (McConnecting, MeDisconnected) \<Rightarrow> None
     | (McConnecting, MeShutdownRequested) \<Rightarrow> Some McShuttingDown
     | (McConnected, MeDisconnected) \<Rightarrow> Some McDisconnected
     | (McConnected, MeConnected) \<Rightarrow> None
     | (McConnected, MeShutdownRequested) \<Rightarrow> Some McShuttingDown
     | (McDisconnected, MeConnected) \<Rightarrow> Some McConnected
     | (McDisconnected, MeDisconnected) \<Rightarrow> None
     | (McDisconnected, MeShutdownRequested) \<Rightarrow> Some McShuttingDown
     | (McShuttingDown, _) \<Rightarrow> None)"

definition ATTEMPTING :: u8 where "ATTEMPTING = 0"
definition LOST :: u8 where "LOST = 1"

definition phase_state :: "u8 \<Rightarrow> bool \<Rightarrow> mqtt_connection_state" where
  "phase_state phase ready =
     (if ready then McConnected else if phase = LOST then McDisconnected else McConnecting)"

text \<open>The epoch word packs the generation above the connected bit.\<close>

definition epoch_new :: u32 where "epoch_new = 0"

definition epoch_advance :: "u32 \<Rightarrow> u32 \<times> u32" where
  "epoch_advance current = (let next = push_bit 1 (drop_bit 1 current + 1) in (next, next))"

definition epoch_confirm :: "u32 \<Rightarrow> u32 \<Rightarrow> bool \<times> u32" where
  "epoch_confirm token current = (if current = token then (True, or token 1) else (False, current))"

definition epoch_is_connected :: "u32 \<Rightarrow> bool" where
  "epoch_is_connected current \<longleftrightarrow> and current 1 = 1"

definition epoch_is_current :: "u32 \<Rightarrow> u32 \<Rightarrow> bool" where
  "epoch_is_current token current \<longleftrightarrow> current = token"

section \<open>Pending acknowledgements\<close>

type_synonym message_id = u32

datatype ack_outcome = AckAcked | AckDisconnected

record pending_acks =
  pa_waiters :: "(message_id \<times> nat) list"
  pa_early :: "(message_id \<times> ack_outcome) list"
  pa_slots :: "ack_outcome option list"

definition acks_new :: pending_acks where
  "acks_new = \<lparr>pa_waiters = [], pa_early = [], pa_slots = []\<rparr>"

definition ack_fill :: "nat \<Rightarrow> ack_outcome \<Rightarrow> pending_acks \<Rightarrow> pending_acks" where
  "ack_fill slot outcome s = s\<lparr>pa_slots := (pa_slots s)[slot := Some outcome]\<rparr>"

definition ack_register :: "message_id \<Rightarrow> pending_acks \<Rightarrow> nat \<times> pending_acks" where
  "ack_register mid s = (case map_of (pa_early s) mid of
       Some outcome \<Rightarrow> (length (pa_slots s),
         s\<lparr>pa_early := AList.delete mid (pa_early s), pa_slots := pa_slots s @ [Some outcome]\<rparr>)
     | None \<Rightarrow> (length (pa_slots s),
         s\<lparr>pa_waiters := AList.update mid (length (pa_slots s)) (pa_waiters s), pa_slots := pa_slots s @ [None]\<rparr>))"

definition ack_resolve :: "message_id \<Rightarrow> ack_outcome \<Rightarrow> pending_acks \<Rightarrow> pending_acks" where
  "ack_resolve mid outcome s = (case map_of (pa_waiters s) mid of
       Some slot \<Rightarrow> ack_fill slot outcome (s\<lparr>pa_waiters := AList.delete mid (pa_waiters s)\<rparr>)
     | None \<Rightarrow> s\<lparr>pa_early := AList.update mid outcome (pa_early s)\<rparr>)"

definition ack_fail_all :: "ack_outcome \<Rightarrow> pending_acks \<Rightarrow> pending_acks" where
  "ack_fail_all outcome s =
     fold (\<lambda>(_, slot). ack_fill slot outcome) (pa_waiters s) (s\<lparr>pa_early := [], pa_waiters := []\<rparr>)"

definition ack_cancel :: "message_id \<Rightarrow> pending_acks \<Rightarrow> pending_acks" where
  "ack_cancel mid s = s\<lparr>pa_waiters := AList.delete mid (pa_waiters s), pa_early := AList.delete mid (pa_early s)\<rparr>"

text \<open>The end of a wait, by an outcome in the slot or by the deadline.\<close>

definition ack_wait_end :: "message_id \<Rightarrow> nat \<Rightarrow> pending_acks \<Rightarrow> ack_outcome option \<times> pending_acks" where
  "ack_wait_end mid slot s = (pa_slots s ! slot, ack_cancel mid s)"

section \<open>Lemmas\<close>

definition acks_ok :: "pending_acks \<Rightarrow> bool" where
  "acks_ok s \<longleftrightarrow> distinct (map fst (pa_waiters s)) \<and> distinct (map snd (pa_waiters s)) \<and>
     (\<forall>slot \<in> set (map snd (pa_waiters s)). slot < length (pa_slots s))"

datatype ack_op = AoRegister message_id | AoResolve message_id ack_outcome | AoFailAll ack_outcome | AoEnd message_id nat

definition ack_step :: "pending_acks \<Rightarrow> ack_op \<Rightarrow> unit \<times> pending_acks" where
  "ack_step s op = ((), case op of
       AoRegister mid \<Rightarrow> snd (ack_register mid s)
     | AoResolve mid outcome \<Rightarrow> ack_resolve mid outcome s
     | AoFailAll outcome \<Rightarrow> ack_fail_all outcome s
     | AoEnd mid slot \<Rightarrow> snd (ack_wait_end mid slot s))"

lemma fill_all_frame:
  "length (pa_slots (fold (\<lambda>(_, slot). ack_fill slot outcome) ws s)) = length (pa_slots s) \<and>
   pa_waiters (fold (\<lambda>(_, slot). ack_fill slot outcome) ws s) = pa_waiters s \<and>
   pa_early (fold (\<lambda>(_, slot). ack_fill slot outcome) ws s) = pa_early s"
proof (induction ws arbitrary: s)
  case (Cons w ws)
  then show ?case by (cases w) (simp add: ack_fill_def)
qed simp

lemma fill_all_slots:
  "k < length (pa_slots s) \<Longrightarrow> pa_slots (fold (\<lambda>(_, slot). ack_fill slot outcome) ws s) ! k =
     (if k \<in> snd ` set ws then Some outcome else pa_slots s ! k)"
proof (induction ws arbitrary: s)
  case (Cons w ws)
  then show ?case by (cases w) (simp add: ack_fill_def nth_list_update)
qed simp

lemmas fill_all = fill_all_frame fill_all_slots

lemma delete_snd_subset: "snd ` set (AList.delete mid ws) \<subseteq> snd ` set ws"
  by (auto simp: AList.delete_eq)

lemma delete_distinct_snd: "distinct (map snd ws) \<Longrightarrow> distinct (map snd (AList.delete mid ws))"
  by (simp add: AList.delete_eq distinct_map_filter)

lemma update_snd: "snd ` set (AList.update mid k ws) \<subseteq> insert k (snd ` set ws)"
  by (induction ws) auto

lemma update_distinct_snd:
  "distinct (map snd ws) \<Longrightarrow> k \<notin> snd ` set ws \<Longrightarrow> distinct (map snd (AList.update mid k ws))"
proof (induction ws)
  case (Cons w ws)
  then show ?case using update_snd [of mid k ws] by (cases w) (auto simp: image_iff)
qed simp

lemma acks_ok_slots:
  assumes "acks_ok s"
  shows "length (pa_slots s) \<notin> snd ` set (pa_waiters s)"
    and "(m, k) \<in> set (AList.delete mid (pa_waiters s)) \<Longrightarrow> k < length (pa_slots s)"
  using assms delete_snd_subset [of mid "pa_waiters s"] unfolding acks_ok_def set_map by (blast, force)

lemma acks_ok_step: "acks_ok s \<Longrightarrow> acks_ok (snd (ack_step s op))"
proof (cases op)
  case (AoRegister mid)
  assume ok: "acks_ok s"
  show ?thesis
  proof (cases "map_of (pa_early s) mid")
    case None
    have new: "length (pa_slots s) \<notin> snd ` set (pa_waiters s)" using ok by (rule acks_ok_slots)
    with ok None AoRegister update_distinct_snd [of "pa_waiters s" "length (pa_slots s)" mid]
      update_snd [of mid "length (pa_slots s)" "pa_waiters s"]
    show ?thesis by (fastforce simp: acks_ok_def ack_step_def ack_register_def distinct_update)
  next
    case (Some outcome)
    with ok AoRegister show ?thesis by (auto simp: acks_ok_def ack_step_def ack_register_def)
  qed
next
  case (AoResolve mid outcome)
  assume "acks_ok s"
  with AoResolve acks_ok_slots(2) [of s _ _ mid] show ?thesis
    by (auto simp: acks_ok_def ack_step_def ack_resolve_def ack_fill_def delete_distinct_snd AList.distinct_delete split: option.splits)
next
  case (AoFailAll outcome)
  then show ?thesis
    by (simp add: acks_ok_def ack_step_def ack_fail_all_def fill_all)
next
  case (AoEnd mid slot)
  assume "acks_ok s"
  with AoEnd acks_ok_slots(2) [of s _ _ mid] show ?thesis
    by (auto simp: acks_ok_def ack_step_def ack_wait_end_def ack_cancel_def delete_distinct_snd AList.distinct_delete)
qed

lemma acks_ok_new: "acks_ok acks_new"
  by (simp add: acks_ok_def acks_new_def)

interpretation acks: polled_machine ack_step "\<lambda>s. s = acks_new" acks_ok
  by unfold_locales (auto simp: acks_ok_new acks_ok_step)

text \<open>The first thing that happens to a waiter, from the operations alone.\<close>

fun first_outcome :: "message_id \<Rightarrow> ack_op list \<Rightarrow> ack_outcome option" where
  "first_outcome mid [] = None"
| "first_outcome mid (AoResolve m outcome # ops) = (if m = mid then Some outcome else first_outcome mid ops)"
| "first_outcome mid (AoFailAll outcome # ops) = Some outcome"
| "first_outcome mid (_ # ops) = first_outcome mid ops"

text \<open>Operations of other messages: none registers or ends this id.\<close>

fun other_id :: "message_id \<Rightarrow> ack_op \<Rightarrow> bool" where
  "other_id mid (AoRegister m) = (m \<noteq> mid)"
| "other_id mid (AoEnd m slot) = (m \<noteq> mid)"
| "other_id mid _ = True"

lemma settled_slot_stays:
  assumes "acks_ok s" "slot \<notin> snd ` set (pa_waiters s)" "slot < length (pa_slots s)"
  shows "slot \<notin> snd ` set (pa_waiters (snd (ack_step s op))) \<and> slot < length (pa_slots (snd (ack_step s op))) \<and>
    pa_slots (snd (ack_step s op)) ! slot = pa_slots s ! slot"
proof (cases op)
  case (AoRegister m)
  with assms update_snd [of m "length (pa_slots s)" "pa_waiters s"] show ?thesis
    by (auto simp: ack_step_def ack_register_def nth_append split: option.splits)
next
  case (AoResolve m outcome)
  have "map_of (pa_waiters s) m = Some k \<Longrightarrow> k \<noteq> slot" for k
    using assms(2) map_of_SomeD by force
  with AoResolve assms delete_snd_subset [of m "pa_waiters s"] show ?thesis
    by (auto simp: ack_step_def ack_resolve_def ack_fill_def split: option.splits)
next
  case (AoFailAll outcome)
  with assms show ?thesis by (simp add: ack_step_def ack_fail_all_def fill_all)
next
  case (AoEnd m k)
  with assms delete_snd_subset [of m "pa_waiters s"] show ?thesis
    by (auto simp: ack_step_def ack_wait_end_def ack_cancel_def)
qed

lemma open_slot_step:
  assumes "acks_ok s" "map_of (pa_waiters s) mid = Some slot" "pa_slots s ! slot = None" "other_id mid op"
  shows "case first_outcome mid [op] of
      Some outcome \<Rightarrow> slot \<notin> snd ` set (pa_waiters (snd (ack_step s op))) \<and> slot < length (pa_slots (snd (ack_step s op))) \<and>
        pa_slots (snd (ack_step s op)) ! slot = Some outcome
    | None \<Rightarrow> map_of (pa_waiters (snd (ack_step s op))) mid = Some slot \<and> pa_slots (snd (ack_step s op)) ! slot = None"
proof -
  have mem: "(mid, slot) \<in> set (pa_waiters s)" using assms(2) by (rule map_of_SomeD)
  then have len: "slot < length (pa_slots s)" using assms(1) by (auto simp: acks_ok_def)
  have uniq: "(m, slot) \<in> set (pa_waiters s) \<Longrightarrow> m = mid" for m
    using mem assms(1) unfolding acks_ok_def by (metis distinct_map inj_onD prod.inject snd_conv)
  show ?thesis
  proof (cases op)
    case (AoRegister m)
    with assms len show ?thesis
      by (auto simp: ack_step_def ack_register_def nth_append update_conv split: option.splits)
  next
    case (AoResolve m outcome)
    show ?thesis
    proof (cases "m = mid")
      case True
      have "slot \<notin> snd ` set (AList.delete mid (pa_waiters s))"
        using uniq by (auto simp: AList.delete_eq)
      with True AoResolve assms(2) len show ?thesis by (simp add: ack_step_def ack_resolve_def ack_fill_def)
    next
      case False
      have "map_of (pa_waiters s) m = Some k \<Longrightarrow> k \<noteq> slot" for k using uniq False map_of_SomeD by fast
      with False AoResolve assms(2,3) show ?thesis
        by (auto simp: ack_step_def ack_resolve_def ack_fill_def delete_conv split: option.splits)
    qed
  next
    case (AoFailAll outcome)
    have "slot \<in> snd ` set (pa_waiters s)" using mem by force
    with AoFailAll len show ?thesis by (simp add: ack_step_def ack_fail_all_def fill_all)
  next
    case (AoEnd m k)
    with assms show ?thesis by (auto simp: ack_step_def ack_wait_end_def ack_cancel_def delete_conv)
  qed
qed

lemma settled_slot_run:
  assumes "acks_ok s" "slot \<notin> snd ` set (pa_waiters s)" "slot < length (pa_slots s)"
  shows "pa_slots (run_state ack_step s ops) ! slot = pa_slots s ! slot"
  using assms
proof (induction ops arbitrary: s)
  case (Cons op ops)
  from settled_slot_stays [OF Cons.prems, of op] have
    st: "slot \<notin> snd ` set (pa_waiters (snd (ack_step s op)))" "slot < length (pa_slots (snd (ack_step s op)))"
      "pa_slots (snd (ack_step s op)) ! slot = pa_slots s ! slot" by auto
  from Cons.IH [OF acks_ok_step [OF Cons.prems(1)] st(1,2)] st(3) show ?case by simp
qed simp

lemma open_slot_run:
  assumes "acks_ok s" "map_of (pa_waiters s) mid = Some slot" "pa_slots s ! slot = None" "list_all (other_id mid) ops"
  shows "pa_slots (run_state ack_step s ops) ! slot = first_outcome mid ops"
  using assms
proof (induction ops arbitrary: s)
  case (Cons op ops)
  have ok: "acks_ok (snd (ack_step s op))" using Cons.prems(1) by (rule acks_ok_step)
  have fo: "first_outcome mid (op # ops) = (case first_outcome mid [op] of Some oc \<Rightarrow> Some oc | None \<Rightarrow> first_outcome mid ops)"
    by (cases op) auto
  have st: "case first_outcome mid [op] of
      Some outcome \<Rightarrow> slot \<notin> snd ` set (pa_waiters (snd (ack_step s op))) \<and> slot < length (pa_slots (snd (ack_step s op))) \<and>
        pa_slots (snd (ack_step s op)) ! slot = Some outcome
    | None \<Rightarrow> map_of (pa_waiters (snd (ack_step s op))) mid = Some slot \<and> pa_slots (snd (ack_step s op)) ! slot = None"
    using Cons.prems by (intro open_slot_step) auto
  show ?case
  proof (cases "first_outcome mid [op]")
    case None
    with st have n: "map_of (pa_waiters (snd (ack_step s op))) mid = Some slot" "pa_slots (snd (ack_step s op)) ! slot = None" by auto
    from Cons.IH [OF ok n] Cons.prems(4) fo None show ?thesis by simp
  next
    case (Some outcome)
    with st have n: "slot \<notin> snd ` set (pa_waiters (snd (ack_step s op)))" "slot < length (pa_slots (snd (ack_step s op)))"
      "pa_slots (snd (ack_step s op)) ! slot = Some outcome" by auto
    from settled_slot_run [OF ok n(1,2), of ops] n(3) fo Some show ?thesis by simp
  qed
qed simp

section \<open>Properties\<close>

text \<open>
  A waiter gets its own outcome.  For a publish registered at any point, with no second use of its
  id until it ends, the wait returns the outcome that had already arrived for the id, or else the first
  of: the outcome resolved for this id, the failure of the session; and nothing while neither happened,
  whatever other publishes do meanwhile.  Its end leaves no entry of the id behind.
\<close>

theorem ack_waiter_outcome:
  assumes "ack_register mid (run_state ack_step acks_new before) = (slot, s1)" and "list_all (other_id mid) ops"
    and "ack_wait_end mid slot (run_state ack_step s1 ops) = (outcome, s2)"
  shows "outcome = (case map_of (pa_early (run_state ack_step acks_new before)) mid of
      Some early \<Rightarrow> Some early | None \<Rightarrow> first_outcome mid ops) \<and>
    map_of (pa_waiters s2) mid = None \<and> map_of (pa_early s2) mid = None"
proof -
  let ?s = "run_state ack_step acks_new before"
  have ok: "acks_ok ?s" by (rule acks.inv_run) simp
  have s1: "s1 = snd (ack_step ?s (AoRegister mid))" using assms(1) by (simp add: ack_step_def)
  with ok have ok1: "acks_ok s1" by (simp add: acks_ok_step)
  have "pa_slots (run_state ack_step s1 ops) ! slot =
      (case map_of (pa_early ?s) mid of Some early \<Rightarrow> Some early | None \<Rightarrow> first_outcome mid ops)"
  proof (cases "map_of (pa_early ?s) mid")
    case None
    with assms(1) have "map_of (pa_waiters s1) mid = Some slot" "pa_slots s1 ! slot = None"
      by (auto simp: ack_register_def update_conv)
    from open_slot_run [OF ok1 this assms(2)] None show ?thesis by simp
  next
    case (Some early)
    with assms(1) ok have "slot \<notin> snd ` set (pa_waiters s1)" "slot < length (pa_slots s1)" "pa_slots s1 ! slot = Some early"
      using acks_ok_slots(1) [OF ok] by (auto simp: ack_register_def)
    from settled_slot_run [OF ok1 this(1,2), of ops] this(3) Some show ?thesis by simp
  qed
  with assms(3) show ?thesis by (auto simp: ack_wait_end_def ack_cancel_def delete_conv)
qed

theorem ack_waiter_outcome_witness:
  "fst (ack_wait_end 7 1 (run_state ack_step (snd (ack_register 7 (run_state ack_step acks_new [AoRegister 5])))
     [AoResolve 5 AckAcked, AoResolve 7 AckAcked, AoFailAll AckDisconnected])) = Some AckAcked"
proof -
  let ?s1 = "snd (ack_register 7 (run_state ack_step acks_new [AoRegister 5]))"
  let ?s2 = "run_state ack_step ?s1 [AoResolve 5 AckAcked, AoResolve 7 AckAcked, AoFailAll AckDisconnected]"
  have "ack_register 7 (run_state ack_step acks_new [AoRegister 5]) = (1, ?s1)" by code_simp
  from ack_waiter_outcome [OF this, of "[AoResolve 5 AckAcked, AoResolve 7 AckAcked, AoFailAll AckDisconnected]", OF _ surjective_pairing]
  show ?thesis by (simp add: ack_step_def ack_register_def acks_new_def)
qed

text \<open>
  C40: Acknowledgements nobody waits for pile up and reach the next user of their id.  Outcomes of
  messages without a waiter, whether it timed out or never registered, are all kept until the session
  fails; and when the client assigns such an id again, the new publish is reported with the old outcome
  at once.
\<close>

theorem unclaimed_acks_kept:
  assumes "distinct mids" and "\<forall>mid \<in> set mids. map_of (pa_waiters s) mid = None" and "pa_early s = []"
  shows "length (pa_early (run_state ack_step s (map (\<lambda>mid. AoResolve mid AckAcked) mids))) = length mids \<and>
    (\<forall>mid \<in> set mids. case ack_register mid (run_state ack_step s (map (\<lambda>mid. AoResolve mid AckAcked) mids)) of
       (slot, s') \<Rightarrow> pa_slots s' ! slot = Some AckAcked)"
proof -
  have resolved: "pa_waiters (run_state ack_step s (map (\<lambda>mid. AoResolve mid AckAcked) ids)) = pa_waiters s \<and>
      pa_early (run_state ack_step s (map (\<lambda>mid. AoResolve mid AckAcked) ids)) = map (\<lambda>mid. (mid, AckAcked)) ids"
    if "distinct ids" "\<forall>mid \<in> set ids. map_of (pa_waiters s) mid = None" for ids
    using that
  proof (induction ids rule: rev_induct)
    case (snoc mid ids)
    have new: "AList.update mid AckAcked (map (\<lambda>mid. (mid, AckAcked)) ids) = map (\<lambda>mid. (mid, AckAcked)) ids @ [(mid, AckAcked)]"
      using snoc.prems(1) by (induction ids) auto
    with snoc show ?case by (simp add: ack_step_def ack_resolve_def)
  qed (simp add: assms(3))
  have "map_of (map (\<lambda>mid. (mid, AckAcked)) mids) mid = Some AckAcked" if "mid \<in> set mids" for mid
    using that by (simp add: map_of_map_restrict)
  with resolved [OF assms(1,2)] show ?thesis by (auto simp: ack_register_def nth_append)
qed

theorem unclaimed_acks_kept_witness:
  "pa_slots (snd (ack_register 9 (run_state ack_step acks_new [AoResolve 8 AckAcked, AoResolve 9 AckAcked]))) ! 0 = Some AckAcked"
proof -
  have "fst (ack_register 9 (run_state ack_step acks_new [AoResolve 8 AckAcked, AoResolve 9 AckAcked])) = 0" by code_simp
  moreover have "pa_early acks_new = []" "distinct [8, 9 :: u32]" by (simp_all add: acks_new_def)
  ultimately show ?thesis using unclaimed_acks_kept [of "[8, 9]" acks_new] by (simp add: acks_new_def case_prod_unfold)
qed

end
