(* ===== verification/Espnow_Scan.thy ===== *)
theory Espnow_Scan
  imports Juggler_Prelude
begin

text \<open>
  The ESP-NOW peer scan (\<^verbatim>\<open>juggler/src/espnow/scan.rs\<close>, its configuration in
  \<^verbatim>\<open>espnow/mod.rs\<close>), a machine without a clock or a radio: each poll gets the time and the outcome of
  the previous action.

  The lemmas follow a run with the list of actions and their outcomes.  They show that a channel is
  reported only after the peer answered the first probe and every confirmation there without a gap, that
  the power is always restored and the fallback peer registered, that a scan ends after a number of
  polls computed from its configuration whatever the driver feeds, and that no index is out of range.
\<close>

section \<open>Model\<close>

record scan_config =
  sc_channels :: "u8 list"
  sc_probe_data :: "u8 list"
  sc_probe_timeout :: duration
  sc_burst_timeout :: duration
  sc_probe_confirmations :: u8
  sc_confirmation_gap :: duration

datatype send_outcome = Acked | NoAck | SendError

datatype scan_input = ScStart | ScCompleted | ScFailed | ScAbort | ScSent send_outcome

datatype scan_error =
  NotFound nat nat | RegisterTempPeer | RegisterFoundPeer u8 | UnexpectedInput | Aborted

type_synonym scan_outcome = "scan_error + u8"

datatype scan_action =
    RemovePeer | RegisterPeer u8 | BoostTxPower | RestoreTxPower | SetChannel u8 | RestoreChannel u8
  | RegisterFallbackPeer u8 | SendProbe u8 u8 duration | WaitUntil duration | ScanDone scan_outcome

datatype scan_state =
    ScIdle | RemovingStale | RegisteringTemp | Boosting | SettingChannel nat | Probing nat | Gap nat u8
  | Confirming nat u8 | RestoringTxPower "u8 option" | RemovingScanPeer "u8 option" | RegisteringFound u8
  | RestoringChannel u8 | RegisteringFallback | Finished scan_outcome

record scan_machine =
  sn_config :: scan_config
  sn_pinned :: "u8 option"
  sn_state :: scan_state
  sn_burst_start :: duration
  sn_probed :: nat
  sn_failure :: "scan_error option"
  sn_burst_expired :: bool

definition scan_new :: "scan_config \<Rightarrow> u8 option \<Rightarrow> scan_machine" where
  "scan_new config last_pinned = \<lparr>sn_config = config, sn_pinned = last_pinned, sn_state = ScIdle,
     sn_burst_start = 0, sn_probed = 0, sn_failure = None, sn_burst_expired = False\<rparr>"

type_synonym scan_result = "scan_action \<times> scan_machine"

definition scan_finish :: "scan_outcome \<Rightarrow> scan_machine \<Rightarrow> scan_result" where
  "scan_finish r m = (ScanDone r, m\<lparr>sn_state := Finished r\<rparr>)"

definition finish_not_found :: "scan_machine \<Rightarrow> scan_result" where
  "finish_not_found m = scan_finish (Inl (case sn_failure m of Some e \<Rightarrow> e
     | None \<Rightarrow> NotFound (sn_probed m) (length (sc_channels (sn_config m))))) m"

definition fall_back :: "scan_error \<Rightarrow> scan_machine \<Rightarrow> scan_result" where
  "fall_back e m = (let m1 = m\<lparr>sn_failure := Some e\<rparr> in case sn_pinned m1 of
       Some pin \<Rightarrow> (RestoreChannel pin, m1\<lparr>sn_state := RestoringChannel pin\<rparr>)
     | None \<Rightarrow> finish_not_found m1)"

definition next_channel :: "duration \<Rightarrow> nat \<Rightarrow> scan_machine \<Rightarrow> scan_result" where
  "next_channel now idx m =
     (let burst_over = (sc_burst_timeout (sn_config m) \<le> now - sn_burst_start m);
          chans = sc_channels (sn_config m)
      in if idx < length chans \<and> \<not> burst_over
         then (SetChannel (chans ! idx), m\<lparr>sn_state := SettingChannel idx\<rparr>)
         else (RestoreTxPower, m\<lparr>sn_burst_expired := (burst_over \<and> idx < length chans), sn_state := RestoringTxPower None\<rparr>))"

definition send_probe :: "nat \<Rightarrow> u8 \<Rightarrow> scan_machine \<Rightarrow> scan_action" where
  "send_probe idx confirmation m =
     SendProbe (sc_channels (sn_config m) ! idx) confirmation (sc_probe_timeout (sn_config m))"

definition after_ack :: "duration \<Rightarrow> nat \<Rightarrow> u8 \<Rightarrow> scan_machine \<Rightarrow> scan_result" where
  "after_ack now idx acks m =
     (if sc_probe_confirmations (sn_config m) \<le> acks
      then (RestoreTxPower, m\<lparr>sn_state := RestoringTxPower (Some (sc_channels (sn_config m) ! idx))\<rparr>)
      else (WaitUntil (now + sc_confirmation_gap (sn_config m)), m\<lparr>sn_state := Gap idx acks\<rparr>))"

fun running_scan :: "scan_state \<Rightarrow> bool" where
  "running_scan RemovingStale = True"
| "running_scan RegisteringTemp = True"
| "running_scan Boosting = True"
| "running_scan (SettingChannel _) = True"
| "running_scan (Probing _) = True"
| "running_scan (Gap _ _) = True"
| "running_scan (Confirming _ _) = True"
| "running_scan _ = False"

definition unwind :: "scan_error \<Rightarrow> scan_machine \<Rightarrow> scan_result" where
  "unwind e m =
     (if running_scan (sn_state m)
      then (RestoreTxPower, m\<lparr>sn_failure := Some e, sn_state := RestoringTxPower None\<rparr>)
      else scan_finish (Inl e) m)"

fun done_or_failed :: "scan_input \<Rightarrow> bool" where
  "done_or_failed ScCompleted = True"
| "done_or_failed ScFailed = True"
| "done_or_failed _ = False"

text \<open>The poll without the two arms that come first, a finished scan and an abort.\<close>

definition scan_advance :: "duration \<Rightarrow> scan_input \<Rightarrow> scan_machine \<Rightarrow> scan_result" where
  "scan_advance now i m =
     (let surprise = unwind UnexpectedInput m in
      case sn_state m of
       ScIdle \<Rightarrow> (if i = ScStart then (RemovePeer, m\<lparr>sn_state := RemovingStale\<rparr>) else surprise)
     | RemovingStale \<Rightarrow> (if done_or_failed i then (RegisterPeer 0, m\<lparr>sn_state := RegisteringTemp\<rparr>) else surprise)
     | RegisteringTemp \<Rightarrow>
         (if i = ScCompleted then (BoostTxPower, m\<lparr>sn_state := Boosting\<rparr>)
          else if i = ScFailed then fall_back RegisterTempPeer m
          else surprise)
     | Boosting \<Rightarrow> (if done_or_failed i then next_channel now 0 (m\<lparr>sn_burst_start := now\<rparr>) else surprise)
     | SettingChannel idx \<Rightarrow>
         (if i = ScCompleted then (send_probe idx 0 m, m\<lparr>sn_state := Probing idx\<rparr>)
          else if i = ScFailed then next_channel now (idx + 1) m
          else surprise)
     | Probing idx \<Rightarrow>
         (case i of
            ScSent SendError \<Rightarrow> next_channel now (idx + 1) m
          | ScSent NoAck \<Rightarrow> next_channel now (idx + 1) (m\<lparr>sn_probed := sn_probed m + 1\<rparr>)
          | ScSent Acked \<Rightarrow> after_ack now idx 0 (m\<lparr>sn_probed := sn_probed m + 1\<rparr>)
          | _ \<Rightarrow> surprise)
     | Gap idx acks \<Rightarrow>
         (if i = ScCompleted then (send_probe idx (acks + 1) m, m\<lparr>sn_state := Confirming idx acks\<rparr>) else surprise)
     | Confirming idx acks \<Rightarrow>
         (case i of
            ScSent Acked \<Rightarrow> after_ack now idx (acks + 1) m
          | ScSent _ \<Rightarrow> next_channel now (idx + 1) m
          | _ \<Rightarrow> surprise)
     | RestoringTxPower found \<Rightarrow>
         (if done_or_failed i then (RemovePeer, m\<lparr>sn_state := RemovingScanPeer found\<rparr>) else surprise)
     | RemovingScanPeer found \<Rightarrow>
         (if done_or_failed i
          then (case (found, sn_pinned m) of
                  (Some channel, _) \<Rightarrow> (RegisterPeer channel, m\<lparr>sn_state := RegisteringFound channel\<rparr>)
                | (None, Some pin) \<Rightarrow> (RestoreChannel pin, m\<lparr>sn_state := RestoringChannel pin\<rparr>)
                | (None, None) \<Rightarrow> finish_not_found m)
          else surprise)
     | RegisteringFound channel \<Rightarrow>
         (if i = ScCompleted then scan_finish (Inr channel) (m\<lparr>sn_pinned := Some channel\<rparr>)
          else if i = ScFailed then fall_back (RegisterFoundPeer channel) m
          else surprise)
     | RestoringChannel pin \<Rightarrow>
         (if done_or_failed i then (RegisterFallbackPeer pin, m\<lparr>sn_state := RegisteringFallback\<rparr>) else surprise)
     | RegisteringFallback \<Rightarrow> (if done_or_failed i then finish_not_found m else surprise)
     | Finished r \<Rightarrow> (ScanDone r, m))"

definition scan_poll :: "scan_machine \<Rightarrow> duration \<times> scan_input \<Rightarrow> scan_result" where
  "scan_poll m ni = (case ni of (now, i) \<Rightarrow>
     (case sn_state m of
        Finished r \<Rightarrow> (ScanDone r, m)
      | _ \<Rightarrow> if i = ScAbort then unwind Aborted m else scan_advance now i m))"

section \<open>Indices and termination\<close>

lemmas scan_defs = scan_poll_def scan_advance_def unwind_def fall_back_def finish_not_found_def scan_finish_def
  next_channel_def after_ack_def send_probe_def

text \<open>Every index the machine holds is one of the list, and confirmations stay below their number.\<close>

fun index_ok :: "scan_config \<Rightarrow> scan_state \<Rightarrow> bool" where
  "index_ok cfg (SettingChannel idx) = (idx < length (sc_channels cfg))"
| "index_ok cfg (Probing idx) = (idx < length (sc_channels cfg))"
| "index_ok cfg (Gap idx acks) = (idx < length (sc_channels cfg) \<and> acks < sc_probe_confirmations cfg)"
| "index_ok cfg (Confirming idx acks) = (idx < length (sc_channels cfg) \<and> acks < sc_probe_confirmations cfg)"
| "index_ok cfg _ = True"

definition scan_ok :: "scan_machine \<Rightarrow> bool" where
  "scan_ok m \<longleftrightarrow> index_ok (sn_config m) (sn_state m)"

lemma scan_ok_new: "scan_ok (scan_new cfg pin)"
  by (simp add: scan_ok_def scan_new_def)

lemma unwind_state: "sn_state (snd (unwind e m)) = (if running_scan (sn_state m) then RestoringTxPower None else Finished (Inl e))"
  "sn_config (snd (unwind e m)) = sn_config m" "sn_pinned (snd (unwind e m)) = sn_pinned m"
  "fst (unwind e m) = (if running_scan (sn_state m) then RestoreTxPower else ScanDone (Inl e))"
  by (simp_all add: unwind_def scan_finish_def)

lemma next_channel_state:
  "sn_state (snd (next_channel now idx m)) =
     (if idx < length (sc_channels (sn_config m)) \<and> now - sn_burst_start m < sc_burst_timeout (sn_config m)
      then SettingChannel idx else RestoringTxPower None)"
  "sn_config (snd (next_channel now idx m)) = sn_config m" "sn_pinned (snd (next_channel now idx m)) = sn_pinned m"
  by (auto simp: next_channel_def Let_def)

lemma after_ack_state:
  "sn_state (snd (after_ack now idx acks m)) =
     (if sc_probe_confirmations (sn_config m) \<le> acks then RestoringTxPower (Some (sc_channels (sn_config m) ! idx)) else Gap idx acks)"
  "sn_config (snd (after_ack now idx acks m)) = sn_config m" "sn_pinned (snd (after_ack now idx acks m)) = sn_pinned m"
  by (simp_all add: after_ack_def)

lemma fall_back_state:
  "sn_state (snd (fall_back e m)) = (case sn_pinned m of Some pin \<Rightarrow> RestoringChannel pin | None \<Rightarrow> Finished (Inl e))"
  "sn_config (snd (fall_back e m)) = sn_config m" "sn_pinned (snd (fall_back e m)) = sn_pinned m"
  by (auto simp: fall_back_def finish_not_found_def scan_finish_def Let_def split: option.splits)

lemma finish_state:
  "\<exists>e. sn_state (snd (finish_not_found m)) = Finished (Inl e)"
  "sn_config (snd (finish_not_found m)) = sn_config m" "sn_pinned (snd (finish_not_found m)) = sn_pinned m"
  "sn_state (snd (scan_finish r m)) = Finished r" "sn_config (snd (scan_finish r m)) = sn_config m"
  "sn_pinned (snd (scan_finish r m)) = sn_pinned m"
  by (auto simp: finish_not_found_def scan_finish_def)

lemmas scan_states = unwind_state next_channel_state after_ack_state fall_back_state finish_state

lemma scan_config_const [simp]: "sn_config (snd (scan_poll m ni)) = sn_config m"
  by (cases ni) (auto simp: scan_poll_def scan_advance_def scan_states Let_def split: scan_state.splits scan_input.splits
    send_outcome.splits option.splits)

text \<open>The polls that are left, whatever is fed.\<close>

definition scan_left :: "scan_machine \<Rightarrow> nat" where
  "scan_left m =
     (let n = length (sc_channels (sn_config m)); c = unat (sc_probe_confirmations (sn_config m)); k = 2 * c + 3
      in case sn_state m of
        Finished _ \<Rightarrow> 0 | RegisteringFallback \<Rightarrow> 1 | RestoringChannel _ \<Rightarrow> 2 | RegisteringFound _ \<Rightarrow> 3
      | RemovingScanPeer _ \<Rightarrow> 4 | RestoringTxPower _ \<Rightarrow> 5
      | Confirming idx acks \<Rightarrow> 5 + (n - Suc idx) * k + 2 * (c - unat acks)
      | Gap idx acks \<Rightarrow> 6 + (n - Suc idx) * k + 2 * (c - unat acks)
      | Probing idx \<Rightarrow> 7 + (n - Suc idx) * k + 2 * c
      | SettingChannel idx \<Rightarrow> 8 + (n - Suc idx) * k + 2 * c
      | Boosting \<Rightarrow> 7 + n * k | RegisteringTemp \<Rightarrow> 8 + n * k | RemovingStale \<Rightarrow> 9 + n * k | ScIdle \<Rightarrow> 10 + n * k)"

lemma left_next_channel:
  assumes "idx < length (sc_channels (sn_config m))"
  shows "scan_left (snd (next_channel now (Suc idx) m)) \<le> 5 + (length (sc_channels (sn_config m)) - Suc idx) * (2 * unat (sc_probe_confirmations (sn_config m)) + 3)"
proof (cases "Suc idx < length (sc_channels (sn_config m))")
  case True
  then have "length (sc_channels (sn_config m)) - Suc idx = Suc (length (sc_channels (sn_config m)) - Suc (Suc idx))" by simp
  then show ?thesis by (simp add: scan_left_def next_channel_state Let_def)
next
  case False
  then show ?thesis by (simp add: scan_left_def next_channel_state Let_def)
qed

lemma left_first_channel:
  "scan_left (snd (next_channel now 0 m)) \<le> 5 + length (sc_channels (sn_config m)) * (2 * unat (sc_probe_confirmations (sn_config m)) + 3)"
  by (cases "sc_channels (sn_config m)") (simp_all add: scan_left_def next_channel_state Let_def)

lemma left_unwind: "\<forall>r. sn_state m \<noteq> Finished r \<Longrightarrow> scan_ok m \<Longrightarrow> scan_left (snd (unwind e m)) < scan_left m"
  by (cases "sn_state m") (auto simp: scan_left_def unwind_state Let_def scan_ok_def word_less_nat_alt)

lemma left_advance:
  assumes "scan_ok m" "\<forall>r. sn_state m \<noteq> Finished r"
  shows "scan_ok (snd (scan_advance now i m)) \<and> scan_left (snd (scan_advance now i m)) < scan_left m"
proof -
  have u: "scan_ok (snd (unwind UnexpectedInput m))" "scan_left (snd (unwind UnexpectedInput m)) < scan_left m"
    using left_unwind [OF assms(2,1)] by (simp_all add: scan_ok_def unwind_state)
  obtain e where fin: "sn_state (snd (finish_not_found m)) = Finished (Inl e)" using finish_state(1) by blast
  show ?thesis
  proof (cases "sn_state m")
    case (Probing idx)
    with assms(1) have idx: "idx < length (sc_channels (sn_config m))" by (simp add: scan_ok_def)
    from Probing idx u left_next_channel [OF idx, of now] left_next_channel [of idx "m\<lparr>sn_probed := sn_probed m + 1\<rparr>" now] show ?thesis
      by (auto simp: scan_advance_def scan_ok_def scan_states Let_def scan_left_def word_less_nat_alt unat_gt_0 split: scan_input.splits send_outcome.splits)
  next
    case (Confirming idx acks)
    with assms(1) have idx: "idx < length (sc_channels (sn_config m))" and d: "acks < sc_probe_confirmations (sn_config m)"
      by (simp_all add: scan_ok_def)
    from d have "unat (acks + 1) = Suc (unat acks)" by (rule unat_succ_less [OF disjI2])
    with Confirming idx d u left_next_channel [OF idx, of now] show ?thesis
      by (auto simp: scan_advance_def scan_ok_def scan_states Let_def scan_left_def word_less_nat_alt word_le_nat_alt split: scan_input.splits send_outcome.splits)
  next
    case (SettingChannel idx)
    with assms(1) have idx: "idx < length (sc_channels (sn_config m))" by (simp add: scan_ok_def)
    from SettingChannel idx u left_next_channel [OF idx, of now] show ?thesis
      by (auto simp: scan_advance_def scan_ok_def next_channel_state Let_def scan_left_def)
  next
    case Boosting
    with u left_first_channel [of now "m\<lparr>sn_burst_start := now\<rparr>"] show ?thesis
      by (auto simp: scan_advance_def scan_ok_def next_channel_state Let_def scan_left_def)
  next
    case (RemovingScanPeer found)
    with u fin show ?thesis
      by (auto simp: scan_advance_def scan_ok_def Let_def scan_left_def finish_state split: option.splits)
  next
    case (Gap idx acks)
    with u assms(1) show ?thesis
      by (auto simp: scan_advance_def scan_ok_def Let_def scan_left_def word_less_nat_alt)
  next
    case RegisteringFallback
    with u fin show ?thesis
      by (auto simp: scan_advance_def scan_ok_def Let_def scan_left_def finish_state)
  next
    case RegisteringTemp
    with u show ?thesis by (auto simp: scan_advance_def scan_ok_def Let_def scan_left_def fall_back_state split: option.splits)
  next
    case (RegisteringFound channel)
    with u show ?thesis
      by (auto simp: scan_advance_def scan_ok_def Let_def scan_left_def fall_back_state finish_state split: option.splits)
  qed (use u assms(2) in \<open>auto simp: scan_advance_def scan_ok_def Let_def scan_left_def\<close>)
qed

lemma scan_step:
  assumes "scan_ok m"
  shows "scan_ok (snd (scan_poll m ni)) \<and> (if \<exists>r. sn_state m = Finished r then snd (scan_poll m ni) = m
    else scan_left (snd (scan_poll m ni)) < scan_left m)"
proof (cases ni)
  case (Pair now i)
  show ?thesis
  proof (cases "\<exists>r. sn_state m = Finished r")
    case True
    with assms Pair show ?thesis by (auto simp: scan_poll_def)
  next
    case False
    then have nf: "\<forall>r. sn_state m \<noteq> Finished r" by blast
    then have "scan_poll m ni = (if i = ScAbort then unwind Aborted m else scan_advance now i m)"
      using Pair by (cases "sn_state m") (auto simp: scan_poll_def)
    with nf left_unwind [OF nf assms, of Aborted] left_advance [OF assms nf, of now i] show ?thesis
      by (simp add: scan_ok_def unwind_state)
  qed
qed

interpretation scan: polled_machine scan_poll "\<lambda>m. \<exists>cfg pin. m = scan_new cfg pin" scan_ok
  by unfold_locales (auto simp: scan_ok_new scan_step)

lemma scan_run_finishes:
  "scan_ok m \<Longrightarrow> scan_left m \<le> length is \<Longrightarrow> \<exists>r. sn_state (run_state scan_poll m is) = Finished r"
proof (induction "is" arbitrary: m)
  case Nil
  then show ?case by (cases "sn_state m") (auto simp: scan_left_def Let_def)
next
  case (Cons i "is")
  have s: "scan_ok (snd (scan_poll m i))" using scan_step [OF Cons.prems(1)] by blast
  have "scan_left (snd (scan_poll m i)) \<le> length is"
    using scan_step [OF Cons.prems(1), of i] Cons.prems(2) by (auto simp: scan_left_def Let_def split: if_splits)
  from Cons.IH [OF s this] show ?case by simp
qed

section \<open>The history of a scan\<close>

text \<open>A scan with what was done so far: each action with the input that answered it.\<close>

record scan_log =
  sg_machine :: scan_machine
  sg_pending :: "scan_action option"
  sg_history :: "(scan_action \<times> scan_input) list"
  sg_boosted :: bool

definition log_new :: "scan_config \<Rightarrow> u8 option \<Rightarrow> scan_log" where
  "log_new cfg pin = \<lparr>sg_machine = scan_new cfg pin, sg_pending = None, sg_history = [], sg_boosted = False\<rparr>"

definition log_step :: "scan_log \<Rightarrow> duration \<times> scan_input \<Rightarrow> scan_action \<times> scan_log" where
  "log_step g ni = (case scan_poll (sg_machine g) ni of (a, m) \<Rightarrow>
     (a, \<lparr>sg_machine = m, sg_pending = Some a,
          sg_history = sg_history g @ (case sg_pending g of None \<Rightarrow> [] | Some b \<Rightarrow> [(b, snd ni)]),
          sg_boosted = (if a = BoostTxPower then True else if a = RestoreTxPower then False else sg_boosted g)\<rparr>))"

abbreviation scan_log_after :: "scan_config \<Rightarrow> u8 option \<Rightarrow> (duration \<times> scan_input) list \<Rightarrow> scan_log" where
  "scan_log_after cfg pin is \<equiv> run_state log_step (log_new cfg pin) is"

text \<open>
  The history ends with the radio set to channel \<open>c\<close>, the first answer there and \<open>n\<close> confirmations, back to
  back: each probe was answered while the last channel set was \<open>c\<close>, and that setting had completed.
\<close>

fun confirmed :: "u8 \<Rightarrow> nat \<Rightarrow> (scan_action \<times> scan_input) list \<Rightarrow> bool" where
  "confirmed c 0 h = (\<exists>h0 t. h = h0 @ [(SetChannel c, ScCompleted), (SendProbe c 0 t, ScSent Acked)])"
| "confirmed c (Suc n) h = (\<exists>h0 w t. h = h0 @ [(WaitUntil w, ScCompleted), (SendProbe c (of_nat (Suc n)) t, ScSent Acked)] \<and>
     confirmed c n h0)"

fun retunes :: "scan_action \<Rightarrow> bool" where
  "retunes (SetChannel _) = True"
| "retunes (RestoreChannel _) = True"
| "retunes _ = False"

text \<open>The peer confirmed channel \<open>c\<close>, and the radio was not set to another one since.\<close>

definition found_on :: "scan_config \<Rightarrow> u8 \<Rightarrow> (scan_action \<times> scan_input) list \<Rightarrow> bool" where
  "found_on cfg c h \<longleftrightarrow> c \<in> set (sc_channels cfg) \<and>
     (\<exists>h0 h1. h = h0 @ h1 \<and> confirmed c (unat (sc_probe_confirmations cfg)) h0 \<and> (\<forall>(a, _) \<in> set h1. \<not> retunes a))"

fun state_log :: "scan_config \<Rightarrow> u8 option \<Rightarrow> scan_log \<Rightarrow> scan_state \<Rightarrow> bool" where
  "state_log cfg pin g (SettingChannel idx) = (sg_pending g = Some (SetChannel (sc_channels cfg ! idx)))"
| "state_log cfg pin g (Probing idx) = ((\<exists>t. sg_pending g = Some (SendProbe (sc_channels cfg ! idx) 0 t)) \<and>
     (\<exists>h0. sg_history g = h0 @ [(SetChannel (sc_channels cfg ! idx), ScCompleted)]))"
| "state_log cfg pin g (Gap idx acks) =
     ((\<exists>w. sg_pending g = Some (WaitUntil w)) \<and> confirmed (sc_channels cfg ! idx) (unat acks) (sg_history g))"
| "state_log cfg pin g (Confirming idx acks) =
     ((\<exists>t. sg_pending g = Some (SendProbe (sc_channels cfg ! idx) (acks + 1) t)) \<and>
      (\<exists>h0 w. sg_history g = h0 @ [(WaitUntil w, ScCompleted)] \<and> confirmed (sc_channels cfg ! idx) (unat acks) h0))"
| "state_log cfg pin g (RestoringTxPower (Some c)) = (sg_pending g = Some RestoreTxPower \<and> found_on cfg c (sg_history g))"
| "state_log cfg pin g (RemovingScanPeer (Some c)) = (sg_pending g = Some RemovePeer \<and> found_on cfg c (sg_history g))"
| "state_log cfg pin g (RegisteringFound c) = (sg_pending g = Some (RegisterPeer c) \<and> found_on cfg c (sg_history g))"
| "state_log cfg pin g (RestoringChannel p) = (sg_pending g = Some (RestoreChannel p) \<and> pin = Some p)"
| "state_log cfg pin g RegisteringFallback = (\<exists>p. pin = Some p \<and> sg_pending g = Some (RegisterFallbackPeer p))"
| "state_log cfg pin g (Finished (Inr c)) =
     (found_on cfg c (sg_history g) \<and> (RegisterPeer c, ScCompleted) \<in> set (sg_history g) \<and> sn_pinned (sg_machine g) = Some c \<and>
      sg_pending g = Some (ScanDone (Inr c)))"
| "state_log cfg pin g _ = True"

fun may_be_boosted :: "scan_state \<Rightarrow> bool" where
  "may_be_boosted Boosting = True"
| "may_be_boosted (SettingChannel _) = True"
| "may_be_boosted (Probing _) = True"
| "may_be_boosted (Gap _ _) = True"
| "may_be_boosted (Confirming _ _) = True"
| "may_be_boosted _ = False"

definition log_ok :: "scan_config \<Rightarrow> u8 option \<Rightarrow> scan_log \<Rightarrow> bool" where
  "log_ok cfg pin g \<longleftrightarrow> sn_config (sg_machine g) = cfg \<and> scan_ok (sg_machine g) \<and>
     state_log cfg pin g (sn_state (sg_machine g)) \<and> (sg_boosted g \<longrightarrow> may_be_boosted (sn_state (sg_machine g))) \<and>
     ((\<exists>c. sn_state (sg_machine g) = Finished (Inr c)) \<or> sn_pinned (sg_machine g) = pin)"

lemma log_ok_new: "log_ok cfg pin (log_new cfg pin)"
  by (simp add: log_ok_def log_new_def scan_ok_new) (simp add: scan_new_def)

lemma found_on_more: "found_on cfg c h \<Longrightarrow> \<not> retunes a \<Longrightarrow> found_on cfg c (h @ [(a, i)])"
  unfolding found_on_def by (elim conjE exE) (intro conjI exI, assumption, simp, assumption, auto)

lemma confirmed_found:
  "confirmed c (unat (sc_probe_confirmations cfg)) h \<Longrightarrow> c \<in> set (sc_channels cfg) \<Longrightarrow> found_on cfg c h"
  unfolding found_on_def by (intro conjI exI [of _ h] exI [of _ "[]"]) simp_all

lemma confirmed_next:
  assumes "acks < (confs :: u8)" "confirmed c (unat acks) h0"
  shows "confirmed c (unat (acks + 1)) (h0 @ [(WaitUntil w, ScCompleted), (SendProbe c (acks + 1) t, ScSent Acked)])"
proof -
  have "unat (acks + 1) = Suc (unat acks)" by (rule unat_succ_less [OF disjI2 [OF assms(1)]])
  moreover from this have "of_nat (Suc (unat acks)) = acks + 1" by (metis of_nat_unat ucast_id)
  ultimately show ?thesis using assms(2) by auto
qed

text \<open>The parts of the invariant after a poll, for the three helpers that end most arms.\<close>

definition after_ok :: "scan_config \<Rightarrow> u8 option \<Rightarrow> scan_log \<Rightarrow> scan_input \<Rightarrow> scan_result \<Rightarrow> bool" where
  "after_ok cfg pin g i am \<longleftrightarrow>
     (let g' = \<lparr>sg_machine = snd am, sg_pending = Some (fst am),
                sg_history = sg_history g @ (case sg_pending g of None \<Rightarrow> [] | Some b \<Rightarrow> [(b, i)]),
                sg_boosted = (if fst am = BoostTxPower then True else if fst am = RestoreTxPower then False else sg_boosted g)\<rparr>
      in state_log cfg pin g' (sn_state (snd am)) \<and> (sg_boosted g' \<longrightarrow> may_be_boosted (sn_state (snd am))) \<and>
         ((\<exists>c. sn_state (snd am) = Finished (Inr c)) \<or> sn_pinned (snd am) = pin))"

lemma after_unwind:
  "sn_pinned m = pin \<Longrightarrow> (sg_boosted g \<longrightarrow> running_scan (sn_state m)) \<Longrightarrow> after_ok cfg pin g i (unwind e m)"
  by (cases "running_scan (sn_state m)") (simp_all add: after_ok_def unwind_def scan_finish_def Let_def)

lemma after_next_channel:
  "sn_pinned m = pin \<Longrightarrow> sn_config m = cfg \<Longrightarrow> after_ok cfg pin g i (next_channel now idx m)"
  by (auto simp: after_ok_def next_channel_def Let_def)

lemma after_fall_back:
  "sn_pinned m = pin \<Longrightarrow> \<not> sg_boosted g \<Longrightarrow> after_ok cfg pin g i (fall_back e m)"
  by (auto simp: after_ok_def fall_back_def finish_not_found_def scan_finish_def Let_def split: option.splits)

lemma after_finish_not_found:
  "sn_pinned m = pin \<Longrightarrow> \<not> sg_boosted g \<Longrightarrow> after_ok cfg pin g i (finish_not_found m)"
  by (auto simp: after_ok_def finish_not_found_def scan_finish_def Let_def)

lemma after_after_ack:
  assumes "sn_pinned m = pin" "sn_config m = cfg" "idx < length (sc_channels cfg)" "acks \<le> sc_probe_confirmations cfg"
    and "sg_pending g = Some b" "confirmed (sc_channels cfg ! idx) (unat acks) (sg_history g @ [(b, i)])"
  shows "after_ok cfg pin g i (after_ack now idx acks m)"
proof (cases "sc_probe_confirmations cfg \<le> acks")
  case True
  with assms(4) have "acks = sc_probe_confirmations cfg" by simp
  with assms(3,6) have "found_on cfg (sc_channels cfg ! idx) (sg_history g @ [(b, i)])" by (intro confirmed_found) simp_all
  with True assms(1,2,5) show ?thesis
    by (simp add: after_ok_def after_ack_def Let_def)
next
  case False
  with assms(1,2,5,6) show ?thesis by (simp add: after_ok_def after_ack_def Let_def)
qed

lemma log_ok_after:
  assumes "log_ok cfg pin g" "\<forall>r. sn_state (sg_machine g) \<noteq> Finished r"
  shows "after_ok cfg pin g i (scan_advance now i (sg_machine g))"
proof -
  let ?m = "sg_machine g"
  have m: "sn_config ?m = cfg" "sn_pinned ?m = pin" "scan_ok ?m" "state_log cfg pin g (sn_state ?m)"
    "sg_boosted g \<longrightarrow> may_be_boosted (sn_state ?m)"
    using assms by (auto simp: log_ok_def)
  have u: "after_ok cfg pin g i (unwind UnexpectedInput ?m)"
    using m(2,5) by (intro after_unwind) (cases "sn_state ?m"; auto)+
  have simple: "after_ok cfg pin g i (a, ?m\<lparr>sn_state := t\<rparr>)"
    if "state_log cfg pin \<lparr>sg_machine = ?m\<lparr>sn_state := t\<rparr>, sg_pending = Some a,
          sg_history = sg_history g @ (case sg_pending g of None \<Rightarrow> [] | Some b \<Rightarrow> [(b, i)]),
          sg_boosted = (if a = BoostTxPower then True else if a = RestoreTxPower then False else sg_boosted g)\<rparr> t"
      "(if a = BoostTxPower then True else if a = RestoreTxPower then False else sg_boosted g) \<longrightarrow> may_be_boosted t" for a t
    using that m(2) unfolding after_ok_def Let_def fst_conv snd_conv by (simp split del: if_split)
  show ?thesis
  proof (cases "sn_state ?m")
    case (Probing idx)
    with m obtain t h0 where p: "sg_pending g = Some (SendProbe (sc_channels cfg ! idx) 0 t)" "idx < length (sc_channels cfg)"
      "sg_history g = h0 @ [(SetChannel (sc_channels cfg ! idx), ScCompleted)]"
      by (auto simp: scan_ok_def)
    have "after_ok cfg pin g (ScSent Acked) (after_ack now idx 0 (?m\<lparr>sn_probed := sn_probed ?m + 1\<rparr>))"
      using m p by (intro after_after_ack) auto
    with Probing u m(1,2) show ?thesis
      by (auto simp: scan_advance_def Let_def intro: after_next_channel split: scan_input.splits send_outcome.splits)
  next
    case (Confirming idx acks)
    with m obtain t h0 w where p: "sg_pending g = Some (SendProbe (sc_channels cfg ! idx) (acks + 1) t)"
      "idx < length (sc_channels cfg)" "acks < sc_probe_confirmations cfg"
      "sg_history g = h0 @ [(WaitUntil w, ScCompleted)]" "confirmed (sc_channels cfg ! idx) (unat acks) h0"
      by (auto simp: scan_ok_def)
    have c: "confirmed (sc_channels cfg ! idx) (unat (acks + 1))
        (sg_history g @ [(SendProbe (sc_channels cfg ! idx) (acks + 1) t, ScSent Acked)])"
      using confirmed_next [OF p(3,5), of w t] p(4) by simp
    have "acks + 1 \<le> sc_probe_confirmations cfg" using p(3) by (rule inc_le)
    then have "after_ok cfg pin g (ScSent Acked) (after_ack now idx (acks + 1) ?m)"
      using m p(1,2) c by (intro after_after_ack) auto
    with Confirming u m(1,2) show ?thesis
      by (auto simp: scan_advance_def Let_def intro: after_next_channel split: scan_input.splits send_outcome.splits)
  next
    case (RemovingScanPeer found)
    have "pin = Some p \<Longrightarrow> after_ok cfg pin g i (RestoreChannel p, ?m\<lparr>sn_state := RestoringChannel p\<rparr>)" for p
      using m(5) RemovingScanPeer by (intro simple) auto
    moreover have "found = Some c \<Longrightarrow> after_ok cfg pin g i (RegisterPeer c, ?m\<lparr>sn_state := RegisteringFound c\<rparr>)" for c
      using m(4,5) RemovingScanPeer by (intro simple) (auto intro: found_on_more)
    moreover have "after_ok cfg pin g i (finish_not_found ?m)"
      using m(2,5) RemovingScanPeer by (intro after_finish_not_found) auto
    ultimately show ?thesis
      using RemovingScanPeer u by (cases pin; cases found) (simp_all add: m(2) scan_advance_def Let_def)
  next
    case (RestoringTxPower found)
    have "after_ok cfg pin g i (RemovePeer, ?m\<lparr>sn_state := RemovingScanPeer found\<rparr>)"
      using m(4,5) RestoringTxPower by (intro simple) (cases found; auto intro: found_on_more)+
    with RestoringTxPower u show ?thesis by (cases i) (simp_all add: scan_advance_def Let_def)
  next
    case (RegisteringFound channel)
    have "after_ok cfg pin g ScCompleted (scan_finish (Inr channel) (?m\<lparr>sn_pinned := Some channel\<rparr>))"
      using m(4,5) RegisteringFound by (auto simp: after_ok_def scan_finish_def Let_def intro: found_on_more)
    moreover have "after_ok cfg pin g i (fall_back (RegisterFoundPeer channel) ?m)"
      using m(2,5) RegisteringFound by (intro after_fall_back) auto
    ultimately show ?thesis using RegisteringFound u by (cases i) (simp_all add: scan_advance_def Let_def)
  next
    case (Gap idx acks)
    with m(4) obtain w where p: "sg_pending g = Some (WaitUntil w)" "confirmed (sc_channels cfg ! idx) (unat acks) (sg_history g)"
      by auto
    have "after_ok cfg pin g ScCompleted (send_probe idx (acks + 1) ?m, ?m\<lparr>sn_state := Confirming idx acks\<rparr>)"
      using m(1,2) p by (auto simp: after_ok_def Let_def send_probe_def)
    with Gap u show ?thesis by (cases i) (simp_all add: scan_advance_def Let_def)
  next
    case RegisteringTemp
    have "after_ok cfg pin g i (BoostTxPower, ?m\<lparr>sn_state := Boosting\<rparr>)" by (intro simple) auto
    moreover have "after_ok cfg pin g i (fall_back RegisterTempPeer ?m)"
      using m(2,5) RegisteringTemp by (intro after_fall_back) auto
    ultimately show ?thesis using RegisteringTemp u by (cases i) (simp_all add: scan_advance_def Let_def)
  next
    case (SettingChannel idx)
    have "after_ok cfg pin g ScCompleted (send_probe idx 0 ?m, ?m\<lparr>sn_state := Probing idx\<rparr>)"
      using m(1,2,4) SettingChannel by (auto simp: after_ok_def Let_def send_probe_def)
    with SettingChannel u after_next_channel [OF m(2,1), of g i now "Suc idx"] show ?thesis
      by (cases i) (simp_all add: scan_advance_def Let_def)
  next
    case Boosting
    have "after_ok cfg pin g i (next_channel now 0 (?m\<lparr>sn_burst_start := now\<rparr>))"
      using m(1,2) by (intro after_next_channel) simp_all
    with Boosting u show ?thesis by (cases i) (simp_all add: scan_advance_def Let_def)
  next
    case (RestoringChannel p)
    have "after_ok cfg pin g i (RegisterFallbackPeer p, ?m\<lparr>sn_state := RegisteringFallback\<rparr>)"
      using m(4,5) RestoringChannel by (intro simple) auto
    with RestoringChannel u show ?thesis by (cases i) (simp_all add: scan_advance_def Let_def)
  next
    case RegisteringFallback
    have "after_ok cfg pin g i (finish_not_found ?m)"
      using m(2,5) RegisteringFallback by (intro after_finish_not_found) auto
    with RegisteringFallback u show ?thesis by (cases i) (simp_all add: scan_advance_def Let_def)
  next
    case ScIdle
    have "after_ok cfg pin g i (RemovePeer, ?m\<lparr>sn_state := RemovingStale\<rparr>)"
      using m(5) ScIdle by (intro simple) auto
    with ScIdle u show ?thesis by (cases i) (simp_all add: scan_advance_def Let_def)
  next
    case RemovingStale
    have "after_ok cfg pin g i (RegisterPeer 0, ?m\<lparr>sn_state := RegisteringTemp\<rparr>)"
      using m(5) RemovingStale by (intro simple) auto
    with RemovingStale u show ?thesis by (cases i) (simp_all add: scan_advance_def Let_def)
  next
    case (Finished r)
    with assms(2) show ?thesis by blast
  qed
qed

lemma log_ok_step: "log_ok cfg pin g \<Longrightarrow> log_ok cfg pin (snd (log_step g ni))"
proof (cases ni)
  case (Pair now i)
  let ?m = "sg_machine g"
  assume g: "log_ok cfg pin g"
  then have ok: "scan_ok (snd (scan_poll ?m ni))" "sn_config ?m = cfg" using scan_step by (auto simp: log_ok_def)
  show ?thesis
  proof (cases "\<exists>r. sn_state ?m = Finished r")
    case True
    then obtain r where r: "sn_state ?m = Finished r" by blast
    then have "scan_poll ?m ni = (ScanDone r, ?m)" using Pair by (simp add: scan_poll_def)
    with g r show ?thesis
      by (cases r) (auto simp: log_ok_def log_step_def intro: found_on_more)
  next
    case False
    then have nf: "\<forall>r. sn_state ?m \<noteq> Finished r" by blast
    have "after_ok cfg pin g i (unwind Aborted ?m)"
      using g False by (intro after_unwind) (cases "sn_state ?m"; auto simp: log_ok_def)+
    with log_ok_after [OF g nf, of i now] have "after_ok cfg pin g i (scan_poll ?m ni)"
      using nf Pair by (cases "sn_state ?m") (auto simp: scan_poll_def)
    then have "after_ok cfg pin g i (fst (scan_poll ?m ni), snd (scan_poll ?m ni))" by simp
    with ok show ?thesis
      unfolding log_ok_def log_step_def Let_def after_ok_def case_prod_unfold fst_conv snd_conv Pair
      by (simp split del: if_split)
  qed
qed

lemma log_ok_run: "log_ok cfg pin (scan_log_after cfg pin is)"
  by (induction "is" rule: rev_induct) (simp_all add: log_ok_new log_ok_step)

lemma log_machine: "sg_machine (run_state log_step g is) = run_state scan_poll (sg_machine g) is"
  by (induction "is" arbitrary: g) (simp_all add: log_step_def case_prod_unfold)

lemma log_output: "fst (log_step g ni) = fst (scan_poll (sg_machine g) ni)"
  by (simp add: log_step_def case_prod_unfold)

lemma done_state: "fst (scan_poll m ni) = ScanDone r \<Longrightarrow> sn_state (snd (scan_poll m ni)) = Finished r"
  by (cases ni) (auto simp: scan_defs Let_def split: scan_state.splits scan_input.splits send_outcome.splits option.splits if_splits)

section \<open>Properties\<close>

text \<open>
  C17: A channel is found only if the peer confirmed it.  Whatever the driver feeds, when the scan ends
  with a channel, it is one of the configured ones, the radio was set to it with success, the peer
  acknowledged the first probe sent then and every configured confirmation, one after the other with
  only the requested gaps between, the radio was not set to another channel since, the peer was
  registered there afterwards, and the channel is the new pin.
\<close>

theorem scan_found_confirmed:
  assumes "fst (log_step (scan_log_after cfg pin is) ni) = ScanDone (Inr c)"
  shows "let g = scan_log_after cfg pin (is @ [ni])
    in found_on cfg c (sg_history g) \<and> (RegisterPeer c, ScCompleted) \<in> set (sg_history g) \<and> sn_pinned (sg_machine g) = Some c"
proof -
  have "sn_state (sg_machine (snd (log_step (scan_log_after cfg pin is) ni))) = Finished (Inr c)"
    using assms done_state by (simp add: log_step_def case_prod_unfold)
  with log_ok_run [of cfg pin "is @ [ni]"] show ?thesis by (simp add: log_ok_def)
qed

definition example_scan :: scan_config where
  "example_scan = \<lparr>sc_channels = [1, 6], sc_probe_data = [], sc_probe_timeout = 100, sc_burst_timeout = 3000,
     sc_probe_confirmations = 1, sc_confirmation_gap = 150\<rparr>"

definition found_run :: "(duration \<times> scan_input) list" where
  "found_run = [(0, ScStart), (0, ScFailed), (0, ScCompleted), (1, ScCompleted), (2, ScCompleted), (3, ScSent NoAck),
     (4, ScCompleted), (5, ScSent Acked), (160, ScCompleted), (161, ScSent Acked), (162, ScCompleted), (163, ScCompleted)]"

theorem scan_found_confirmed_witness:
  "found_on example_scan 6 (sg_history (scan_log_after example_scan None (found_run @ [(164, ScCompleted)])))"
proof -
  have "fst (log_step (scan_log_after example_scan None found_run) (164, ScCompleted)) = ScanDone (Inr 6)" by code_simp
  from scan_found_confirmed [OF this] show ?thesis by (simp add: Let_def)
qed

text \<open>
  A scan always ends.  Whatever inputs arrive, expected, failed, aborted or out of turn, after as
  many polls as ten plus the number of channels times three more than twice the confirmations the scan
  has finished, it repeats its result from then on, and no poll ever indexed outside the channel list.
\<close>

theorem scan_terminates:
  assumes "10 + length (sc_channels cfg) * (2 * unat (sc_probe_confirmations cfg) + 3) \<le> length is"
  shows "\<exists>r. sn_state (run_state scan_poll (scan_new cfg pin) is) = Finished r \<and>
    set (run_outputs scan_poll (run_state scan_poll (scan_new cfg pin) is) js) \<subseteq> {ScanDone r} \<and>
    index_ok cfg (sn_state (run_state scan_poll (scan_new cfg pin) (take n is)))"
proof -
  have "scan_left (scan_new cfg pin) \<le> length is" using assms by (simp add: scan_left_def scan_new_def Let_def)
  from scan_run_finishes [OF scan_ok_new this] obtain r
    where r: "sn_state (run_state scan_poll (scan_new cfg pin) is) = Finished r" by blast
  have "set (run_outputs scan_poll m js) \<subseteq> {ScanDone r}" if "sn_state m = Finished r" for m
    using that by (induction js arbitrary: m) (auto simp: scan_poll_def)
  moreover have "sn_config (run_state scan_poll m is) = sn_config m" for m "is"
    by (induction "is" arbitrary: m) simp_all
  then have "index_ok cfg (sn_state (run_state scan_poll (scan_new cfg pin) (take n is)))"
    using scan.inv_run [of "scan_new cfg pin" "take n is"] by (auto simp: scan_ok_def scan_new_def)
  ultimately show ?thesis using r by blast
qed

theorem scan_terminates_witness:
  "\<exists>r. sn_state (run_state scan_poll (scan_new example_scan (Some 3)) (replicate 20 (0, ScStart))) = Finished r"
  using scan_terminates [of example_scan "replicate 20 (0, ScStart)" "Some 3" "[]" 0] by (auto simp: example_scan_def)

text \<open>
  The power is always restored.  Whatever the driver feeds, when the scan answers with its end, no
  boost of the power is outstanding: each was followed by a restore.
\<close>

theorem scan_restores_power:
  assumes "fst (log_step (scan_log_after cfg pin is) ni) = ScanDone r"
  shows "\<not> sg_boosted (scan_log_after cfg pin (is @ [ni]))"
proof -
  have "sn_state (sg_machine (snd (log_step (scan_log_after cfg pin is) ni))) = Finished r"
    using assms done_state by (simp add: log_step_def case_prod_unfold)
  with log_ok_run [of cfg pin "is @ [ni]"] show ?thesis by (auto simp: log_ok_def)
qed

theorem scan_restores_power_witness:
  "\<not> sg_boosted (scan_log_after example_scan None (take 5 found_run @ [(3, ScAbort), (4, ScCompleted)] @ [(5, ScFailed)]))"
proof -
  have "fst (log_step (scan_log_after example_scan None (take 5 found_run @ [(3, ScAbort), (4, ScCompleted)])) (5, ScFailed)) = ScanDone (Inl Aborted)"
    by code_simp
  from scan_restores_power [OF this] show ?thesis by simp
qed

end
