(* ===== verification/Net_Bytes.thy ===== *)
theory Net_Bytes
  imports Juggler_Prelude
begin

text \<open>
  Byte buffers of the wire formats: big-endian integers, IPv4 and hardware addresses, and writes into
  a buffer of fixed length.  A slice write that would reach past the buffer panics in Rust; the model
  truncates there, and the codecs are shown to write in range (\<open>writes_in_range\<close>).
\<close>

section \<open>Model\<close>

type_synonym bytes = "u8 list"

text \<open>\<^verbatim>\<open>to_be_bytes\<close> and \<^verbatim>\<open>from_be_bytes\<close>.\<close>

definition be16 :: "u16 \<Rightarrow> bytes" where
  "be16 w = [ucast (drop_bit 8 w), ucast w]"

definition of_be16 :: "u8 \<Rightarrow> u8 \<Rightarrow> u16" where
  "of_be16 a b = or (push_bit 8 (ucast a)) (ucast b)"

definition be32 :: "u32 \<Rightarrow> bytes" where
  "be32 w = [ucast (drop_bit 24 w), ucast (drop_bit 16 w), ucast (drop_bit 8 w), ucast w]"

definition of_be32 :: "u8 \<Rightarrow> u8 \<Rightarrow> u8 \<Rightarrow> u8 \<Rightarrow> u32" where
  "of_be32 a b c d =
     or (push_bit 24 (ucast a)) (or (push_bit 16 (ucast b)) (or (push_bit 8 (ucast c)) (ucast d)))"

text \<open>\<^verbatim>\<open>struct Ipv4Addr([u8; 4])\<close> of both servers, and a hardware address \<^verbatim>\<open>[u8; 6]\<close>.\<close>

datatype ipv4_addr = Ipv4Addr u8 u8 u8 u8

fun octets :: "ipv4_addr \<Rightarrow> bytes" where
  "octets (Ipv4Addr a b c d) = [a, b, c, d]"

definition is_unspecified :: "ipv4_addr \<Rightarrow> bool" where
  "is_unspecified a = (a = Ipv4Addr 0 0 0 0)"

fun show_ipv4 :: "ipv4_addr \<Rightarrow> string" where
  "show_ipv4 (Ipv4Addr a b c d) =
     dec_digits (unat a) @ ''.'' @ dec_digits (unat b) @ ''.'' @ dec_digits (unat c) @ ''.'' @ dec_digits (unat d)"

datatype mac = Mac u8 u8 u8 u8 u8 u8

fun mac_bytes :: "mac \<Rightarrow> bytes" where
  "mac_bytes (Mac a b c d e f) = [a, b, c, d, e, f]"

text \<open>\<^verbatim>\<open>buf[off..off + bs.len()].copy_from_slice(bs)\<close>, and a sequence of such writes.\<close>

definition put :: "bytes \<Rightarrow> nat \<Rightarrow> bytes \<Rightarrow> bytes" where
  "put buf off bs = take off buf @ take (length buf - off) bs @ drop (off + length bs) buf"

fun put_all :: "bytes \<Rightarrow> (nat \<times> bytes) list \<Rightarrow> bytes" where
  "put_all buf [] = buf"
| "put_all buf ((off, bs) # ws) = put_all (put buf off bs) ws"

definition writes_in_range :: "nat \<Rightarrow> (nat \<times> bytes) list \<Rightarrow> bool" where
  "writes_in_range n ws \<longleftrightarrow> list_all (\<lambda>(off, bs). off + length bs \<le> n) ws"

section \<open>Lemmas\<close>

lemma be16_nth [simp]: "length (be16 w) = 2"
  by (simp add: be16_def)

lemma be32_nth [simp]: "length (be32 w) = 4"
  by (simp add: be32_def)

lemma length_octets [simp]: "length (octets a) = 4"
  by (cases a) simp

lemma length_mac_bytes [simp]: "length (mac_bytes m) = 6"
  by (cases m) simp

lemma octets_inject [simp]: "octets a = octets b \<longleftrightarrow> a = b"
  by (cases a; cases b) simp

lemma mac_bytes_inject [simp]: "mac_bytes a = mac_bytes b \<longleftrightarrow> a = b"
  by (cases a; cases b) simp

lemma of_be16_be16 [simp]: "of_be16 (ucast (drop_bit 8 w)) (ucast w) = w"
  by (rule bit_word_eqI) (auto simp: of_be16_def bit_simps)

lemma of_be32_be32 [simp]:
  "of_be32 (ucast (drop_bit 24 w)) (ucast (drop_bit 16 w)) (ucast (drop_bit 8 w)) (ucast w) = w"
proof (rule bit_word_eqI)
  fix n assume "n < LENGTH(32)"
  then consider "n < 8" | m where "n = 8 + m" "m < 8" | m where "n = 16 + m" "m < 8" | m where "n = 24 + m" "m < 8"
    using nat_le_iff_add [of 8 n] nat_le_iff_add [of 16 n] nat_le_iff_add [of 24 n] by fastforce
  then show "bit (of_be32 (ucast (drop_bit 24 w)) (ucast (drop_bit 16 w)) (ucast (drop_bit 8 w)) (ucast w)) n = bit w n"
    by cases (auto simp: of_be32_def bit_simps)
qed

lemma u8_high_bit [simp]: "\<not> bit (x :: u8) (8 + n)" "\<not> bit (x :: u8) (16 + n)" "\<not> bit (x :: u8) (24 + n)"
  by (auto dest: bit_imp_le_length)

lemma be16_of_be16 [simp]: "be16 (of_be16 a b) = [a, b]"
  by (auto simp: be16_def of_be16_def bit_simps intro!: bit_word_eqI)

lemma be32_of_be32 [simp]: "be32 (of_be32 a b c d) = [a, b, c, d]"
  by (auto simp: be32_def of_be32_def bit_simps intro!: bit_word_eqI)

lemma of_be32_sum:
  "of_be32 a b c d = push_bit 24 (ucast a) + (push_bit 16 (ucast b) + (push_bit 8 (ucast c) + ucast d))"
proof -
  have "and (push_bit 8 (ucast c)) (ucast d :: u32) = 0"
    "and (push_bit 16 (ucast b)) (or (push_bit 8 (ucast c)) (ucast d :: u32)) = 0"
    "and (push_bit 24 (ucast a)) (or (push_bit 16 (ucast b)) (or (push_bit 8 (ucast c)) (ucast d :: u32))) = 0"
    by (rule bit_word_eqI; auto simp: bit_simps dest: bit_imp_le_length)+
  then show ?thesis by (simp add: of_be32_def disjunctive_add_eq_or)
qed

lemma unat_of_be32: "unat (of_be32 a b c d) = unat a * 2 ^ 24 + unat b * 2 ^ 16 + unat c * 2 ^ 8 + unat d"
proof -
  have b: "unat a < 256" "unat b < 256" "unat c < 256" "unat d < 256"
    using unat_less_pow [of a] unat_less_pow [of b] unat_less_pow [of c] unat_less_pow [of d] by simp_all
  have "of_be32 a b c d = of_nat (unat a * 2 ^ 24 + unat b * 2 ^ 16 + unat c * 2 ^ 8 + unat d)"
    by (simp add: of_be32_sum push_bit_eq_mult ac_simps)
  then have "unat (of_be32 a b c d) = unat (of_nat (unat a * 2 ^ 24 + unat b * 2 ^ 16 + unat c * 2 ^ 8 + unat d) :: u32)"
    by (rule arg_cong)
  also have "\<dots> = unat a * 2 ^ 24 + unat b * 2 ^ 16 + unat c * 2 ^ 8 + unat d"
    by (rule unat_of_nat_less) (use b in simp)
  finally show ?thesis .
qed

lemma length_put [simp]: "length (put buf off bs) = length buf"
  by (simp add: put_def)

lemma put_in_range: "off + length bs \<le> length buf \<Longrightarrow> put buf off bs = take off buf @ bs @ drop (off + length bs) buf"
  by (simp add: put_def)

lemma nth_put:
  "off + length bs \<le> length buf \<Longrightarrow> i < length buf \<Longrightarrow>
   put buf off bs ! i = (if off \<le> i \<and> i < off + length bs then bs ! (i - off) else buf ! i)"
  by (auto simp: put_in_range nth_append)

lemma take_put: "n \<le> off \<Longrightarrow> take n (put buf off bs) = take n buf"
  by (simp add: put_def min_def)

text \<open>A write right behind what is kept extends it.\<close>

lemma take_put_grow:
  "off + length bs \<le> length buf \<Longrightarrow> take (off + length bs) (put buf off bs) = take off buf @ bs"
  by (simp add: put_in_range)

lemma length_put_all [simp]: "length (put_all buf ws) = length buf"
  by (induction buf ws rule: put_all.induct) auto

lemma take_put_any: "off + length bs \<le> n \<Longrightarrow> n \<le> length buf \<Longrightarrow> take n (put buf off bs) = put (take n buf) off bs"
proof (cases "n \<le> off")
  assume "off + length bs \<le> n" "n \<le> length buf" "n \<le> off"
  then have "off = n" "length bs = 0" by linarith+
  with \<open>n \<le> length buf\<close> show "take n (put buf off bs) = put (take n buf) off bs" by (simp add: put_def)
qed (simp add: put_def min_def take_drop)

lemma take_put_all:
  "writes_in_range n ws \<Longrightarrow> n \<le> length buf \<Longrightarrow> take n (put_all buf ws) = put_all (take n buf) ws"
  by (induction buf ws rule: put_all.induct) (auto simp: writes_in_range_def take_put_any)

text \<open>What is at a position after a sequence of writes: the last one that covers it.\<close>

fun written :: "u8 \<Rightarrow> nat \<Rightarrow> (nat \<times> bytes) list \<Rightarrow> u8" where
  "written d i [] = d"
| "written d i ((off, bs) # ws) = written (if off \<le> i \<and> i < off + length bs then bs ! (i - off) else d) i ws"

lemma nth_put_all:
  "writes_in_range (length buf) ws \<Longrightarrow> i < length buf \<Longrightarrow> put_all buf ws ! i = written (buf ! i) i ws"
  by (induction buf ws rule: put_all.induct) (auto simp: writes_in_range_def nth_put)

lemma put_all_append: "put_all buf (ws @ vs) = put_all (put_all buf ws) vs"
  by (induction buf ws rule: put_all.induct) auto

section \<open>Encoders\<close>

text \<open>An encoder step that extends the written prefix by \<open>bs\<close>, or fails with a \<open>P\<close> error when it does not fit.\<close>

definition appends :: "('e \<Rightarrow> bool) \<Rightarrow> (nat \<Rightarrow> (bytes, 'e, nat) prog) \<Rightarrow> bytes \<Rightarrow> bool" where
  "appends P enc bs \<longleftrightarrow> (\<forall>pos buf. pos \<le> length buf \<longrightarrow>
    (if pos + length bs \<le> length buf
     then (\<exists>buf'. enc pos buf = (Inr (pos + length bs), buf') \<and> length buf' = length buf \<and>
                  take (pos + length bs) buf' = take pos buf @ bs)
     else \<exists>x. fst (enc pos buf) = Inl x \<and> P x))"

lemma appends_ok: "appends P ok []"
  by (auto simp: appends_def ok_def)

lemma appends_then:
  assumes "appends P e bs" and "appends P f cs"
  shows "appends P (\<lambda>pos. andThen (e pos) f) (bs @ cs)"
proof (unfold appends_def, intro allI impI)
  fix pos buf assume pos: "pos \<le> length (buf :: bytes)"
  have e: "pos + length bs \<le> length buf \<Longrightarrow> \<exists>b. e pos buf = (Inr (pos + length bs), b) \<and>
      length b = length buf \<and> take (pos + length bs) b = take pos buf @ bs"
    "\<not> pos + length bs \<le> length buf \<Longrightarrow> \<exists>x. fst (e pos buf) = Inl x \<and> P x"
    using assms(1) pos by (auto simp: appends_def)
  show "if pos + length (bs @ cs) \<le> length buf
      then \<exists>b. andThen (e pos) f buf = (Inr (pos + length (bs @ cs)), b) \<and> length b = length buf \<and>
        take (pos + length (bs @ cs)) b = take pos buf @ bs @ cs
      else \<exists>x. fst (andThen (e pos) f buf) = Inl x \<and> P x"
  proof (cases "pos + length bs \<le> length buf")
    case True
    then obtain b where b: "e pos buf = (Inr (pos + length bs), b)" "length b = length buf"
      "take (pos + length bs) b = take pos buf @ bs" using e(1) by auto
    show ?thesis
    proof (cases "pos + length bs + length cs \<le> length buf")
      case fits: True
      then obtain c where "f (pos + length bs) b = (Inr (pos + length bs + length cs), c)" "length c = length b"
        "take (pos + length bs + length cs) c = take (pos + length bs) b @ cs"
        using assms(2) b(2) True unfolding appends_def by (metis (no_types, lifting))
      with b fits show ?thesis by (simp add: andThen_def add.assoc)
    next
      case False
      then have "\<exists>x. fst (f (pos + length bs) b) = Inl x \<and> P x"
        using assms(2) b(2) True unfolding appends_def by (metis (no_types, lifting))
      with b False show ?thesis by (cases "f (pos + length bs) b") (auto simp: andThen_def)
    qed
  next
    case False
    with e(2) show ?thesis by (cases "e pos buf") (auto simp: andThen_def)
  qed
qed

lemma appendsD:
  assumes "appends P e bs" "pos \<le> length buf"
  shows "pos + length bs \<le> length buf \<Longrightarrow> \<exists>b. e pos buf = (Inr (pos + length bs), b) \<and> length b = length buf \<and>
      take (pos + length bs) b = take pos buf @ bs"
    and "\<not> pos + length bs \<le> length buf \<Longrightarrow> \<exists>x. fst (e pos buf) = Inl x \<and> P x"
  using assms by (auto simp: appends_def)

lemma appends_cong: "appends P e bs \<Longrightarrow> bs = cs \<Longrightarrow> appends P e cs"
  by simp

text \<open>Little-endian integers.\<close>

definition le16 :: "u16 \<Rightarrow> bytes" where
  "le16 w = rev (be16 w)"

definition of_le16 :: "u8 \<Rightarrow> u8 \<Rightarrow> u16" where
  "of_le16 a b = of_be16 b a"

definition le32 :: "u32 \<Rightarrow> bytes" where
  "le32 w = rev (be32 w)"

definition of_le32 :: "u8 \<Rightarrow> u8 \<Rightarrow> u8 \<Rightarrow> u8 \<Rightarrow> u32" where
  "of_le32 a b c d = of_be32 d c b a"

lemma length_le [simp]: "length (le16 v) = 2" "length (le32 w) = 4"
  by (simp_all add: le16_def le32_def)

lemma unat_of_nat_u8: "n < 256 \<Longrightarrow> unat (of_nat n :: u8) = n"
  by (rule unat_of_nat_less) simp

end
