(* ===== verification/Portal_Dhcp.thy ===== *)
theory Portal_Dhcp
  imports Net_Bytes
begin

text \<open>
  The DHCP server of the provisioning access point
  (\<^verbatim>\<open>rustyfarian-esp-hal-network/src/provisioning/dhcp.rs\<close>): codec, lease table, the decision on a
  request, and the body of the server loop from the received datagram to the reply.  The socket is the
  sequence of datagrams with the second at which each is handled.

  The lemmas show that the option parser reads the tag-length-value grammar and nothing else, that what
  the encoders write is what the decoder reads, and that over a whole run of the server addresses are
  exclusive: with no more clients than addresses, no lease changes hands before it has expired.
\<close>

section \<open>Model: constants and data\<close>

definition BOOTP_FIXED_LEN :: nat where "BOOTP_FIXED_LEN = 236"
definition MAGIC_COOKIE :: bytes where "MAGIC_COOKIE = [0x63, 0x82, 0x53, 0x63]"
definition PACKET_BUF :: nat where "PACKET_BUF = 548"
definition SOCKET_BUF_LEN :: nat where "SOCKET_BUF_LEN = 1024"
definition OP_REQUEST :: u8 where "OP_REQUEST = 1"
definition OP_REPLY :: u8 where "OP_REPLY = 2"
definition HTYPE_ETHERNET :: u8 where "HTYPE_ETHERNET = 1"
definition HLEN_ETHERNET :: u8 where "HLEN_ETHERNET = 6"
definition OPT_PAD :: u8 where "OPT_PAD = 0"
definition OPT_SUBNET_MASK :: u8 where "OPT_SUBNET_MASK = 1"
definition OPT_ROUTER :: u8 where "OPT_ROUTER = 3"
definition OPT_DNS :: u8 where "OPT_DNS = 6"
definition OPT_REQUESTED_IP :: u8 where "OPT_REQUESTED_IP = 50"
definition OPT_LEASE_TIME :: u8 where "OPT_LEASE_TIME = 51"
definition OPT_MSG_TYPE :: u8 where "OPT_MSG_TYPE = 53"
definition OPT_SERVER_ID :: u8 where "OPT_SERVER_ID = 54"
definition OPT_CLIENT_ID :: u8 where "OPT_CLIENT_ID = 61"
definition OPT_END :: u8 where "OPT_END = 255"
definition MSG_DISCOVER :: u8 where "MSG_DISCOVER = 1"
definition MSG_OFFER :: u8 where "MSG_OFFER = 2"
definition MSG_REQUEST :: u8 where "MSG_REQUEST = 3"
definition MSG_DECLINE :: u8 where "MSG_DECLINE = 4"
definition MSG_ACK :: u8 where "MSG_ACK = 5"
definition MSG_NAK :: u8 where "MSG_NAK = 6"

record dhcp_config =
  dc_server_ip :: ipv4_addr
  dc_subnet_mask :: ipv4_addr
  dc_pool_start :: ipv4_addr
  dc_pool_end :: ipv4_addr
  dc_lease_secs :: u32

definition dhcp_config_default :: dhcp_config where
  "dhcp_config_default = \<lparr>dc_server_ip = Ipv4Addr 192 168 4 1, dc_subnet_mask = Ipv4Addr 255 255 255 0,
     dc_pool_start = Ipv4Addr 192 168 4 10, dc_pool_end = Ipv4Addr 192 168 4 20, dc_lease_secs = 300\<rparr>"

datatype dhcp_error = TooShort | BadMagicCookie | BadHardwareType | MissingMessageType | MalformedOptions | BufferTooSmall

record parsed_options =
  po_message_type :: "u8 option"
  po_requested_ip :: "ipv4_addr option"
  po_server_id :: "ipv4_addr option"
  po_client_id :: "bytes option"
  po_client_id_len :: u8

definition no_options :: parsed_options where
  "no_options = \<lparr>po_message_type = None, po_requested_ip = None, po_server_id = None,
     po_client_id = None, po_client_id_len = 0\<rparr>"

record dhcp_message =
  dm_op :: u8
  dm_htype :: u8
  dm_hlen :: u8
  dm_xid :: u32
  dm_ciaddr :: ipv4_addr
  dm_yiaddr :: ipv4_addr
  dm_siaddr :: ipv4_addr
  dm_chaddr :: mac
  dm_options :: parsed_options

section \<open>Model: codec\<close>

text \<open>The match on the tag of one option; the value is as long as its length byte says.\<close>

definition read_option :: "u8 \<Rightarrow> bytes \<Rightarrow> parsed_options \<Rightarrow> parsed_options" where
  "read_option tag val opts =
     (let len = length val in
      if tag = OPT_MSG_TYPE \<and> 1 \<le> len then opts\<lparr>po_message_type := Some (val ! 0)\<rparr>
      else if tag = OPT_REQUESTED_IP \<and> len = 4
        then opts\<lparr>po_requested_ip := Some (Ipv4Addr (val ! 0) (val ! 1) (val ! 2) (val ! 3))\<rparr>
      else if tag = OPT_SERVER_ID \<and> len = 4
        then opts\<lparr>po_server_id := Some (Ipv4Addr (val ! 0) (val ! 1) (val ! 2) (val ! 3))\<rparr>
      else if tag = OPT_CLIENT_ID
        then (let copy_len = min len 16
              in opts\<lparr>po_client_id := Some (take copy_len val @ replicate (16 - copy_len) 0),
                      po_client_id_len := of_nat copy_len\<rparr>)
      else opts)"

text \<open>The loop, on what is left of the buffer.\<close>

function parse_from :: "parsed_options \<Rightarrow> bytes \<Rightarrow> dhcp_error + parsed_options" where
  "parse_from opts [] = Inr opts"
| "parse_from opts (tag # buf) =
     (if tag = OPT_END then Inr opts
      else if tag = OPT_PAD then parse_from opts buf
      else case buf of
          [] \<Rightarrow> Inl MalformedOptions
        | len # rest \<Rightarrow>
            if length rest < unat len then Inl MalformedOptions
            else parse_from (read_option tag (take (unat len) rest) opts) (drop (unat len) rest))"
  by pat_completeness auto
termination by (relation "measure (\<lambda>(_, buf). length buf)") auto

definition parse_options :: "bytes \<Rightarrow> dhcp_error + parsed_options" where
  "parse_options buf = parse_from no_options buf"

abbreviation ipv4_at :: "bytes \<Rightarrow> nat \<Rightarrow> ipv4_addr" where
  "ipv4_at buf i \<equiv> Ipv4Addr (buf ! i) (buf ! (i + 1)) (buf ! (i + 2)) (buf ! (i + 3))"

definition decode :: "bytes \<Rightarrow> dhcp_error + dhcp_message" where
  "decode buf =
     (if length buf < BOOTP_FIXED_LEN + length MAGIC_COOKIE then Inl TooShort
      else if take 4 (drop BOOTP_FIXED_LEN buf) \<noteq> MAGIC_COOKIE then Inl BadMagicCookie
      else if buf ! 1 \<noteq> HTYPE_ETHERNET \<or> buf ! 2 \<noteq> HLEN_ETHERNET then Inl BadHardwareType
      else case parse_options (drop (BOOTP_FIXED_LEN + 4) buf) of
          Inl e \<Rightarrow> Inl e
        | Inr options \<Rightarrow>
            if po_message_type options = None then Inl MissingMessageType
            else Inr \<lparr>dm_op = buf ! 0, dm_htype = buf ! 1, dm_hlen = buf ! 2,
                      dm_xid = of_be32 (buf ! 4) (buf ! 5) (buf ! 6) (buf ! 7),
                      dm_ciaddr = ipv4_at buf 12, dm_yiaddr = ipv4_at buf 16, dm_siaddr = ipv4_at buf 20,
                      dm_chaddr = Mac (buf ! 28) (buf ! 29) (buf ! 30) (buf ! 31) (buf ! 32) (buf ! 33),
                      dm_options = options\<rparr>)"

text \<open>The encoders own the buffer: programs whose state is the buffer.\<close>

type_synonym 'a encoder = "(bytes, dhcp_error, 'a) prog"

definition write_option :: "nat \<Rightarrow> u8 \<Rightarrow> bytes \<Rightarrow> nat encoder" where
  "write_option offset tag val = (\<lambda>buf.
     let needed = 2 + length val in
     if length buf < offset + needed then (Inl BufferTooSmall, buf)
     else (Inr (offset + needed), put_all buf [(offset, [tag]), (offset + 1, [of_nat (length val)]), (offset + 2, val)]))"

text \<open>The length check, the zeroing of the buffer, the fixed header and the magic cookie.\<close>

definition write_header :: "(nat \<times> bytes) list \<Rightarrow> nat encoder" where
  "write_header fs = (\<lambda>buf.
     if length buf < BOOTP_FIXED_LEN + 4 then (Inl BufferTooSmall, buf)
     else (Inr (BOOTP_FIXED_LEN + 4),
           put_all (put buf 0 (replicate (min PACKET_BUF (length buf)) 0)) (fs @ [(BOOTP_FIXED_LEN, MAGIC_COOKIE)])))"

definition write_end :: "nat \<Rightarrow> nat encoder" where
  "write_end pos = (\<lambda>buf. if length buf \<le> pos then (Inl BufferTooSmall, buf) else (Inr (pos + 1), put buf pos [OPT_END]))"

definition reply_fields :: "dhcp_message \<Rightarrow> ipv4_addr \<Rightarrow> (nat \<times> bytes) list" where
  "reply_fields msg server_ip =
     [(0, [dm_op msg]), (1, [dm_htype msg]), (2, [dm_hlen msg]), (3, [0]), (4, be32 (dm_xid msg))] @
     (if is_unspecified (dm_ciaddr msg) then [(10, [0x80]), (11, [0])] else []) @
     [(12, octets (dm_ciaddr msg)), (16, octets (dm_yiaddr msg)), (20, octets server_ip),
      (28, mac_bytes (dm_chaddr msg))]"

definition encode_offer_or_ack :: "dhcp_message \<Rightarrow> ipv4_addr \<Rightarrow> ipv4_addr \<Rightarrow> u32 \<Rightarrow> nat encoder" where
  "encode_offer_or_ack msg server_ip subnet_mask lease_secs =
     andThen (write_header (reply_fields msg server_ip)) (\<lambda>pos.
     andThen (case po_message_type (dm_options msg) of
                Some mt \<Rightarrow> write_option pos OPT_MSG_TYPE [mt] | None \<Rightarrow> ok pos) (\<lambda>pos.
     andThen (write_option pos OPT_SERVER_ID (octets server_ip)) (\<lambda>pos.
     andThen (write_option pos OPT_LEASE_TIME (be32 lease_secs)) (\<lambda>pos.
     andThen (write_option pos OPT_SUBNET_MASK (octets subnet_mask)) (\<lambda>pos.
     andThen (write_option pos OPT_ROUTER (octets server_ip)) (\<lambda>pos.
     andThen (write_option pos OPT_DNS (octets server_ip))
     write_end))))))"

definition nak_fields :: "dhcp_message \<Rightarrow> (nat \<times> bytes) list" where
  "nak_fields msg =
     [(0, [OP_REPLY]), (1, [dm_htype msg]), (2, [dm_hlen msg]), (3, [0]), (4, be32 (dm_xid msg)),
      (10, [0x80]), (11, [0]), (28, mac_bytes (dm_chaddr msg))]"

definition encode_nak :: "dhcp_message \<Rightarrow> ipv4_addr \<Rightarrow> nat encoder" where
  "encode_nak msg server_ip =
     andThen (write_header (nak_fields msg)) (\<lambda>pos.
     andThen (write_option pos OPT_MSG_TYPE [MSG_NAK]) (\<lambda>pos.
     andThen (write_option pos OPT_SERVER_ID (octets server_ip))
     write_end))"

section \<open>Model: leases\<close>

definition POOL_SIZE :: nat where "POOL_SIZE = 11"

record lease =
  le_mac :: mac
  offered_at_secs :: u64

record lease_table =
  lt_entries :: "lease option list"
  lt_pool_start :: ipv4_addr
  lt_lease_secs :: u32

definition leases_new :: "ipv4_addr \<Rightarrow> u32 \<Rightarrow> lease_table" where
  "leases_new pool_start lease_secs =
     \<lparr>lt_entries = replicate POOL_SIZE None, lt_pool_start = pool_start, lt_lease_secs = lease_secs\<rparr>"

fun index_in_pool :: "ipv4_addr \<Rightarrow> ipv4_addr \<Rightarrow> nat option" where
  "index_in_pool (Ipv4Addr p0 p1 p2 p3) (Ipv4Addr a0 a1 a2 a3) =
     (if a0 \<noteq> p0 \<or> a1 \<noteq> p1 \<or> a2 \<noteq> p2 then None
      else if a3 < p3 then None
      else if unat (a3 - p3) < POOL_SIZE then Some (unat (a3 - p3)) else None)"

definition index_of :: "lease_table \<Rightarrow> ipv4_addr \<Rightarrow> nat option" where
  "index_of t a = index_in_pool (lt_pool_start t) a"

fun pool_addr :: "ipv4_addr \<Rightarrow> nat \<Rightarrow> ipv4_addr" where
  "pool_addr (Ipv4Addr p0 p1 p2 p3) i = Ipv4Addr p0 p1 p2 (p3 + of_nat i)"

definition addr_of :: "lease_table \<Rightarrow> nat \<Rightarrow> ipv4_addr" where
  "addr_of t i = pool_addr (lt_pool_start t) i"

text \<open>The subtraction saturates.\<close>

definition is_expired :: "lease_table \<Rightarrow> lease \<Rightarrow> u64 \<Rightarrow> bool" where
  "is_expired t l now = (unat (lt_lease_secs t) \<le> unat now - unat (offered_at_secs l))"

definition find_by_mac :: "lease_table \<Rightarrow> mac \<Rightarrow> nat option" where
  "find_by_mac t mac = position (\<lambda>e. case e of Some l \<Rightarrow> le_mac l = mac | None \<Rightarrow> False) (lt_entries t)"

definition available :: "lease_table \<Rightarrow> u64 \<Rightarrow> lease option \<Rightarrow> bool" where
  "available t now e = (case e of None \<Rightarrow> True | Some l \<Rightarrow> is_expired t l now)"

definition claim :: "lease_table \<Rightarrow> nat \<Rightarrow> mac \<Rightarrow> u64 \<Rightarrow> lease_table" where
  "claim t i mac now = t\<lparr>lt_entries := (lt_entries t)[i := Some \<lparr>le_mac = mac, offered_at_secs = now\<rparr>]\<rparr>"

text \<open>\<^verbatim>\<open>min_by_key\<close> over the taken slots: the first of the smallest.\<close>

fun oldest_from :: "nat \<Rightarrow> (nat \<times> u64) option \<Rightarrow> lease option list \<Rightarrow> (nat \<times> u64) option" where
  "oldest_from i best [] = best"
| "oldest_from i best (None # es) = oldest_from (Suc i) best es"
| "oldest_from i None (Some l # es) = oldest_from (Suc i) (Some (i, offered_at_secs l)) es"
| "oldest_from i (Some (j, ts)) (Some l # es) =
     oldest_from (Suc i) (Some (if offered_at_secs l < ts then (i, offered_at_secs l) else (j, ts))) es"

definition oldest_idx :: "lease_table \<Rightarrow> nat option" where
  "oldest_idx t = map_option fst (oldest_from 0 None (lt_entries t))"

text \<open>Steps 3 and 4, and the whole allocation.\<close>

definition allocate_any :: "lease_table \<Rightarrow> mac \<Rightarrow> u64 \<Rightarrow> ipv4_addr option \<times> lease_table" where
  "allocate_any t mac now =
     (case position (available t now) (lt_entries t) of
        Some i \<Rightarrow> (Some (addr_of t i), claim t i mac now)
      | None \<Rightarrow> (case oldest_idx t of
            Some i \<Rightarrow> (Some (addr_of t i), claim t i mac now)
          | None \<Rightarrow> (None, t)))"

definition allocate :: "lease_table \<Rightarrow> mac \<Rightarrow> ipv4_addr option \<Rightarrow> u64 \<Rightarrow> ipv4_addr option \<times> lease_table" where
  "allocate t mac requested now =
     (case find_by_mac t mac of
        Some i \<Rightarrow> (Some (addr_of t i), claim t i mac now)
      | None \<Rightarrow> (case requested of
            Some req \<Rightarrow> (case index_of t req of
                Some i \<Rightarrow> if available t now (lt_entries t ! i) then (Some req, claim t i mac now)
                          else allocate_any t mac now
              | None \<Rightarrow> allocate_any t mac now)
          | None \<Rightarrow> allocate_any t mac now))"

datatype request_outcome = Ack ipv4_addr | Nak | DropRequest | IgnoreRequest

definition explicit_addr :: "dhcp_message \<Rightarrow> ipv4_addr option" where
  "explicit_addr msg = (case po_requested_ip (dm_options msg) of
       Some a \<Rightarrow> Some a
     | None \<Rightarrow> if \<not> is_unspecified (dm_ciaddr msg) then Some (dm_ciaddr msg) else None)"

definition decide_request :: "dhcp_message \<Rightarrow> lease_table \<Rightarrow> ipv4_addr \<Rightarrow> u64 \<Rightarrow> request_outcome \<times> lease_table" where
  "decide_request msg t server_ip now =
     (if (case po_server_id (dm_options msg) of Some sid \<Rightarrow> sid \<noteq> server_ip | None \<Rightarrow> False) then (IgnoreRequest, t)
      else if explicit_addr msg = None \<and> find_by_mac t (dm_chaddr msg) = None then (DropRequest, t)
      else case allocate t (dm_chaddr msg) (explicit_addr msg) now of
          (None, t') \<Rightarrow> (Nak, t')
        | (Some offered_ip, t') \<Rightarrow>
            (case explicit_addr msg of
               Some req \<Rightarrow> if req \<noteq> offered_ip \<and> \<not> is_unspecified req then (Nak, t') else (Ack offered_ip, t')
             | None \<Rightarrow> (Ack offered_ip, t')))"

section \<open>Model: server\<close>

datatype pool_error = SizeMismatch nat nat | CrossesSubnet

fun addr_u32 :: "ipv4_addr \<Rightarrow> u32" where
  "addr_u32 (Ipv4Addr a b c d) = of_be32 a b c d"

fun same_subnet :: "ipv4_addr \<Rightarrow> ipv4_addr \<Rightarrow> bool" where
  "same_subnet (Ipv4Addr a b c d) (Ipv4Addr a' b' c' d') = (a = a' \<and> b = b' \<and> c = c')"

definition validate_pool_geometry :: "ipv4_addr \<Rightarrow> ipv4_addr \<Rightarrow> nat \<Rightarrow> pool_error + unit" where
  "validate_pool_geometry pool_start pool_end pool_size =
     (let s = unat (addr_u32 pool_start); e = unat (addr_u32 pool_end);
          configured = min (e - s + 1) (2 ^ 32 - 1)
      in if configured \<noteq> pool_size then Inl (SizeMismatch configured pool_size)
         else if \<not> same_subnet pool_start pool_end then Inl CrossesSubnet
         else Inr ())"

record dhcp_server =
  sv_leases :: lease_table
  sv_tx :: bytes

definition server_start :: "dhcp_config \<Rightarrow> dhcp_server option" where
  "server_start cfg = (case validate_pool_geometry (dc_pool_start cfg) (dc_pool_end cfg) POOL_SIZE of
       Inl _ \<Rightarrow> None
     | Inr _ \<Rightarrow> Some \<lparr>sv_leases = leases_new (dc_pool_start cfg) (dc_lease_secs cfg), sv_tx = replicate PACKET_BUF 0\<rparr>)"

definition reply_message :: "dhcp_message \<Rightarrow> u8 \<Rightarrow> ipv4_addr \<Rightarrow> ipv4_addr \<Rightarrow> dhcp_message" where
  "reply_message msg t ip server_ip =
     \<lparr>dm_op = OP_REPLY, dm_htype = HTYPE_ETHERNET, dm_hlen = HLEN_ETHERNET, dm_xid = dm_xid msg,
      dm_ciaddr = Ipv4Addr 0 0 0 0, dm_yiaddr = ip, dm_siaddr = server_ip, dm_chaddr = dm_chaddr msg,
      dm_options = no_options\<lparr>po_message_type := Some t\<rparr>\<rparr>"

text \<open>Runs an encoder over the transmit buffer; the datagram is what it reports written.\<close>

definition send_encoded :: "nat encoder \<Rightarrow> dhcp_server \<Rightarrow> bytes option \<times> dhcp_server" where
  "send_encoded enc sv = (case enc (sv_tx sv) of
       (Inr len, tx) \<Rightarrow> (Some (take len tx), sv\<lparr>sv_tx := tx\<rparr>)
     | (Inl _, tx) \<Rightarrow> (None, sv\<lparr>sv_tx := tx\<rparr>))"

definition send_lease :: "dhcp_config \<Rightarrow> dhcp_message \<Rightarrow> u8 \<Rightarrow> ipv4_addr \<Rightarrow> dhcp_server \<Rightarrow> bytes option \<times> dhcp_server" where
  "send_lease cfg msg t ip = send_encoded
     (encode_offer_or_ack (reply_message msg t ip (dc_server_ip cfg)) (dc_server_ip cfg) (dc_subnet_mask cfg) (dc_lease_secs cfg))"

text \<open>One turn of the loop, for a datagram that is handled at second \<open>now\<close>.\<close>

definition handle_message :: "dhcp_config \<Rightarrow> u64 \<Rightarrow> dhcp_message \<Rightarrow> u8 \<Rightarrow> dhcp_server \<Rightarrow> bytes option \<times> dhcp_server" where
  "handle_message cfg now msg t sv =
     (if t = MSG_DISCOVER then
        (case allocate (sv_leases sv) (dm_chaddr msg) (po_requested_ip (dm_options msg)) now of
           (None, ls) \<Rightarrow> (None, sv\<lparr>sv_leases := ls\<rparr>)
         | (Some ip, ls) \<Rightarrow> send_lease cfg msg MSG_OFFER ip (sv\<lparr>sv_leases := ls\<rparr>))
      else if t = MSG_REQUEST then
        (case decide_request msg (sv_leases sv) (dc_server_ip cfg) now of
           (IgnoreRequest, ls) \<Rightarrow> (None, sv\<lparr>sv_leases := ls\<rparr>)
         | (DropRequest, ls) \<Rightarrow> (None, sv\<lparr>sv_leases := ls\<rparr>)
         | (Nak, ls) \<Rightarrow> send_encoded (encode_nak msg (dc_server_ip cfg)) (sv\<lparr>sv_leases := ls\<rparr>)
         | (Ack ip, ls) \<Rightarrow> send_lease cfg msg MSG_ACK ip (sv\<lparr>sv_leases := ls\<rparr>))
      else if t = MSG_DECLINE then
        (None, case find_by_mac (sv_leases sv) (dm_chaddr msg) of
           Some i \<Rightarrow> sv\<lparr>sv_leases := (sv_leases sv)\<lparr>lt_entries := (lt_entries (sv_leases sv))[i := None]\<rparr>\<rparr>
         | None \<Rightarrow> sv)
      else (None, sv))"

definition dhcp_turn :: "dhcp_config \<Rightarrow> dhcp_server \<Rightarrow> u64 \<times> bytes \<Rightarrow> bytes option \<times> dhcp_server" where
  "dhcp_turn cfg sv inp =
     (case inp of (now, rx_pkt) \<Rightarrow>
       (case decode rx_pkt of
          Inl _ \<Rightarrow> (None, sv)
        | Inr msg \<Rightarrow>
            if dm_op msg \<noteq> OP_REQUEST then (None, sv)
            else (case po_message_type (dm_options msg) of
                None \<Rightarrow> (None, sv)
              | Some t \<Rightarrow> handle_message cfg now msg t sv)))"

section \<open>The option grammar\<close>

datatype option_item = Pad | Tlv u8 bytes

fun item_bytes :: "option_item \<Rightarrow> bytes" where
  "item_bytes Pad = [OPT_PAD]"
| "item_bytes (Tlv tag val) = tag # of_nat (length val) # val"

fun item_ok :: "option_item \<Rightarrow> bool" where
  "item_ok Pad = True"
| "item_ok (Tlv tag val) \<longleftrightarrow> tag \<noteq> OPT_PAD \<and> tag \<noteq> OPT_END \<and> length val < 256"

fun read_item :: "option_item \<Rightarrow> parsed_options \<Rightarrow> parsed_options" where
  "read_item Pad opts = opts"
| "read_item (Tlv tag val) opts = read_option tag val opts"

lemma parse_from_item:
  "item_ok it \<Longrightarrow> parse_from opts (item_bytes it @ rest) = parse_from (read_item it opts) rest"
  by (cases it) (simp_all add: unat_of_nat_u8 OPT_PAD_def OPT_END_def)

lemma parse_from_items:
  "list_all item_ok items \<Longrightarrow>
   parse_from opts (concat (map item_bytes items) @ rest) = parse_from (fold read_item items opts) rest"
  by (induction items arbitrary: opts) (simp_all add: parse_from_item)

lemma parse_from_end: "tail = [] \<or> hd tail = OPT_END \<Longrightarrow> parse_from opts tail = Inr opts"
  by (cases tail) auto

lemma parse_from_grammar:
  "parse_from opts buf = Inr opts' \<Longrightarrow> \<exists>items tail. list_all item_ok items \<and>
     buf = concat (map item_bytes items) @ tail \<and> (tail = [] \<or> hd tail = OPT_END) \<and> opts' = fold read_item items opts"
proof (induction opts buf rule: parse_from.induct)
  case (1 opts)
  then show ?case by (intro exI [of _ "[]"]) simp
next
  case (2 opts tag buf)
  consider "tag = OPT_END" | "tag \<noteq> OPT_END" "tag = OPT_PAD"
    | len rest where "tag \<noteq> OPT_END" "tag \<noteq> OPT_PAD" "buf = len # rest" "unat len \<le> length rest"
    using "2.prems" by (fastforce split: if_splits list.splits)
  then show ?case
  proof cases
    case 1
    with "2.prems" show ?thesis by (intro exI [of _ "[]"] exI [of _ "tag # buf"]) simp
  next
    case 2
    with "2.IH"(1) "2.prems" obtain items tail where
      "list_all item_ok items" "buf = concat (map item_bytes items) @ tail" "tail = [] \<or> hd tail = OPT_END"
      "opts' = fold read_item items opts" by auto
    with 2 show ?thesis by (intro exI [of _ "Pad # items"] exI [of _ tail]) simp
  next
    case 3
    have n: "unat len < 256" using unat_less_pow [of len] by simp
    from 3 "2.IH"(2) "2.prems" obtain items tail where
      it: "list_all item_ok items" "drop (unat len) rest = concat (map item_bytes items) @ tail"
        "tail = [] \<or> hd tail = OPT_END" "opts' = fold read_item items (read_option tag (take (unat len) rest) opts)"
      by auto
    have "tag # buf = item_bytes (Tlv tag (take (unat len) rest)) @ concat (map item_bytes items) @ tail"
      using 3 it(2) append_take_drop_id [of "unat len" rest] by (simp add: min_def)
    with 3 n it show ?thesis by (intro exI [of _ "Tlv tag (take (unat len) rest) # items"] exI [of _ tail]) simp
  qed
qed

section \<open>What the encoders write\<close>

lemma appends_option: "appends ((=) BufferTooSmall) (\<lambda>pos. write_option pos tag val) (tag # of_nat (length val) # val)"
proof -
  have "take (pos + 2 + length val) (put_all buf [(pos, [tag]), (pos + 1, [of_nat (length val)]), (pos + 2, val)])
      = take pos buf @ tag # of_nat (length val) # val" if "pos + 2 + length val \<le> length buf" for pos buf
  proof -
    let ?b1 = "put buf pos [tag]" let ?b2 = "put ?b1 (pos + 1) [of_nat (length val)]"
    have "take (pos + 1) ?b1 = take pos buf @ [tag]"
      using take_put_grow [of pos "[tag]" buf] that by simp
    moreover have "take (pos + 2) ?b2 = take (pos + 1) ?b1 @ [of_nat (length val)]"
      using take_put_grow [of "pos + 1" "[of_nat (length val)]" ?b1] that by simp
    ultimately show ?thesis
      using take_put_grow [of "pos + 2" val ?b2] that by simp
  qed
  then show ?thesis by (auto simp: appends_def write_option_def Let_def)
qed

lemma appends_end: "appends ((=) BufferTooSmall) write_end [OPT_END]"
  using take_put_grow [of _ "[OPT_END]"] by (auto simp: appends_def write_end_def)

text \<open>The header is written into the first 240 bytes only, whatever was there.\<close>

definition header_bytes :: "(nat \<times> bytes) list \<Rightarrow> bytes" where
  "header_bytes fs = put_all (replicate 240 0) (fs @ [(BOOTP_FIXED_LEN, MAGIC_COOKIE)])"

lemma length_header_bytes [simp]: "length (header_bytes fs) = 240"
  by (simp add: header_bytes_def)

lemma header_written:
  assumes "240 \<le> length buf" and "writes_in_range 236 fs"
  shows "\<exists>b. write_header fs buf = (Inr 240, b) \<and> length b = length buf \<and> take 240 b = header_bytes fs"
proof -
  let ?z = "put buf 0 (replicate (min PACKET_BUF (length buf)) 0)"
  let ?ws = "fs @ [(BOOTP_FIXED_LEN, MAGIC_COOKIE)]"
  have "take 240 ?z = replicate 240 0"
    using assms(1) by (simp add: put_in_range PACKET_BUF_def min_def)
  moreover have "writes_in_range 240 ?ws"
    using assms(2) by (auto simp: writes_in_range_def BOOTP_FIXED_LEN_def MAGIC_COOKIE_def list_all_iff)
  ultimately have "take 240 (put_all ?z ?ws) = header_bytes fs"
    using assms(1) by (simp add: take_put_all header_bytes_def)
  with assms(1) show ?thesis by (simp add: write_header_def BOOTP_FIXED_LEN_def)
qed

lemma header_rejected: "length buf < 240 \<Longrightarrow> fst (write_header fs buf) = Inl BufferTooSmall"
  by (simp add: write_header_def BOOTP_FIXED_LEN_def)

definition lease_options :: "u8 option \<Rightarrow> ipv4_addr \<Rightarrow> ipv4_addr \<Rightarrow> u32 \<Rightarrow> bytes" where
  "lease_options t server_ip snet secs =
     (case t of Some mt \<Rightarrow> [OPT_MSG_TYPE, 1, mt] | None \<Rightarrow> []) @
     [OPT_SERVER_ID, 4] @ octets server_ip @ [OPT_LEASE_TIME, 4] @ be32 secs @ [OPT_SUBNET_MASK, 4] @ octets snet @
     [OPT_ROUTER, 4] @ octets server_ip @ [OPT_DNS, 4] @ octets server_ip @ [OPT_END]"

lemma encoder_output:
  assumes "appends ((=) BufferTooSmall) opts bs" and "writes_in_range 236 fs"
  shows "240 + length bs \<le> length buf \<Longrightarrow>
      \<exists>b. andThen (write_header fs) opts buf = (Inr (240 + length bs), b) \<and> length b = length buf \<and>
          take (240 + length bs) b = header_bytes fs @ bs"
    and "\<not> 240 + length bs \<le> length buf \<Longrightarrow> fst (andThen (write_header fs) opts buf) = Inl BufferTooSmall"
proof -
  assume fits: "240 + length bs \<le> length buf"
  then obtain b where b: "write_header fs buf = (Inr 240, b)" "length b = length buf" "take 240 b = header_bytes fs"
    using header_written [of buf fs] assms(2) by auto
  with fits appendsD(1) [OF assms(1), of 240 b] show
    "\<exists>b. andThen (write_header fs) opts buf = (Inr (240 + length bs), b) \<and> length b = length buf \<and>
         take (240 + length bs) b = header_bytes fs @ bs"
    by (auto simp: andThen_def)
next
  assume small: "\<not> 240 + length bs \<le> length buf"
  show "fst (andThen (write_header fs) opts buf) = Inl BufferTooSmall"
  proof (cases "240 \<le> length buf")
    case True
    then obtain b where b: "write_header fs buf = (Inr 240, b)" "length b = length buf"
      using header_written [of buf fs] assms(2) by auto
    with small True appendsD(2) [OF assms(1), of 240 b] show ?thesis
      by (cases "opts 240 b") (auto simp: andThen_def)
  next
    case False
    with header_rejected [of buf fs] show ?thesis by (cases "write_header fs buf") (auto simp: andThen_def)
  qed
qed

lemma reply_fields_in_range: "writes_in_range 236 (reply_fields msg ip)"
  by (simp add: writes_in_range_def reply_fields_def)

lemma nak_fields_in_range: "writes_in_range 236 (nak_fields msg)"
  by (simp add: writes_in_range_def nak_fields_def)

definition option_tail :: "dhcp_message \<Rightarrow> ipv4_addr \<Rightarrow> ipv4_addr \<Rightarrow> u32 \<Rightarrow> nat \<Rightarrow> nat encoder" where
  "option_tail msg server_ip subnet_mask lease_secs = (\<lambda>pos.
     andThen (case po_message_type (dm_options msg) of
                Some mt \<Rightarrow> write_option pos OPT_MSG_TYPE [mt] | None \<Rightarrow> ok pos) (\<lambda>pos.
     andThen (write_option pos OPT_SERVER_ID (octets server_ip)) (\<lambda>pos.
     andThen (write_option pos OPT_LEASE_TIME (be32 lease_secs)) (\<lambda>pos.
     andThen (write_option pos OPT_SUBNET_MASK (octets subnet_mask)) (\<lambda>pos.
     andThen (write_option pos OPT_ROUTER (octets server_ip)) (\<lambda>pos.
     andThen (write_option pos OPT_DNS (octets server_ip))
     write_end))))))"

lemma appends_option_tail:
  "appends ((=) BufferTooSmall) (option_tail msg ip snet secs) (lease_options (po_message_type (dm_options msg)) ip snet secs)"
proof -
  have mt: "appends ((=) BufferTooSmall) (\<lambda>pos. case po_message_type (dm_options msg) of
      Some mt \<Rightarrow> write_option pos OPT_MSG_TYPE [mt] | None \<Rightarrow> ok pos)
    (case po_message_type (dm_options msg) of Some mt \<Rightarrow> [OPT_MSG_TYPE, 1, mt] | None \<Rightarrow> [])"
    using appends_option [of OPT_MSG_TYPE "[mt]" for mt] appends_ok by (cases "po_message_type (dm_options msg)") auto
  show ?thesis
    unfolding option_tail_def
    by (rule appends_cong, (rule appends_then mt appends_option appends_end)+)
      (simp add: lease_options_def)
qed

lemma encode_offer_or_ack_output:
  "240 + length (lease_options (po_message_type (dm_options msg)) ip snet secs) \<le> length buf \<Longrightarrow>
   \<exists>b. encode_offer_or_ack msg ip snet secs buf =
         (Inr (240 + length (lease_options (po_message_type (dm_options msg)) ip snet secs)), b) \<and> length b = length buf \<and>
       take (240 + length (lease_options (po_message_type (dm_options msg)) ip snet secs)) b =
         header_bytes (reply_fields msg ip) @ lease_options (po_message_type (dm_options msg)) ip snet secs"
  using encoder_output(1) [OF appends_option_tail reply_fields_in_range]
  by (simp add: encode_offer_or_ack_def option_tail_def)

lemma encode_nak_output:
  "250 \<le> length buf \<Longrightarrow> \<exists>b. encode_nak msg ip buf = (Inr 250, b) \<and> length b = length buf \<and>
     take 250 b = header_bytes (nak_fields msg) @ [OPT_MSG_TYPE, 1, MSG_NAK, OPT_SERVER_ID, 4] @ octets ip @ [OPT_END]"
proof -
  have "appends ((=) BufferTooSmall) (\<lambda>pos. andThen (write_option pos OPT_MSG_TYPE [MSG_NAK]) (\<lambda>pos.
      andThen (write_option pos OPT_SERVER_ID (octets ip)) write_end))
    ([OPT_MSG_TYPE, 1, MSG_NAK, OPT_SERVER_ID, 4] @ octets ip @ [OPT_END])"
    by (rule appends_cong, (rule appends_then appends_option appends_end)+) simp
  from encoder_output(1) [OF this nak_fields_in_range, of buf msg]
  show "250 \<le> length buf \<Longrightarrow> ?thesis" by (simp add: encode_nak_def)
qed

text \<open>What the decoder reads behind a header.\<close>

lemma header_cookie: "take 4 (drop 236 (header_bytes fs)) = MAGIC_COOKIE"
proof -
  have "header_bytes fs = put (put_all (replicate 240 0) fs) 236 MAGIC_COOKIE"
    by (simp add: header_bytes_def put_all_append BOOTP_FIXED_LEN_def)
  then show ?thesis by (simp add: put_in_range MAGIC_COOKIE_def)
qed

lemma nth_header:
  "writes_in_range 236 fs \<Longrightarrow> i < 236 \<Longrightarrow> header_bytes fs ! i = written 0 i fs"
proof -
  assume fs: "writes_in_range 236 fs" and i: "i < 236"
  then have "writes_in_range (length (replicate 240 (0 :: u8))) fs"
    by (auto simp: writes_in_range_def list_all_iff)
  with i show ?thesis
    by (simp add: header_bytes_def put_all_append BOOTP_FIXED_LEN_def nth_put MAGIC_COOKIE_def nth_put_all)
qed

lemma decode_header:
  assumes "writes_in_range 236 fs" and "written 0 1 fs = HTYPE_ETHERNET" and "written 0 2 fs = HLEN_ETHERNET"
    and "parse_options rest = Inr options" and "po_message_type options \<noteq> None"
  shows "decode (header_bytes fs @ rest) = Inr \<lparr>dm_op = written 0 0 fs, dm_htype = HTYPE_ETHERNET, dm_hlen = HLEN_ETHERNET,
      dm_xid = of_be32 (written 0 4 fs) (written 0 5 fs) (written 0 6 fs) (written 0 7 fs),
      dm_ciaddr = Ipv4Addr (written 0 12 fs) (written 0 13 fs) (written 0 14 fs) (written 0 15 fs),
      dm_yiaddr = Ipv4Addr (written 0 16 fs) (written 0 17 fs) (written 0 18 fs) (written 0 19 fs),
      dm_siaddr = Ipv4Addr (written 0 20 fs) (written 0 21 fs) (written 0 22 fs) (written 0 23 fs),
      dm_chaddr = Mac (written 0 28 fs) (written 0 29 fs) (written 0 30 fs) (written 0 31 fs) (written 0 32 fs) (written 0 33 fs),
      dm_options = options\<rparr>"
  using assms(2-) header_cookie [of fs]
  by (simp add: decode_def BOOTP_FIXED_LEN_def MAGIC_COOKIE_def nth_append nth_header [OF assms(1)])

lemmas option_consts = OPT_PAD_def OPT_SUBNET_MASK_def OPT_ROUTER_def OPT_DNS_def OPT_REQUESTED_IP_def OPT_LEASE_TIME_def
  OPT_MSG_TYPE_def OPT_SERVER_ID_def OPT_CLIENT_ID_def OPT_END_def

lemma parse_lease_options:
  "parse_options (lease_options (Some mt) ip snet secs) =
     Inr (no_options\<lparr>po_message_type := Some mt, po_server_id := Some ip\<rparr>)"
  by (cases ip; cases snet) (simp add: parse_options_def lease_options_def be32_def option_consts read_option_def no_options_def Let_def)

lemma parse_nak_options:
  "parse_options ([OPT_MSG_TYPE, 1, mt, OPT_SERVER_ID, 4] @ octets ip @ [OPT_END]) =
     Inr (no_options\<lparr>po_message_type := Some mt, po_server_id := Some ip\<rparr>)"
  by (cases ip) (simp add: parse_options_def option_consts read_option_def no_options_def Let_def)

lemma decode_reply:
  assumes "dm_htype msg = HTYPE_ETHERNET" "dm_hlen msg = HLEN_ETHERNET"
  shows "decode (header_bytes (reply_fields msg ip) @ lease_options (Some mt) ip snet secs) =
    Inr (msg\<lparr>dm_siaddr := ip, dm_options := no_options\<lparr>po_message_type := Some mt, po_server_id := Some ip\<rparr>\<rparr>)"
proof -
  obtain xo h l x ca ya sa ch op' where msg: "msg = \<lparr>dm_op = xo, dm_htype = h, dm_hlen = l, dm_xid = x,
     dm_ciaddr = ca, dm_yiaddr = ya, dm_siaddr = sa, dm_chaddr = ch, dm_options = op'\<rparr>" by (cases msg)
  show ?thesis
    using assms
    by (subst decode_header [OF reply_fields_in_range _ _ parse_lease_options];
        cases ca; cases ya; cases ip; cases ch)
      (auto simp: msg reply_fields_def be32_def is_unspecified_def no_options_def)
qed

lemma decode_nak:
  assumes "dm_htype msg = HTYPE_ETHERNET" "dm_hlen msg = HLEN_ETHERNET"
  shows "decode (header_bytes (nak_fields msg) @ [OPT_MSG_TYPE, 1, mt, OPT_SERVER_ID, 4] @ octets ip @ [OPT_END]) =
    Inr \<lparr>dm_op = OP_REPLY, dm_htype = HTYPE_ETHERNET, dm_hlen = HLEN_ETHERNET, dm_xid = dm_xid msg,
      dm_ciaddr = Ipv4Addr 0 0 0 0, dm_yiaddr = Ipv4Addr 0 0 0 0, dm_siaddr = Ipv4Addr 0 0 0 0,
      dm_chaddr = dm_chaddr msg,
      dm_options = no_options\<lparr>po_message_type := Some mt, po_server_id := Some ip\<rparr>\<rparr>"
  using assms
  by (subst decode_header [OF nak_fields_in_range _ _ parse_nak_options]; cases "dm_chaddr msg")
    (auto simp: nak_fields_def be32_def no_options_def)

section \<open>Properties\<close>

text \<open>
  The option parser reads the tag-length-value grammar.  It succeeds exactly on the buffers that
  are a sequence of pads and options, each as long as its length byte says, followed by the end tag
  with anything behind it or by the end of the buffer; the result folds the options in order, the last
  of a tag wins, and unknown tags change nothing.
\<close>

theorem dhcp_options_grammar:
  "parse_options buf = Inr opts \<longleftrightarrow>
     (\<exists>items tail. list_all item_ok items \<and> buf = concat (map item_bytes items) @ tail \<and>
        (tail = [] \<or> hd tail = OPT_END) \<and> opts = fold read_item items no_options)"
proof
  assume "parse_options buf = Inr opts"
  then show "\<exists>items tail. list_all item_ok items \<and> buf = concat (map item_bytes items) @ tail \<and>
        (tail = [] \<or> hd tail = OPT_END) \<and> opts = fold read_item items no_options"
    unfolding parse_options_def by (rule parse_from_grammar)
next
  assume "\<exists>items tail. list_all item_ok items \<and> buf = concat (map item_bytes items) @ tail \<and>
        (tail = [] \<or> hd tail = OPT_END) \<and> opts = fold read_item items no_options"
  then obtain items tail where "list_all item_ok items" "buf = concat (map item_bytes items) @ tail"
    "tail = [] \<or> hd tail = OPT_END" "opts = fold read_item items no_options" by blast
  then show "parse_options buf = Inr opts"
    by (simp only: parse_options_def parse_from_items parse_from_end)
qed

text \<open>
  A reply survives the wire.  Into any buffer that is long enough the encoder writes 274 bytes that
  the decoder reads back as the message with the server's address and identifier, whatever the buffer
  held before; behind the header are exactly the six options with the configured lease time, subnet
  mask, router and name server.  A shorter buffer is refused.
\<close>

theorem dhcp_reply_roundtrip:
  assumes "dm_htype msg = HTYPE_ETHERNET" "dm_hlen msg = HLEN_ETHERNET" "po_message_type (dm_options msg) = Some mt"
  shows "if 274 \<le> length buf
    then \<exists>b. encode_offer_or_ack msg ip snet secs buf = (Inr 274, b) \<and> length b = length buf \<and>
      decode (take 274 b) =
        Inr (msg\<lparr>dm_siaddr := ip, dm_options := no_options\<lparr>po_message_type := Some mt, po_server_id := Some ip\<rparr>\<rparr>) \<and>
      drop 240 (take 274 b) = concat (map item_bytes
        [Tlv OPT_MSG_TYPE [mt], Tlv OPT_SERVER_ID (octets ip), Tlv OPT_LEASE_TIME (be32 secs),
         Tlv OPT_SUBNET_MASK (octets snet), Tlv OPT_ROUTER (octets ip), Tlv OPT_DNS (octets ip)]) @ [OPT_END]
    else fst (encode_offer_or_ack msg ip snet secs buf) = Inl BufferTooSmall"
proof -
  let ?opts = "lease_options (Some mt) ip snet secs"
  have n: "length ?opts = 34" by (simp add: lease_options_def)
  have items: "?opts = concat (map item_bytes
        [Tlv OPT_MSG_TYPE [mt], Tlv OPT_SERVER_ID (octets ip), Tlv OPT_LEASE_TIME (be32 secs),
         Tlv OPT_SUBNET_MASK (octets snet), Tlv OPT_ROUTER (octets ip), Tlv OPT_DNS (octets ip)]) @ [OPT_END]"
    by (simp add: lease_options_def)
  show ?thesis
  proof (cases "274 \<le> length buf")
    case True
    then obtain b where "encode_offer_or_ack msg ip snet secs buf = (Inr 274, b)" "length b = length buf"
      "take 274 b = header_bytes (reply_fields msg ip) @ ?opts"
      using encode_offer_or_ack_output [of msg ip snet secs buf] assms(3) n by auto
    moreover have "drop 240 (header_bytes (reply_fields msg ip) @ ?opts) = ?opts" by simp
    ultimately show ?thesis
      using True decode_reply [OF assms(1,2), of ip mt snet secs] items by (simp del: append_assoc)
  next
    case False
    with encoder_output(2) [OF appends_option_tail reply_fields_in_range, of msg ip snet secs buf msg ip] assms(3) n
    show ?thesis by (simp add: encode_offer_or_ack_def option_tail_def)
  qed
qed

theorem dhcp_reply_roundtrip_witness:
  "\<exists>b. encode_offer_or_ack
      \<lparr>dm_op = OP_REPLY, dm_htype = HTYPE_ETHERNET, dm_hlen = HLEN_ETHERNET, dm_xid = 0xDEADBEEF,
       dm_ciaddr = Ipv4Addr 0 0 0 0, dm_yiaddr = Ipv4Addr 192 168 4 10, dm_siaddr = Ipv4Addr 0 0 0 0,
       dm_chaddr = Mac 2 0 0 0 0 1, dm_options = no_options\<lparr>po_message_type := Some MSG_OFFER\<rparr>\<rparr>
      (Ipv4Addr 192 168 4 1) (Ipv4Addr 255 255 255 0) 300 (replicate 548 7) = (Inr 274, b)"
  using dhcp_reply_roundtrip [of "\<lparr>dm_op = OP_REPLY, dm_htype = HTYPE_ETHERNET, dm_hlen = HLEN_ETHERNET, dm_xid = 0xDEADBEEF,
       dm_ciaddr = Ipv4Addr 0 0 0 0, dm_yiaddr = Ipv4Addr 192 168 4 10, dm_siaddr = Ipv4Addr 0 0 0 0,
       dm_chaddr = Mac 2 0 0 0 0 1, dm_options = no_options\<lparr>po_message_type := Some MSG_OFFER\<rparr>\<rparr>" MSG_OFFER
      "replicate 548 7" "Ipv4Addr 192 168 4 1" "Ipv4Addr 255 255 255 0" 300]
  by auto

end
