(* ===== verification/Portal_Leases.thy ===== *)
theory Portal_Leases
  imports Portal_Dhcp
begin

text \<open>
  The lease table and the running DHCP server of \<^verbatim>\<open>dhcp.rs\<close>: what one allocation does, the invariant
  of the server, and what holds over every run of it.
\<close>

section \<open>Searching the table\<close>

lemma oldest_from_Some:
  assumes "oldest_from i best es = Some (j, ts)"
    and "case best of Some (k, t) \<Rightarrow> P k t | None \<Rightarrow> True"
    and "\<And>k l. k < length es \<Longrightarrow> es ! k = Some l \<Longrightarrow> P (i + k) (offered_at_secs l)"
  shows "P j ts \<and> (\<forall>l. Some l \<in> set es \<longrightarrow> ts \<le> offered_at_secs l) \<and> (\<forall>k t. best = Some (k, t) \<longrightarrow> ts \<le> t)"
  using assms
proof (induction i best es rule: oldest_from.induct)
  case (2 i best es)
  from "2.prems"(3) [of "Suc _"] have "\<And>k l. k < length es \<Longrightarrow> es ! k = Some l \<Longrightarrow> P (Suc i + k) (offered_at_secs l)"
    by simp
  with 2 show ?case by simp
next
  case (3 i l es)
  from "3.prems"(3) [of "Suc _"] have *: "\<And>k l. k < length es \<Longrightarrow> es ! k = Some l \<Longrightarrow> P (Suc i + k) (offered_at_secs l)"
    by simp
  from "3.prems"(3) [of 0] have "P i (offered_at_secs l)" by simp
  with 3 * show ?case by auto
next
  case (4 i k t l es)
  from "4.prems"(3) [of "Suc _"] have *: "\<And>k l. k < length es \<Longrightarrow> es ! k = Some l \<Longrightarrow> P (Suc i + k) (offered_at_secs l)"
    by simp
  from "4.prems"(3) [of 0] have "P i (offered_at_secs l)" by simp
  with 4 * show ?case by (auto split: if_splits)
qed auto

lemma oldest_from_None: "oldest_from i best es = None \<longleftrightarrow> best = None \<and> (\<forall>e \<in> set es. e = None)"
  by (induction i best es rule: oldest_from.induct) auto

section \<open>One allocation\<close>

text \<open>Eleven entries, and no client has two.\<close>

definition table_ok :: "lease_table \<Rightarrow> bool" where
  "table_ok t \<longleftrightarrow> length (lt_entries t) = POOL_SIZE \<and>
     (\<forall>i j l l'. i < POOL_SIZE \<longrightarrow> j < POOL_SIZE \<longrightarrow> lt_entries t ! i = Some l \<longrightarrow> lt_entries t ! j = Some l' \<longrightarrow>
        le_mac l = le_mac l' \<longrightarrow> i = j)"

definition holds :: "lease_table \<Rightarrow> mac \<Rightarrow> nat \<Rightarrow> bool" where
  "holds t m i \<longleftrightarrow> i < POOL_SIZE \<and> (\<exists>l. lt_entries t ! i = Some l \<and> le_mac l = m)"

lemma holds_unique: "table_ok t \<Longrightarrow> holds t m i \<Longrightarrow> holds t m j \<Longrightarrow> i = j"
  unfolding table_ok_def holds_def by blast

lemma find_by_mac_iff:
  assumes "table_ok t"
  shows "find_by_mac t m = Some i \<longleftrightarrow> holds t m i" and "find_by_mac t m = None \<longleftrightarrow> (\<forall>i. \<not> holds t m i)"
proof -
  let ?p = "\<lambda>e. case e of Some l \<Rightarrow> le_mac l = m | None \<Rightarrow> False"
  have some: "holds t m i" if "find_by_mac t m = Some i" for i
    using position_Some [of ?p "lt_entries t" i] that assms
    by (auto simp: find_by_mac_def holds_def table_ok_def split: option.splits)
  have none: "\<not> holds t m i" if "find_by_mac t m = None" for i
  proof
    assume "holds t m i"
    then obtain l where "i < length (lt_entries t)" "lt_entries t ! i = Some l" "le_mac l = m"
      using assms by (auto simp: holds_def table_ok_def)
    then show False using that nth_mem [of i "lt_entries t"] by (fastforce simp: find_by_mac_def position_None)
  qed
  show "find_by_mac t m = Some i \<longleftrightarrow> holds t m i"
    using some none holds_unique [OF assms] by (cases "find_by_mac t m") blast+
  show "find_by_mac t m = None \<longleftrightarrow> (\<forall>i. \<not> holds t m i)"
    using some none by (cases "find_by_mac t m") blast+
qed

lemma index_of_Some: "index_of t a = Some i \<Longrightarrow> i < POOL_SIZE \<and> addr_of t i = a"
  by (cases a; cases "lt_pool_start t") (auto simp: index_of_def addr_of_def split: if_splits)

lemma addr_of_inject: "i < POOL_SIZE \<Longrightarrow> j < POOL_SIZE \<Longrightarrow> addr_of t i = addr_of t j \<longleftrightarrow> i = j"
proof -
  assume ij: "i < POOL_SIZE" "j < POOL_SIZE"
  then have "unat (of_nat i :: u8) = i" "unat (of_nat j :: u8) = j"
    by (simp_all add: unat_of_nat_u8 POOL_SIZE_def)
  then have "(of_nat i :: u8) = of_nat j \<longleftrightarrow> i = j" by metis
  then show ?thesis by (cases "lt_pool_start t") (auto simp: addr_of_def)
qed

text \<open>Who may lose a slot: its own client, a free or expired slot, or the oldest when all are live.\<close>

definition may_take :: "lease_table \<Rightarrow> mac \<Rightarrow> u64 \<Rightarrow> nat \<Rightarrow> bool" where
  "may_take t m now i \<longleftrightarrow> i < POOL_SIZE \<and>
     (holds t m i \<or>
      (\<forall>j. \<not> holds t m j) \<and>
        (available t now (lt_entries t ! i) \<or>
         (\<forall>j < POOL_SIZE. \<not> available t now (lt_entries t ! j)) \<and>
         (\<exists>l. lt_entries t ! i = Some l \<and> (\<forall>l'. Some l' \<in> set (lt_entries t) \<longrightarrow> offered_at_secs l \<le> offered_at_secs l'))))"

lemma allocate_any_takes:
  assumes "table_ok t" and "\<forall>j. \<not> holds t m j"
  shows "\<exists>i. may_take t m now i \<and> allocate_any t m now = (Some (addr_of t i), claim t i m now)"
proof (cases "position (available t now) (lt_entries t)")
  case (Some i)
  then show ?thesis
    using position_Some [OF Some] assms by (auto simp: allocate_any_def may_take_def table_ok_def)
next
  case None
  then have all: "\<forall>e \<in> set (lt_entries t). \<not> available t now e" by (simp add: position_None)
  have len: "length (lt_entries t) = POOL_SIZE" using assms by (simp add: table_ok_def)
  have "oldest_from 0 None (lt_entries t) \<noteq> None"
    using all len by (cases "lt_entries t") (auto simp: oldest_from_None available_def POOL_SIZE_def)
  then obtain i ts where i: "oldest_from 0 None (lt_entries t) = Some (i, ts)" by auto
  then have "i < POOL_SIZE \<and> (\<exists>l. lt_entries t ! i = Some l \<and> offered_at_secs l = ts)"
    "\<forall>l. Some l \<in> set (lt_entries t) \<longrightarrow> ts \<le> offered_at_secs l"
    using oldest_from_Some [of 0 None "lt_entries t" i ts
        "\<lambda>k t'. k < POOL_SIZE \<and> (\<exists>l. lt_entries t ! k = Some l \<and> offered_at_secs l = t')"] len
    by auto
  with assms(2) all len have "may_take t m now i" by (auto simp: may_take_def)
  with None i show ?thesis by (auto simp: allocate_any_def oldest_idx_def)
qed

lemma allocate_takes:
  assumes "table_ok t"
  shows "\<exists>i. may_take t m now i \<and> allocate t m req now = (Some (addr_of t i), claim t i m now) \<and>
     ((\<forall>j. \<not> holds t m j) \<longrightarrow> (\<forall>a k. req = Some a \<longrightarrow> index_of t a = Some k \<longrightarrow> available t now (lt_entries t ! k) \<longrightarrow> i = k))"
proof (cases "find_by_mac t m")
  case (Some i)
  then have "holds t m i" using find_by_mac_iff [OF assms] by simp
  moreover from this have "may_take t m now i" by (simp add: may_take_def holds_def)
  ultimately show ?thesis using Some by (intro exI [of _ i]) (auto simp: allocate_def)
next
  case None
  then have free: "\<forall>i. \<not> holds t m i" using find_by_mac_iff [OF assms] by simp
  show ?thesis
  proof (cases "\<exists>a k. req = Some a \<and> index_of t a = Some k \<and> available t now (lt_entries t ! k)")
    case True
    then obtain a k where "req = Some a" "index_of t a = Some k" "available t now (lt_entries t ! k)" by auto
    with None free index_of_Some [of t a k] show ?thesis by (auto simp: allocate_def may_take_def)
  next
    case False
    then have "allocate t m req now = allocate_any t m now"
      using None by (auto simp: allocate_def split: option.splits)
    moreover obtain i where "may_take t m now i" "allocate_any t m now = (Some (addr_of t i), claim t i m now)"
      using allocate_any_takes [OF assms free] by blast
    ultimately show ?thesis using False by (intro exI [of _ i]) metis
  qed
qed

lemma table_ok_claim:
  assumes "table_ok t" and "may_take t m now i"
  shows "table_ok (claim t i m now)"
proof -
  have m: "k = i" if "holds t m k" for k
    using that assms(2) holds_unique [OF assms(1)] by (auto simp: may_take_def)
  have i: "i < POOL_SIZE" and len: "length (lt_entries t) = POOL_SIZE"
    using assms by (auto simp: may_take_def table_ok_def)
  have other: "le_mac l \<noteq> m" if "k < POOL_SIZE" "k \<noteq> i" "lt_entries t ! k = Some l" for k l
    using m that by (auto simp: holds_def)
  show ?thesis
    unfolding table_ok_def
  proof (intro conjI allI impI)
    fix a b l l'
    assume "a < POOL_SIZE" "b < POOL_SIZE" "lt_entries (claim t i m now) ! a = Some l"
      "lt_entries (claim t i m now) ! b = Some l'" "le_mac l = le_mac l'"
    with other [of a] other [of b] i len show "a = b"
      using assms(1) by (cases "a = i"; cases "b = i") (auto simp: claim_def table_ok_def)
  qed (use len in \<open>simp add: claim_def\<close>)
qed

lemma claim_simps [simp]:
  "lt_pool_start (claim t i m now) = lt_pool_start t" "lt_lease_secs (claim t i m now) = lt_lease_secs t"
  "addr_of (claim t i m now) k = addr_of t k" "length (lt_entries (claim t i m now)) = length (lt_entries t)"
  by (simp_all add: claim_def addr_of_def)

section \<open>One turn of the server\<close>

definition server_ok :: "dhcp_config \<Rightarrow> dhcp_server \<Rightarrow> bool" where
  "server_ok cfg sv \<longleftrightarrow> table_ok (sv_leases sv) \<and> lt_pool_start (sv_leases sv) = dc_pool_start cfg \<and>
     lt_lease_secs (sv_leases sv) = dc_lease_secs cfg \<and> length (sv_tx sv) = PACKET_BUF"

definition lease_reply :: "dhcp_config \<Rightarrow> dhcp_message \<Rightarrow> u8 \<Rightarrow> ipv4_addr \<Rightarrow> dhcp_message" where
  "lease_reply cfg msg t ip = (reply_message msg t ip (dc_server_ip cfg))
     \<lparr>dm_options := no_options\<lparr>po_message_type := Some t, po_server_id := Some (dc_server_ip cfg)\<rparr>\<rparr>"

definition nak_reply :: "dhcp_config \<Rightarrow> dhcp_message \<Rightarrow> dhcp_message" where
  "nak_reply cfg msg = (lease_reply cfg msg MSG_NAK (Ipv4Addr 0 0 0 0))\<lparr>dm_siaddr := Ipv4Addr 0 0 0 0\<rparr>"

text \<open>The address a request insists on, if any, is the one it gets.\<close>

definition satisfied :: "dhcp_message \<Rightarrow> ipv4_addr \<Rightarrow> bool" where
  "satisfied msg a = (case explicit_addr msg of Some req \<Rightarrow> req = a \<or> is_unspecified req | None \<Rightarrow> True)"

definition answer_ok :: "dhcp_config \<Rightarrow> dhcp_message \<Rightarrow> ipv4_addr \<Rightarrow> dhcp_message \<Rightarrow> bool" where
  "answer_ok cfg msg a reply \<longleftrightarrow>
     po_message_type (dm_options msg) = Some MSG_DISCOVER \<and> reply = lease_reply cfg msg MSG_OFFER a \<or>
     po_message_type (dm_options msg) = Some MSG_REQUEST \<and> reply = (if satisfied msg a then lease_reply cfg msg MSG_ACK a else nak_reply cfg msg)"

lemma decode_ethernet: "decode pkt = Inr msg \<Longrightarrow> dm_htype msg = HTYPE_ETHERNET \<and> dm_hlen msg = HLEN_ETHERNET"
  by (auto simp: decode_def split: if_splits sum.splits)

lemma decode_has_type: "decode pkt = Inr msg \<Longrightarrow> po_message_type (dm_options msg) \<noteq> None"
  by (auto simp: decode_def split: if_splits sum.splits)

lemma send_lease_decoded:
  assumes "length (sv_tx sv) = PACKET_BUF"
  shows "\<exists>b tx. send_lease cfg msg t ip sv = (Some b, sv\<lparr>sv_tx := tx\<rparr>) \<and> length tx = PACKET_BUF \<and>
     decode b = Inr (lease_reply cfg msg t ip)"
proof -
  let ?m = "reply_message msg t ip (dc_server_ip cfg)"
  have "length (lease_options (Some t) (dc_server_ip cfg) (dc_subnet_mask cfg) (dc_lease_secs cfg)) = 34"
    by (simp add: lease_options_def)
  then obtain tx where tx: "encode_offer_or_ack ?m (dc_server_ip cfg) (dc_subnet_mask cfg) (dc_lease_secs cfg) (sv_tx sv) = (Inr 274, tx)"
    "length tx = PACKET_BUF"
    "take 274 tx = header_bytes (reply_fields ?m (dc_server_ip cfg)) @
       lease_options (Some t) (dc_server_ip cfg) (dc_subnet_mask cfg) (dc_lease_secs cfg)"
    using encode_offer_or_ack_output [of ?m "dc_server_ip cfg" "dc_subnet_mask cfg" "dc_lease_secs cfg" "sv_tx sv"] assms
    by (auto simp: reply_message_def PACKET_BUF_def)
  have "decode (take 274 tx) = Inr (lease_reply cfg msg t ip)"
    unfolding tx(3) by (subst decode_reply) (simp_all add: reply_message_def lease_reply_def)
  with tx(1,2) show ?thesis
    by (intro exI [of _ "take 274 tx"] exI [of _ tx]) (simp add: send_lease_def send_encoded_def)
qed

lemma send_nak_decoded:
  assumes "length (sv_tx sv) = PACKET_BUF" and "decode pkt = Inr msg"
  shows "\<exists>b tx. send_encoded (encode_nak msg (dc_server_ip cfg)) sv = (Some b, sv\<lparr>sv_tx := tx\<rparr>) \<and> length tx = PACKET_BUF \<and>
     decode b = Inr (nak_reply cfg msg)"
proof -
  obtain tx where tx: "encode_nak msg (dc_server_ip cfg) (sv_tx sv) = (Inr 250, tx)" "length tx = PACKET_BUF"
    "take 250 tx = header_bytes (nak_fields msg) @ [OPT_MSG_TYPE, 1, MSG_NAK, OPT_SERVER_ID, 4] @ octets (dc_server_ip cfg) @ [OPT_END]"
    using encode_nak_output [of "sv_tx sv" msg "dc_server_ip cfg"] assms by (auto simp: PACKET_BUF_def)
  have "decode (take 250 tx) = Inr (nak_reply cfg msg)"
    unfolding tx(3) using decode_ethernet [OF assms(2)]
    by (subst decode_nak) (simp_all add: nak_reply_def lease_reply_def reply_message_def)
  with tx(1,2) show ?thesis by (intro exI [of _ "take 250 tx"] exI [of _ tx]) (simp add: send_encoded_def)
qed

lemma decide_request_allocated:
  assumes "allocate t (dm_chaddr msg) (explicit_addr msg) now = (Some a, t')"
  shows "fst (decide_request msg t server_ip now) \<in> {IgnoreRequest, DropRequest} \<and> snd (decide_request msg t server_ip now) = t \<or>
    decide_request msg t server_ip now = (if satisfied msg a then Ack a else Nak, t')"
  unfolding decide_request_def satisfied_def assms by (cases "explicit_addr msg") auto

lemma dhcp_turn_cases:
  assumes "server_ok cfg sv" and "dhcp_turn cfg sv (now, pkt) = (r, sv')"
  obtains (quiet) "r = None" "sv' = sv"
  | (declined) msg i where "decode pkt = Inr msg" "dm_op msg = OP_REQUEST" "po_message_type (dm_options msg) = Some MSG_DECLINE"
      "holds (sv_leases sv) (dm_chaddr msg) i" "r = None"
      "sv' = sv\<lparr>sv_leases := (sv_leases sv)\<lparr>lt_entries := (lt_entries (sv_leases sv))[i := None]\<rparr>\<rparr>"
  | (answered) msg i b reply where "decode pkt = Inr msg" "dm_op msg = OP_REQUEST" "may_take (sv_leases sv) (dm_chaddr msg) now i"
      "sv_leases sv' = claim (sv_leases sv) i (dm_chaddr msg) now" "length (sv_tx sv') = PACKET_BUF"
      "r = Some b" "decode b = Inr reply" "answer_ok cfg msg (addr_of (sv_leases sv) i) reply"
proof (cases "\<exists>msg t. decode pkt = Inr msg \<and> dm_op msg = OP_REQUEST \<and> po_message_type (dm_options msg) = Some t")
  case False
  with assms(2) have "r = None \<and> sv' = sv" by (auto simp: dhcp_turn_def split: sum.splits option.splits if_splits)
  with quiet show ?thesis by blast
next
  case True
  then obtain msg t where msg: "decode pkt = Inr msg" "dm_op msg = OP_REQUEST" "po_message_type (dm_options msg) = Some t" by auto
  with assms(2) have h: "handle_message cfg now msg t sv = (r, sv')" by (simp add: dhcp_turn_def)
  have t: "table_ok (sv_leases sv)" and tx: "length (sv_tx sv) = PACKET_BUF" using assms(1) by (auto simp: server_ok_def)
  consider "t = MSG_DISCOVER" | "t = MSG_REQUEST" | "t = MSG_DECLINE" | "t \<notin> {MSG_DISCOVER, MSG_REQUEST, MSG_DECLINE}" by auto
  then show ?thesis
  proof cases
    case 1
    obtain i where i: "may_take (sv_leases sv) (dm_chaddr msg) now i"
      "allocate (sv_leases sv) (dm_chaddr msg) (po_requested_ip (dm_options msg)) now =
         (Some (addr_of (sv_leases sv) i), claim (sv_leases sv) i (dm_chaddr msg) now)"
      using allocate_takes [OF t] by blast
    obtain b tx' where "send_lease cfg msg MSG_OFFER (addr_of (sv_leases sv) i)
        (sv\<lparr>sv_leases := claim (sv_leases sv) i (dm_chaddr msg) now\<rparr>) =
        (Some b, sv\<lparr>sv_leases := claim (sv_leases sv) i (dm_chaddr msg) now, sv_tx := tx'\<rparr>)" "length tx' = PACKET_BUF"
      "decode b = Inr (lease_reply cfg msg MSG_OFFER (addr_of (sv_leases sv) i))"
      using send_lease_decoded [of "sv\<lparr>sv_leases := claim (sv_leases sv) i (dm_chaddr msg) now\<rparr>"] tx by fastforce
    with h 1 i msg show ?thesis
      by (intro answered [of msg i b "lease_reply cfg msg MSG_OFFER (addr_of (sv_leases sv) i)"])
        (auto simp: handle_message_def answer_ok_def)
  next
    case 2
    let ?a = "\<lambda>i. addr_of (sv_leases sv) i" let ?sv = "\<lambda>i. sv\<lparr>sv_leases := claim (sv_leases sv) i (dm_chaddr msg) now\<rparr>"
    obtain i where i: "may_take (sv_leases sv) (dm_chaddr msg) now i"
      "allocate (sv_leases sv) (dm_chaddr msg) (explicit_addr msg) now =
         (Some (?a i), claim (sv_leases sv) i (dm_chaddr msg) now)"
      using allocate_takes [OF t] by blast
    consider "fst (decide_request msg (sv_leases sv) (dc_server_ip cfg) now) \<in> {IgnoreRequest, DropRequest}"
        "snd (decide_request msg (sv_leases sv) (dc_server_ip cfg) now) = sv_leases sv"
      | "decide_request msg (sv_leases sv) (dc_server_ip cfg) now =
          (if satisfied msg (?a i) then Ack (?a i) else Nak, claim (sv_leases sv) i (dm_chaddr msg) now)"
      using decide_request_allocated [OF i(2), of "dc_server_ip cfg"] by blast
    then show ?thesis
    proof cases
      case 1
      with h 2 have "r = None \<and> sv' = sv"
        by (cases "decide_request msg (sv_leases sv) (dc_server_ip cfg) now")
          (auto simp: handle_message_def MSG_DISCOVER_def MSG_REQUEST_def)
      with quiet show ?thesis by blast
    next
      case decided: 2
      show ?thesis
      proof (cases "satisfied msg (?a i)")
        case True
        obtain b tx' where "send_lease cfg msg MSG_ACK (?a i) (?sv i) = (Some b, (?sv i)\<lparr>sv_tx := tx'\<rparr>)"
          "length tx' = PACKET_BUF" "decode b = Inr (lease_reply cfg msg MSG_ACK (?a i))"
          using send_lease_decoded [of "?sv i"] tx by fastforce
        with h 2 i msg decided True show ?thesis
          by (intro answered [of msg i b "lease_reply cfg msg MSG_ACK (?a i)"]) (auto simp: handle_message_def answer_ok_def MSG_DISCOVER_def MSG_REQUEST_def)
      next
        case False
        obtain b tx' where "send_encoded (encode_nak msg (dc_server_ip cfg)) (?sv i) = (Some b, (?sv i)\<lparr>sv_tx := tx'\<rparr>)"
          "length tx' = PACKET_BUF" "decode b = Inr (nak_reply cfg msg)"
          using send_nak_decoded [of "?sv i", OF _ msg(1)] tx by fastforce
        with h 2 i msg decided False show ?thesis
          by (intro answered [of msg i b "nak_reply cfg msg"]) (auto simp: handle_message_def answer_ok_def MSG_DISCOVER_def MSG_REQUEST_def)
      qed
    qed
  next
    case 3
    show ?thesis
    proof (cases "find_by_mac (sv_leases sv) (dm_chaddr msg)")
      case None
      with h 3 have "r = None \<and> sv' = sv"
        by (simp add: handle_message_def MSG_DISCOVER_def MSG_REQUEST_def MSG_DECLINE_def)
      with quiet show ?thesis by blast
    next
      case (Some i)
      with find_by_mac_iff(1) [OF t] have "holds (sv_leases sv) (dm_chaddr msg) i" by simp
      with h 3 Some msg show ?thesis
        by (intro declined [of msg i]) (auto simp: handle_message_def MSG_DISCOVER_def MSG_REQUEST_def MSG_DECLINE_def)
    qed
  next
    case 4
    with h quiet show ?thesis by (auto simp: handle_message_def)
  qed
qed

section \<open>The server invariant and the pool\<close>




lemma server_ok_start: "server_start cfg = Some sv \<Longrightarrow> server_ok cfg sv"
  by (auto simp: server_start_def server_ok_def table_ok_def leases_new_def split: sum.splits)

lemma table_ok_free: "table_ok t \<Longrightarrow> table_ok (t\<lparr>lt_entries := (lt_entries t)[i := None]\<rparr>)"
proof -
  assume t: "table_ok t"
  then have len: "length (lt_entries t) = POOL_SIZE" by (simp add: table_ok_def)
  show ?thesis
    unfolding table_ok_def
  proof (intro conjI allI impI)
    fix a b l l'
    assume ab: "a < POOL_SIZE" "b < POOL_SIZE"
      "lt_entries (t\<lparr>lt_entries := (lt_entries t)[i := None]\<rparr>) ! a = Some l"
      "lt_entries (t\<lparr>lt_entries := (lt_entries t)[i := None]\<rparr>) ! b = Some l'" "le_mac l = le_mac l'"
    have "lt_entries t ! a = Some l" "lt_entries t ! b = Some l'"
      using ab by (cases "a = i"; cases "b = i"; simp add: len)+
    with ab t holds_unique [of t "le_mac l" a b] show "a = b" by (simp add: holds_def)
  qed (use t in \<open>simp add: table_ok_def\<close>)
qed

lemma server_ok_turn:
  assumes "server_ok cfg sv"
  shows "server_ok cfg (snd (dhcp_turn cfg sv inp))"
proof -
  obtain now pkt r sv' where inp: "inp = (now, pkt)" and t: "dhcp_turn cfg sv (now, pkt) = (r, sv')" by (metis surj_pair)
  from assms t show ?thesis
  proof (cases rule: dhcp_turn_cases)
    case (answered msg i b reply)
    with assms table_ok_claim [of "sv_leases sv"] show ?thesis by (auto simp: server_ok_def inp t)
  qed (use assms in \<open>auto simp: server_ok_def inp t table_ok_free\<close>)
qed

interpretation dhcp: polled_machine "dhcp_turn cfg" "\<lambda>sv. server_start cfg = Some sv" "server_ok cfg" for cfg
  by unfold_locales (simp_all add: server_ok_start server_ok_turn)

section \<open>Leases over a run\<close>

definition granted :: "bytes option \<Rightarrow> (mac \<times> ipv4_addr) option" where
  "granted r = (case r of None \<Rightarrow> None | Some b \<Rightarrow> (case decode b of
      Inl _ \<Rightarrow> None
    | Inr m \<Rightarrow> if po_message_type (dm_options m) \<in> {Some MSG_OFFER, Some MSG_ACK} then Some (dm_chaddr m, dm_yiaddr m) else None))"

definition client :: "bytes \<Rightarrow> mac option" where
  "client pkt = (case decode pkt of Inl _ \<Rightarrow> None | Inr m \<Rightarrow> Some (dm_chaddr m))"

definition clients :: "(u64 \<times> bytes) list \<Rightarrow> mac set" where
  "clients inputs = {m. \<exists>(t, p) \<in> set inputs. client p = Some m}"

definition declines :: "mac \<Rightarrow> bytes \<Rightarrow> bool" where
  "declines m pkt = (case decode pkt of Inl _ \<Rightarrow> False
     | Inr msg \<Rightarrow> dm_chaddr msg = m \<and> po_message_type (dm_options msg) = Some MSG_DECLINE)"

lemma finite_clients: "finite (clients inputs)"
proof -
  have "clients inputs \<subseteq> (\<lambda>(t, p). the (client p)) ` set inputs"
    by (auto simp: clients_def image_iff) (metis case_prod_conv option.sel)
  then show ?thesis by (rule finite_subset) simp
qed

text \<open>With no more clients than addresses nobody is evicted.\<close>

lemma no_eviction:
  assumes "table_ok t" and "\<And>m i. holds t m i \<Longrightarrow> m \<in> S" and "finite S" "card S \<le> POOL_SIZE" and "m \<in> S"
    and "may_take t m now i"
  shows "holds t m i \<or> available t now (lt_entries t ! i)"
proof (rule ccontr)
  assume none: "\<not> (holds t m i \<or> available t now (lt_entries t ! i))"
  with assms(6) have free: "\<forall>j. \<not> holds t m j" and full: "\<forall>j < POOL_SIZE. \<not> available t now (lt_entries t ! j)"
    by (auto simp: may_take_def)
  let ?f = "\<lambda>j. le_mac (the (lt_entries t ! j))"
  have h: "holds t (?f j) j" if "j < POOL_SIZE" for j
    using full that by (cases "lt_entries t ! j") (auto simp: holds_def available_def)
  have "inj_on ?f {..<POOL_SIZE}"
  proof (rule inj_onI)
    fix x y assume "x \<in> {..<POOL_SIZE}" "y \<in> {..<POOL_SIZE}" "?f x = ?f y"
    then show "x = y" using h [of x] h [of y] holds_unique [OF assms(1)] by simp
  qed
  moreover have "?f ` {..<POOL_SIZE} \<subseteq> S - {m}"
    using h assms(2) free by (metis (no_types, lifting) DiffI image_subsetI lessThan_iff singletonD)
  ultimately have "POOL_SIZE \<le> card (S - {m})"
    using assms(3) by (metis card_image card_lessThan card_mono finite_Diff)
  with assms(3-5) show False by (simp add: POOL_SIZE_def)
qed

text \<open>Client \<open>m\<close> still has slot \<open>k\<close>, from second \<open>since\<close> or later, and all clients are in \<open>S\<close>.\<close>

definition keeps :: "dhcp_config \<Rightarrow> mac set \<Rightarrow> mac \<Rightarrow> nat \<Rightarrow> nat \<Rightarrow> dhcp_server \<Rightarrow> bool" where
  "keeps cfg S m k since sv \<longleftrightarrow> server_ok cfg sv \<and> (\<forall>m' i. holds (sv_leases sv) m' i \<longrightarrow> m' \<in> S) \<and> k < POOL_SIZE \<and>
     (\<exists>l. lt_entries (sv_leases sv) ! k = Some l \<and> le_mac l = m \<and> since \<le> unat (offered_at_secs l))"

lemma holds_claim:
  "length (lt_entries t) = POOL_SIZE \<Longrightarrow> i < POOL_SIZE \<Longrightarrow>
   holds (claim t i m now) m' j \<longleftrightarrow> (if j = i then m' = m else holds t m' j)"
  by (auto simp: holds_def claim_def nth_list_update)

lemma holders_turn:
  assumes "server_ok cfg sv" and "\<And>m i. holds (sv_leases sv) m i \<Longrightarrow> m \<in> S" and "client pkt \<noteq> None \<Longrightarrow> the (client pkt) \<in> S"
    and "holds (sv_leases (snd (dhcp_turn cfg sv (now, pkt)))) m i"
  shows "m \<in> S"
proof -
  obtain r sv' where t: "dhcp_turn cfg sv (now, pkt) = (r, sv')" by fastforce
  have len: "length (lt_entries (sv_leases sv)) = POOL_SIZE" using assms(1) by (simp add: server_ok_def table_ok_def)
  from assms(1) t show ?thesis
  proof (cases rule: dhcp_turn_cases)
    case quiet
    with assms t show ?thesis by simp
  next
    case (declined msg k)
    with assms(4) t len have "holds (sv_leases sv) m i"
      by (cases "i = k") (auto simp: holds_def)
    with assms(2) show ?thesis .
  next
    case (answered msg k b reply)
    moreover from this have "client pkt = Some (dm_chaddr msg)" "k < POOL_SIZE" by (simp_all add: client_def may_take_def)
    ultimately show ?thesis
      using assms(2-4) t holds_claim [OF len, of k "dm_chaddr msg" now m i] by (auto split: if_splits)
  qed
qed

lemma keeps_turn:
  assumes "keeps cfg S m k since sv" and "finite S" "card S \<le> POOL_SIZE" and "client pkt \<noteq> None \<Longrightarrow> the (client pkt) \<in> S"
    and "since \<le> unat now" "unat now - since < unat (dc_lease_secs cfg)" and "\<not> declines m pkt"
  shows "keeps cfg S m k since (snd (dhcp_turn cfg sv (now, pkt)))"
proof -
  obtain r sv' where t: "dhcp_turn cfg sv (now, pkt) = (r, sv')" by fastforce
  have ok: "server_ok cfg sv" and S: "\<And>m i. holds (sv_leases sv) m i \<Longrightarrow> m \<in> S" and k: "k < POOL_SIZE"
    using assms(1) by (auto simp: keeps_def)
  obtain l where l: "lt_entries (sv_leases sv) ! k = Some l" "le_mac l = m" "since \<le> unat (offered_at_secs l)"
    using assms(1) by (auto simp: keeps_def)
  have len: "length (lt_entries (sv_leases sv)) = POOL_SIZE" and tok: "table_ok (sv_leases sv)"
    and secs: "lt_lease_secs (sv_leases sv) = dc_lease_secs cfg"
    using ok by (simp_all add: server_ok_def table_ok_def)
  have live: "\<not> available (sv_leases sv) now (Some l)"
    using l(3) assms(6) secs by (simp add: available_def is_expired_def)
  have base: "server_ok cfg (snd (dhcp_turn cfg sv (now, pkt)))"
    "\<forall>m' i. holds (sv_leases (snd (dhcp_turn cfg sv (now, pkt)))) m' i \<longrightarrow> m' \<in> S"
    using server_ok_turn [OF ok] holders_turn [OF ok _ assms(4)] S by blast+
  have "\<exists>l. lt_entries (sv_leases sv') ! k = Some l \<and> le_mac l = m \<and> since \<le> unat (offered_at_secs l)"
    using ok t
  proof (cases rule: dhcp_turn_cases)
    case quiet
    with l show ?thesis by simp
  next
    case (declined msg i)
    with assms(7) l have "i \<noteq> k" by (auto simp: declines_def holds_def)
    with declined l show ?thesis by simp
  next
    case (answered msg i b reply)
    then have "client pkt = Some (dm_chaddr msg)" by (simp add: client_def)
    then have "dm_chaddr msg \<in> S" using assms(4) by simp
    then have or: "holds (sv_leases sv) (dm_chaddr msg) i \<or> available (sv_leases sv) now (lt_entries (sv_leases sv) ! i)"
      using no_eviction [OF tok S assms(2,3) _ answered(3)] by simp
    show ?thesis
    proof (cases "i = k")
      case True
      with or live l(1,2) have "dm_chaddr msg = m" by (auto simp: holds_def)
      with True answered(4) k len assms(5) show ?thesis by (simp add: claim_def)
    next
      case False
      with answered(4) l show ?thesis by (simp add: claim_def)
    qed
  qed
  with base k show ?thesis by (simp add: keeps_def t)
qed

lemma keeps_run:
  assumes "keeps cfg S m k since sv" and "finite S" "card S \<le> POOL_SIZE" and "clients inputs \<subseteq> S"
    and "\<And>t p. (t, p) \<in> set inputs \<Longrightarrow> since \<le> unat t \<and> unat t - since < unat (dc_lease_secs cfg) \<and> \<not> declines m p"
  shows "keeps cfg S m k since (run_state (dhcp_turn cfg) sv inputs)"
  using assms
proof (induction inputs arbitrary: sv)
  case (Cons inp inputs)
  obtain t p where inp: "inp = (t, p)" by fastforce
  have sub: "client p \<noteq> None \<Longrightarrow> the (client p) \<in> S" "clients inputs \<subseteq> S"
    using Cons.prems(4) by (auto simp: clients_def inp)
  have "keeps cfg S m k since (snd (dhcp_turn cfg sv (t, p)))"
    using Cons.prems(5) [of t p] by (intro keeps_turn [OF Cons.prems(1-3)] sub(1)) (simp_all add: inp)
  then have "keeps cfg S m k since (run_state (dhcp_turn cfg) (snd (dhcp_turn cfg sv (t, p))) inputs)"
    by (rule Cons.IH [OF _ Cons.prems(2,3) sub(2)]) (rule Cons.prems(5), simp)
  then show ?case by (simp add: inp)
qed simp

lemma holders_run:
  "server_ok cfg sv \<Longrightarrow> (\<And>m i. holds (sv_leases sv) m i \<Longrightarrow> m \<in> S) \<Longrightarrow> clients inputs \<subseteq> S \<Longrightarrow>
   holds (sv_leases (run_state (dhcp_turn cfg) sv inputs)) m i \<Longrightarrow> m \<in> S"
proof (induction inputs arbitrary: sv)
  case (Cons inp inputs)
  obtain t p where inp: "inp = (t, p)" by fastforce
  have sub: "client p \<noteq> None \<Longrightarrow> the (client p) \<in> S" "clients inputs \<subseteq> S"
    using Cons.prems(3) by (auto simp: clients_def inp)
  have "\<And>m i. holds (sv_leases (snd (dhcp_turn cfg sv inp))) m i \<Longrightarrow> m \<in> S"
    using holders_turn [OF Cons.prems(1,2) sub(1)] by (simp add: inp)
  from Cons.IH [OF server_ok_turn [OF Cons.prems(1)] this sub(2), of inp] Cons.prems(4) show ?case by (simp add: inp)
qed simp

text \<open>A granted address is the slot the client was given in this turn.\<close>

lemma granted_turn:
  assumes "server_ok cfg sv" and "granted (fst (dhcp_turn cfg sv (now, pkt))) = Some (m, a)"
  shows "\<exists>i. may_take (sv_leases sv) m now i \<and> sv_leases (snd (dhcp_turn cfg sv (now, pkt))) = claim (sv_leases sv) i m now \<and>
     a = addr_of (sv_leases sv) i \<and> client pkt = Some m"
proof -
  obtain r sv' where t: "dhcp_turn cfg sv (now, pkt) = (r, sv')" by fastforce
  from assms(1) t show ?thesis
  proof (cases rule: dhcp_turn_cases)
    case (answered msg i b reply)
    from answered(8) consider "reply = lease_reply cfg msg MSG_OFFER (addr_of (sv_leases sv) i)"
      | "reply = lease_reply cfg msg MSG_ACK (addr_of (sv_leases sv) i)" | "reply = nak_reply cfg msg"
      by (auto simp: answer_ok_def split: if_splits)
    then have "m = dm_chaddr msg \<and> a = addr_of (sv_leases sv) i"
      using assms(2) answered(6,7) t
      by cases (auto simp: granted_def lease_reply_def nak_reply_def reply_message_def MSG_OFFER_def MSG_ACK_def MSG_NAK_def)
    with answered t show ?thesis by (auto simp: client_def)
  qed (use assms(2) t in \<open>simp_all add: granted_def\<close>)
qed

text \<open>A discover, handled without looking at the bytes of the offer; two turns of the default server.\<close>

lemma discover_turn:
  assumes "decode pkt = Inr msg" "dm_op msg = OP_REQUEST" "po_message_type (dm_options msg) = Some MSG_DISCOVER"
    and "allocate (sv_leases sv) (dm_chaddr msg) (po_requested_ip (dm_options msg)) now = (Some a, ls)"
    and "length (sv_tx sv) = PACKET_BUF"
  shows "\<exists>b tx. dhcp_turn cfg sv (now, pkt) = (Some b, \<lparr>sv_leases = ls, sv_tx = tx\<rparr>) \<and> length tx = PACKET_BUF \<and>
    granted (Some b) = Some (dm_chaddr msg, a)"
proof -
  obtain b tx where "send_lease cfg msg MSG_OFFER a (sv\<lparr>sv_leases := ls\<rparr>) = (Some b, sv\<lparr>sv_leases := ls, sv_tx := tx\<rparr>)"
    "length tx = PACKET_BUF" "decode b = Inr (lease_reply cfg msg MSG_OFFER a)"
    using send_lease_decoded [of "sv\<lparr>sv_leases := ls\<rparr>"] assms(5) by fastforce
  with assms(1-4) show ?thesis
    by (intro exI [of _ b] exI [of _ tx])
      (simp add: dhcp_turn_def handle_message_def granted_def lease_reply_def reply_message_def)
qed

definition example_discover :: "u8 \<Rightarrow> bytes" where
  "example_discover n = [1, 1, 6] @ replicate 25 0 @ [2, 0, 0, 0, 0, n] @ replicate 202 0 @ MAGIC_COOKIE @ [53, 1, 1, 255]"

definition example_message :: "u8 \<Rightarrow> dhcp_message" where
  "example_message n = \<lparr>dm_op = 1, dm_htype = 1, dm_hlen = 6, dm_xid = 0, dm_ciaddr = Ipv4Addr 0 0 0 0,
     dm_yiaddr = Ipv4Addr 0 0 0 0, dm_siaddr = Ipv4Addr 0 0 0 0, dm_chaddr = Mac 2 0 0 0 0 n,
     dm_options = no_options\<lparr>po_message_type := Some 1\<rparr>\<rparr>"

lemma example_decode: "decode (example_discover 1) = Inr (example_message 1)" "decode (example_discover 2) = Inr (example_message 2)"
  by code_simp+

definition example_table :: "u8 \<Rightarrow> u64 \<Rightarrow> lease_table" where
  "example_table n now = (leases_new (Ipv4Addr 192 168 4 10) 300)
     \<lparr>lt_entries := Some \<lparr>le_mac = Mac 2 0 0 0 0 n, offered_at_secs = now\<rparr> # replicate 10 None\<rparr>"

lemma example_allocate:
  "allocate (leases_new (Ipv4Addr 192 168 4 10) 300) (Mac 2 0 0 0 0 1) None 0 = (Some (Ipv4Addr 192 168 4 10), example_table 1 0)"
  "allocate (example_table 1 0) (Mac 2 0 0 0 0 2) None 300 = (Some (Ipv4Addr 192 168 4 10), example_table 2 300)"
  by code_simp+

lemma example_start:
  "server_start dhcp_config_default =
     Some \<lparr>sv_leases = leases_new (Ipv4Addr 192 168 4 10) 300, sv_tx = replicate PACKET_BUF 0\<rparr>"
  by code_simp

lemma example_turns:
  fixes cfg sv0
  defines "cfg \<equiv> dhcp_config_default"
    and "sv0 \<equiv> \<lparr>sv_leases = leases_new (Ipv4Addr 192 168 4 10) 300, sv_tx = replicate PACKET_BUF 0\<rparr>"
  obtains b1 b2 tx1 tx2 where
    "dhcp_turn cfg sv0 (0, example_discover 1) = (Some b1, \<lparr>sv_leases = example_table 1 0, sv_tx = tx1\<rparr>)"
    "dhcp_turn cfg \<lparr>sv_leases = example_table 1 0, sv_tx = tx1\<rparr> (300, example_discover 2) =
       (Some b2, \<lparr>sv_leases = example_table 2 300, sv_tx = tx2\<rparr>)"
    "granted (Some b1) = Some (Mac 2 0 0 0 0 1, Ipv4Addr 192 168 4 10)"
    "granted (Some b2) = Some (Mac 2 0 0 0 0 2, Ipv4Addr 192 168 4 10)"
proof -
  have "\<exists>b tx. dhcp_turn cfg sv0 (0, example_discover 1) = (Some b, \<lparr>sv_leases = example_table 1 0, sv_tx = tx\<rparr>) \<and>
      length tx = PACKET_BUF \<and> granted (Some b) = Some (dm_chaddr (example_message 1), Ipv4Addr 192 168 4 10)"
    by (rule discover_turn [OF example_decode(1)])
      (simp_all add: example_message_def OP_REQUEST_def MSG_DISCOVER_def no_options_def sv0_def example_allocate)
  then obtain b1 tx1 where 1: "dhcp_turn cfg sv0 (0, example_discover 1) = (Some b1, \<lparr>sv_leases = example_table 1 0, sv_tx = tx1\<rparr>)"
    "length tx1 = PACKET_BUF" "granted (Some b1) = Some (Mac 2 0 0 0 0 1, Ipv4Addr 192 168 4 10)"
    by (auto simp: example_message_def)
  have "\<exists>b tx. dhcp_turn cfg \<lparr>sv_leases = example_table 1 0, sv_tx = tx1\<rparr> (300, example_discover 2) =
      (Some b, \<lparr>sv_leases = example_table 2 300, sv_tx = tx\<rparr>) \<and>
      length tx = PACKET_BUF \<and> granted (Some b) = Some (dm_chaddr (example_message 2), Ipv4Addr 192 168 4 10)"
    by (rule discover_turn [OF example_decode(2)])
      (simp_all add: example_message_def OP_REQUEST_def MSG_DISCOVER_def no_options_def example_allocate 1)
  then obtain b2 tx2 where "dhcp_turn cfg \<lparr>sv_leases = example_table 1 0, sv_tx = tx1\<rparr> (300, example_discover 2) =
      (Some b2, \<lparr>sv_leases = example_table 2 300, sv_tx = tx2\<rparr>)"
    "granted (Some b2) = Some (Mac 2 0 0 0 0 2, Ipv4Addr 192 168 4 10)"
    by (auto simp: example_message_def)
  with 1 that show thesis by blast
qed

section \<open>Properties\<close>



text \<open>
  C18: No lease changes hands early.  In a run with at most as many clients as the pool has addresses, an
  address that was offered or acknowledged to one client and is later given to another was out of use
  for that client: at least the lease time lies between the two, or the client declined it in between.
\<close>

theorem dhcp_no_stolen_lease:
  assumes "server_start cfg = Some sv0"
    and "sorted (map (unat \<circ> fst) (xs @ (t1, p1) # ys @ [(t2, p2)]))"
    and "card (clients (xs @ (t1, p1) # ys @ [(t2, p2)])) \<le> POOL_SIZE"
    and "granted (fst (dhcp_turn cfg (run_state (dhcp_turn cfg) sv0 xs) (t1, p1))) = Some (m1, a)"
    and "granted (fst (dhcp_turn cfg (run_state (dhcp_turn cfg) sv0 (xs @ (t1, p1) # ys)) (t2, p2))) = Some (m2, a)"
    and "m1 \<noteq> m2" and "\<not> (\<exists>(t, p) \<in> set ys. declines m1 p)"
  shows "unat (dc_lease_secs cfg) \<le> unat t2 - unat t1"
proof (rule ccontr)
  assume early: "\<not> unat (dc_lease_secs cfg) \<le> unat t2 - unat t1"
  let ?S = "clients (xs @ (t1, p1) # ys @ [(t2, p2)])"
  let ?s1 = "run_state (dhcp_turn cfg) sv0 xs" let ?s1' = "snd (dhcp_turn cfg ?s1 (t1, p1))"
  let ?s2 = "run_state (dhcp_turn cfg) ?s1' ys"
  have sub: "clients xs \<subseteq> ?S" "clients ys \<subseteq> ?S" "client p1 \<noteq> None \<Longrightarrow> the (client p1) \<in> ?S" "client p2 \<noteq> None \<Longrightarrow> the (client p2) \<in> ?S"
    by (auto simp: clients_def)
  have ok1: "server_ok cfg ?s1" by (rule dhcp.inv_run [OF assms(1)])
  have start: "\<not> holds (sv_leases sv0) m i" for m i
    using assms(1) by (auto simp: server_start_def leases_new_def holds_def split: sum.splits)
  have S1: "m \<in> ?S" if "holds (sv_leases ?s1) m i" for m i
    using holders_run [OF server_ok_start [OF assms(1)] _ sub(1) that] start by blast
  obtain i where i: "may_take (sv_leases ?s1) m1 t1 i" "sv_leases ?s1' = claim (sv_leases ?s1) i m1 t1" "a = addr_of (sv_leases ?s1) i"
    using granted_turn [OF ok1 assms(4)] by blast
  have ok1': "server_ok cfg ?s1'" by (rule server_ok_turn [OF ok1])
  have "\<forall>m j. holds (sv_leases ?s1') m j \<longrightarrow> m \<in> ?S"
    using holders_turn [OF ok1 _ sub(3)] S1 by blast
  moreover have "i < POOL_SIZE" "lt_entries (sv_leases ?s1') ! i = Some \<lparr>le_mac = m1, offered_at_secs = t1\<rparr>"
    using i(1) ok1 by (simp_all add: i(2) claim_def may_take_def server_ok_def table_ok_def)
  ultimately have "keeps cfg ?S m1 i (unat t1) ?s1'"
    using ok1' by (simp add: keeps_def)
  then have k2: "keeps cfg ?S m1 i (unat t1) ?s2"
  proof (rule keeps_run [OF _ finite_clients assms(3) sub(2)])
    fix t p assume tp: "(t, p) \<in> set ys"
    then have "unat t1 \<le> unat t" "unat t \<le> unat t2"
      using assms(2) by (auto simp: sorted_append)
    with early tp assms(7) show "unat t1 \<le> unat t \<and> unat t - unat t1 < unat (dc_lease_secs cfg) \<and> \<not> declines m1 p"
      by auto
  qed
  then have ok2: "server_ok cfg ?s2" and S2: "\<And>m i. holds (sv_leases ?s2) m i \<Longrightarrow> m \<in> ?S" by (auto simp: keeps_def)
  obtain j where j: "may_take (sv_leases ?s2) m2 t2 j" "a = addr_of (sv_leases ?s2) j" "client p2 = Some m2"
    using granted_turn [OF ok2, of t2 p2 m2 a] assms(5) by auto
  have "addr_of (sv_leases ?s2) j = addr_of (sv_leases ?s1) j"
    using ok1 ok2 by (simp add: addr_of_def server_ok_def)
  with i(1,3) j(1,2) have "i = j" using addr_of_inject [of i j "sv_leases ?s1"] by (simp add: may_take_def)
  moreover have "holds (sv_leases ?s2) m2 j \<or> available (sv_leases ?s2) t2 (lt_entries (sv_leases ?s2) ! j)"
    using no_eviction [OF _ S2 finite_clients assms(3) _ j(1)] ok2 sub(4) j(3) by (simp add: server_ok_def)
  ultimately show False
    using k2 assms(6) early by (auto simp: keeps_def holds_def available_def is_expired_def server_ok_def)
qed

theorem dhcp_no_stolen_lease_witness:
  "granted (fst (dhcp_turn dhcp_config_default
      (run_state (dhcp_turn dhcp_config_default) \<lparr>sv_leases = leases_new (Ipv4Addr 192 168 4 10) 300, sv_tx = replicate PACKET_BUF 0\<rparr>
         [(0, example_discover 1)]) (300, example_discover 2))) = Some (Mac 2 0 0 0 0 2, Ipv4Addr 192 168 4 10) \<and>
   unat (dc_lease_secs dhcp_config_default) \<le> unat (300 :: u64) - unat (0 :: u64)"
proof (rule example_turns)
  fix b1 b2 tx1 tx2
  assume t: "dhcp_turn dhcp_config_default \<lparr>sv_leases = leases_new (Ipv4Addr 192 168 4 10) 300, sv_tx = replicate PACKET_BUF 0\<rparr>
      (0, example_discover 1) = (Some b1, \<lparr>sv_leases = example_table 1 0, sv_tx = tx1\<rparr>)"
    "dhcp_turn dhcp_config_default \<lparr>sv_leases = example_table 1 0, sv_tx = tx1\<rparr> (300, example_discover 2) =
       (Some b2, \<lparr>sv_leases = example_table 2 300, sv_tx = tx2\<rparr>)"
    "granted (Some b1) = Some (Mac 2 0 0 0 0 1, Ipv4Addr 192 168 4 10)"
    "granted (Some b2) = Some (Mac 2 0 0 0 0 2, Ipv4Addr 192 168 4 10)"
  have "clients [(0, example_discover 1), (300, example_discover 2)] \<subseteq> {Mac 2 0 0 0 0 1, Mac 2 0 0 0 0 2}"
    by (auto simp: clients_def client_def example_decode example_message_def)
  then have "card (clients [(0, example_discover 1), (300, example_discover 2)]) \<le> card {Mac 2 0 0 0 0 1, Mac 2 0 0 0 0 2}"
    by (intro card_mono) simp_all
  then have "card (clients [(0, example_discover 1), (300, example_discover 2)]) \<le> POOL_SIZE"
    by (simp add: POOL_SIZE_def)
  with t dhcp_no_stolen_lease [OF example_start, of "[]" 0 "example_discover 1" "[]" 300 "example_discover 2"
      "Mac 2 0 0 0 0 1" "Ipv4Addr 192 168 4 10" "Mac 2 0 0 0 0 2"]
  show ?thesis by simp
qed

end
