(* ===== verification/Portal_Dns.thy ===== *)
theory Portal_Dns
  imports Net_Bytes
begin

text \<open>
  The DNS catch-all of the provisioning portal
  (\<^verbatim>\<open>rustyfarian-esp-hal-network/src/provisioning/dns_catchall.rs\<close>): decoder, encoder and the body of the
  server loop from datagram to reply.

  The lemmas show that the walk over the name accepts exactly the names of RFC 1035 without compression,
  and what the encoder writes.  The properties characterise the accepted queries and the replies.
\<close>

section \<open>Model\<close>

definition DNS_PORT :: u16 where "DNS_PORT = 53"
definition DNS_MSG_MAX :: nat where "DNS_MSG_MAX = 512"
definition DNS_MIN_QUERY :: nat where "DNS_MIN_QUERY = 17"
definition QNAME_MAX_WIRE :: nat where "QNAME_MAX_WIRE = 255"
definition LABEL_MAX :: nat where "LABEL_MAX = 63"
definition COMPRESSION_MASK :: u8 where "COMPRESSION_MASK = 0xC0"
definition FLAG_QR :: u16 where "FLAG_QR = 0x8000"
definition FLAG_RD :: u16 where "FLAG_RD = 0x0100"

record dns_config =
  dc_bind_port :: u16
  dc_answer_ip :: ipv4_addr
  dc_ttl_secs :: u32

definition dns_config_default :: dns_config where
  "dns_config_default = \<lparr>dc_bind_port = DNS_PORT, dc_answer_ip = Ipv4Addr 192 168 4 1, dc_ttl_secs = 60\<rparr>"

datatype dns_error =
    TooShort | NotAQuery | UnsupportedQuestionCount | CompressionPointerNotAllowed | MalformedName | Truncated
  | BufferTooSmall

text \<open>The range is kept as its two ends.\<close>

record dns_query =
  dq_id :: u16
  dq_flags :: u16
  dq_qname_start :: nat
  dq_qname_end :: nat
  dq_qtype :: u16
  dq_qclass :: u16

text \<open>The loop over the labels: the position behind the name.\<close>

function qname_walk :: "bytes \<Rightarrow> nat \<Rightarrow> nat \<Rightarrow> dns_error + nat" where
  "qname_walk buf pos wire_len =
     (if length buf \<le> pos then Inl Truncated
      else
        let len_byte = buf ! pos in
        if and len_byte COMPRESSION_MASK = COMPRESSION_MASK then Inl CompressionPointerNotAllowed
        else if and len_byte 0x80 \<noteq> 0 then Inl MalformedName
        else
          let label_len = unat len_byte; wire1 = wire_len + 1 in
          if QNAME_MAX_WIRE < wire1 then Inl MalformedName
          else if label_len = 0 then Inr (pos + 1)
          else if LABEL_MAX < label_len then Inl MalformedName
          else if QNAME_MAX_WIRE < wire1 + label_len then Inl MalformedName
          else qname_walk buf (pos + (1 + label_len)) (wire1 + label_len))"
  by pat_completeness auto
termination by (relation "measure (\<lambda>(buf, pos, _). length buf - pos)") auto

declare qname_walk.simps [simp del]

definition decode_query :: "bytes \<Rightarrow> dns_error + dns_query" where
  "decode_query buf =
     (if length buf < DNS_MIN_QUERY then Inl TooShort
      else
        let flags = of_be16 (buf ! 2) (buf ! 3) in
        if and flags FLAG_QR \<noteq> 0 then Inl NotAQuery
        else if of_be16 (buf ! 4) (buf ! 5) \<noteq> 1 then Inl UnsupportedQuestionCount
        else (case qname_walk buf 12 0 of
            Inl e \<Rightarrow> Inl e
          | Inr pos \<Rightarrow>
              if length buf < pos + 4 then Inl Truncated
              else Inr \<lparr>dq_id = of_be16 (buf ! 0) (buf ! 1), dq_flags = flags, dq_qname_start = 12, dq_qname_end = pos,
                dq_qtype = of_be16 (buf ! pos) (buf ! (pos + 1)),
                dq_qclass = of_be16 (buf ! (pos + 2)) (buf ! (pos + 3))\<rparr>))"

text \<open>Consecutive writes, each right behind the one before.\<close>

fun place :: "nat \<Rightarrow> bytes list \<Rightarrow> (nat \<times> bytes) list" where
  "place pos [] = []"
| "place pos (bs # bss) = (pos, bs) # place (pos + length bs) bss"

definition encode_response :: "dns_query \<Rightarrow> bytes \<Rightarrow> ipv4_addr \<Rightarrow> u32 \<Rightarrow> (bytes, dns_error, nat) prog" where
  "encode_response q query_buf answer_ip ttl_secs = (\<lambda>buf.
     let qname_bytes = take (dq_qname_end q - dq_qname_start q) (drop (dq_qname_start q) query_buf);
         qname_len = length qname_bytes;
         needed = 12 + qname_len + 4 + 16 in
     if length buf < needed then (Inl BufferTooSmall, buf)
     else
       let pieces = [be16 (dq_id q), be16 (or 0x8400 (and (dq_flags q) FLAG_RD)), be16 1, be16 1, be16 0, be16 0,
                     qname_bytes, be16 (dq_qtype q), be16 (dq_qclass q),
                     [0xC0, 0x0C], be16 1, be16 1, be32 ttl_secs, be16 4, octets answer_ip] in
       (Inr (length (concat pieces)), put_all buf (place 0 pieces)))"

text \<open>
  One turn of the server: what \<^verbatim>\<open>recv_from\<close> reported (the start of the receive buffer, with the count
  clamped), the transmit buffer before and after, and the datagram sent back.
\<close>

definition dns_turn :: "dns_config \<Rightarrow> bytes option \<Rightarrow> bytes \<Rightarrow> bytes option \<times> bytes" where
  "dns_turn config received tx_pkt = (case received of
       None \<Rightarrow> (None, tx_pkt)
     | Some datagram \<Rightarrow>
         let rx = take DNS_MSG_MAX datagram in
         (case decode_query rx of
            Inl _ \<Rightarrow> (None, tx_pkt)
          | Inr query \<Rightarrow>
              (case encode_response query rx (dc_answer_ip config) (dc_ttl_secs config) tx_pkt of
                 (Inr len, tx) \<Rightarrow> (Some (take len tx), tx)
               | (Inl _, tx) \<Rightarrow> (None, tx))))"

fun dns_run :: "dns_config \<Rightarrow> bytes \<Rightarrow> bytes option list \<Rightarrow> bytes option list" where
  "dns_run config tx_pkt [] = []"
| "dns_run config tx_pkt (received # rest) =
     (case dns_turn config received tx_pkt of (reply, tx) \<Rightarrow> reply # dns_run config tx rest)"

section \<open>Names on the wire\<close>

definition name_bytes :: "bytes list \<Rightarrow> bytes" where
  "name_bytes ls = concat (map (\<lambda>l. of_nat (length l) # l) ls) @ [0]"

definition name_ok :: "bytes list \<Rightarrow> bool" where
  "name_ok ls \<longleftrightarrow> list_all (\<lambda>l. 1 \<le> length l \<and> length l \<le> 63) ls"

lemma name_bytes_simps [simp]:
  "name_bytes [] = [0]" "name_bytes (l # ls) = of_nat (length l) # l @ name_bytes ls"
  by (simp_all add: name_bytes_def)

lemma short_length_byte:
  fixes b :: u8
  assumes "unat b < 64"
  shows "and b 0xC0 = 0" and "and b 0x80 = 0"
proof -
  have "list_all (\<lambda>n. and (of_nat n :: u8) 0xC0 = 0 \<and> and (of_nat n :: u8) 0x80 = 0) [0 ..< 64]" by code_simp
  moreover have "unat b \<in> set [0 ..< 64]" using assms by simp
  ultimately have "and (of_nat (unat b) :: u8) 0xC0 = 0 \<and> and (of_nat (unat b) :: u8) 0x80 = 0"
    unfolding list_all_iff by (rule bspec)
  then show "and b 0xC0 = 0" "and b 0x80 = 0" by simp_all
qed

lemma walk_name:
  assumes "name_ok ls" and "wire + length (name_bytes ls) \<le> 255" and "drop pos buf = name_bytes ls @ rest"
  shows "qname_walk buf pos wire = Inr (pos + length (name_bytes ls))"
  using assms
proof (induction ls arbitrary: pos wire)
  case Nil
  then have "pos < length buf" "buf ! pos = 0"
    by (metis drop_all append_is_Nil_conv list.discI name_bytes_simps(1) not_le, metis drop_all append_Cons append_Nil Cons_nth_drop_Suc list.discI list.sel(1) name_bytes_simps(1) not_le)
  with Nil show ?case by (subst qname_walk.simps) (simp add: COMPRESSION_MASK_def QNAME_MAX_WIRE_def)
next
  case (Cons l ls)
  have l: "1 \<le> length l" "length l \<le> 63" "name_ok ls" "l \<noteq> []" using Cons.prems(1) by (auto simp: name_ok_def)
  have ub: "unat (of_nat (length l) :: u8) = length l" using l(2) by (intro unat_of_nat_u8) simp
  have d: "drop pos buf = of_nat (length l) # l @ name_bytes ls @ rest" using Cons.prems(3) by simp
  then have pos: "pos < length buf" "buf ! pos = of_nat (length l)"
    by (metis drop_all list.discI not_le, metis drop_all Cons_nth_drop_Suc list.discI list.sel(1) not_le)
  have next_: "drop (pos + (1 + length l)) buf = name_bytes ls @ rest"
    using arg_cong [OF d, of "drop (1 + length l)"] by (simp add: add.commute)
  have "qname_walk buf (pos + (1 + length l)) (wire + 1 + length l) = Inr (pos + (1 + length l) + length (name_bytes ls))"
    using Cons.prems(2) l(3) next_ by (intro Cons.IH) simp_all
  with pos l ub Cons.prems(2) short_length_byte [of "of_nat (length l)"] show ?case
    by (subst qname_walk.simps) (simp add: COMPRESSION_MASK_def QNAME_MAX_WIRE_def LABEL_MAX_def Let_def)
qed

lemma walk_is_name:
  assumes "qname_walk buf pos wire = Inr e"
  obtains ls where "name_ok ls" "wire + length (name_bytes ls) \<le> 255" "e = pos + length (name_bytes ls)"
    "e \<le> length buf" "take (e - pos) (drop pos buf) = name_bytes ls"
proof -
  have "\<exists>ls. name_ok ls \<and> wire + length (name_bytes ls) \<le> 255 \<and> e = pos + length (name_bytes ls) \<and>
    e \<le> length buf \<and> take (e - pos) (drop pos buf) = name_bytes ls"
    using assms
  proof (induction buf pos wire rule: qname_walk.induct)
    case (1 buf pos wire)
    let ?n = "unat (buf ! pos)"
    have pos: "pos < length buf"
      using "1.prems" by (subst (asm) qname_walk.simps) (simp split: if_splits)
    then have hd: "drop pos buf = buf ! pos # drop (Suc pos) buf" by (simp add: Cons_nth_drop_Suc)
    show ?case
    proof (cases "?n = 0")
      case True
      then have "buf ! pos = 0" by (simp add: unsigned_eq_0_iff)
      with "1.prems" pos have e: "e = pos + 1" "wire + 1 \<le> 255"
        by (subst (asm) qname_walk.simps, simp add: Let_def QNAME_MAX_WIRE_def COMPRESSION_MASK_def split: if_splits)+
      with pos hd \<open>buf ! pos = 0\<close> show ?thesis by (intro exI [of _ "[]"]) (simp add: name_ok_def)
    next
      case False
      with "1.prems" pos
      have w: "qname_walk buf (pos + (1 + ?n)) (wire + 1 + ?n) = Inr e" and n: "?n \<le> 63"
        and c: "and (buf ! pos) COMPRESSION_MASK \<noteq> COMPRESSION_MASK" "\<not> and (buf ! pos) 0x80 \<noteq> 0"
          "\<not> QNAME_MAX_WIRE < wire + 1" "\<not> QNAME_MAX_WIRE < wire + 1 + ?n"
        by (subst (asm) qname_walk.simps, simp add: Let_def LABEL_MAX_def split: if_splits)+
      have "\<exists>ls. name_ok ls \<and> wire + 1 + ?n + length (name_bytes ls) \<le> 255 \<and> e = pos + (1 + ?n) + length (name_bytes ls) \<and>
          e \<le> length buf \<and> take (e - (pos + (1 + ?n))) (drop (pos + (1 + ?n)) buf) = name_bytes ls"
        by (rule "1.IH" [OF _ refl c(1,2) refl refl c(3) False _ c(4) w]) (use pos n in \<open>simp_all add: LABEL_MAX_def\<close>)
      then obtain ls where ls: "name_ok ls" "wire + 1 + ?n + length (name_bytes ls) \<le> 255"
          "e = pos + (1 + ?n) + length (name_bytes ls)" "e \<le> length buf"
          "take (e - (pos + (1 + ?n))) (drop (pos + (1 + ?n)) buf) = name_bytes ls" by blast
      let ?l = "take ?n (drop (Suc pos) buf)"
      have l: "length ?l = ?n" "of_nat (length ?l) = buf ! pos" using ls(3,4) by simp_all
      have "take (e - pos) (drop pos buf) = buf ! pos # take (?n + length (name_bytes ls)) (drop (Suc pos) buf)"
        using ls(3) by (simp add: hd)
      also have "\<dots> = buf ! pos # ?l @ name_bytes ls"
        using ls(3,5) by (subst take_add) (simp add: add.commute)
      finally show ?thesis
        using ls n False l by (intro exI [of _ "?l # ls"]) (simp add: name_ok_def)
    qed
  qed
  then show thesis using that by blast
qed

lemma be16_read: "of_be16 (be16 w ! 0) (be16 w ! Suc 0) = w"
  by (simp add: be16_def)

section \<open>What the encoder writes\<close>

lemma put_all_place:
  "pos + length (concat bss) \<le> length buf \<Longrightarrow> take (pos + length (concat bss)) (put_all buf (place pos bss)) = take pos buf @ concat bss"
proof (induction bss arbitrary: pos buf)
  case (Cons bs bss)
  then have "take (pos + length bs + length (concat bss)) (put_all (put buf pos bs) (place (pos + length bs) bss)) =
      take (pos + length bs) (put buf pos bs) @ concat bss"
    by (intro Cons.IH) simp
  with Cons.prems show ?case by (simp add: take_put_grow add.assoc)
qed simp

definition reply_pieces :: "dns_query \<Rightarrow> bytes \<Rightarrow> ipv4_addr \<Rightarrow> u32 \<Rightarrow> bytes list" where
  "reply_pieces q name answer_ip ttl_secs =
     [be16 (dq_id q), be16 (or 0x8400 (and (dq_flags q) FLAG_RD)), be16 1, be16 1, be16 0, be16 0,
      name, be16 (dq_qtype q), be16 (dq_qclass q),
      [0xC0, 0x0C], be16 1, be16 1, be32 ttl_secs, be16 4, octets answer_ip]"

lemma length_reply: "length (concat (reply_pieces q name ip ttl)) = 32 + length name"
  by (simp add: reply_pieces_def)

lemma encode_response_output:
  assumes "dq_qname_start q \<le> dq_qname_end q" and "dq_qname_end q \<le> length query_buf"
  defines "name \<equiv> take (dq_qname_end q - dq_qname_start q) (drop (dq_qname_start q) query_buf)"
  assumes "32 + length name \<le> length buf"
  obtains b where "encode_response q query_buf ip ttl buf = (Inr (32 + length name), b)"
    "length b = length buf" "take (32 + length name) b = concat (reply_pieces q name ip ttl)"
proof (rule that)
  let ?p = "reply_pieces q name ip ttl"
  have "encode_response q query_buf ip ttl buf = (Inr (length (concat ?p)), put_all buf (place 0 ?p))"
    using assms(4) unfolding encode_response_def name_def [symmetric] reply_pieces_def [symmetric] by (simp add: Let_def)
  then show "encode_response q query_buf ip ttl buf = (Inr (32 + length name), put_all buf (place 0 ?p))"
    by (simp only: length_reply)
  show "length (put_all buf (place 0 ?p)) = length buf" by simp
  show "take (32 + length name) (put_all buf (place 0 ?p)) = concat ?p"
    using put_all_place [of 0 ?p buf] assms(4) by (simp add: length_reply)
qed

text \<open>The server without its buffers: what it answers to one datagram.\<close>

definition answer :: "dns_config \<Rightarrow> bytes \<Rightarrow> bytes option" where
  "answer cfg datagram = (case decode_query (take 512 datagram) of
       Inl _ \<Rightarrow> None
     | Inr q \<Rightarrow> Some (be16 (dq_id q) @ be16 (or 0x8400 (and (dq_flags q) 0x0100)) @ be16 1 @ be16 1 @ be16 0 @ be16 0 @
         take (dq_qname_end q - 12) (drop 12 datagram) @ be16 (dq_qtype q) @ be16 (dq_qclass q) @
         [0xC0, 12] @ be16 1 @ be16 1 @ be32 (dc_ttl_secs cfg) @ be16 4 @ octets (dc_answer_ip cfg)))"

definition harmless_reply :: "bytes option \<Rightarrow> bool" where
  "harmless_reply r = (case r of None \<Rightarrow> True | Some bs \<Rightarrow> length bs \<le> 287 \<and> decode_query bs = Inl NotAQuery)"

lemma decoded_name:
  assumes "decode_query bs = Inr q"
  shows "dq_qname_start q = 12" and "12 \<le> dq_qname_end q" and "dq_qname_end q \<le> length bs" and "dq_qname_end q \<le> 267"
proof -
  obtain e where w: "qname_walk bs 12 0 = Inr e" and q: "dq_qname_start q = 12" "dq_qname_end q = e"
    using assms by (auto simp: decode_query_def Let_def split: if_splits sum.splits)
  from w obtain ls where "0 + length (name_bytes ls) \<le> 255" "e = 12 + length (name_bytes ls)" "e \<le> length bs"
    by (rule walk_is_name)
  with q show "dq_qname_start q = 12" "12 \<le> dq_qname_end q" "dq_qname_end q \<le> length bs" "dq_qname_end q \<le> 267" by simp_all
qed

lemma turn_answers:
  assumes "length tx = 512"
  obtains tx' where "dns_turn cfg (Some d) tx = (answer cfg d, tx')" "length tx' = 512"
proof (cases "decode_query (take 512 d)")
  case (Inl e)
  with assms that show thesis by (simp add: dns_turn_def answer_def DNS_MSG_MAX_def)
next
  case (Inr q)
  note name = decoded_name [OF Inr]
  let ?name = "take (dq_qname_end q - 12) (drop 12 (take 512 d))"
  have same: "?name = take (dq_qname_end q - 12) (drop 12 d)" using name(4) by (simp add: drop_take min_def)
  have fits: "32 + length ?name \<le> length tx" using name(4) assms by simp
  from encode_response_output [of q "take 512 d" tx "dc_answer_ip cfg" "dc_ttl_secs cfg"] name(1,2,3) fits
  obtain b where b: "encode_response q (take 512 d) (dc_answer_ip cfg) (dc_ttl_secs cfg) tx = (Inr (32 + length ?name), b)"
    "length b = length tx" "take (32 + length ?name) b = concat (reply_pieces q ?name (dc_answer_ip cfg) (dc_ttl_secs cfg))"
    unfolding name(1) by blast
  have "answer cfg d = Some (concat (reply_pieces q ?name (dc_answer_ip cfg) (dc_ttl_secs cfg)))"
    unfolding same by (simp add: answer_def Inr reply_pieces_def FLAG_RD_def)
  then have "answer cfg d = Some (take (32 + length ?name) b)" by (simp only: b(3))
  with b(1,2) Inr assms show thesis by (intro that [of b]) (simp_all add: dns_turn_def DNS_MSG_MAX_def)
qed

lemma answer_harmless: "harmless_reply (answer cfg d)"
proof (cases "decode_query (take 512 d)")
  case (Inr q)
  note name = decoded_name [OF Inr]
  let ?f = "or 0x8400 (and (dq_flags q) 0x0100)"
  obtain r where r: "answer cfg d = Some r" and hd: "\<exists>t. r = be16 (dq_id q) @ be16 ?f @ t" and len: "length r \<le> 287" "17 \<le> length r"
    using name(2,3,4) by (auto simp: answer_def Inr)
  have "r ! 2 = be16 ?f ! 0" "r ! 3 = be16 ?f ! 1" using hd by (auto simp: nth_append)
  then have f: "of_be16 (r ! 2) (r ! 3) = ?f" by (simp add: be16_read)
  have "bit (and ?f 0x8000) 15" by (simp add: bit_simps)
  then have "and ?f 0x8000 \<noteq> 0" by (metis bit_0_eq bot_apply bot_bool_def)
  with f len have "decode_query r = Inl NotAQuery"
    by (simp add: decode_query_def DNS_MIN_QUERY_def FLAG_QR_def Let_def)
  with r len show ?thesis by (simp add: harmless_reply_def)
qed (simp add: answer_def harmless_reply_def)

lemma run_answers: "length tx = 512 \<Longrightarrow> dns_run cfg tx inputs = map (\<lambda>i. Option.bind i (answer cfg)) inputs"
proof (induction inputs arbitrary: tx)
  case (Cons i inputs)
  show ?case
  proof (cases i)
    case None
    with Cons show ?thesis by (simp add: dns_turn_def)
  next
    case (Some d)
    obtain tx' where "dns_turn cfg (Some d) tx = (answer cfg d, tx')" "length tx' = 512"
      using turn_answers [OF Cons.prems] by blast
    with Cons.IH Some show ?thesis by simp
  qed
qed simp

section \<open>Properties\<close>

text \<open>
  C35: the decoder accepts exactly the queries of one question.  A datagram is accepted with a result iff
  it is a header with the QR bit clear and a question count of one, a name of labels of 1 to 63 bytes
  and of at most 255 bytes in all, without compression, the type and the class, and anything behind it;
  the result holds these fields and the place of the name.
\<close>

theorem dns_query_grammar:
  "decode_query bs = Inr q \<longleftrightarrow>
    (\<exists>i f c ls t k rest. bs = be16 i @ be16 f @ be16 1 @ c @ name_bytes ls @ be16 t @ be16 k @ rest \<and>
       and f 0x8000 = 0 \<and> length c = 6 \<and> name_ok ls \<and> length (name_bytes ls) \<le> 255 \<and>
       q = \<lparr>dq_id = i, dq_flags = f, dq_qname_start = 12, dq_qname_end = 12 + length (name_bytes ls),
            dq_qtype = t, dq_qclass = k\<rparr>)"
  (is "?l \<longleftrightarrow> ?r")
proof
  assume ?l
  then obtain e where len: "17 \<le> length bs" and q: "and (of_be16 (bs ! 2) (bs ! 3)) 0x8000 = 0" "of_be16 (bs ! 4) (bs ! 5) = 1"
    and w: "qname_walk bs 12 0 = Inr e" and e: "e + 4 \<le> length bs"
    and r: "q = \<lparr>dq_id = of_be16 (bs ! 0) (bs ! 1), dq_flags = of_be16 (bs ! 2) (bs ! 3), dq_qname_start = 12, dq_qname_end = e,
                dq_qtype = of_be16 (bs ! e) (bs ! (e + 1)), dq_qclass = of_be16 (bs ! (e + 2)) (bs ! (e + 3))\<rparr>"
    by (auto simp: decode_query_def DNS_MIN_QUERY_def FLAG_QR_def Let_def split: if_splits sum.splits)
  from w obtain ls where ls: "name_ok ls" "0 + length (name_bytes ls) \<le> 255" "e = 12 + length (name_bytes ls)"
    "e \<le> length bs" "take (e - 12) (drop 12 bs) = name_bytes ls" by (rule walk_is_name)
  have front: "take 12 bs = [bs ! 0, bs ! 1, bs ! 2, bs ! 3, bs ! 4, bs ! 5] @ take 6 (drop 6 bs)"
  proof -
    have "take 6 bs = [bs ! 0, bs ! 1, bs ! 2, bs ! 3, bs ! 4, bs ! 5]"
      using len by (intro nth_equalityI) (auto simp: nth_Cons' numeral_eq_Suc less_Suc_eq)
    then show ?thesis using take_add [of 6 6 bs] by simp
  qed
  have last4: "take 4 (drop e bs) = [bs ! e, bs ! (e + 1), bs ! (e + 2), bs ! (e + 3)]"
    using e by (intro nth_equalityI) (auto simp: nth_Cons' numeral_eq_Suc less_Suc_eq)
  have "bs = take 12 bs @ drop 12 bs" by simp
  also have "drop 12 bs = name_bytes ls @ drop e bs"
    using ls(3,5) by (metis append_take_drop_id diff_add_inverse drop_drop add.commute)
  also have "drop e bs = take 4 (drop e bs) @ drop (e + 4) bs" by (metis append_take_drop_id drop_drop add.commute)
  finally have "bs = be16 (of_be16 (bs ! 0) (bs ! 1)) @ be16 (of_be16 (bs ! 2) (bs ! 3)) @ be16 1 @ take 6 (drop 6 bs) @ name_bytes ls @
      be16 (of_be16 (bs ! e) (bs ! (e + 1))) @ be16 (of_be16 (bs ! (e + 2)) (bs ! (e + 3))) @ drop (e + 4) bs"
    unfolding front last4 q(2) [symmetric] by simp
  moreover have "length (take 6 (drop 6 bs)) = 6" using len by simp
  ultimately show ?r using q(1) ls r by (metis add_0)
next
  assume ?r
  then obtain i f c ls t k rest where bs: "bs = be16 i @ be16 f @ be16 1 @ c @ name_bytes ls @ be16 t @ be16 k @ rest"
    and h: "and f 0x8000 = 0" "length c = 6" "name_ok ls" "length (name_bytes ls) \<le> 255"
    and q: "q = \<lparr>dq_id = i, dq_flags = f, dq_qname_start = 12, dq_qname_end = 12 + length (name_bytes ls), dq_qtype = t, dq_qclass = k\<rparr>"
    by blast
  let ?e = "12 + length (name_bytes ls)"
  have pre: "bs = (be16 i @ be16 f @ be16 1 @ c) @ name_bytes ls @ be16 t @ be16 k @ rest" by (simp add: bs)
  have len: "17 \<le> length bs" "?e + 4 \<le> length bs" by (simp_all add: bs h(2) name_bytes_def)
  have hd: "bs ! 0 = be16 i ! 0" "bs ! Suc 0 = be16 i ! 1" "bs ! 2 = be16 f ! 0" "bs ! 3 = be16 f ! 1"
    "bs ! 4 = be16 1 ! 0" "bs ! 5 = be16 1 ! 1"
    by (simp_all add: bs nth_append)
  have tl: "bs ! (?e + j) = (be16 t @ be16 k @ rest) ! j" for j
    unfolding pre by (subst append_assoc [symmetric], subst nth_append) (simp add: h(2))
  have "drop 12 bs = name_bytes ls @ be16 t @ be16 k @ rest" by (simp add: bs h(2))
  from walk_name [OF h(3) _ this, of 0] h(4) have w: "qname_walk bs 12 0 = Inr ?e" by simp
  show ?l
    using len h(1) tl [of 0] tl [of 1] tl [of 2] tl [of 3]
    by (simp add: decode_query_def DNS_MIN_QUERY_def FLAG_QR_def Let_def w hd q be16_read nth_append)
qed

text \<open>
  The server keeps nothing from one datagram to the next.  On any sequence of received datagrams and
  receive errors its replies are those of a stateless responder: every accepted query is answered, its
  identifier, question and RD flag are echoed and one A record with the configured address follows;
  everything else is not answered.  No reply is longer than 287 bytes, and every reply is refused as a
  query, so that two such servers cannot answer each other.
\<close>

theorem dns_server_stateless:
  "dns_run cfg (replicate DNS_MSG_MAX 0) inputs = map (\<lambda>i. Option.bind i (answer cfg)) inputs \<and>
   list_all harmless_reply (dns_run cfg (replicate DNS_MSG_MAX 0) inputs)"
proof -
  have "dns_run cfg (replicate DNS_MSG_MAX 0) inputs = map (\<lambda>i. Option.bind i (answer cfg)) inputs"
    by (intro run_answers) (simp add: DNS_MSG_MAX_def)
  moreover have "harmless_reply (Option.bind i (answer cfg))" for i
    by (cases i) (simp_all add: answer_harmless, simp add: harmless_reply_def)
  ultimately show ?thesis by (simp add: list_all_iff)
qed

end
