(* ===== verification/Net_Text.thy ===== *)
theory Net_Text
  imports Net_Bytes
begin

text \<open>
  Text as bytes, for the parsers and printers of the provisioning portal and of the firmware download: what
  Rust's \<^verbatim>\<open>str\<close> and slice methods do on it, the decimal numbers, lines and header fields of HTTP/1.1, and
  writing into a buffer of fixed length.  A buffer with a fill position is the list of the bytes written so
  far, and its capacity a number.
\<close>

section \<open>UTF-8\<close>

definition ascii :: "string \<Rightarrow> bytes" where
  "ascii s = map of_char s"

text \<open>\<^verbatim>\<open>str::from_utf8\<close> accepts, and \<^verbatim>\<open>str::is_char_boundary\<close>.\<close>

definition cont_byte :: "u8 \<Rightarrow> bool" where
  "cont_byte b = (0x80 \<le> b \<and> b \<le> 0xBF)"

function utf8_valid :: "bytes \<Rightarrow> bool" where
  "utf8_valid [] = True"
| "utf8_valid (b # bs) =
     (if b < 0x80 then utf8_valid bs
      else if 0xC2 \<le> b \<and> b \<le> 0xDF then (case bs of c # rest \<Rightarrow> cont_byte c \<and> utf8_valid rest | _ \<Rightarrow> False)
      else if 0xE0 \<le> b \<and> b \<le> 0xEF then
        (case bs of c # d # rest \<Rightarrow>
            (if b = 0xE0 then 0xA0 \<le> c \<and> c \<le> 0xBF else if b = 0xED then 0x80 \<le> c \<and> c \<le> 0x9F else cont_byte c) \<and>
            cont_byte d \<and> utf8_valid rest
          | _ \<Rightarrow> False)
      else if 0xF0 \<le> b \<and> b \<le> 0xF4 then
        (case bs of c # d # e # rest \<Rightarrow>
            (if b = 0xF0 then 0x90 \<le> c \<and> c \<le> 0xBF else if b = 0xF4 then 0x80 \<le> c \<and> c \<le> 0x8F else cont_byte c) \<and>
            cont_byte d \<and> cont_byte e \<and> utf8_valid rest
          | _ \<Rightarrow> False)
      else False)"
  by pat_completeness auto
termination by (relation "measure length") auto

definition is_char_boundary :: "bytes \<Rightarrow> nat \<Rightarrow> bool" where
  "is_char_boundary s i = (i = 0 \<or> i = length s \<or> (i < length s \<and> \<not> cont_byte (s ! i)))"

section \<open>Strings\<close>

text \<open>\<^verbatim>\<open>split(c)\<close>, \<^verbatim>\<open>split_once(c)\<close>, \<^verbatim>\<open>rsplit_once(c)\<close>, \<^verbatim>\<open>strip_prefix\<close>, and \<^verbatim>\<open>push_str\<close> with its result ignored.\<close>

fun split_on :: "u8 \<Rightarrow> bytes \<Rightarrow> bytes list" where
  "split_on c [] = [[]]"
| "split_on c (b # bs) = (if b = c then [] # split_on c bs else (case split_on c bs of p # ps \<Rightarrow> (b # p) # ps | [] \<Rightarrow> [[b]]))"

definition split_once :: "u8 \<Rightarrow> bytes \<Rightarrow> (bytes \<times> bytes) option" where
  "split_once c s = (case dropWhile (\<lambda>b. b \<noteq> c) s of [] \<Rightarrow> None | _ # rest \<Rightarrow> Some (takeWhile (\<lambda>b. b \<noteq> c) s, rest))"

definition rsplit_once :: "u8 \<Rightarrow> bytes \<Rightarrow> (bytes \<times> bytes) option" where
  "rsplit_once c s = map_option (\<lambda>(a, b). (rev b, rev a)) (split_once c (rev s))"

definition strip_prefix :: "bytes \<Rightarrow> bytes \<Rightarrow> bytes option" where
  "strip_prefix p s = (if take (length p) s = p then Some (drop (length p) s) else None)"

definition push_str :: "nat \<Rightarrow> bytes \<Rightarrow> bytes \<Rightarrow> bytes" where
  "push_str cap out s = (if length out + length s \<le> cap then out @ s else out)"

section \<open>Positions, trimming and comparison\<close>

definition rposition :: "('a \<Rightarrow> bool) \<Rightarrow> 'a list \<Rightarrow> nat option" where
  "rposition p xs = map_option (\<lambda>i. length xs - 1 - i) (position p (rev xs))"

definition is_ows :: "u8 \<Rightarrow> bool" where
  "is_ows b \<longleftrightarrow> b = 0x20 \<or> b = 0x09 \<or> b = 0x0D \<or> b = 0x0A"

definition trim_ows :: "bytes \<Rightarrow> bytes" where
  "trim_ows s =
     (let start = (case position (\<lambda>b. \<not> is_ows b) s of Some i \<Rightarrow> i | None \<Rightarrow> length s);
          stop = (case rposition (\<lambda>b. \<not> is_ows b) s of Some i \<Rightarrow> i + 1 | None \<Rightarrow> 0) in
      if stop \<le> start then [] else take (stop - start) (drop start s))"

definition to_lower :: "u8 \<Rightarrow> u8" where
  "to_lower b = (if 0x41 \<le> b \<and> b \<le> 0x5A then b + 0x20 else b)"

definition eq_ignore_case :: "bytes \<Rightarrow> bytes \<Rightarrow> bool" where
  "eq_ignore_case a b \<longleftrightarrow> length a = length b \<and> list_all (\<lambda>(x, y). to_lower x = to_lower y) (zip a b)"

definition is_digit :: "u8 \<Rightarrow> bool" where "is_digit b \<longleftrightarrow> 0x30 \<le> b \<and> b \<le> 0x39"

text \<open>\<^verbatim>\<open>str::parse::<u64>\<close> of a text of digits.\<close>

definition parse_u64 :: "bytes \<Rightarrow> nat option" where
  "parse_u64 v = (let n = foldl (\<lambda>a b. a * 10 + unat (b - 0x30)) 0 v in if n < 2 ^ 64 then Some n else None)"

text \<open>\<^verbatim>\<open>windows(n).position(|w| w == pat)\<close>, for a pattern of \<open>n > 0\<close> bytes.\<close>

fun find_window :: "bytes \<Rightarrow> bytes \<Rightarrow> nat option" where
  "find_window pat [] = None"
| "find_window pat (b # bs) = (if take (length pat) (b # bs) = pat then Some 0 else map_option Suc (find_window pat bs))"

definition crlf :: bytes where "crlf = [0x0D, 0x0A]"

section \<open>Writing into a buffer\<close>

definition write_bytes :: "nat \<Rightarrow> bytes \<Rightarrow> bytes \<Rightarrow> bytes option" where
  "write_bytes cap out src = (if cap < length out + length src then None else Some (out @ src))"

text \<open>The digits in the order of the loop, the last one first.\<close>

fun u32_digits_rev :: "nat \<Rightarrow> bytes" where
  "u32_digits_rev n = (if n = 0 then [] else (0x30 + of_nat (n mod 10)) # u32_digits_rev (n div 10))"

declare u32_digits_rev.simps [simp del]

definition u32_decimal :: "u32 \<Rightarrow> bytes" where
  "u32_decimal n = (if n = 0 then [0x30] else rev (u32_digits_rev (unat n)))"

text \<open>A sequence of \<^verbatim>\<open>write_bytes(..)?\<close> and \<^verbatim>\<open>write_u32_decimal(..)?\<close>.\<close>

fun write_all :: "nat \<Rightarrow> bytes \<Rightarrow> bytes list \<Rightarrow> bytes option" where
  "write_all cap out [] = Some out"
| "write_all cap out (src # rest) = (case write_bytes cap out src of None \<Rightarrow> None | Some out' \<Rightarrow> write_all cap out' rest)"

section \<open>Lemmas\<close>

lemma ascii_not_Nil: "ascii (c # s) \<noteq> []" "length (ascii s) = length s"
  by (simp_all add: ascii_def)

lemma position_append: "list_all (\<lambda>y. \<not> p y) xs \<Longrightarrow> p x \<Longrightarrow> position p (xs @ x # ys) = Some (length xs)"
  by (induction xs) auto

lemma rposition_append: "p x \<Longrightarrow> list_all (\<lambda>y. \<not> p y) ys \<Longrightarrow> rposition p (xs @ x # ys) = Some (length xs)"
  using position_append [of p "rev ys" x "rev xs"] by (simp add: rposition_def list_all_iff)

definition trimmed :: "bytes \<Rightarrow> bool" where
  "trimmed s \<longleftrightarrow> s \<noteq> [] \<and> \<not> is_ows (hd s) \<and> \<not> is_ows (last s)"

lemma trim_ows_trimmed:
  assumes "trimmed s" and "list_all is_ows pre"
  shows "trim_ows (pre @ s) = s"
proof -
  have s: "s \<noteq> []" "\<not> is_ows (hd s)" "\<not> is_ows (last s)" using assms by (auto simp: trimmed_def)
  have "position (\<lambda>b. \<not> is_ows b) (pre @ hd s # tl s) = Some (length pre)"
    by (rule position_append) (use s assms(2) in simp_all)
  moreover have "rposition (\<lambda>b. \<not> is_ows b) ((pre @ butlast s) @ last s # []) = Some (length (pre @ butlast s))"
    by (rule rposition_append) (use s in simp_all)
  moreover have "length s \<noteq> 0" using s(1) by simp
  ultimately show ?thesis using s(1) by (simp add: trim_ows_def)
qed

lemmas trim_ows_id = trim_ows_trimmed [of _ "[]", simplified]

lemma write_all_eq:
  assumes "length out \<le> cap"
  shows "write_all cap out cs = (if length out + length (concat cs) \<le> cap then Some (out @ concat cs) else None)"
  using assms by (induction cs arbitrary: out) (auto simp: write_bytes_def)

declare write_all.simps [simp del]

lemmas write_all_Nil = write_all_eq [of "[]", simplified]

lemma u32_digits: "list_all is_digit (u32_digits_rev n)"
proof (induction n rule: u32_digits_rev.induct)
  case (1 n)
  have "is_digit (0x30 + of_nat (n mod 10))"
  proof -
    have "unat (0x30 + of_nat (n mod 10) :: u8) = 48 + n mod 10"
      by (subst unat_add_lem [THEN iffD1]) (simp_all add: unat_of_nat_u8 less_imp_le [THEN le_less_trans])
    then show ?thesis by (simp add: is_digit_def word_le_nat_alt)
  qed
  with 1 show ?case by (subst u32_digits_rev.simps) simp
qed

lemma u32_digits_value: "foldl (\<lambda>a b. a * 10 + unat (b - 0x30)) 0 (rev (u32_digits_rev n)) = n"
proof (induction n rule: u32_digits_rev.induct)
  case (1 n)
  then show ?case by (subst u32_digits_rev.simps) (simp add: unat_of_nat_u8 less_imp_le [THEN le_less_trans])
qed

lemma u32_decimal_digits: "list_all is_digit (u32_decimal n)" "u32_decimal n \<noteq> []"
proof -
  have "unat n \<noteq> 0 \<Longrightarrow> u32_digits_rev (unat n) \<noteq> []" by (subst u32_digits_rev.simps) simp
  then show "u32_decimal n \<noteq> []" by (simp add: u32_decimal_def unat_eq_zero)
  show "list_all is_digit (u32_decimal n)" using u32_digits [of "unat n"] by (simp add: u32_decimal_def is_digit_def list_all_iff)
qed

lemma parse_u32_decimal: "parse_u64 (u32_decimal n) = Some (unat n)"
proof -
  have "unat n < 2 ^ 32" using unat_less_pow [of n] by simp
  then show ?thesis using u32_digits_value [of "unat n"] by (auto simp: parse_u64_def u32_decimal_def Let_def)
qed

definition http_line :: "bytes \<Rightarrow> bool" where
  "http_line l \<longleftrightarrow> 0x0D \<notin> set l \<and> 0x0A \<notin> set l"

lemma digits_line: "list_all is_digit l \<Longrightarrow> http_line l"
  by (auto simp: http_line_def list_all_iff is_digit_def)

lemma http_line_append [simp]: "http_line (a @ b) \<longleftrightarrow> http_line a \<and> http_line b"
  by (auto simp: http_line_def)

lemma decimal_line [simp]: "http_line (u32_decimal n)"
  using u32_decimal_digits by (intro digits_line)

lemma window_skip:
  "0x0D \<notin> set l \<Longrightarrow> find_window (crlf @ crlf) (l @ r) = map_option ((+) (length l)) (find_window (crlf @ crlf) r)"
  by (cases "find_window (crlf @ crlf) r"; induction l) (auto simp: crlf_def)

lemma window_line:
  assumes "http_line h" and "h \<noteq> []"
  shows "find_window (crlf @ crlf) (crlf @ h @ r) = map_option ((+) (length (crlf @ h))) (find_window (crlf @ crlf) r)"
proof -
  obtain x xs where h: "h = x # xs" "x \<noteq> 0x0D" using assms by (cases h) (auto simp: http_line_def)
  have "find_window (crlf @ crlf) (h @ r) = map_option ((+) (length h)) (find_window (crlf @ crlf) r)"
    using assms by (intro window_skip) (simp add: http_line_def)
  then show ?thesis using h by (cases "find_window (crlf @ crlf) r") (simp_all add: crlf_def)
qed

lemma window_lines:
  assumes "list_all (\<lambda>h. http_line h \<and> h \<noteq> []) hs"
  shows "find_window (crlf @ crlf) (concat (map (\<lambda>h. crlf @ h) hs) @ crlf @ crlf @ r) = Some (length (concat (map (\<lambda>h. crlf @ h) hs)))"
  using assms
proof (induction hs)
  case Nil
  then show ?case by (simp add: crlf_def)
next
  case (Cons h hs)
  then show ?case using window_line [of h "concat (map (\<lambda>h. crlf @ h) hs) @ crlf @ crlf @ r"] by simp
qed

lemma split_once_iff: "split_once c s = Some (x, y) \<longleftrightarrow> s = x @ c # y \<and> c \<notin> set x"
proof
  assume "split_once c s = Some (x, y)"
  then obtain z where z: "dropWhile (\<lambda>b. b \<noteq> c) s = z # y" "x = takeWhile (\<lambda>b. b \<noteq> c) s"
    by (auto simp: split_once_def split: list.splits)
  then have "z = c" using hd_dropWhile [of "\<lambda>b. b \<noteq> c" s] by simp
  with z show "s = x @ c # y \<and> c \<notin> set x"
    using takeWhile_dropWhile_id [of "\<lambda>b. b \<noteq> c" s] set_takeWhileD [of c "\<lambda>b. b \<noteq> c" s] by auto
next
  assume a: "s = x @ c # y \<and> c \<notin> set x"
  then have "\<forall>b \<in> set x. b \<noteq> c" by auto
  with a show "split_once c s = Some (x, y)" by (simp add: split_once_def)
qed

lemma split_once_None: "c \<notin> set s \<Longrightarrow> split_once c s = None"
  by (cases "split_once c s") (auto simp: split_once_iff)

lemma rsplit_once_iff: "rsplit_once c s = Some (x, y) \<longleftrightarrow> s = x @ c # y \<and> c \<notin> set y"
proof -
  have "rsplit_once c s = Some (x, y) \<longleftrightarrow> split_once c (rev s) = Some (rev y, rev x)"
    by (auto simp: rsplit_once_def)
  also have "\<dots> \<longleftrightarrow> s = x @ c # y \<and> c \<notin> set y"
    unfolding split_once_iff by (metis append.assoc append_Cons append_Nil rev_append rev_rev_ident rev_singleton_conv set_rev rev.simps(2))
  finally show ?thesis .
qed

end
