(* ===== verification/Portal_Record.thy ===== *)
theory Portal_Record
  imports Net_Text
begin

text \<open>
  The credential record on flash (\<^verbatim>\<open>rustyfarian-esp-hal-network/src/provisioning/record.rs\<close>, with
  the configuration type of \<^verbatim>\<open>juggler/src/provisioning/config.rs\<close>, \<^verbatim>\<open>profile.rs\<close> and
  \<^verbatim>\<open>form.rs\<close>): checksum, encoder, decoder and the choice between the two sectors.  Text is the bytes
  of its UTF-8 encoding.  An error of the code is \<open>Fail\<close>, a panic of Rust is \<open>Panic\<close>; neither is ever
  turned into the other.

  The lemmas show that the table-driven checksum is the bit-serial one, that it sees every change of a
  single byte, that what the encoder writes the decoder reads back, and how long a record can get.
\<close>

section \<open>Model: configuration\<close>

definition SSID_MAX_LEN :: nat where "SSID_MAX_LEN = 32"
definition PASSWORD_MAX_LEN :: nat where "PASSWORD_MAX_LEN = 64"
definition DEVICE_NAME_MAX_LEN :: nat where "DEVICE_NAME_MAX_LEN = 24"
definition OTA_URL_MAX_LEN :: nat where "OTA_URL_MAX_LEN = 128"
definition EXTRA_FIELDS_MAX :: nat where "EXTRA_FIELDS_MAX = 8"
definition EXTRA_KEY_MAX_LEN :: nat where "EXTRA_KEY_MAX_LEN = 13"
definition EXTRA_VALUE_MAX_LEN :: nat where "EXTRA_VALUE_MAX_LEN = 64"
definition MQTT_HOST_MAX_LEN :: nat where "MQTT_HOST_MAX_LEN = 64"
definition MQTT_USER_MAX_LEN :: nat where "MQTT_USER_MAX_LEN = 64"
definition MQTT_PASS_MAX_LEN :: nat where "MQTT_PASS_MAX_LEN = 64"
definition MQTT_CLIENT_MAX_LEN :: nat where "MQTT_CLIENT_MAX_LEN = 23"

datatype schema_profile = LorawanFieldDevice | WifiMqttDevice

fun profile_as_str :: "schema_profile \<Rightarrow> bytes" where
  "profile_as_str LorawanFieldDevice = ascii ''lorawan''"
| "profile_as_str WifiMqttDevice = ascii ''wifi_mqtt''"

definition profile_from_str :: "bytes \<Rightarrow> schema_profile option" where
  "profile_from_str s =
     (if s = ascii ''lorawan'' then Some LorawanFieldDevice
      else if s = ascii ''wifi_mqtt'' then Some WifiMqttDevice else None)"

record lora_fields =
  lf_dev_eui_hex :: bytes
  lf_join_eui_hex :: bytes
  lf_app_key_hex :: bytes

record mqtt_fields =
  mq_host :: bytes
  mq_port :: u16
  mq_username :: "bytes option"
  mq_password :: "bytes option"
  mq_client_id :: "bytes option"

record extra_field =
  ex_key :: bytes
  ex_value :: bytes

record provisioning_config =
  pc_wifi_ssid :: bytes
  pc_wifi_password :: bytes
  pc_ota_url :: bytes
  pc_device_name :: bytes
  pc_lora :: "lora_fields option"
  pc_mqtt :: "mqtt_fields option"
  pc_extras :: "extra_field list"

definition config_ota_url :: "provisioning_config \<Rightarrow> bytes option" where
  "config_ota_url c = (if pc_ota_url c = [] then None else Some (pc_ota_url c))"

definition config_profile :: "provisioning_config \<Rightarrow> schema_profile" where
  "config_profile c = (if pc_mqtt c \<noteq> None then WifiMqttDevice else LorawanFieldDevice)"

section \<open>Model: layout, errors and checksum\<close>

definition MAGIC :: u32 where "MAGIC = 0x52465052"
definition LAYOUT_VER :: u8 where "LAYOUT_VER = 1"
definition SECTOR_SIZE :: nat where "SECTOR_SIZE = 4096"
definition STORE_SIZE :: u32 where "STORE_SIZE = 8192"
definition WRITE_GRANULARITY :: nat where "WRITE_GRANULARITY = 4"
definition TAG_WIFI_SSID :: u8 where "TAG_WIFI_SSID = 1"
definition TAG_WIFI_PASS :: u8 where "TAG_WIFI_PASS = 2"
definition TAG_MQTT_HOST :: u8 where "TAG_MQTT_HOST = 3"
definition TAG_MQTT_PORT :: u8 where "TAG_MQTT_PORT = 4"
definition TAG_MQTT_USER :: u8 where "TAG_MQTT_USER = 5"
definition TAG_MQTT_PASS :: u8 where "TAG_MQTT_PASS = 6"
definition TAG_MQTT_CLIENT :: u8 where "TAG_MQTT_CLIENT = 7"
definition TAG_OTA_URL :: u8 where "TAG_OTA_URL = 8"
definition TAG_DEVICE_NAME :: u8 where "TAG_DEVICE_NAME = 9"
definition TAG_EXTRA :: u8 where "TAG_EXTRA = 10"
definition HEADER_FIXED :: nat where "HEADER_FIXED = 12"
definition RECORD_LEN_OFFSET :: nat where "RECORD_LEN_OFFSET = 9"
definition PROFILE_LEN_OFFSET :: nat where "PROFILE_LEN_OFFSET = 11"
definition CRC_LEN :: nat where "CRC_LEN = 4"
definition MAX_PROFILE_STR_LEN :: nat where "MAX_PROFILE_STR_LEN = SECTOR_SIZE - HEADER_FIXED - CRC_LEN - 1"

datatype store_error =
    TooSmall u32 u32 | NotAligned | OffsetOutOfBounds u32 u32 | UnsupportedGeometry u32 | BadMagic
  | BadVersion u8 u8 | BadCrc | ShortRecord nat nat | UnknownProfile u8 | BufferTooSmall nat nat
  | MalformedField u8 | MissingRequiredField u8 | DuplicateTag u8 | InvalidUtf8 u8 | Flash

datatype failure = Panic | Fail store_error

type_synonym 'a res = "failure + 'a"

definition bind_res :: "'a res \<Rightarrow> ('a \<Rightarrow> 'b res) \<Rightarrow> 'b res" where
  "bind_res r f = (case r of Inl e \<Rightarrow> Inl e | Inr x \<Rightarrow> f x)"

definition ok_or :: "'a option \<Rightarrow> store_error \<Rightarrow> 'a res" where
  "ok_or x e = (case x of Some a \<Rightarrow> Inr a | None \<Rightarrow> Inl (Fail e))"

text \<open>One round of the inner loop, the table it fills, and the loop over the data.\<close>

definition crc_bit :: "u32 \<Rightarrow> u32" where
  "crc_bit crc = (if and crc 1 \<noteq> 0 then xor (drop_bit 1 crc) 0xEDB88320 else drop_bit 1 crc)"

definition crc32_table :: "u32 list" where
  "crc32_table = map (\<lambda>i. (crc_bit ^^ 8) (of_nat i)) [0 ..< 256]"

definition crc_step :: "u32 \<Rightarrow> u8 \<Rightarrow> u32" where
  "crc_step crc b = xor (drop_bit 8 crc) (crc32_table ! unat (and (xor crc (ucast b)) 0xFF))"

definition crc32 :: "bytes \<Rightarrow> u32" where
  "crc32 data = xor (foldl crc_step 0xFFFFFFFF data) 0xFFFFFFFF"

definition pad_to_write_granularity :: "nat \<Rightarrow> nat" where
  "pad_to_write_granularity len = (len + WRITE_GRANULARITY - 1) div WRITE_GRANULARITY * WRITE_GRANULARITY"

record decoded_record =
  dr_seq :: u32
  dr_profile :: schema_profile
  dr_config :: provisioning_config

section \<open>Model: encoder\<close>

type_synonym 'a writer = "(bytes, failure, 'a) prog"

definition write_tlv :: "nat \<Rightarrow> u8 \<Rightarrow> bytes \<Rightarrow> nat writer" where
  "write_tlv pos tag val = (\<lambda>buf.
     let need = 2 + length val in
     if length buf < pos + need then (Inl (Fail (BufferTooSmall (pos + need) (length buf))), buf)
     else (Inr (pos + need), put_all buf [(pos, [tag]), (pos + 1, [of_nat (length val)]), (pos + 2, val)]))"

text \<open>A sequence of calls of \<^verbatim>\<open>write_tlv\<close>, and the calls for the core and the profile fields.\<close>

fun write_tlvs :: "(u8 \<times> bytes) list \<Rightarrow> nat \<Rightarrow> nat writer" where
  "write_tlvs [] pos = ok pos"
| "write_tlvs ((tag, val) # tvs) pos = andThen (write_tlv pos tag val) (write_tlvs tvs)"

definition opt_tlv :: "u8 \<Rightarrow> bytes option \<Rightarrow> (u8 \<times> bytes) list" where
  "opt_tlv tag v = (case v of Some x \<Rightarrow> [(tag, x)] | None \<Rightarrow> [])"

definition core_tlvs :: "provisioning_config \<Rightarrow> (u8 \<times> bytes) list" where
  "core_tlvs c =
     [(TAG_WIFI_SSID, pc_wifi_ssid c), (TAG_WIFI_PASS, pc_wifi_password c),
      (TAG_OTA_URL, case config_ota_url c of Some u \<Rightarrow> u | None \<Rightarrow> []), (TAG_DEVICE_NAME, pc_device_name c)]"

definition profile_tlvs :: "provisioning_config \<Rightarrow> (u8 \<times> bytes) list" where
  "profile_tlvs c = (case config_profile c of
       WifiMqttDevice \<Rightarrow> (case pc_mqtt c of
           Some mqtt \<Rightarrow> [(TAG_MQTT_HOST, mq_host mqtt), (TAG_MQTT_PORT, le16 (mq_port mqtt))] @
             opt_tlv TAG_MQTT_USER (mq_username mqtt) @ opt_tlv TAG_MQTT_PASS (mq_password mqtt) @
             opt_tlv TAG_MQTT_CLIENT (mq_client_id mqtt)
         | None \<Rightarrow> [])
     | LorawanFieldDevice \<Rightarrow> [])"

definition extra_entry :: "extra_field \<Rightarrow> bytes" where
  "extra_entry e = of_nat (length (ex_key e)) # ex_key e @ ex_value e"

text \<open>The loop over the extras; \<open>earlier\<close> are the ones already written.\<close>

fun write_extras :: "extra_field list \<Rightarrow> extra_field list \<Rightarrow> nat \<Rightarrow> nat writer" where
  "write_extras earlier [] pos = ok pos"
| "write_extras earlier (e # es) pos =
     (if ex_key e = [] \<or> list_ex (\<lambda>f. ex_key f = ex_key e) earlier then fail (Fail (MalformedField TAG_EXTRA))
      else andThen (write_tlv pos TAG_EXTRA (extra_entry e)) (write_extras (earlier @ [e]) es))"

definition write_record_header :: "schema_profile \<Rightarrow> u32 \<Rightarrow> nat writer" where
  "write_record_header profile seq = (\<lambda>buf.
     let profile_bytes = profile_as_str profile;
         min_size = HEADER_FIXED + length profile_bytes + CRC_LEN in
     if length buf < min_size then (Inl (Fail (BufferTooSmall min_size (length buf))), buf)
     else (Inr (HEADER_FIXED + length profile_bytes),
           put_all buf [(0, le32 MAGIC), (4, [LAYOUT_VER]), (5, le32 seq),
                        (PROFILE_LEN_OFFSET, [of_nat (length profile_bytes)]), (HEADER_FIXED, profile_bytes)]))"

definition finish_record :: "nat \<Rightarrow> nat writer" where
  "finish_record pos = (\<lambda>buf.
     let buf1 = put buf RECORD_LEN_OFFSET (le16 (of_nat (pos + CRC_LEN)));
         crc = crc32 (take pos buf1) in
     if length buf1 < pos + CRC_LEN then (Inl (Fail (BufferTooSmall (pos + CRC_LEN) (length buf1))), buf1)
     else (Inr (pos + CRC_LEN), put buf1 pos (le32 crc)))"

definition encode_record :: "provisioning_config \<Rightarrow> u32 \<Rightarrow> nat writer" where
  "encode_record config seq =
     andThen (write_record_header (config_profile config) seq) (\<lambda>pos.
     andThen (write_tlvs (core_tlvs config) pos) (\<lambda>pos.
     andThen (write_tlvs (profile_tlvs config) pos) (\<lambda>pos.
     andThen (write_extras [] (pc_extras config) pos)
     finish_record)))"

section \<open>Model: decoder\<close>

text \<open>Slicing a \<^verbatim>\<open>str\<close> inside a character panics.\<close>

definition bytes_to_hstring :: "nat \<Rightarrow> bytes \<Rightarrow> u8 \<Rightarrow> bytes res" where
  "bytes_to_hstring n b tag =
     (if \<not> utf8_valid b then Inl (Fail (InvalidUtf8 tag))
      else if \<not> is_char_boundary b (min (length b) n) then Inl Panic
      else Inr (take (min (length b) n) b))"

definition bytes_to_opt_hstring :: "nat \<Rightarrow> bytes option \<Rightarrow> u8 \<Rightarrow> bytes option res" where
  "bytes_to_opt_hstring n b tag = (case b of
       None \<Rightarrow> Inr None
     | Some v \<Rightarrow> bind_res (bytes_to_hstring n v tag) (\<lambda>h. Inr (Some h)))"

definition decode_extra :: "bytes \<Rightarrow> extra_field list \<Rightarrow> extra_field res" where
  "decode_extra val earlier = (case val of
       [] \<Rightarrow> Inl (Fail (MalformedField TAG_EXTRA))
     | k # rest \<Rightarrow>
         let key_len = unat k in
         if key_len = 0 \<or> length rest < key_len \<or> EXTRA_KEY_MAX_LEN < key_len then Inl (Fail (MalformedField TAG_EXTRA))
         else if EXTRA_VALUE_MAX_LEN < length (drop key_len rest) then Inl (Fail (MalformedField TAG_EXTRA))
         else if \<not> utf8_valid (take key_len rest) then Inl (Fail (InvalidUtf8 TAG_EXTRA))
         else if list_ex (\<lambda>e. ex_key e = take key_len rest) earlier then Inl (Fail (MalformedField TAG_EXTRA))
         else if \<not> utf8_valid (drop key_len rest) then Inl (Fail (InvalidUtf8 TAG_EXTRA))
         else Inr \<lparr>ex_key = take key_len rest, ex_value = drop key_len rest\<rparr>)"

fun decode_extras :: "extra_field list \<Rightarrow> bytes list \<Rightarrow> extra_field list res" where
  "decode_extras extras [] = Inr extras"
| "decode_extras extras (v # vs) =
     bind_res (decode_extra v extras) (\<lambda>e.
       if EXTRA_FIELDS_MAX \<le> length extras then Inl (Fail (MalformedField TAG_EXTRA))
       else decode_extras (extras @ [e]) vs)"

text \<open>The local variables of the decoder.\<close>

record tlv_slots =
  sl_ssid :: "bytes option"
  sl_pass :: "bytes option"
  sl_url :: "bytes option"
  sl_name :: "bytes option"
  sl_host :: "bytes option"
  sl_port :: "u16 option"
  sl_user :: "bytes option"
  sl_mpass :: "bytes option"
  sl_client :: "bytes option"
  sl_extras :: "bytes list"

definition no_slots :: tlv_slots where
  "no_slots = \<lparr>sl_ssid = None, sl_pass = None, sl_url = None, sl_name = None, sl_host = None, sl_port = None,
     sl_user = None, sl_mpass = None, sl_client = None, sl_extras = []\<rparr>"

text \<open>\<^verbatim>\<open>set_once\<close>: the old value of the slot, the tag, and the update with the new value.\<close>

definition set_once :: "'a option \<Rightarrow> u8 \<Rightarrow> tlv_slots \<Rightarrow> tlv_slots res" where
  "set_once old tag updated = (if old \<noteq> None then Inl (Fail (DuplicateTag tag)) else Inr updated)"

definition read_tlv :: "u8 \<Rightarrow> bytes \<Rightarrow> tlv_slots \<Rightarrow> tlv_slots res" where
  "read_tlv tag val st =
     (if tag = TAG_WIFI_SSID then set_once (sl_ssid st) tag (st\<lparr>sl_ssid := Some val\<rparr>)
      else if tag = TAG_WIFI_PASS then set_once (sl_pass st) tag (st\<lparr>sl_pass := Some val\<rparr>)
      else if tag = TAG_OTA_URL then set_once (sl_url st) tag (st\<lparr>sl_url := Some val\<rparr>)
      else if tag = TAG_DEVICE_NAME then set_once (sl_name st) tag (st\<lparr>sl_name := Some val\<rparr>)
      else if tag = TAG_MQTT_HOST then set_once (sl_host st) tag (st\<lparr>sl_host := Some val\<rparr>)
      else if tag = TAG_MQTT_PORT \<and> length val = 2 then
        set_once (sl_port st) tag (st\<lparr>sl_port := Some (of_le16 (val ! 0) (val ! 1))\<rparr>)
      else if tag = TAG_MQTT_USER then set_once (sl_user st) tag (st\<lparr>sl_user := Some val\<rparr>)
      else if tag = TAG_MQTT_PASS then set_once (sl_mpass st) tag (st\<lparr>sl_mpass := Some val\<rparr>)
      else if tag = TAG_MQTT_CLIENT then set_once (sl_client st) tag (st\<lparr>sl_client := Some val\<rparr>)
      else if tag = TAG_EXTRA then
        (if EXTRA_FIELDS_MAX \<le> length (sl_extras st) then Inl (Fail (MalformedField tag))
         else Inr (st\<lparr>sl_extras := sl_extras st @ [val]\<rparr>))
      else Inr st)"

text \<open>The loop on what is left before the checksum.\<close>

function read_tlvs :: "nat \<Rightarrow> tlv_slots \<Rightarrow> bytes \<Rightarrow> tlv_slots res" where
  "read_tlvs crc_offset st (tag # len # rest) =
     (if length rest < unat len
      then Inl (Fail (ShortRecord (crc_offset - length rest + unat len) crc_offset))
      else bind_res (read_tlv tag (take (unat len) rest) st) (\<lambda>st'. read_tlvs crc_offset st' (drop (unat len) rest)))"
| "read_tlvs crc_offset st [] = Inr st"
| "read_tlvs crc_offset st [_] = Inr st"
  by pat_completeness auto
termination by (relation "measure (\<lambda>(_, _, bs). length bs)") auto

definition build_config :: "schema_profile \<Rightarrow> bytes \<Rightarrow> bytes \<Rightarrow> bytes \<Rightarrow> bytes \<Rightarrow> bytes option \<Rightarrow> u16 option \<Rightarrow>
  bytes option \<Rightarrow> bytes option \<Rightarrow> bytes option \<Rightarrow> bytes list \<Rightarrow> provisioning_config res" where
  "build_config profile ssid_b pass_b url_b name_b host_b port user_b mpass_b client_b extra_values =
     bind_res (bytes_to_hstring SSID_MAX_LEN ssid_b TAG_WIFI_SSID) (\<lambda>ssid.
     bind_res (bytes_to_hstring PASSWORD_MAX_LEN pass_b TAG_WIFI_PASS) (\<lambda>password.
     bind_res (bytes_to_hstring OTA_URL_MAX_LEN url_b TAG_OTA_URL) (\<lambda>url.
     bind_res (bytes_to_hstring DEVICE_NAME_MAX_LEN name_b TAG_DEVICE_NAME) (\<lambda>name.
     bind_res (decode_extras [] extra_values) (\<lambda>extras.
     bind_res (case profile of
         WifiMqttDevice \<Rightarrow> (case (host_b, port) of
             (Some hb, Some p) \<Rightarrow>
               bind_res (bytes_to_hstring MQTT_HOST_MAX_LEN hb TAG_MQTT_HOST) (\<lambda>host.
               bind_res (bytes_to_opt_hstring MQTT_USER_MAX_LEN user_b TAG_MQTT_USER) (\<lambda>user.
               bind_res (bytes_to_opt_hstring MQTT_PASS_MAX_LEN mpass_b TAG_MQTT_PASS) (\<lambda>mpass.
               bind_res (bytes_to_opt_hstring MQTT_CLIENT_MAX_LEN client_b TAG_MQTT_CLIENT) (\<lambda>client.
               Inr (Some \<lparr>mq_host = host, mq_port = p, mq_username = user, mq_password = mpass, mq_client_id = client\<rparr>)))))
           | _ \<Rightarrow> Inl Panic)
       | LorawanFieldDevice \<Rightarrow> Inr None) (\<lambda>mqtt.
     Inr \<lparr>pc_wifi_ssid = ssid, pc_wifi_password = password, pc_ota_url = url, pc_device_name = name,
          pc_lora = None, pc_mqtt = mqtt, pc_extras = extras\<rparr>))))))"

text \<open>The checks of the required fields, and the end of the decoder.\<close>

definition config_of_slots :: "schema_profile \<Rightarrow> tlv_slots \<Rightarrow> provisioning_config res" where
  "config_of_slots profile st =
     bind_res (ok_or (sl_ssid st) (MissingRequiredField TAG_WIFI_SSID)) (\<lambda>ssid.
     bind_res (ok_or (sl_pass st) (MissingRequiredField TAG_WIFI_PASS)) (\<lambda>pass.
     bind_res (ok_or (sl_url st) (MissingRequiredField TAG_OTA_URL)) (\<lambda>url.
     bind_res (ok_or (sl_name st) (MissingRequiredField TAG_DEVICE_NAME)) (\<lambda>name.
     bind_res (case profile of
         WifiMqttDevice \<Rightarrow>
           bind_res (ok_or (sl_host st) (MissingRequiredField TAG_MQTT_HOST)) (\<lambda>host.
           bind_res (ok_or (sl_port st) (MissingRequiredField TAG_MQTT_PORT)) (\<lambda>port.
           Inr (Some host, Some port)))
       | LorawanFieldDevice \<Rightarrow> Inr (None, None)) (\<lambda>(host, port).
     build_config profile ssid pass url name host port (sl_user st) (sl_mpass st) (sl_client st) (sl_extras st))))))"

definition decode_record :: "bytes \<Rightarrow> decoded_record res" where
  "decode_record bs =
     (if length bs < HEADER_FIXED + CRC_LEN then Inl (Fail (ShortRecord (HEADER_FIXED + CRC_LEN) (length bs)))
      else if of_le32 (bs ! 0) (bs ! 1) (bs ! 2) (bs ! 3) \<noteq> MAGIC then Inl (Fail BadMagic)
      else if bs ! 4 \<noteq> LAYOUT_VER then Inl (Fail (BadVersion (bs ! 4) LAYOUT_VER))
      else
        let seq = of_le32 (bs ! 5) (bs ! 6) (bs ! 7) (bs ! 8);
            record_len = unat (of_le16 (bs ! RECORD_LEN_OFFSET) (bs ! (RECORD_LEN_OFFSET + 1))) in
        if record_len < HEADER_FIXED + CRC_LEN \<or> length bs < record_len then Inl (Fail (ShortRecord record_len (length bs)))
        else
          let profile_len = unat (bs ! PROFILE_LEN_OFFSET) in
          if MAX_PROFILE_STR_LEN < profile_len \<or> record_len < HEADER_FIXED + profile_len + CRC_LEN
          then Inl (Fail (ShortRecord (HEADER_FIXED + profile_len + CRC_LEN) record_len))
          else
            let profile_end = HEADER_FIXED + profile_len;
                profile_bytes = take profile_len (drop HEADER_FIXED bs) in
            bind_res (ok_or (if utf8_valid profile_bytes then profile_from_str profile_bytes else None)
                            (UnknownProfile (of_nat profile_len))) (\<lambda>profile.
            let crc_offset = record_len - CRC_LEN;
                stored_crc = of_le32 (bs ! crc_offset) (bs ! (crc_offset + 1)) (bs ! (crc_offset + 2)) (bs ! (crc_offset + 3)) in
            if crc32 (take crc_offset bs) \<noteq> stored_crc then Inl (Fail BadCrc)
            else
              bind_res (read_tlvs crc_offset no_slots (drop profile_end (take crc_offset bs))) (\<lambda>st.
              bind_res (config_of_slots profile st) (\<lambda>config.
              Inr \<lparr>dr_seq = seq, dr_profile = profile, dr_config = config\<rparr>))))"

definition pick_active :: "decoded_record option \<Rightarrow> decoded_record option \<Rightarrow> decoded_record option" where
  "pick_active a b = (case (a, b) of
       (None, None) \<Rightarrow> None
     | (Some a, None) \<Rightarrow> Some a
     | (None, Some b) \<Rightarrow> Some b
     | (Some a, Some b) \<Rightarrow> if dr_seq b \<le> dr_seq a then Some a else Some b)"

section \<open>The checksum\<close>

text \<open>The bit-serial definition of the IEEE 802.3 checksum, least significant bit first.\<close>

definition crc_serial :: "bytes \<Rightarrow> u32" where
  "crc_serial data = xor (foldl (\<lambda>crc b. (crc_bit ^^ 8) (xor crc (ucast b))) 0xFFFFFFFF data) 0xFFFFFFFF"

lemma bit_crc_bit:
  "n < 32 \<Longrightarrow> bit (crc_bit c) n \<longleftrightarrow> (bit c (Suc n) \<noteq> (bit c 0 \<and> bit (0xEDB88320 :: u32) n))"
proof -
  assume n: "n < 32"
  have "(and c 1 \<noteq> 0) = bit c 0" by (simp add: and_one_eq odd_iff_mod_2_eq_one bit_0)
  with n show ?thesis by (auto simp: crc_bit_def bit_simps)
qed

lemma crc_bit_xor: "crc_bit (xor a b) = xor (crc_bit a) (crc_bit b)"
  by (rule bit_word_eqI) (auto simp: bit_crc_bit bit_xor_iff)

lemma crc_bit_inject: "crc_bit a = crc_bit b \<longleftrightarrow> a = b"
proof
  assume eq: "crc_bit a = crc_bit b"
  have low: "bit a 0 = bit b 0"
  proof -
    have "\<not> bit (x :: u32) 32" for x by (auto dest: bit_imp_le_length)
    moreover have "bit (0xEDB88320 :: u32) 31" by simp
    ultimately have "bit (crc_bit x) 31 = bit x 0" for x by (simp add: bit_crc_bit)
    with eq show ?thesis by metis
  qed
  show "a = b"
  proof (rule bit_word_eqI)
    fix n assume n: "n < LENGTH(32)"
    show "bit a n = bit b n"
    proof (cases n)
      case (Suc m)
      with n have "m < 32" by simp
      from bit_crc_bit [OF this, of a] bit_crc_bit [OF this, of b] have "bit a (Suc m) = bit b (Suc m)"
        unfolding eq low by argo
      then show ?thesis by (simp add: Suc)
    qed (simp add: low)
  qed
qed simp

lemma crc_bits_xor: "(crc_bit ^^ n) (xor a b) = xor ((crc_bit ^^ n) a) ((crc_bit ^^ n) b)"
  by (induction n) (simp_all add: crc_bit_xor)

lemma crc_bits_inject: "(crc_bit ^^ n) a = (crc_bit ^^ n) b \<longleftrightarrow> a = b"
  by (induction n) (simp_all add: crc_bit_inject)

text \<open>While the low bits are clear the rounds only shift.\<close>

lemma crc_bits_shift: "(\<And>i. i < n \<Longrightarrow> \<not> bit c i) \<Longrightarrow> (crc_bit ^^ n) c = drop_bit n c"
proof (induction n)
  case (Suc n)
  have "(crc_bit ^^ n) c = drop_bit n c" using Suc by simp
  moreover have "\<not> bit (drop_bit n c) 0" using Suc.prems [of n] by (simp add: bit_drop_bit_eq)
  ultimately have "(crc_bit ^^ Suc n) c = drop_bit 1 (drop_bit n c)"
    by (simp add: crc_bit_def and_one_eq odd_iff_mod_2_eq_one bit_0)
  also have "\<dots> = drop_bit (Suc n) c" by (rule bit_word_eqI) (simp add: bit_simps)
  finally show ?case .
qed simp

lemma crc_step_serial: "crc_step crc b = (crc_bit ^^ 8) (xor crc (ucast b))"
proof -
  let ?d = "xor crc (ucast b)" let ?lo = "and ?d 0xFF" let ?hi = "xor ?d ?lo"
  have lo: "unat ?lo < 256"
  proof -
    have "?lo \<le> 0xFF" by (rule word_and_le1)
    then show ?thesis by (simp add: word_le_nat_alt)
  qed
  have mask: "0xFF = (mask 8 :: u32)" by (simp add: mask_eq_exp_minus_1)
  have "(crc_bit ^^ 8) ?hi = drop_bit 8 ?hi"
    by (rule crc_bits_shift) (auto simp: mask bit_simps)
  also have "\<dots> = drop_bit 8 crc"
    by (rule bit_word_eqI) (auto simp: mask bit_simps)
  finally have hi: "(crc_bit ^^ 8) ?hi = drop_bit 8 crc" .
  have "xor ?hi ?lo = ?d" by (simp add: xor.assoc)
  then have "(crc_bit ^^ 8) ?d = xor ((crc_bit ^^ 8) ?hi) ((crc_bit ^^ 8) ?lo)"
    by (metis crc_bits_xor)
  with hi lo show ?thesis by (simp add: crc_step_def crc32_table_def)
qed

lemma crc_step_inject: "crc_step c b = crc_step c' b \<longleftrightarrow> c = c'" "crc_step c b = crc_step c b' \<longleftrightarrow> b = b'"
proof -
  have "xor (xor (x :: u32) y) y = x" "xor y (xor y x) = x" for x y by (simp_all flip: xor.assoc) (simp add: xor.assoc)
  then have x: "xor c (ucast b) = xor c' (ucast b) \<longleftrightarrow> c = c'" "xor c (ucast b) = xor c (ucast b') \<longleftrightarrow> (ucast b :: u32) = ucast b'"
    by metis+
  have "(ucast b :: u32) = ucast b' \<longleftrightarrow> b = b'"
  proof
    assume eq: "(ucast b :: u32) = ucast b'"
    show "b = b'"
    proof (rule bit_word_eqI)
      fix n assume "n < LENGTH(8)"
      then have "bit (ucast x :: u32) n = bit x n" for x :: u8 by (simp add: bit_simps)
      with eq show "bit b n = bit b' n" by metis
    qed
  qed simp
  with x show "crc_step c b = crc_step c' b \<longleftrightarrow> c = c'" "crc_step c b = crc_step c b' \<longleftrightarrow> b = b'"
    by (simp_all add: crc_step_serial crc_bits_inject)
qed

lemma foldl_crc_inject: "foldl crc_step c bs = foldl crc_step c' bs \<longleftrightarrow> c = c'"
  by (induction bs arbitrary: c c') (simp_all add: crc_step_inject)

lemma crc32_one_byte:
  assumes "length a = length b" "i < length a" "a ! i \<noteq> b ! i" "\<And>j. j < length a \<Longrightarrow> j \<noteq> i \<Longrightarrow> a ! j = b ! j"
  shows "crc32 a \<noteq> crc32 b"
proof -
  have ab: "a = take i a @ a ! i # drop (Suc i) a" "b = take i b @ b ! i # drop (Suc i) b"
    using assms(1,2) by (simp_all add: id_take_nth_drop)
  have "take i a = take i b" "drop (Suc i) a = drop (Suc i) b"
    using assms by (auto intro!: nth_equalityI)
  then have "foldl crc_step c a \<noteq> foldl crc_step c b" for c
    using assms(3) by (subst ab(1), subst ab(2)) (simp add: foldl_crc_inject crc_step_inject)
  moreover have "xor (x :: u32) m = xor y m \<Longrightarrow> x = y" for x y m
    by (metis xor.assoc xor.right_neutral xor_self_eq)
  ultimately show ?thesis unfolding crc32_def by metis
qed

section \<open>What the encoder writes\<close>

definition text_ok :: "nat \<Rightarrow> bytes \<Rightarrow> bool" where
  "text_ok n b \<longleftrightarrow> length b \<le> n \<and> utf8_valid b"

definition mqtt_ok :: "mqtt_fields \<Rightarrow> bool" where
  "mqtt_ok q \<longleftrightarrow> text_ok MQTT_HOST_MAX_LEN (mq_host q) \<and> pred_option (text_ok MQTT_USER_MAX_LEN) (mq_username q) \<and>
     pred_option (text_ok MQTT_PASS_MAX_LEN) (mq_password q) \<and> pred_option (text_ok MQTT_CLIENT_MAX_LEN) (mq_client_id q)"

definition extra_ok :: "extra_field \<Rightarrow> bool" where
  "extra_ok e \<longleftrightarrow> ex_key e \<noteq> [] \<and> text_ok EXTRA_KEY_MAX_LEN (ex_key e) \<and> text_ok EXTRA_VALUE_MAX_LEN (ex_value e)"

text \<open>What the capacities of the field types give, and the two conditions on the keys of the extras.\<close>

definition config_ok :: "provisioning_config \<Rightarrow> bool" where
  "config_ok c \<longleftrightarrow> text_ok SSID_MAX_LEN (pc_wifi_ssid c) \<and> text_ok PASSWORD_MAX_LEN (pc_wifi_password c) \<and>
     text_ok OTA_URL_MAX_LEN (pc_ota_url c) \<and> text_ok DEVICE_NAME_MAX_LEN (pc_device_name c) \<and>
     pred_option mqtt_ok (pc_mqtt c) \<and> list_all extra_ok (pc_extras c) \<and> length (pc_extras c) \<le> EXTRA_FIELDS_MAX \<and>
     distinct (map ex_key (pc_extras c))"

lemmas field_caps = SSID_MAX_LEN_def PASSWORD_MAX_LEN_def DEVICE_NAME_MAX_LEN_def OTA_URL_MAX_LEN_def EXTRA_FIELDS_MAX_def
  EXTRA_KEY_MAX_LEN_def EXTRA_VALUE_MAX_LEN_def MQTT_HOST_MAX_LEN_def MQTT_USER_MAX_LEN_def MQTT_PASS_MAX_LEN_def
  MQTT_CLIENT_MAX_LEN_def

lemmas tag_consts = TAG_WIFI_SSID_def TAG_WIFI_PASS_def TAG_MQTT_HOST_def TAG_MQTT_PORT_def TAG_MQTT_USER_def
  TAG_MQTT_PASS_def TAG_MQTT_CLIENT_def TAG_OTA_URL_def TAG_DEVICE_NAME_def TAG_EXTRA_def

fun tlv_bytes :: "u8 \<times> bytes \<Rightarrow> bytes" where
  "tlv_bytes (tag, val) = tag # of_nat (length val) # val"

definition extra_tlvs :: "extra_field list \<Rightarrow> (u8 \<times> bytes) list" where
  "extra_tlvs es = map (\<lambda>e. (TAG_EXTRA, extra_entry e)) es"

definition record_tlvs :: "provisioning_config \<Rightarrow> (u8 \<times> bytes) list" where
  "record_tlvs c = core_tlvs c @ profile_tlvs c @ extra_tlvs (pc_extras c)"

definition record_front :: "schema_profile \<Rightarrow> u32 \<Rightarrow> bytes \<Rightarrow> bytes" where
  "record_front profile seq len_field = le32 MAGIC @ [LAYOUT_VER] @ le32 seq @ len_field @
     [of_nat (length (profile_as_str profile))] @ profile_as_str profile"

definition record_bytes :: "schema_profile \<Rightarrow> u32 \<Rightarrow> (u8 \<times> bytes) list \<Rightarrow> bytes" where
  "record_bytes profile seq tvs =
     (let body = concat (map tlv_bytes tvs);
          front = record_front profile seq
            (le16 (of_nat (HEADER_FIXED + length (profile_as_str profile) + length body + CRC_LEN))) @ body
      in front @ le32 (crc32 front))"

definition too_small :: "failure \<Rightarrow> bool" where
  "too_small e \<longleftrightarrow> (\<exists>n h. e = Fail (BufferTooSmall n h))"

lemma appends_write_tlv: "appends too_small (\<lambda>pos. write_tlv pos tag val) (tlv_bytes (tag, val))"
proof -
  have "take (pos + 2 + length val) (put_all buf [(pos, [tag]), (pos + 1, [of_nat (length val)]), (pos + 2, val)])
      = take pos buf @ tlv_bytes (tag, val)" if "pos + 2 + length val \<le> length buf" for pos buf
  proof -
    let ?b1 = "put buf pos [tag]" let ?b2 = "put ?b1 (pos + 1) [of_nat (length val)]"
    have "take (pos + 1) ?b1 = take pos buf @ [tag]"
      using take_put_grow [of pos "[tag]" buf] that by simp
    moreover have "take (pos + 2) ?b2 = take (pos + 1) ?b1 @ [of_nat (length val)]"
      using take_put_grow [of "pos + 1" "[of_nat (length val)]" ?b1] that by simp
    ultimately show ?thesis
      using take_put_grow [of "pos + 2" val ?b2] that by simp
  qed
  then show ?thesis by (auto simp: appends_def write_tlv_def Let_def too_small_def)
qed

lemma appends_write_tlvs: "appends too_small (write_tlvs tvs) (concat (map tlv_bytes tvs))"
proof (induction tvs)
  case Nil
  have "write_tlvs [] = ok" by (rule ext) simp
  then show ?case using appends_ok by simp
next
  case (Cons tv tvs)
  obtain tag val where tv: "tv = (tag, val)" by fastforce
  have "write_tlvs (tv # tvs) = (\<lambda>pos. andThen (write_tlv pos tag val) (write_tlvs tvs))"
    by (rule ext) (simp add: tv)
  with appends_then [OF appends_write_tlv Cons.IH, of tag val] show ?case by (simp add: tv)
qed

lemma appends_write_extras:
  assumes "list_all extra_ok es" and "distinct (map ex_key (earlier @ es))"
  shows "appends too_small (write_extras earlier es) (concat (map tlv_bytes (extra_tlvs es)))"
  using assms
proof (induction es arbitrary: earlier)
  case Nil
  have "write_extras earlier [] = ok" by (rule ext) simp
  then show ?case using appends_ok by (simp add: extra_tlvs_def)
next
  case (Cons e es)
  have new: "ex_key e \<noteq> []" "\<not> list_ex (\<lambda>f. ex_key f = ex_key e) earlier"
    using Cons.prems by (auto simp: extra_ok_def list_ex_iff image_iff)
  have "write_extras earlier (e # es) = (\<lambda>pos. andThen (write_tlv pos TAG_EXTRA (extra_entry e)) (write_extras (earlier @ [e]) es))"
    by (rule ext) (simp add: new)
  moreover have "appends too_small (write_extras (earlier @ [e]) es) (concat (map tlv_bytes (extra_tlvs es)))"
    using Cons.prems by (intro Cons.IH) simp_all
  ultimately show ?case
    using appends_then [OF appends_write_tlv [of TAG_EXTRA "extra_entry e"]] by (simp add: extra_tlvs_def)
qed

lemma record_header_written:
  assumes "HEADER_FIXED + length (profile_as_str p) + CRC_LEN \<le> length buf"
  shows "\<exists>b x. write_record_header p seq buf = (Inr (HEADER_FIXED + length (profile_as_str p)), b) \<and> length b = length buf \<and>
    length x = 2 \<and> take (HEADER_FIXED + length (profile_as_str p)) b = record_front p seq x"
proof -
  let ?p = "profile_as_str p" let ?x = "take 2 (drop 9 buf)"
  have n: "16 + length ?p \<le> length buf" using assms by (simp add: HEADER_FIXED_def CRC_LEN_def)
  let ?b1 = "put buf 0 (le32 MAGIC)" let ?b2 = "put ?b1 4 [LAYOUT_VER]" let ?b3 = "put ?b2 5 (le32 seq)"
  let ?b4 = "put ?b3 11 [of_nat (length ?p)]" let ?b5 = "put ?b4 12 ?p"
  have "take 4 ?b1 = le32 MAGIC" using take_put_grow [of 0 "le32 MAGIC" buf] n by simp
  moreover have "take 5 ?b2 = take 4 ?b1 @ [LAYOUT_VER]" using take_put_grow [of 4 "[LAYOUT_VER]" ?b1] n by simp
  moreover have "take 9 ?b3 = take 5 ?b2 @ le32 seq" using take_put_grow [of 5 "le32 seq" ?b2] n by simp
  moreover have "take 11 ?b3 = take 9 ?b3 @ ?x"
  proof -
    have "take 11 ?b3 = take 9 ?b3 @ take 2 (drop 9 ?b3)" using take_add [of 9 2 ?b3] by simp
    moreover have "drop 9 ?b3 = drop 9 buf" using n by (intro nth_equalityI) (auto simp: nth_put)
    ultimately show ?thesis by simp
  qed
  moreover have "take 12 ?b4 = take 11 ?b3 @ [of_nat (length ?p)]" using take_put_grow [of 11 "[of_nat (length ?p)]" ?b3] n by simp
  moreover have "take (12 + length ?p) ?b5 = take 12 ?b4 @ ?p" using take_put_grow [of 12 ?p ?b4] n by simp
  ultimately have "take (12 + length ?p) ?b5 = record_front p seq ?x" by (simp add: record_front_def)
  moreover have "length ?x = 2" using n by simp
  ultimately show ?thesis
    using n by - (rule exI [of _ ?b5], rule exI [of _ ?x],
      simp add: write_record_header_def Let_def HEADER_FIXED_def CRC_LEN_def PROFILE_LEN_OFFSET_def)
qed

lemma length_record_front: "length x = 2 \<Longrightarrow> length (record_front p seq x) = HEADER_FIXED + length (profile_as_str p)"
  by (simp add: record_front_def HEADER_FIXED_def)

lemma length_record_bytes:
  "length (record_bytes p seq tvs) = HEADER_FIXED + length (profile_as_str p) + length (concat (map tlv_bytes tvs)) + CRC_LEN"
  by (simp add: record_bytes_def Let_def length_record_front CRC_LEN_def)

lemma finish_record_output:
  assumes "pos + CRC_LEN \<le> length b" "take pos b = front" "11 \<le> pos"
    and "f = put front RECORD_LEN_OFFSET (le16 (of_nat (pos + CRC_LEN)))"
  shows "\<exists>b'. finish_record pos b = (Inr (pos + CRC_LEN), b') \<and> length b' = length b \<and>
    take (pos + CRC_LEN) b' = f @ le32 (crc32 f)"
proof -
  let ?len = "le16 (of_nat (pos + CRC_LEN))" let ?b1 = "put b RECORD_LEN_OFFSET ?len"
  have f: "take pos ?b1 = f"
    using assms by (subst take_put_any) (simp_all add: RECORD_LEN_OFFSET_def)
  then have "take (pos + CRC_LEN) (put ?b1 pos (le32 (crc32 f))) = f @ le32 (crc32 f)"
    using take_put_grow [of pos "le32 (crc32 f)" ?b1] assms by (simp add: CRC_LEN_def)
  with f assms show ?thesis
    by (intro exI [of _ "put ?b1 pos (le32 (crc32 f))"]) (simp add: finish_record_def Let_def)
qed

lemma encode_record_output:
  fixes seq :: u32
  assumes "config_ok c"
  defines "r \<equiv> record_bytes (config_profile c) seq (record_tlvs c)"
  shows "length r \<le> length buf \<Longrightarrow> \<exists>b. encode_record c seq buf = (Inr (length r), b) \<and> length b = length buf \<and> take (length r) b = r"
    and "\<not> length r \<le> length buf \<Longrightarrow> \<exists>e. fst (encode_record c seq buf) = Inl e \<and> too_small e"
proof -
  let ?p = "config_profile c" let ?n = "HEADER_FIXED + length (profile_as_str ?p)" let ?body = "concat (map tlv_bytes (record_tlvs c))"
  let ?mid = "\<lambda>pos. andThen (write_tlvs (core_tlvs c) pos) (\<lambda>pos. andThen (write_tlvs (profile_tlvs c) pos)
      (write_extras [] (pc_extras c)))"
  let ?all = "andThen (write_record_header ?p seq) (\<lambda>pos. andThen (?mid pos) finish_record)"
  have mid: "appends too_small ?mid ?body"
    using assms(1) by (intro appends_cong [OF appends_then [OF appends_write_tlvs appends_then [OF appends_write_tlvs
        appends_write_extras [where earlier = "[]"]]]]) (simp_all add: config_ok_def record_tlvs_def)
  have all: "encode_record c seq = ?all"
    by (rule ext) (simp add: encode_record_def andThen_def split: prod.splits sum.splits)
  have len: "length r = ?n + length ?body + CRC_LEN" by (simp add: r_def length_record_bytes)
  show "\<exists>b. encode_record c seq buf = (Inr (length r), b) \<and> length b = length buf \<and> take (length r) b = r"
    if fits: "length r \<le> length buf"
  proof -
    obtain b x where b: "write_record_header ?p seq buf = (Inr ?n, b)" "length b = length buf" "length x = 2"
      "take ?n b = record_front ?p seq x"
      using record_header_written [of ?p buf seq] fits len by auto
    obtain b' where b': "?mid ?n b = (Inr (?n + length ?body), b')" "length b' = length b" "take (?n + length ?body) b' = take ?n b @ ?body"
      using appendsD(1) [OF mid, of ?n b] fits len b(2) by auto
    let ?f = "put (record_front ?p seq x @ ?body) RECORD_LEN_OFFSET (le16 (of_nat (?n + length ?body + CRC_LEN)))"
    have f: "?f = record_front ?p seq (le16 (of_nat (?n + length ?body + CRC_LEN))) @ ?body"
      using b(3) by (simp add: put_def record_front_def RECORD_LEN_OFFSET_def)
    have r: "r = ?f @ le32 (crc32 ?f)"
      unfolding f r_def record_bytes_def Let_def by simp
    have "\<exists>b''. finish_record (?n + length ?body) b' = (Inr (?n + length ?body + CRC_LEN), b'') \<and> length b'' = length b' \<and>
      take (?n + length ?body + CRC_LEN) b'' = ?f @ le32 (crc32 ?f)"
      by (rule finish_record_output [where front = "record_front ?p seq x @ ?body"])
        (use fits len b(2,4) b'(2,3) in \<open>simp_all add: HEADER_FIXED_def\<close>)
    then obtain b'' where "finish_record (?n + length ?body) b' = (Inr (length r), b'')" "length b'' = length b'"
      "take (length r) b'' = r"
      unfolding len using r by metis
    with b(1,2) b'(1,2) show ?thesis by (simp add: all andThen_def)
  qed
  show "\<exists>e. fst (encode_record c seq buf) = Inl e \<and> too_small e" if small: "\<not> length r \<le> length buf"
  proof (cases "HEADER_FIXED + length (profile_as_str ?p) + CRC_LEN \<le> length buf")
    case True
    obtain b where b: "write_record_header ?p seq buf = (Inr ?n, b)" "length b = length buf"
      using record_header_written [OF True, of seq] by auto
    show ?thesis
    proof (cases "?n + length ?body \<le> length b")
      case True
      then obtain b' where "?mid ?n b = (Inr (?n + length ?body), b')" "length b' = length b"
        using appendsD(1) [OF mid, of ?n b] by auto
      with b small len show ?thesis by (simp add: all andThen_def finish_record_def too_small_def)
    next
      case False
      moreover have "?n \<le> length b" using True b by simp
      ultimately obtain e where "fst (?mid ?n b) = Inl e" "too_small e" using appendsD(2) [OF mid, of ?n b] by auto
      with b show ?thesis by (cases "?mid ?n b") (auto simp: all andThen_def)
    qed
  qed (simp add: all andThen_def write_record_header_def too_small_def)
qed

section \<open>What the decoder reads\<close>

fun read_all :: "(u8 \<times> bytes) list \<Rightarrow> tlv_slots \<Rightarrow> tlv_slots res" where
  "read_all [] st = Inr st"
| "read_all ((tag, val) # tvs) st = bind_res (read_tlv tag val st) (read_all tvs)"

lemma read_tlvs_all:
  "list_all (\<lambda>(t, v). length v < 256) tvs \<Longrightarrow> read_tlvs off st (concat (map tlv_bytes tvs)) = read_all tvs st"
proof (induction tvs arbitrary: st)
  case (Cons tv tvs)
  obtain tag val where tv: "tv = (tag, val)" by fastforce
  with Cons show ?case
    by (cases "read_tlv tag val st") (simp_all add: unat_of_nat_u8 bind_res_def)
qed simp

lemma read_all_append: "read_all (xs @ ys) st = bind_res (read_all xs st) (read_all ys)"
proof (induction xs arbitrary: st)
  case (Cons x xs)
  then show ?case by (cases x; cases "read_tlv (fst x) (snd x) st") (simp_all add: bind_res_def)
qed (simp add: bind_res_def)

definition slots_of :: "provisioning_config \<Rightarrow> tlv_slots" where
  "slots_of c = \<lparr>sl_ssid = Some (pc_wifi_ssid c), sl_pass = Some (pc_wifi_password c), sl_url = Some (pc_ota_url c),
     sl_name = Some (pc_device_name c), sl_host = map_option mq_host (pc_mqtt c), sl_port = map_option mq_port (pc_mqtt c),
     sl_user = Option.bind (pc_mqtt c) mq_username, sl_mpass = Option.bind (pc_mqtt c) mq_password,
     sl_client = Option.bind (pc_mqtt c) mq_client_id, sl_extras = map extra_entry (pc_extras c)\<rparr>"

lemma read_all_extras:
  "length (sl_extras st) + length es \<le> EXTRA_FIELDS_MAX \<Longrightarrow>
   read_all (extra_tlvs es) st = Inr (st\<lparr>sl_extras := sl_extras st @ map extra_entry es\<rparr>)"
proof (induction es arbitrary: st)
  case (Cons e es)
  then show ?case
    using Cons.IH [of "st\<lparr>sl_extras := sl_extras st @ [extra_entry e]\<rparr>"]
    by (simp add: extra_tlvs_def read_tlv_def tag_consts bind_res_def)
qed (simp add: extra_tlvs_def)

lemma le16_read: "of_le16 (le16 w ! 0) (le16 w ! 1) = w" "of_le16 (le16 w ! 0) (le16 w ! Suc 0) = w"
  by (simp_all add: le16_def be16_def of_le16_def)

lemma read_core:
  "read_all (core_tlvs c) no_slots = Inr (no_slots\<lparr>sl_ssid := Some (pc_wifi_ssid c), sl_pass := Some (pc_wifi_password c),
     sl_url := Some (pc_ota_url c), sl_name := Some (pc_device_name c)\<rparr>)"
  by (simp add: core_tlvs_def config_ota_url_def read_tlv_def set_once_def tag_consts bind_res_def no_slots_def)

lemma read_profile:
  assumes "sl_host st = None" "sl_port st = None" "sl_user st = None" "sl_mpass st = None" "sl_client st = None"
  shows "read_all (profile_tlvs c) st = Inr (st\<lparr>sl_host := map_option mq_host (pc_mqtt c), sl_port := map_option mq_port (pc_mqtt c),
     sl_user := Option.bind (pc_mqtt c) mq_username, sl_mpass := Option.bind (pc_mqtt c) mq_password,
     sl_client := Option.bind (pc_mqtt c) mq_client_id\<rparr>)"
proof (cases "pc_mqtt c")
  case None
  with assms show ?thesis by (simp add: profile_tlvs_def config_profile_def)
next
  case (Some q)
  with assms show ?thesis
    by (cases "mq_username q"; cases "mq_password q"; cases "mq_client_id q")
      (simp_all add: profile_tlvs_def config_profile_def opt_tlv_def read_tlv_def set_once_def tag_consts bind_res_def le16_read)
qed

lemma read_record_tlvs:
  assumes "length (pc_extras c) \<le> EXTRA_FIELDS_MAX"
  shows "read_all (record_tlvs c) no_slots = Inr (slots_of c)"
proof -
  let ?s1 = "no_slots\<lparr>sl_ssid := Some (pc_wifi_ssid c), sl_pass := Some (pc_wifi_password c),
     sl_url := Some (pc_ota_url c), sl_name := Some (pc_device_name c)\<rparr>"
  let ?s2 = "?s1\<lparr>sl_host := map_option mq_host (pc_mqtt c), sl_port := map_option mq_port (pc_mqtt c),
     sl_user := Option.bind (pc_mqtt c) mq_username, sl_mpass := Option.bind (pc_mqtt c) mq_password,
     sl_client := Option.bind (pc_mqtt c) mq_client_id\<rparr>"
  have "read_all (profile_tlvs c) ?s1 = Inr ?s2" by (rule read_profile) (simp_all add: no_slots_def)
  moreover have "read_all (extra_tlvs (pc_extras c)) ?s2 = Inr (?s2\<lparr>sl_extras := sl_extras ?s2 @ map extra_entry (pc_extras c)\<rparr>)"
    by (rule read_all_extras) (simp add: no_slots_def assms)
  moreover have "?s2\<lparr>sl_extras := sl_extras ?s2 @ map extra_entry (pc_extras c)\<rparr> = slots_of c"
    by (simp add: slots_of_def no_slots_def)
  ultimately show ?thesis
    by (simp only: record_tlvs_def read_all_append read_core bind_res_def sum.case)
qed

lemma bytes_to_hstring_ok: "text_ok n b \<Longrightarrow> bytes_to_hstring n b tag = Inr b"
  by (simp add: bytes_to_hstring_def text_ok_def is_char_boundary_def min_def)

lemma bytes_to_opt_hstring_ok: "pred_option (text_ok n) b \<Longrightarrow> bytes_to_opt_hstring n b tag = Inr b"
  by (cases b) (simp_all add: bytes_to_opt_hstring_def bytes_to_hstring_ok bind_res_def)

lemma decode_extra_ok:
  assumes "extra_ok e" and "ex_key e \<notin> ex_key ` set earlier"
  shows "decode_extra (extra_entry e) earlier = Inr e"
proof -
  have k: "length (ex_key e) < 256" "ex_key e \<noteq> []" "length (ex_key e) \<le> EXTRA_KEY_MAX_LEN" "utf8_valid (ex_key e)"
    "length (ex_value e) \<le> EXTRA_VALUE_MAX_LEN" "utf8_valid (ex_value e)"
    using assms(1) by (auto simp: extra_ok_def text_ok_def EXTRA_KEY_MAX_LEN_def)
  have "\<not> list_ex (\<lambda>f. ex_key f = ex_key e) earlier" using assms(2) by (auto simp: list_ex_iff image_iff)
  with k show ?thesis by (simp add: decode_extra_def extra_entry_def unat_of_nat_u8 Let_def)
qed

lemma decode_extras_ok:
  assumes "list_all extra_ok es" "distinct (map ex_key (earlier @ es))" "length (earlier @ es) \<le> EXTRA_FIELDS_MAX"
  shows "decode_extras earlier (map extra_entry es) = Inr (earlier @ es)"
  using assms
proof (induction es arbitrary: earlier)
  case (Cons e es)
  have "decode_extra (extra_entry e) earlier = Inr e" using Cons.prems by (intro decode_extra_ok) auto
  moreover have "decode_extras (earlier @ [e]) (map extra_entry es) = Inr ((earlier @ [e]) @ es)"
    using Cons.prems by (intro Cons.IH) auto
  ultimately show ?case using Cons.prems(3) by (simp add: bind_res_def)
qed simp

lemma config_of_slots_ok:
  assumes "config_ok c"
  shows "config_of_slots (config_profile c) (slots_of c) = Inr (c\<lparr>pc_lora := None\<rparr>)"
proof -
  have ex: "decode_extras [] (map extra_entry (pc_extras c)) = Inr (pc_extras c)"
    using decode_extras_ok [of "pc_extras c" "[]"] assms by (simp add: config_ok_def)
  show ?thesis
  proof (cases "pc_mqtt c")
    case None
    with assms ex show ?thesis
      by (simp add: config_of_slots_def build_config_def slots_of_def config_profile_def ok_or_def bind_res_def
          bytes_to_hstring_ok config_ok_def)
  next
    case (Some q)
    with assms ex show ?thesis
      by (simp add: config_of_slots_def build_config_def slots_of_def config_profile_def ok_or_def bind_res_def
          bytes_to_hstring_ok bytes_to_opt_hstring_ok config_ok_def mqtt_ok_def)
  qed
qed

abbreviation short_tlvs :: "(u8 \<times> bytes) list \<Rightarrow> bool" where
  "short_tlvs tvs \<equiv> list_all (\<lambda>(t, v). length v < 256) tvs"

definition tlvs_length :: "(u8 \<times> bytes) list \<Rightarrow> nat" where
  "tlvs_length tvs = length (concat (map tlv_bytes tvs))"

lemma tlvs_length_simps [simp]:
  "tlvs_length [] = 0" "tlvs_length ((t, v) # tvs) = 2 + length v + tlvs_length tvs"
  "tlvs_length (xs @ ys) = tlvs_length xs + tlvs_length ys"
  by (simp_all add: tlvs_length_def)

lemma opt_tlv_short: "pred_option (text_ok n) v \<Longrightarrow> n < 256 \<Longrightarrow> short_tlvs (opt_tlv t v) \<and> tlvs_length (opt_tlv t v) \<le> 2 + n"
  by (cases v) (auto simp: opt_tlv_def text_ok_def)

lemma core_tlvs_short: "config_ok c \<Longrightarrow> short_tlvs (core_tlvs c) \<and> tlvs_length (core_tlvs c) \<le> 256"
  by (auto simp: core_tlvs_def config_ok_def text_ok_def config_ota_url_def field_caps)

lemma profile_tlvs_short:
  "config_ok c \<Longrightarrow> short_tlvs (profile_tlvs c) \<and> tlvs_length (profile_tlvs c) \<le> 227"
proof (cases "pc_mqtt c")
  case None
  then show ?thesis by (simp add: profile_tlvs_def config_profile_def)
next
  case (Some q)
  assume "config_ok c"
  then have q: "mqtt_ok q" using Some by (simp add: config_ok_def)
  then have "text_ok 64 (mq_host q)" by (simp add: mqtt_ok_def field_caps)
  moreover have "short_tlvs (opt_tlv TAG_MQTT_USER (mq_username q)) \<and> tlvs_length (opt_tlv TAG_MQTT_USER (mq_username q)) \<le> 2 + 64"
    using q by (intro opt_tlv_short) (simp_all add: mqtt_ok_def field_caps)
  moreover have "short_tlvs (opt_tlv TAG_MQTT_PASS (mq_password q)) \<and> tlvs_length (opt_tlv TAG_MQTT_PASS (mq_password q)) \<le> 2 + 64"
    using q by (intro opt_tlv_short) (simp_all add: mqtt_ok_def field_caps)
  moreover have "short_tlvs (opt_tlv TAG_MQTT_CLIENT (mq_client_id q)) \<and> tlvs_length (opt_tlv TAG_MQTT_CLIENT (mq_client_id q)) \<le> 2 + 23"
    using q by (intro opt_tlv_short) (simp_all add: mqtt_ok_def field_caps)
  ultimately show ?thesis by (simp add: profile_tlvs_def config_profile_def Some text_ok_def)
qed

lemma extra_tlvs_short:
  "list_all extra_ok es \<Longrightarrow> short_tlvs (extra_tlvs es) \<and> tlvs_length (extra_tlvs es) \<le> 80 * length es"
proof (induction es)
  case (Cons e es)
  then show ?case by (auto simp: extra_tlvs_def extra_entry_def extra_ok_def text_ok_def field_caps)
qed (simp add: extra_tlvs_def)

lemma record_tlvs_short:
  assumes "config_ok c"
  shows "short_tlvs (record_tlvs c)" and "tlvs_length (record_tlvs c) \<le> 1123"
proof -
  have "list_all extra_ok (pc_extras c)" "length (pc_extras c) \<le> 8" using assms by (simp_all add: config_ok_def field_caps)
  with core_tlvs_short [OF assms] profile_tlvs_short [OF assms] extra_tlvs_short [of "pc_extras c"]
  show "short_tlvs (record_tlvs c)" "tlvs_length (record_tlvs c) \<le> 1123" by (simp_all add: record_tlvs_def)
qed

lemma record_length:
  assumes "config_ok c"
  shows "length (record_bytes (config_profile c) seq (record_tlvs c)) \<le> 1148"
proof -
  have "length (profile_as_str p) \<le> 9" for p by (cases p) (simp_all add: ascii_def)
  then have "length (profile_as_str (config_profile c)) \<le> 9" .
  with record_tlvs_short(2) [OF assms] show ?thesis
    by (simp add: length_record_bytes HEADER_FIXED_def CRC_LEN_def tlvs_length_def)
qed

lemma profile_str:
  "utf8_valid (profile_as_str p)" "profile_from_str (profile_as_str p) = Some p" "length (profile_as_str p) \<le> 9"
  by (cases p; simp add: ascii_def profile_from_str_def)+

text \<open>A record with good header and checksum decodes to what its fields say.\<close>

lemma decode_record_bytes:
  assumes "short_tlvs tvs" and "length (record_bytes p seq tvs) < 65536"
  shows "decode_record (record_bytes p seq tvs) =
    bind_res (read_all tvs no_slots) (\<lambda>st. bind_res (config_of_slots p st) (\<lambda>config.
      Inr \<lparr>dr_seq = seq, dr_profile = p, dr_config = config\<rparr>))"
proof -
  let ?p = "profile_as_str p" let ?body = "concat (map tlv_bytes tvs)"
  define n where "n = HEADER_FIXED + length ?p + length ?body + CRC_LEN"
  define front where "front = record_front p seq (le16 (of_nat n)) @ ?body"
  define bs where "bs = front @ le32 (crc32 front)"
  have bs: "record_bytes p seq tvs = bs"
    by (simp add: record_bytes_def Let_def bs_def front_def n_def)
  have len: "length bs = n" "length front = n - 4" "16 \<le> n" "n < 65536"
    using assms(2) length_record_bytes [of p seq tvs]
    by (simp_all add: bs_def front_def length_record_front n_def CRC_LEN_def HEADER_FIXED_def bs)
  have nw: "unat (of_nat n :: u16) = n" using len(4) by (intro unat_of_nat_less) simp
  have pw: "unat (of_nat (length ?p) :: u8) = length ?p" using profile_str(3) [of p] by (intro unat_of_nat_u8) simp
  obtain m0 m1 m2 m3 where m: "le32 MAGIC = [m0, m1, m2, m3]" "of_le32 m0 m1 m2 m3 = MAGIC"
    by (simp add: le32_def be32_def of_le32_def)
  obtain s0 s1 s2 s3 where s: "le32 seq = [s0, s1, s2, s3]" "of_le32 s0 s1 s2 s3 = seq"
    by (simp add: le32_def be32_def of_le32_def)
  obtain n0 n1 where nn: "le16 (of_nat n) = [n0, n1]" "of_le16 n0 n1 = of_nat n"
    by (simp add: le16_def be16_def of_le16_def)
  have explicit: "front = [m0, m1, m2, m3, LAYOUT_VER, s0, s1, s2, s3, n0, n1, of_nat (length ?p)] @ ?p @ ?body"
    by (simp add: front_def record_front_def m s nn)
  have hd: "bs ! 0 = m0" "bs ! 1 = m1" "bs ! Suc 0 = m1" "bs ! 2 = m2" "bs ! 3 = m3" "bs ! 4 = LAYOUT_VER" "bs ! 5 = s0" "bs ! 6 = s1" "bs ! 7 = s2"
    "bs ! 8 = s3" "bs ! 9 = n0" "bs ! 10 = n1" "bs ! 11 = of_nat (length ?p)"
    by (simp_all add: bs_def explicit)
  have prof: "take (length ?p) (drop 12 bs) = ?p" by (simp add: bs_def explicit)
  have "drop (length ?p) (drop 12 front) = ?body" by (simp add: explicit del: drop_drop)
  then have body: "drop (12 + length ?p) front = ?body" by (simp add: add.commute)
  have "of_le32 (bs ! (n - 4)) (bs ! (n - 4 + 1)) (bs ! (n - 4 + 2)) (bs ! (n - 4 + 3)) = crc32 front"
    unfolding bs_def by (simp add: nth_append len le32_def be32_def of_le32_def)
  moreover have "n - 4 + 1 = Suc (n - 4)" "n - 4 + 2 = Suc (Suc (n - 4))" "n - 4 + 3 = n - Suc 0" using len(3) by simp_all
  ultimately have crc: "of_le32 (bs ! (n - 4)) (bs ! Suc (n - 4)) (bs ! Suc (Suc (n - 4))) (bs ! (n - Suc 0)) = crc32 front"
    by simp
  have tk: "take (n - 4) bs = front" by (simp add: bs_def len)
  have room: "12 + length ?p + 4 \<le> n" by (simp add: n_def HEADER_FIXED_def CRC_LEN_def)
  show ?thesis
    unfolding bs decode_record_def
    using len room profile_str [of p]
    by (simp add: HEADER_FIXED_def CRC_LEN_def RECORD_LEN_OFFSET_def PROFILE_LEN_OFFSET_def MAX_PROFILE_STR_LEN_def SECTOR_SIZE_def
        hd m(2) s(2) nn(2) nw pw prof crc tk body read_tlvs_all [OF assms(1)] ok_or_def bind_res_def Let_def
        del: of_nat_add)
qed

lemma decode_encoded:
  assumes "config_ok c"
  shows "decode_record (record_bytes (config_profile c) seq (record_tlvs c)) =
    Inr \<lparr>dr_seq = seq, dr_profile = config_profile c, dr_config = c\<lparr>pc_lora := None\<rparr>\<rparr>"
proof -
  have "length (record_bytes (config_profile c) seq (record_tlvs c)) < 65536"
    using record_length [OF assms, of seq] by simp
  moreover have "read_all (record_tlvs c) no_slots = Inr (slots_of c)"
    using assms by (intro read_record_tlvs) (simp add: config_ok_def)
  ultimately show ?thesis
    by (simp add: decode_record_bytes record_tlvs_short(1) [OF assms] config_of_slots_ok [OF assms] bind_res_def)
qed

lemma decode_record_length:
  assumes "decode_record bs = Inr r"
  defines "n \<equiv> unat (of_le16 (bs ! 9) (bs ! 10))"
  shows "16 \<le> n" and "n \<le> length bs"
    and "crc32 (take (n - 4) bs) = of_le32 (bs ! (n - 4)) (bs ! (n - 4 + 1)) (bs ! (n - 4 + 2)) (bs ! (n - 4 + 3))"
  using assms by (auto simp: decode_record_def HEADER_FIXED_def CRC_LEN_def RECORD_LEN_OFFSET_def PROFILE_LEN_OFFSET_def
      bind_res_def Let_def split: if_splits sum.splits)

section \<open>Properties\<close>

text \<open>
  A record survives the flash.  Every configuration within the field capacities, with non-empty
  distinct keys of its extras, is encoded into any buffer of 1148 bytes, and the decoder reads back the
  sequence number, the profile and the configuration; only the LoRaWAN group has no place in this
  layout.
\<close>

theorem record_roundtrip:
  assumes "config_ok c" and "1148 \<le> length buf"
  shows "\<exists>n b. encode_record c seq buf = (Inr n, b) \<and> n \<le> 1148 \<and> length b = length buf \<and>
    decode_record (take n b) = Inr \<lparr>dr_seq = seq, dr_profile = config_profile c, dr_config = c\<lparr>pc_lora := None\<rparr>\<rparr>"
proof -
  let ?r = "record_bytes (config_profile c) seq (record_tlvs c)"
  have n: "length ?r \<le> 1148" by (rule record_length [OF assms(1)])
  with assms(2) obtain b where "encode_record c seq buf = (Inr (length ?r), b)" "length b = length buf" "take (length ?r) b = ?r"
    using encode_record_output(1) [OF assms(1), of seq buf] by auto
  with n decode_encoded [OF assms(1), of seq] show ?thesis
    by (intro exI [of _ "length ?r"] exI [of _ b]) simp
qed

definition example_config :: provisioning_config where
  "example_config = \<lparr>pc_wifi_ssid = ascii ''home'', pc_wifi_password = ascii ''secret'', pc_ota_url = [],
     pc_device_name = ascii ''dev-1'', pc_lora = None,
     pc_mqtt = Some \<lparr>mq_host = ascii ''broker'', mq_port = 1883, mq_username = None, mq_password = None, mq_client_id = Some []\<rparr>,
     pc_extras = [\<lparr>ex_key = ascii ''token'', ex_value = ascii ''t''\<rparr>]\<rparr>"

lemma example_config_ok: "config_ok example_config"
  by (simp add: config_ok_def mqtt_ok_def extra_ok_def text_ok_def example_config_def ascii_def field_caps)

theorem record_roundtrip_witness:
  "\<exists>n b. encode_record example_config 7 (replicate 1280 0) = (Inr n, b) \<and>
     decode_record (take n b) = Inr \<lparr>dr_seq = 7, dr_profile = WifiMqttDevice, dr_config = example_config\<rparr>"
proof -
  have "example_config\<lparr>pc_lora := None\<rparr> = example_config" "config_profile example_config = WifiMqttDevice"
    by (simp_all add: example_config_def config_profile_def)
  with record_roundtrip [OF example_config_ok, of "replicate 1280 0" 7] show ?thesis by auto
qed

text \<open>
  C37: a single damaged byte is always noticed.  If a record decodes and one byte of it other than the two
  of its length field is changed, in the header, in the fields or in the stored checksum, the result is
  refused with an error.
\<close>

theorem damaged_byte_refused:
  assumes "decode_record bs = Inr r" and "length bs' = length bs" and "i < unat (of_le16 (bs ! 9) (bs ! 10))" and "i \<noteq> 9" "i \<noteq> 10"
    and "bs' ! i \<noteq> bs ! i" and "\<forall>j < length bs. j \<noteq> i \<longrightarrow> bs' ! j = bs ! j"
  shows "\<exists>e. decode_record bs' = Inl (Fail e)"
proof (rule ccontr)
  assume "\<nexists>e. decode_record bs' = Inl (Fail e)"
  note ok' = this
  let ?n = "unat (of_le16 (bs ! 9) (bs ! 10))" let ?c = "?n - 4"
  note n = decode_record_length(1,2) [OF assms(1)] and crc = decode_record_length(3) [OF assms(1)]
  have same: "bs' ! 9 = bs ! 9" "bs' ! 10 = bs ! 10" using assms(4,5,7) n by auto
  have crc': "crc32 (take ?c bs') = of_le32 (bs' ! ?c) (bs' ! (?c + 1)) (bs' ! (?c + 2)) (bs' ! (?c + 3))"
    using ok' same n assms(2) by (auto simp: decode_record_def HEADER_FIXED_def CRC_LEN_def RECORD_LEN_OFFSET_def PROFILE_LEN_OFFSET_def
        bind_res_def ok_or_def Let_def split: if_splits sum.splits option.splits)
  show False
  proof (cases "i < ?c")
    case True
    then have "bs' ! ?c = bs ! ?c" "bs' ! (?c + 1) = bs ! (?c + 1)" "bs' ! (?c + 2) = bs ! (?c + 2)" "bs' ! (?c + 3) = bs ! (?c + 3)"
      using assms(7) n by auto
    moreover have "crc32 (take ?c bs') \<noteq> crc32 (take ?c bs)"
      by (rule crc32_one_byte [where i = i]) (use True assms(2,6,7) n in auto)
    ultimately show False using crc crc' by metis
  next
    case False
    have "take ?c bs' = take ?c bs"
      using False assms(2,7) n by (intro nth_equalityI) auto
    with crc crc' have "of_le32 (bs' ! ?c) (bs' ! (?c + 1)) (bs' ! (?c + 2)) (bs' ! (?c + 3)) =
        of_le32 (bs ! ?c) (bs ! (?c + 1)) (bs ! (?c + 2)) (bs ! (?c + 3))" by metis
    then have "be32 (of_le32 (bs' ! ?c) (bs' ! (?c + 1)) (bs' ! (?c + 2)) (bs' ! (?c + 3))) =
        be32 (of_le32 (bs ! ?c) (bs ! (?c + 1)) (bs ! (?c + 2)) (bs ! (?c + 3)))" by (rule arg_cong)
    then have eq: "bs' ! ?c = bs ! ?c" "bs' ! (?c + 1) = bs ! (?c + 1)" "bs' ! (?c + 2) = bs ! (?c + 2)" "bs' ! (?c + 3) = bs ! (?c + 3)"
      by (simp_all add: of_le32_def)
    have "i = ?c \<or> i = ?c + 1 \<or> i = ?c + 2 \<or> i = ?c + 3" using False assms(3) n by linarith
    with eq assms(6) show False by auto
  qed
qed

theorem damaged_byte_refused_witness:
  "\<exists>e. decode_record ((record_bytes WifiMqttDevice 7 (record_tlvs example_config))[0 := 0]) = Inl (Fail e)"
proof -
  let ?bs = "record_bytes WifiMqttDevice 7 (record_tlvs example_config)"
  have prof: "config_profile example_config = WifiMqttDevice" by (simp add: example_config_def config_profile_def)
  have dec: "decode_record ?bs = Inr \<lparr>dr_seq = 7, dr_profile = WifiMqttDevice, dr_config = example_config\<lparr>pc_lora := None\<rparr>\<rparr>"
    using decode_encoded [OF example_config_ok, of 7] by (simp add: prof)
  have b0: "?bs ! 0 = 0x52" by (simp add: record_bytes_def Let_def record_front_def le32_def be32_def MAGIC_def)
  have len: "0 < length ?bs" by (simp add: length_record_bytes HEADER_FIXED_def)
  show ?thesis
    by (rule damaged_byte_refused [OF dec, where i = 0])
      (use decode_record_length(1) [OF dec] b0 len in auto)
qed

text \<open>
  The table-driven checksum is the bit-serial IEEE 802.3 checksum.
\<close>

theorem crc32_is_serial: "crc32 data = crc_serial data"
proof -
  have "crc_step = (\<lambda>crc b. (crc_bit ^^ 8) (xor crc (ucast b)))"
    by (intro ext) (rule crc_step_serial)
  then show ?thesis by (simp add: crc32_def crc_serial_def)
qed

text \<open>
  C38: an overlong name can panic the decoder.  A record that is intact in every other respect, whose
  network name is valid UTF-8 and longer than the field, with a character across the field's capacity,
  is not refused with an error: cutting the name to the capacity slices that character and panics.
\<close>

theorem overlong_field_panics:
  assumes "config_ok c" and "utf8_valid v" "length v < 256" and "\<not> is_char_boundary v SSID_MAX_LEN" "SSID_MAX_LEN < length v"
  shows "decode_record (record_bytes (config_profile c) seq (record_tlvs (c\<lparr>pc_wifi_ssid := v\<rparr>))) = Inl Panic"
proof -
  let ?c = "c\<lparr>pc_wifi_ssid := v\<rparr>"
  have prof: "profile_tlvs ?c = profile_tlvs c" "config_profile ?c = config_profile c"
    by (simp_all add: profile_tlvs_def config_profile_def split: schema_profile.splits)
  have ex: "list_all extra_ok (pc_extras c)" "length (pc_extras c) \<le> 8" using assms(1) by (simp_all add: config_ok_def field_caps)
  have core: "short_tlvs (core_tlvs ?c)" "tlvs_length (core_tlvs ?c) \<le> 256 + length v"
    using assms(1,3) by (auto simp: core_tlvs_def config_ok_def text_ok_def config_ota_url_def field_caps)
  have short: "short_tlvs (record_tlvs ?c)"
    using core profile_tlvs_short [OF assms(1)] extra_tlvs_short [OF ex(1)] by (simp add: record_tlvs_def prof)
  have "tlvs_length (record_tlvs ?c) \<le> 2000"
    using core(2) assms(3) profile_tlvs_short [OF assms(1)] extra_tlvs_short [OF ex(1)] ex(2) by (simp add: record_tlvs_def prof)
  then have "length (record_bytes (config_profile c) seq (record_tlvs ?c)) < 65536"
    using profile_str(3) [of "config_profile c"] by (simp add: length_record_bytes HEADER_FIXED_def CRC_LEN_def tlvs_length_def)
  moreover have "read_all (record_tlvs ?c) no_slots = Inr (slots_of ?c)"
    using ex(2) by (intro read_record_tlvs) (simp add: field_caps)
  moreover have "config_of_slots (config_profile c) (slots_of ?c) = Inl Panic"
    using assms(2,4,5)
    by (cases "pc_mqtt c") (simp_all add: config_of_slots_def slots_of_def config_profile_def build_config_def ok_or_def bind_res_def
        bytes_to_hstring_def min_def)
  ultimately show ?thesis by (simp add: decode_record_bytes short bind_res_def)
qed

theorem overlong_field_panics_witness:
  "decode_record (record_bytes WifiMqttDevice 1 (record_tlvs
     (example_config\<lparr>pc_wifi_ssid := replicate 31 0x61 @ [0xC3, 0xA9]\<rparr>))) = Inl Panic"
proof -
  have "utf8_valid (replicate 31 0x61 @ [0xC3, 0xA9])" "\<not> is_char_boundary (replicate 31 0x61 @ [0xC3, 0xA9]) SSID_MAX_LEN"
    "config_profile example_config = WifiMqttDevice"
    by code_simp+
  with overlong_field_panics [OF example_config_ok, of "replicate 31 0x61 @ [0xC3, 0xA9]" 1] show ?thesis
    by (simp add: SSID_MAX_LEN_def)
qed

end
