(* ===== verification/Portal_Form.thy ===== *)
theory Portal_Form
  imports Portal_Record Mqtt_Topics
begin

text \<open>
  The parser of the portal's form (\<^verbatim>\<open>juggler/src/provisioning/form.rs\<close>, with the fields and errors of
  \<^verbatim>\<open>error.rs\<close> and \<^verbatim>\<open>profile.rs\<close>): percent decoding, the accumulation of the fields and the extras,
  and the validation of every field.  Text is the bytes of its UTF-8 encoding.

  The lemmas follow what one pair and one validator may change; the properties say which configurations
  a form can deliver, that every such configuration is delivered by its form, how errors are reported,
  and which oversized fields are lost.
\<close>

section \<open>Model: fields and errors\<close>

datatype form_field =
    WifiSsid | WifiPassword | DevEui | JoinEui | AppKey | MqttUri | MqttUser | MqttPass | MqttClient | OtaUrl
  | DeviceName | Form

fun form_name :: "form_field \<Rightarrow> bytes" where
  "form_name WifiSsid = ascii ''wifi_ssid''"
| "form_name WifiPassword = ascii ''wifi_pass''"
| "form_name DevEui = ascii ''dev_eui''"
| "form_name JoinEui = ascii ''join_eui''"
| "form_name AppKey = ascii ''app_key''"
| "form_name MqttUri = ascii ''mqtt_uri''"
| "form_name MqttUser = ascii ''mqtt_user''"
| "form_name MqttPass = ascii ''mqtt_pass''"
| "form_name MqttClient = ascii ''mqtt_client''"
| "form_name OtaUrl = ascii ''ota_url''"
| "form_name DeviceName = ascii ''dev_name''"
| "form_name Form = ascii ''_form''"

fun profile_fields :: "schema_profile \<Rightarrow> form_field list" where
  "profile_fields LorawanFieldDevice = [WifiSsid, WifiPassword, DevEui, JoinEui, AppKey, OtaUrl, DeviceName]"
| "profile_fields WifiMqttDevice = [WifiSsid, WifiPassword, MqttUri, MqttUser, MqttPass, MqttClient, OtaUrl, DeviceName]"

datatype validation_error =
    Missing | Empty | Duplicate | TooLong nat | TooShort nat | InvalidHex nat | InvalidUrl | MalformedBody
  | TooManyFields | UnexpectedForProfile

type_synonym field_errors = "(form_field \<times> validation_error) list"

definition MAX_FIELD_ERRORS :: nat where "MAX_FIELD_ERRORS = 9"
definition EUI_HEX_LEN :: nat where "EUI_HEX_LEN = 16"
definition APP_KEY_HEX_LEN :: nat where "APP_KEY_HEX_LEN = 32"
definition AP_PASSWORD_MIN_LEN :: nat where "AP_PASSWORD_MIN_LEN = 8"
definition VALUE_DECODE_MAX :: nat where "VALUE_DECODE_MAX = 160"
definition KEY_DECODE_MAX :: nat where "KEY_DECODE_MAX = 16"
definition MAX_CANONICAL_FIELDS :: nat where "MAX_CANONICAL_FIELDS = 8"

definition validate_ssid :: "bytes \<Rightarrow> bool" where
  "validate_ssid ssid = (if ssid = [] then False else \<not> SSID_MAX_LEN < length ssid)"

definition validate_password :: "bytes \<Rightarrow> bool" where
  "validate_password password = (length password \<le> PASSWORD_MAX_LEN)"

section \<open>Model: decoding\<close>

datatype decoded = Decoded bytes | Malformed | Overflow

definition hex_value :: "u8 \<Rightarrow> u8 option" where
  "hex_value b =
     (if 0x30 \<le> b \<and> b \<le> 0x39 then Some (b - 0x30)
      else if 0x61 \<le> b \<and> b \<le> 0x66 then Some (b - 0x61 + 10)
      else if 0x41 \<le> b \<and> b \<le> 0x46 then Some (b - 0x41 + 10)
      else None)"

text \<open>The loop of \<^verbatim>\<open>percent_decode::<N>\<close>; \<open>acc\<close> is what was decoded.\<close>

fun percent_loop :: "nat \<Rightarrow> bytes \<Rightarrow> bytes \<Rightarrow> decoded" where
  "percent_loop n acc [] = (if utf8_valid acc then Decoded acc else Malformed)"
| "percent_loop n acc (b # rest) =
     (if b = 0x2B then (if length acc < n then percent_loop n (acc @ [0x20]) rest else Overflow)
      else if b = 0x25 then
        (case rest of
           h # l # rest' \<Rightarrow>
             (case hex_value h of
                None \<Rightarrow> Malformed
              | Some hi \<Rightarrow>
                  (case hex_value l of
                     None \<Rightarrow> Malformed
                   | Some lo \<Rightarrow>
                       if length acc < n then percent_loop n (acc @ [or (push_bit 4 hi) lo]) rest' else Overflow))
         | _ \<Rightarrow> Malformed)
      else if length acc < n then percent_loop n (acc @ [b]) rest else Overflow)"

definition percent_decode :: "nat \<Rightarrow> bytes \<Rightarrow> decoded" where
  "percent_decode n input = percent_loop n [] input"

section \<open>Model: accumulation\<close>

record form_slot =
  fs_seen :: bool
  fs_value :: bytes
  fs_duplicate :: bool
  fs_overflowed :: bool

record form_acc =
  fa_slots :: "form_slot list"
  fa_extras :: "extra_field list"
  fa_form_error :: "validation_error option"

definition form_start :: form_acc where
  "form_start = \<lparr>
     fa_slots = replicate MAX_CANONICAL_FIELDS \<lparr>fs_seen = False, fs_value = [], fs_duplicate = False, fs_overflowed = False\<rparr>,
     fa_extras = [], fa_form_error = None\<rparr>"

definition canonical_index :: "schema_profile \<Rightarrow> bytes \<Rightarrow> nat option" where
  "canonical_index profile key = position (\<lambda>f. form_name f = key) (profile_fields profile)"

definition is_cross_profile :: "schema_profile \<Rightarrow> bytes \<Rightarrow> bool" where
  "is_cross_profile profile key =
     (let other = (case profile of LorawanFieldDevice \<Rightarrow> WifiMqttDevice | WifiMqttDevice \<Rightarrow> LorawanFieldDevice)
      in list_ex (\<lambda>f. form_name f = key) (profile_fields other))"

definition set_form_error :: "validation_error \<Rightarrow> form_acc \<Rightarrow> form_acc" where
  "set_form_error e a = (if fa_form_error a = None then a\<lparr>fa_form_error := Some e\<rparr> else a)"

definition insert_extra :: "bytes \<Rightarrow> bytes \<Rightarrow> form_acc \<Rightarrow> form_acc" where
  "insert_extra key val a =
     (if key = [] then set_form_error MalformedBody a
      else if list_ex (\<lambda>e. ex_key e = key) (fa_extras a) then set_form_error Duplicate a
      else if EXTRA_KEY_MAX_LEN < length key \<or> EXTRA_VALUE_MAX_LEN < length val then set_form_error TooManyFields a
      else if EXTRA_FIELDS_MAX \<le> length (fa_extras a) then set_form_error TooManyFields a
      else a\<lparr>fa_extras := fa_extras a @ [\<lparr>ex_key = key, ex_value = val\<rparr>]\<rparr>)"

text \<open>A further value of a canonical field.\<close>

definition fill_slot :: "bytes option \<Rightarrow> form_slot \<Rightarrow> form_slot" where
  "fill_slot val s =
     (if fs_seen s then s\<lparr>fs_duplicate := True\<rparr>
      else (case val of
          Some v \<Rightarrow> s\<lparr>fs_seen := True, fs_value := push_str VALUE_DECODE_MAX (fs_value s) v\<rparr>
        | None \<Rightarrow> s\<lparr>fs_seen := True, fs_overflowed := True\<rparr>))"

definition place_value :: "schema_profile \<Rightarrow> bytes \<Rightarrow> bytes option \<Rightarrow> form_acc \<Rightarrow> form_acc" where
  "place_value profile key val a =
     (case canonical_index profile key of
        Some idx \<Rightarrow> a\<lparr>fa_slots := (fa_slots a)[idx := fill_slot val (fa_slots a ! idx)]\<rparr>
      | None \<Rightarrow>
          if is_cross_profile profile key then set_form_error UnexpectedForProfile a
          else (case val of Some v \<Rightarrow> insert_extra key v a | None \<Rightarrow> set_form_error MalformedBody a))"

definition handle_pair :: "schema_profile \<Rightarrow> form_acc \<Rightarrow> bytes \<Rightarrow> form_acc" where
  "handle_pair profile a pair =
     (if pair = [] then a
      else
        let (raw_key, raw_value) = (case split_once 0x3D pair of Some kv \<Rightarrow> kv | None \<Rightarrow> (pair, [])) in
        case percent_decode KEY_DECODE_MAX raw_key of
          Decoded key \<Rightarrow>
            if take 1 key = [0x5F] then a
            else (case percent_decode VALUE_DECODE_MAX raw_value of
                Decoded v \<Rightarrow> place_value profile key (Some v) a
              | Malformed \<Rightarrow> set_form_error MalformedBody a
              | Overflow \<Rightarrow> place_value profile key None a)
        | _ \<Rightarrow> set_form_error MalformedBody a)"

section \<open>Model: validation\<close>

definition push_field_error :: "form_field \<Rightarrow> validation_error \<Rightarrow> field_errors \<Rightarrow> field_errors" where
  "push_field_error f e es = (if length es < MAX_FIELD_ERRORS then es @ [(f, e)] else es)"

text \<open>A validator gets the slot, the variable it fills and the errors so far.\<close>

definition validate_wifi_ssid :: "form_slot \<Rightarrow> bytes \<Rightarrow> field_errors \<Rightarrow> bytes \<times> field_errors" where
  "validate_wifi_ssid s out es =
     (if fs_duplicate s then (out, push_field_error WifiSsid Duplicate es)
      else if \<not> fs_seen s then (out, push_field_error WifiSsid Missing es)
      else if fs_overflowed s \<or> SSID_MAX_LEN < length (fs_value s)
      then (out, push_field_error WifiSsid (TooLong SSID_MAX_LEN) es)
      else if \<not> validate_ssid (fs_value s)
      then (out, push_field_error WifiSsid (if fs_value s = [] then Empty else TooLong SSID_MAX_LEN) es)
      else (push_str SSID_MAX_LEN out (fs_value s), es))"

definition validate_wifi_password :: "form_slot \<Rightarrow> bytes \<Rightarrow> field_errors \<Rightarrow> bytes \<times> field_errors" where
  "validate_wifi_password s out es =
     (if fs_duplicate s then (out, push_field_error WifiPassword Duplicate es)
      else if \<not> fs_seen s then (out, push_field_error WifiPassword Missing es)
      else if fs_overflowed s \<or> PASSWORD_MAX_LEN < length (fs_value s)
      then (out, push_field_error WifiPassword (TooLong PASSWORD_MAX_LEN) es)
      else if fs_value s \<noteq> [] \<and> length (fs_value s) < AP_PASSWORD_MIN_LEN
      then (out, push_field_error WifiPassword (TooShort AP_PASSWORD_MIN_LEN) es)
      else if \<not> validate_password (fs_value s)
      then (out, push_field_error WifiPassword (TooLong PASSWORD_MAX_LEN) es)
      else (push_str PASSWORD_MAX_LEN out (fs_value s), es))"

definition is_ascii_hexdigit :: "u8 \<Rightarrow> bool" where
  "is_ascii_hexdigit b = (hex_value b \<noteq> None)"

definition validate_hex :: "form_slot \<Rightarrow> form_field \<Rightarrow> nat \<Rightarrow> bytes \<Rightarrow> field_errors \<Rightarrow> bytes \<times> field_errors" where
  "validate_hex s f expected_len out es =
     (if fs_duplicate s then (out, push_field_error f Duplicate es)
      else if \<not> fs_seen s then (out, push_field_error f Missing es)
      else if fs_value s = [] then (out, push_field_error f Empty es)
      else if fs_overflowed s \<or> length (fs_value s) \<noteq> expected_len \<or> \<not> list_all is_ascii_hexdigit (fs_value s)
      then (out, push_field_error f (InvalidHex expected_len) es)
      else (push_str expected_len out (fs_value s), es))"

definition ota_url_required :: "schema_profile \<Rightarrow> bool" where
  "ota_url_required profile = (case profile of LorawanFieldDevice \<Rightarrow> True | WifiMqttDevice \<Rightarrow> False)"

definition is_valid_ota_url :: "bytes \<Rightarrow> bool" where
  "is_valid_ota_url url = (case strip_prefix (ascii ''http://'') url of
       Some rest \<Rightarrow> takeWhile (\<lambda>b. b \<notin> set (ascii ''/?#'')) rest \<noteq> []
     | None \<Rightarrow> False)"

definition validate_ota_url :: "form_slot \<Rightarrow> bool \<Rightarrow> bytes \<Rightarrow> field_errors \<Rightarrow> bytes \<times> field_errors" where
  "validate_ota_url s required out es =
     (if fs_duplicate s then (out, push_field_error OtaUrl Duplicate es)
      else if \<not> fs_seen s then (out, if required then push_field_error OtaUrl Missing es else es)
      else if fs_value s = [] \<and> required then (out, push_field_error OtaUrl Empty es)
      else if fs_value s = [] \<and> \<not> fs_overflowed s then (out, es)
      else if fs_overflowed s \<or> OTA_URL_MAX_LEN < length (fs_value s)
      then (out, push_field_error OtaUrl (TooLong OTA_URL_MAX_LEN) es)
      else if \<not> is_valid_ota_url (fs_value s) then (out, push_field_error OtaUrl InvalidUrl es)
      else (push_str OTA_URL_MAX_LEN out (fs_value s), es))"

definition text_of :: "bytes \<Rightarrow> string" where
  "text_of bs = map (\<lambda>b. char_of (unat b)) bs"

definition parse_mqtt_uri :: "bytes \<Rightarrow> (bytes \<times> u16) option" where
  "parse_mqtt_uri uri =
     Option.bind (strip_prefix (ascii ''mqtt://'') uri) (\<lambda>rest.
     Option.bind (rsplit_once 0x3A rest) (\<lambda>(host, port_str).
       if host = [] \<or> port_str = [] then None
       else Option.bind (parse_uint 65536 (text_of port_str)) (\<lambda>n.
         if (of_nat n :: u16) = 0 then None else Some (host, of_nat n))))"

definition validate_mqtt_uri :: "form_slot \<Rightarrow> bytes \<Rightarrow> u16 \<Rightarrow> field_errors \<Rightarrow> (bytes \<times> u16) \<times> field_errors" where
  "validate_mqtt_uri s host_out port_out es =
     (if fs_duplicate s then ((host_out, port_out), push_field_error MqttUri Duplicate es)
      else if \<not> fs_seen s then ((host_out, port_out), push_field_error MqttUri Missing es)
      else if fs_value s = [] then ((host_out, port_out), push_field_error MqttUri Empty es)
      else if fs_overflowed s then ((host_out, port_out), push_field_error MqttUri InvalidUrl es)
      else (case parse_mqtt_uri (fs_value s) of
          Some (host, port) \<Rightarrow>
            if length host \<le> MQTT_HOST_MAX_LEN then ((push_str MQTT_HOST_MAX_LEN host_out host, port), es)
            else ((host_out, port_out), push_field_error MqttUri InvalidUrl es)
        | None \<Rightarrow> ((host_out, port_out), push_field_error MqttUri InvalidUrl es)))"

definition validate_mqtt_client :: "form_slot \<Rightarrow> bytes option \<Rightarrow> field_errors \<Rightarrow> bytes option \<times> field_errors" where
  "validate_mqtt_client s out es =
     (if fs_duplicate s then (out, push_field_error MqttClient Duplicate es)
      else if \<not> fs_seen s \<or> fs_value s = [] then (out, es)
      else if fs_overflowed s \<or> validate_client_id (text_of (fs_value s)) \<noteq> Inr ()
      then (out, push_field_error MqttClient (TooLong MQTT_CLIENT_MAX_LEN) es)
      else if MQTT_CLIENT_MAX_LEN < length (fs_value s)
      then (out, push_field_error MqttClient (TooLong MQTT_CLIENT_MAX_LEN) es)
      else (Some (fs_value s), es))"

text \<open>The user name and the password, each copied when it fits.\<close>

definition auth_part :: "form_field \<Rightarrow> nat \<Rightarrow> form_slot \<Rightarrow> bytes option \<Rightarrow> field_errors \<Rightarrow> bytes option \<times> field_errors" where
  "auth_part f cap s out es =
     (if fs_overflowed s \<or> cap < length (fs_value s) then (out, push_field_error f (TooLong cap) es)
      else (Some (fs_value s), es))"

definition validate_mqtt_auth :: "form_slot \<Rightarrow> form_slot \<Rightarrow> bytes option \<Rightarrow> bytes option \<Rightarrow> field_errors \<Rightarrow>
  (bytes option \<times> bytes option) \<times> field_errors" where
  "validate_mqtt_auth user_slot pass_slot user_out pass_out es =
     (let es1 = (if fs_duplicate user_slot then push_field_error MqttUser Duplicate es else es);
          es2 = (if fs_duplicate pass_slot then push_field_error MqttPass Duplicate es1 else es1);
          has_user = (fs_seen user_slot \<and> fs_value user_slot \<noteq> []);
          has_pass = (fs_seen pass_slot \<and> fs_value pass_slot \<noteq> []) in
      if fs_duplicate user_slot \<or> fs_duplicate pass_slot then ((user_out, pass_out), es2)
      else
        let (user, es3) = (if has_user then auth_part MqttUser MQTT_USER_MAX_LEN user_slot user_out es2 else (user_out, es2)) in
        if has_pass \<and> \<not> has_user then ((user, pass_out), push_field_error MqttPass Missing es3)
        else
          let (pass, es4) = (if has_pass then auth_part MqttPass MQTT_PASS_MAX_LEN pass_slot pass_out es3 else (pass_out, es3))
          in ((user, pass), es4))"

definition validate_device_name :: "form_slot \<Rightarrow> bytes \<Rightarrow> field_errors \<Rightarrow> bytes \<times> field_errors" where
  "validate_device_name s out es =
     (if fs_duplicate s then (out, push_field_error DeviceName Duplicate es)
      else if \<not> fs_seen s then (out, push_field_error DeviceName Missing es)
      else if fs_value s = [] then (out, push_field_error DeviceName Empty es)
      else if fs_overflowed s \<or> DEVICE_NAME_MAX_LEN < length (fs_value s)
      then (out, push_field_error DeviceName (TooLong DEVICE_NAME_MAX_LEN) es)
      else (push_str DEVICE_NAME_MAX_LEN out (fs_value s), es))"

text \<open>The local variables that the loop over the fields fills.\<close>

record form_out =
  fo_ssid :: bytes
  fo_password :: bytes
  fo_url :: bytes
  fo_name :: bytes
  fo_dev_eui :: bytes
  fo_join_eui :: bytes
  fo_app_key :: bytes
  fo_host :: bytes
  fo_port :: u16
  fo_client :: "bytes option"
  fo_errors :: field_errors

definition no_outputs :: form_out where
  "no_outputs = \<lparr>fo_ssid = [], fo_password = [], fo_url = [], fo_name = [], fo_dev_eui = [], fo_join_eui = [],
     fo_app_key = [], fo_host = [], fo_port = 0, fo_client = None, fo_errors = []\<rparr>"

fun validate_field :: "schema_profile \<Rightarrow> form_field \<times> form_slot \<Rightarrow> form_out \<Rightarrow> form_out" where
  "validate_field profile (WifiSsid, s) r =
     (case validate_wifi_ssid s (fo_ssid r) (fo_errors r) of (v, es) \<Rightarrow> r\<lparr>fo_ssid := v, fo_errors := es\<rparr>)"
| "validate_field profile (WifiPassword, s) r =
     (case validate_wifi_password s (fo_password r) (fo_errors r) of (v, es) \<Rightarrow> r\<lparr>fo_password := v, fo_errors := es\<rparr>)"
| "validate_field profile (DevEui, s) r =
     (case validate_hex s DevEui EUI_HEX_LEN (fo_dev_eui r) (fo_errors r) of (v, es) \<Rightarrow> r\<lparr>fo_dev_eui := v, fo_errors := es\<rparr>)"
| "validate_field profile (JoinEui, s) r =
     (case validate_hex s JoinEui EUI_HEX_LEN (fo_join_eui r) (fo_errors r) of (v, es) \<Rightarrow> r\<lparr>fo_join_eui := v, fo_errors := es\<rparr>)"
| "validate_field profile (AppKey, s) r =
     (case validate_hex s AppKey APP_KEY_HEX_LEN (fo_app_key r) (fo_errors r) of (v, es) \<Rightarrow> r\<lparr>fo_app_key := v, fo_errors := es\<rparr>)"
| "validate_field profile (MqttUri, s) r =
     (case validate_mqtt_uri s (fo_host r) (fo_port r) (fo_errors r) of
        ((h, p), es) \<Rightarrow> r\<lparr>fo_host := h, fo_port := p, fo_errors := es\<rparr>)"
| "validate_field profile (MqttClient, s) r =
     (case validate_mqtt_client s (fo_client r) (fo_errors r) of (v, es) \<Rightarrow> r\<lparr>fo_client := v, fo_errors := es\<rparr>)"
| "validate_field profile (OtaUrl, s) r =
     (case validate_ota_url s (ota_url_required profile) (fo_url r) (fo_errors r) of
        (v, es) \<Rightarrow> r\<lparr>fo_url := v, fo_errors := es\<rparr>)"
| "validate_field profile (DeviceName, s) r =
     (case validate_device_name s (fo_name r) (fo_errors r) of (v, es) \<Rightarrow> r\<lparr>fo_name := v, fo_errors := es\<rparr>)"
| "validate_field profile (MqttUser, s) r = r"
| "validate_field profile (MqttPass, s) r = r"
| "validate_field profile (Form, s) r = r"

definition validate_mqtt_fields :: "form_slot list \<Rightarrow> form_out \<Rightarrow> mqtt_fields \<times> field_errors" where
  "validate_mqtt_fields slots r =
     (let user_idx = the (canonical_index WifiMqttDevice (form_name MqttUser));
          pass_idx = the (canonical_index WifiMqttDevice (form_name MqttPass)) in
      case validate_mqtt_auth (slots ! user_idx) (slots ! pass_idx) None None (fo_errors r) of
        ((user, pass), es) \<Rightarrow>
          (\<lparr>mq_host = fo_host r, mq_port = fo_port r, mq_username = user, mq_password = pass, mq_client_id = fo_client r\<rparr>, es))"

definition parse_form :: "bytes \<Rightarrow> schema_profile \<Rightarrow> field_errors + provisioning_config" where
  "parse_form body profile =
     (let a = foldl (handle_pair profile) form_start (split_on 0x26 body);
          r = fold (validate_field profile) (zip (profile_fields profile) (fa_slots a)) no_outputs;
          lora = (if profile = LorawanFieldDevice
                  then Some \<lparr>lf_dev_eui_hex = fo_dev_eui r, lf_join_eui_hex = fo_join_eui r, lf_app_key_hex = fo_app_key r\<rparr>
                  else None);
          (mqtt, es) = (if profile = WifiMqttDevice then map_prod Some id (validate_mqtt_fields (fa_slots a) r)
                        else (None, fo_errors r));
          errors = (case fa_form_error a of
              Some e \<Rightarrow> if length es < MAX_FIELD_ERRORS then es @ [(Form, e)] else es
            | None \<Rightarrow> es) in
      if errors = [] then
        Inr \<lparr>pc_wifi_ssid = fo_ssid r, pc_wifi_password = fo_password r, pc_ota_url = fo_url r, pc_device_name = fo_name r,
             pc_lora = lora, pc_mqtt = mqtt, pc_extras = fa_extras a\<rparr>
      else Inl errors)"

section \<open>Decoding\<close>

lemma percent_loop_valid:
  "percent_loop n acc s = Decoded d \<Longrightarrow> length acc \<le> n \<Longrightarrow> utf8_valid d \<and> length d \<le> n"
proof (induction n acc s rule: percent_loop.induct)
  case (1 n acc)
  then show ?case by (simp split: if_splits)
next
  case (2 n acc b rest)
  consider "b = 0x2B" | "b \<noteq> 0x2B" "b = 0x25" | "b \<noteq> 0x2B" "b \<noteq> 0x25" by blast
  then show ?case
  proof cases
    case 1
    then have "length acc < n" "percent_loop n (acc @ [0x20]) rest = Decoded d" using "2.prems" by (simp_all split: if_splits)
    with "2.IH"(1) [OF 1] show ?thesis by simp
  next
    case b: 2
    then obtain h l rest' hi lo where r: "rest = h # l # rest'" "hex_value h = Some hi" "hex_value l = Some lo" "length acc < n"
      "percent_loop n (acc @ [or (push_bit 4 hi) lo]) rest' = Decoded d"
      using "2.prems" by (simp split: if_splits list.splits option.splits)
    with "2.IH"(2) [OF b r(1) refl r(2,3)] show ?thesis by simp
  next
    case b: 3
    then have "length acc < n" "percent_loop n (acc @ [b]) rest = Decoded d" using "2.prems" by (simp_all split: if_splits)
    with "2.IH"(3) [OF b] show ?thesis by simp
  qed
qed

lemma percent_decode_valid: "percent_decode n s = Decoded d \<Longrightarrow> utf8_valid d \<and> length d \<le> n"
  using percent_loop_valid [of n "[]" s d] by (simp add: percent_decode_def)

text \<open>Text in front of an ASCII byte is text.\<close>

lemma utf8_before_ascii:
  assumes "utf8_valid (xs @ b # ys)" and "b < 0x80"
  shows "utf8_valid xs"
proof -
  have nc: "\<not> cont_byte b" "\<not> 0xA0 \<le> b" "\<not> 0x90 \<le> b" "\<not> 0x80 \<le> b"
    using assms(2) by (auto simp: cont_byte_def word_le_nat_alt word_less_nat_alt)
  show ?thesis
    using assms(1)
  proof (induction xs rule: length_induct)
    case (1 xs)
    show ?case
    proof (cases xs)
      case (Cons c cs)
      have ih: "utf8_valid (zs @ b # ys) \<Longrightarrow> utf8_valid zs" if "length zs \<le> length cs" for zs
        using 1(1) that Cons by simp
      have v: "utf8_valid (c # (cs @ b # ys))" using 1(2) Cons by simp
      consider "cs = []" | d where "cs = [d]" | d e where "cs = [d, e]" | d e f fs where "cs = d # e # f # fs"
        by (metis list.exhaust)
      then have "utf8_valid (c # cs)"
      proof cases
        case 1
        with v nc show ?thesis unfolding utf8_valid.simps(2) [of c] by (simp del: utf8_valid.simps(2) split: if_splits list.splits)
      next
        case 2
        with v nc ih [of cs] ih [of "[]"] show ?thesis
          unfolding utf8_valid.simps(2) [of c] by (simp del: utf8_valid.simps(2) split: if_splits list.splits)
      next
        case 3
        with v nc ih [of cs] ih [of "tl cs"] ih [of "[]"] show ?thesis
          unfolding utf8_valid.simps(2) [of c]
          by (auto simp: word_le_nat_alt word_less_nat_alt simp del: utf8_valid.simps(2) split: if_splits)
      next
        case 4
        with v nc ih [of cs] ih [of "tl cs"] ih [of "tl (tl cs)"] ih [of "tl (tl (tl cs))"] show ?thesis
          unfolding utf8_valid.simps(2) [of c]
          by (auto simp: word_le_nat_alt word_less_nat_alt simp del: utf8_valid.simps(2) split: if_splits)
      qed
      with Cons show ?thesis by simp
    qed simp
  qed
qed

lemma utf8_after_ascii: "b < 0x80 \<Longrightarrow> utf8_valid (b # xs) = utf8_valid xs"
  by simp

section \<open>Accumulation\<close>

definition slot_ok :: "form_slot \<Rightarrow> bool" where
  "slot_ok s \<longleftrightarrow> utf8_valid (fs_value s) \<and> (\<not> fs_seen s \<longrightarrow> fs_value s = [])"

definition free_key :: "bytes \<Rightarrow> bool" where
  "free_key key \<longleftrightarrow> take 1 key \<noteq> [0x5F] \<and>
     \<not> list_ex (\<lambda>f. form_name f = key) (profile_fields LorawanFieldDevice @ profile_fields WifiMqttDevice)"

definition extras_ok :: "extra_field list \<Rightarrow> bool" where
  "extras_ok es \<longleftrightarrow> list_all extra_ok es \<and> list_all (\<lambda>e. free_key (ex_key e)) es \<and> length es \<le> EXTRA_FIELDS_MAX \<and>
     distinct (map ex_key es)"

definition acc_ok :: "form_acc \<Rightarrow> bool" where
  "acc_ok a \<longleftrightarrow> length (fa_slots a) = MAX_CANONICAL_FIELDS \<and> list_all slot_ok (fa_slots a) \<and> extras_ok (fa_extras a)"

lemma canonical_index_less: "canonical_index p key = Some i \<Longrightarrow> i < 8"
  using position_Some [of "\<lambda>f. form_name f = key" "profile_fields p" i]
  by (cases p) (auto simp: canonical_index_def)

lemma not_canonical_free:
  "canonical_index p key = None \<Longrightarrow> \<not> is_cross_profile p key \<Longrightarrow> take 1 key \<noteq> [0x5F] \<Longrightarrow> free_key key"
  by (cases p) (auto simp: canonical_index_def is_cross_profile_def free_key_def position_None list_ex_iff
      simp del: form_name.simps profile_fields.simps)

lemma acc_ok_start: "acc_ok form_start"
  by (simp add: acc_ok_def form_start_def slot_ok_def extras_ok_def list_all_iff)

lemma set_form_error_simps [simp]:
  "fa_slots (set_form_error e a) = fa_slots a" "fa_extras (set_form_error e a) = fa_extras a"
  by (simp_all add: set_form_error_def)

lemma acc_ok_error [simp]: "acc_ok (set_form_error e a) = acc_ok a"
  by (simp add: acc_ok_def)

lemma acc_ok_place:
  assumes "acc_ok a" and "pred_option (\<lambda>v. utf8_valid v \<and> length v \<le> 160) val" and "utf8_valid key" and "take 1 key \<noteq> [0x5F]"
  shows "acc_ok (place_value p key val a)"
proof (cases "canonical_index p key")
  case (Some i)
  have "i < length (fa_slots a)" using canonical_index_less [OF Some] assms(1) by (simp add: acc_ok_def MAX_CANONICAL_FIELDS_def)
  then have "slot_ok (fa_slots a ! i)" using assms(1) by (auto simp: acc_ok_def list_all_iff)
  then have "slot_ok (fill_slot val (fa_slots a ! i))"
    using assms(2) by (cases val) (auto simp: slot_ok_def fill_slot_def push_str_def)
  with assms(1) show ?thesis
    by (auto simp: Some place_value_def acc_ok_def list_all_iff dest!: subsetD [OF set_update_subset_insert])
next
  case None
  show ?thesis
  proof (cases "is_cross_profile p key")
    case False
    have free: "free_key key" by (rule not_canonical_free [OF None False assms(4)])
    show ?thesis
      using assms free None False
      by (auto simp: place_value_def insert_extra_def acc_ok_def extras_ok_def extra_ok_def text_ok_def list_all_iff list_ex_iff
          split: option.splits simp del: utf8_valid.simps)
  qed (simp add: None place_value_def assms(1))
qed

lemma acc_ok_pair: "acc_ok a \<Longrightarrow> acc_ok (handle_pair p a pair)"
  by (auto simp: handle_pair_def Let_def VALUE_DECODE_MAX_def split: prod.splits decoded.splits dest!: percent_decode_valid
      intro!: acc_ok_place simp del: utf8_valid.simps)

lemma acc_ok_form: "acc_ok (foldl (handle_pair p) form_start pairs)"
  by (induction pairs rule: rev_induct) (simp_all add: acc_ok_start acc_ok_pair)

section \<open>Validation\<close>

text \<open>When a validator reports nothing, and what it then delivers.\<close>

definition single :: "form_slot \<Rightarrow> bool" where
  "single s \<longleftrightarrow> \<not> fs_duplicate s \<and> fs_seen s \<and> \<not> fs_overflowed s"

fun accepts :: "schema_profile \<Rightarrow> form_field \<Rightarrow> form_slot \<Rightarrow> bool" where
  "accepts p WifiSsid s = (single s \<and> fs_value s \<noteq> [] \<and> length (fs_value s) \<le> 32)"
| "accepts p WifiPassword s = (single s \<and> (fs_value s = [] \<or> 8 \<le> length (fs_value s)) \<and> length (fs_value s) \<le> 64)"
| "accepts p DevEui s = (single s \<and> length (fs_value s) = 16 \<and> list_all is_ascii_hexdigit (fs_value s))"
| "accepts p JoinEui s = (single s \<and> length (fs_value s) = 16 \<and> list_all is_ascii_hexdigit (fs_value s))"
| "accepts p AppKey s = (single s \<and> length (fs_value s) = 32 \<and> list_all is_ascii_hexdigit (fs_value s))"
| "accepts p MqttUri s = (single s \<and> fs_value s \<noteq> [] \<and>
     (case parse_mqtt_uri (fs_value s) of Some (h, _) \<Rightarrow> length h \<le> 64 | None \<Rightarrow> False))"
| "accepts p MqttClient s = (\<not> fs_duplicate s \<and> (\<not> fs_seen s \<or> fs_value s = [] \<or> \<not> fs_overflowed s \<and> length (fs_value s) \<le> 23))"
| "accepts p OtaUrl s = (\<not> fs_duplicate s \<and> (if fs_seen s
     then \<not> fs_overflowed s \<and> (if fs_value s = [] then \<not> ota_url_required p else length (fs_value s) \<le> 128 \<and> is_valid_ota_url (fs_value s))
     else \<not> ota_url_required p))"
| "accepts p DeviceName s = (single s \<and> fs_value s \<noteq> [] \<and> length (fs_value s) \<le> 24)"
| "accepts p MqttUser s = True"
| "accepts p MqttPass s = True"
| "accepts p Form s = True"

fun deliver :: "form_field \<Rightarrow> form_slot \<Rightarrow> form_out \<Rightarrow> form_out" where
  "deliver WifiSsid s r = r\<lparr>fo_ssid := fs_value s\<rparr>"
| "deliver WifiPassword s r = r\<lparr>fo_password := fs_value s\<rparr>"
| "deliver DevEui s r = r\<lparr>fo_dev_eui := fs_value s\<rparr>"
| "deliver JoinEui s r = r\<lparr>fo_join_eui := fs_value s\<rparr>"
| "deliver AppKey s r = r\<lparr>fo_app_key := fs_value s\<rparr>"
| "deliver MqttUri s r = r\<lparr>fo_host := fst (the (parse_mqtt_uri (fs_value s))), fo_port := snd (the (parse_mqtt_uri (fs_value s)))\<rparr>"
| "deliver MqttClient s r = (if fs_seen s \<and> fs_value s \<noteq> [] then r\<lparr>fo_client := Some (fs_value s)\<rparr> else r)"
| "deliver OtaUrl s r = (if fs_seen s then r\<lparr>fo_url := fs_value s\<rparr> else r)"
| "deliver DeviceName s r = r\<lparr>fo_name := fs_value s\<rparr>"
| "deliver MqttUser s r = r"
| "deliver MqttPass s r = r"
| "deliver Form s r = r"

fun fresh :: "form_field \<Rightarrow> form_out \<Rightarrow> bool" where
  "fresh WifiSsid r = (fo_ssid r = [])"
| "fresh WifiPassword r = (fo_password r = [])"
| "fresh DevEui r = (fo_dev_eui r = [])"
| "fresh JoinEui r = (fo_join_eui r = [])"
| "fresh AppKey r = (fo_app_key r = [])"
| "fresh MqttUri r = (fo_host r = [])"
| "fresh MqttClient r = True"
| "fresh OtaUrl r = (fo_url r = [])"
| "fresh DeviceName r = (fo_name r = [])"
| "fresh MqttUser r = True"
| "fresh MqttPass r = True"
| "fresh Form r = True"

lemma push_field_error_nonempty [simp]: "push_field_error f e es \<noteq> []"
  by (auto simp: push_field_error_def MAX_FIELD_ERRORS_def)

lemmas validators = validate_wifi_ssid_def validate_wifi_password_def validate_hex_def validate_mqtt_uri_def validate_mqtt_client_def
  validate_ota_url_def validate_device_name_def validate_ssid_def validate_password_def validate_client_id_def CLIENT_ID_MAX_LEN_def
  AP_PASSWORD_MIN_LEN_def EUI_HEX_LEN_def APP_KEY_HEX_LEN_def field_caps single_def

lemma length_text_of [simp]: "length (text_of bs) = length bs"
  by (simp add: text_of_def)

lemma validate_field_errors:
  "fo_errors (validate_field p (f, s) r) = [] \<longleftrightarrow> fo_errors r = [] \<and> accepts p f s"
proof -
  have [simp]: "text_of (fs_value s) = [] \<longleftrightarrow> fs_value s = []" by (simp add: text_of_def)
  show ?thesis
    by (cases f; cases "fs_duplicate s"; cases "fs_seen s"; cases "fs_overflowed s"; simp add: validators not_le split: option.split prod.split)
qed

lemma validators_deliver:
  "accepts p WifiSsid s \<Longrightarrow> validate_wifi_ssid s [] es = (fs_value s, es)"
  "accepts p WifiPassword s \<Longrightarrow> validate_wifi_password s [] es = (fs_value s, es)"
  "single s \<Longrightarrow> fs_value s \<noteq> [] \<Longrightarrow> length (fs_value s) = n \<Longrightarrow> list_all is_ascii_hexdigit (fs_value s) \<Longrightarrow>
     validate_hex s f n [] es = (fs_value s, es)"
  "accepts p MqttUri s \<Longrightarrow> validate_mqtt_uri s [] q es = (the (parse_mqtt_uri (fs_value s)), es)"
  "accepts p MqttClient s \<Longrightarrow> validate_mqtt_client s c es = (if fs_seen s \<and> fs_value s \<noteq> [] then Some (fs_value s) else c, es)"
  "accepts p OtaUrl s \<Longrightarrow> validate_ota_url s (ota_url_required p) [] es = (if fs_seen s then fs_value s else [], es)"
  "accepts p DeviceName s \<Longrightarrow> validate_device_name s [] es = (fs_value s, es)"
  by (auto simp: validators push_str_def text_of_def split: option.splits if_splits)

lemma validate_field_delivers:
  assumes "accepts p f s" and "fresh f r"
  shows "validate_field p (f, s) r = deliver f s r"
proof -
  have hex: "fs_value s \<noteq> []" if "f = DevEui \<or> f = JoinEui \<or> f = AppKey" using assms(1) that by auto
  show ?thesis
    using assms hex by (cases f) (simp_all add: validators_deliver EUI_HEX_LEN_def APP_KEY_HEX_LEN_def split: prod.split)
qed

text \<open>The fold over the distinct fields of a profile.\<close>

lemma fresh_deliver: "f \<noteq> g \<Longrightarrow> fresh g (deliver f s r) = fresh g r"
  by (cases f; cases g) auto

lemma validate_fields_errors:
  "fo_errors (fold (validate_field p) fss r) = [] \<longleftrightarrow> fo_errors r = [] \<and> list_all (\<lambda>(f, s). accepts p f s) fss"
proof (induction fss arbitrary: r)
  case (Cons x fss)
  then show ?case by (cases x) (simp add: validate_field_errors)
qed simp

lemma validate_fields_deliver:
  assumes "list_all (\<lambda>(f, s). accepts p f s) fss" and "distinct (map fst fss)" and "\<forall>f \<in> fst ` set fss. fresh f r"
  shows "fold (validate_field p) fss r = fold (\<lambda>(f, s). deliver f s) fss r"
  using assms
proof (induction fss arbitrary: r)
  case (Cons x fss)
  obtain f s where x: "x = (f, s)" by fastforce
  have "validate_field p (f, s) r = deliver f s r" using Cons.prems x by (intro validate_field_delivers) simp_all
  moreover have "\<forall>g \<in> fst ` set fss. fresh g (deliver f s r)"
    using Cons.prems x fresh_deliver [of f] by (auto simp: image_iff)
  ultimately show ?case using Cons x by simp
qed simp

definition auth_accepts :: "form_slot \<Rightarrow> form_slot \<Rightarrow> bool" where
  "auth_accepts u q \<longleftrightarrow> \<not> fs_duplicate u \<and> \<not> fs_duplicate q \<and>
     (fs_seen u \<and> fs_value u \<noteq> [] \<longrightarrow> \<not> fs_overflowed u \<and> length (fs_value u) \<le> 64) \<and>
     (fs_seen q \<and> fs_value q \<noteq> [] \<longrightarrow> fs_seen u \<and> fs_value u \<noteq> [] \<and> \<not> fs_overflowed q \<and> length (fs_value q) \<le> 64)"

definition given_value :: "form_slot \<Rightarrow> bytes option" where
  "given_value s = (if fs_seen s \<and> fs_value s \<noteq> [] then Some (fs_value s) else None)"

lemma validate_mqtt_auth_errors:
  "snd (validate_mqtt_auth u q None None es) = [] \<longleftrightarrow> es = [] \<and> auth_accepts u q"
  by (auto simp: validate_mqtt_auth_def auth_part_def auth_accepts_def field_caps Let_def split: prod.splits if_splits)

lemma validate_mqtt_auth_delivers:
  "auth_accepts u q \<Longrightarrow> fst (validate_mqtt_auth u q None None es) = (given_value u, given_value q)"
  by (auto simp: validate_mqtt_auth_def auth_part_def auth_accepts_def given_value_def field_caps Let_def split: prod.splits if_splits)

section \<open>The parser as a whole\<close>

text \<open>What a form without an error delivers, slot by slot.\<close>

definition seen_value :: "form_slot \<Rightarrow> bytes" where
  "seen_value s = (if fs_seen s then fs_value s else [])"

definition form_accepted :: "schema_profile \<Rightarrow> form_acc \<Rightarrow> bool" where
  "form_accepted p a \<longleftrightarrow> fa_form_error a = None \<and>
     list_all (\<lambda>(f, s). accepts p f s) (zip (profile_fields p) (fa_slots a)) \<and>
     (p = WifiMqttDevice \<longrightarrow> auth_accepts (fa_slots a ! 3) (fa_slots a ! 4))"

fun form_result :: "schema_profile \<Rightarrow> form_slot list \<Rightarrow> extra_field list \<Rightarrow> provisioning_config" where
  "form_result LorawanFieldDevice ss extras =
     \<lparr>pc_wifi_ssid = fs_value (ss ! 0), pc_wifi_password = fs_value (ss ! 1), pc_ota_url = seen_value (ss ! 5),
      pc_device_name = fs_value (ss ! 6),
      pc_lora = Some \<lparr>lf_dev_eui_hex = fs_value (ss ! 2), lf_join_eui_hex = fs_value (ss ! 3), lf_app_key_hex = fs_value (ss ! 4)\<rparr>,
      pc_mqtt = None, pc_extras = extras\<rparr>"
| "form_result WifiMqttDevice ss extras =
     \<lparr>pc_wifi_ssid = fs_value (ss ! 0), pc_wifi_password = fs_value (ss ! 1), pc_ota_url = seen_value (ss ! 6),
      pc_device_name = fs_value (ss ! 7), pc_lora = None,
      pc_mqtt = Some \<lparr>mq_host = fst (the (parse_mqtt_uri (fs_value (ss ! 2)))), mq_port = snd (the (parse_mqtt_uri (fs_value (ss ! 2)))),
        mq_username = given_value (ss ! 3), mq_password = given_value (ss ! 4), mq_client_id = given_value (ss ! 5)\<rparr>,
      pc_extras = extras\<rparr>"

lemma auth_slots: "canonical_index WifiMqttDevice (ascii ''mqtt_user'') = Some 3" "canonical_index WifiMqttDevice (ascii ''mqtt_pass'') = Some 4"
  by (simp_all add: canonical_index_def ascii_def)

lemma fields_distinct: "distinct (profile_fields p)"
  by (cases p) simp_all

lemma parse_form_iff:
  fixes body :: bytes and p :: schema_profile
  defines "a \<equiv> foldl (handle_pair p) form_start (split_on 0x26 body)"
  shows "parse_form body p = Inr c \<longleftrightarrow> form_accepted p a \<and> c = form_result p (fa_slots a) (fa_extras a)"
proof -
  have ok: "acc_ok a" unfolding a_def by (rule acc_ok_form)
  let ?fss = "zip (profile_fields p) (fa_slots a)"
  define r where "r = fold (validate_field p) ?fss no_outputs"
  have fss: "distinct (map fst ?fss)" "\<forall>f \<in> fst ` set ?fss. fresh f no_outputs"
  proof -
    show "distinct (map fst ?fss)" by (simp add: map_fst_zip_take fields_distinct)
    show "\<forall>f \<in> fst ` set ?fss. fresh f no_outputs"
      by (intro ballI) (case_tac f; simp add: no_outputs_def)
  qed
  have err: "fo_errors r = [] \<longleftrightarrow> list_all (\<lambda>(f, s). accepts p f s) ?fss"
    by (simp add: r_def validate_fields_errors) (simp add: no_outputs_def)
  have out: "r = fold (\<lambda>(f, s). deliver f s) ?fss no_outputs" if "fo_errors r = []"
    unfolding r_def using that err fss by (intro validate_fields_deliver) simp_all
  have "length (fa_slots a) = 8" using ok by (simp add: acc_ok_def MAX_CANONICAL_FIELDS_def)
  then obtain s0 s1 s2 s3 s4 s5 s6 s7 where slots: "fa_slots a = [s0, s1, s2, s3, s4, s5, s6, s7]"
    by (auto simp: numeral_eq_Suc length_Suc_conv)
  let ?lora = "if p = LorawanFieldDevice
      then Some \<lparr>lf_dev_eui_hex = fo_dev_eui r, lf_join_eui_hex = fo_join_eui r, lf_app_key_hex = fo_app_key r\<rparr> else None"
  let ?me = "if p = WifiMqttDevice then map_prod Some id (validate_mqtt_fields (fa_slots a) r) else (None, fo_errors r)"
  have form: "parse_form body p = (case ?me of (mqtt, es) \<Rightarrow>
      let errors = (case fa_form_error a of
              Some e \<Rightarrow> if length es < MAX_FIELD_ERRORS then es @ [(Form, e)] else es
            | None \<Rightarrow> es) in
      if errors = [] then
        Inr \<lparr>pc_wifi_ssid = fo_ssid r, pc_wifi_password = fo_password r, pc_ota_url = fo_url r, pc_device_name = fo_name r,
             pc_lora = ?lora, pc_mqtt = mqtt, pc_extras = fa_extras a\<rparr>
      else Inl errors)"
    by (simp only: parse_form_def Let_def a_def r_def)
  show ?thesis
  proof (cases p)
    case LorawanFieldDevice
    have "parse_form body p = (if fa_form_error a = None \<and> fo_errors r = [] then
        Inr \<lparr>pc_wifi_ssid = fo_ssid r, pc_wifi_password = fo_password r, pc_ota_url = fo_url r, pc_device_name = fo_name r,
          pc_lora = Some \<lparr>lf_dev_eui_hex = fo_dev_eui r, lf_join_eui_hex = fo_join_eui r, lf_app_key_hex = fo_app_key r\<rparr>,
          pc_mqtt = None, pc_extras = fa_extras a\<rparr>
        else Inl (case fa_form_error a of Some e \<Rightarrow> if length (fo_errors r) < MAX_FIELD_ERRORS then fo_errors r @ [(Form, e)] else fo_errors r
            | None \<Rightarrow> fo_errors r))"
      unfolding form by (auto simp: LorawanFieldDevice MAX_FIELD_ERRORS_def Let_def split: option.split)
    with err out slots LorawanFieldDevice show ?thesis
      by (auto simp: form_accepted_def seen_value_def no_outputs_def)
  next
    case WifiMqttDevice
    let ?m = "validate_mqtt_fields (fa_slots a) r"
    have m: "snd ?m = [] \<longleftrightarrow> fo_errors r = [] \<and> auth_accepts s3 s4"
      "auth_accepts s3 s4 \<Longrightarrow> fst ?m = \<lparr>mq_host = fo_host r, mq_port = fo_port r, mq_username = given_value s3,
         mq_password = given_value s4, mq_client_id = fo_client r\<rparr>"
      using validate_mqtt_auth_errors [of s3 s4 "fo_errors r"] validate_mqtt_auth_delivers [of s3 s4 "fo_errors r"]
      by (auto simp: validate_mqtt_fields_def Let_def auth_slots slots split: prod.splits)
    have eq: "parse_form body p = (if fa_form_error a = None \<and> snd ?m = [] then
        Inr \<lparr>pc_wifi_ssid = fo_ssid r, pc_wifi_password = fo_password r, pc_ota_url = fo_url r, pc_device_name = fo_name r,
          pc_lora = None, pc_mqtt = Some (fst ?m), pc_extras = fa_extras a\<rparr>
        else Inl (case fa_form_error a of Some e \<Rightarrow> if length (snd ?m) < MAX_FIELD_ERRORS then snd ?m @ [(Form, e)] else snd ?m
            | None \<Rightarrow> snd ?m))"
      unfolding form by (cases ?m) (auto simp: WifiMqttDevice MAX_FIELD_ERRORS_def Let_def split: option.split)
    have acc: "form_accepted p a \<longleftrightarrow> fa_form_error a = None \<and> snd ?m = []"
      using m(1) err by (simp add: form_accepted_def WifiMqttDevice slots)
    have "\<lparr>pc_wifi_ssid = fo_ssid r, pc_wifi_password = fo_password r, pc_ota_url = fo_url r, pc_device_name = fo_name r,
          pc_lora = None, pc_mqtt = Some (fst ?m), pc_extras = fa_extras a\<rparr> = form_result p (fa_slots a) (fa_extras a)"
      if "snd ?m = []"
    proof -
      have r: "fo_errors r = []" "auth_accepts s3 s4" using m(1) that by simp_all
      have "fo_ssid r = fs_value s0" "fo_password r = fs_value s1" "fo_url r = seen_value s6" "fo_name r = fs_value s7"
        "fo_host r = fst (the (parse_mqtt_uri (fs_value s2)))" "fo_port r = snd (the (parse_mqtt_uri (fs_value s2)))"
        "fo_client r = given_value s5"
        unfolding out [OF r(1)] by (simp_all add: WifiMqttDevice slots seen_value_def no_outputs_def given_value_def)
      then show ?thesis
        unfolding m(2) [OF r(2)] by (simp add: WifiMqttDevice slots)
    qed
    with eq acc show ?thesis by auto
  qed
qed

section \<open>What a form can deliver\<close>

text \<open>Hexadecimal digits and update URLs, described without the predicates of the code.\<close>

definition hex_digit :: "u8 \<Rightarrow> nat \<Rightarrow> bool" where
  "hex_digit b n \<longleftrightarrow> n < 16 \<and> (b = ascii ''0123456789abcdef'' ! n \<or> b = ascii ''0123456789ABCDEF'' ! n)"

definition hex_text :: "nat \<Rightarrow> bytes \<Rightarrow> bool" where
  "hex_text n b \<longleftrightarrow> length b = n \<and> (\<forall>x \<in> set b. \<exists>d. hex_digit x d)"

definition update_url :: "bytes \<Rightarrow> bool" where
  "update_url url \<longleftrightarrow> (\<exists>host rest. url = ascii ''http://'' @ host @ rest \<and> host \<noteq> [] \<and> set host \<inter> set (ascii ''/?#'') = {} \<and>
     (rest = [] \<or> hd rest \<in> set (ascii ''/?#'')))"

lemma hex_digit_code:
  "hex_digit b n \<longleftrightarrow> n < 16 \<and> (if n < 10 then unat b = 48 + n else unat b = 87 + n \<or> unat b = 55 + n)"
proof -
  have "list_all (\<lambda>k. ascii ''0123456789abcdef'' ! k = of_nat (if k < 10 then 48 + k else 87 + k) \<and>
      ascii ''0123456789ABCDEF'' ! k = of_nat (if k < 10 then 48 + k else 55 + k)) [0..<16]"
    by code_simp
  then have "n < 16 \<Longrightarrow> ascii ''0123456789abcdef'' ! n = of_nat (if n < 10 then 48 + n else 87 + n) \<and>
      ascii ''0123456789ABCDEF'' ! n = of_nat (if n < 10 then 48 + n else 55 + n)"
    by (simp only: list_all_iff set_upt atLeastLessThan_iff ball_simps) simp
  moreover have "b = of_nat k \<longleftrightarrow> unat b = k" if "k < 256" for k
    using that by (auto simp: unat_of_nat)
  ultimately show ?thesis by (auto simp: hex_digit_def simp del: of_nat_add)
qed

lemma hex_digit_value: "hex_digit b n \<longleftrightarrow> n < 16 \<and> hex_value b = Some (of_nat n)"
proof -
  have eq: "x = of_nat n \<longleftrightarrow> unat x = n" if "n < 16" for x :: u8
    using that by (auto simp: unat_of_nat)
  have "unat (b - 0x61 + 10) = unat b - 87" if "0x61 \<le> unat b"
    using that unat_less_pow [of b] by (simp add: unat_word_ariths unat_sub word_le_nat_alt)
  moreover have "unat (b - 0x41 + 10) = unat b - 55" if "0x41 \<le> unat b"
    using that unat_less_pow [of b] by (simp add: unat_word_ariths unat_sub word_le_nat_alt)
  ultimately show ?thesis
    by (auto simp: hex_digit_code hex_value_def word_le_nat_alt unat_sub eq)
qed

lemma hexdigit_iff: "is_ascii_hexdigit b \<longleftrightarrow> (\<exists>d. hex_digit b d)"
proof
  assume "is_ascii_hexdigit b"
  then obtain x where x: "hex_value b = Some x" by (auto simp: is_ascii_hexdigit_def)
  then have "unat x < 16" by (auto simp: hex_value_def word_le_nat_alt unat_sub unat_word_ariths split: if_splits)
  with x have "hex_digit b (unat x)" by (simp add: hex_digit_value)
  then show "\<exists>d. hex_digit b d" ..
qed (auto simp: is_ascii_hexdigit_def hex_digit_value)

lemma hex_text_code: "hex_text n b \<longleftrightarrow> length b = n \<and> list_all is_ascii_hexdigit b"
  by (simp add: hex_text_def list_all_iff hexdigit_iff)

lemma hex_byte:
  assumes "m < 16" and "n < 16"
  shows "or (push_bit 4 (of_nat m)) (of_nat n) = (of_nat (16 * m + n) :: u8)"
proof -
  have low: "\<not> bit (of_nat n :: u8) k" if "4 \<le> k" for k
  proof -
    have "n < 2 ^ k" using assms(2) power_increasing [OF that, of "2 :: nat"] by simp
    then show ?thesis by (simp add: semiring_bits_class.bit_of_nat_iff bit_iff_odd [of n])
  qed
  have "push_bit 4 (of_nat m) + of_nat n = or (push_bit 4 (of_nat m)) (of_nat n :: u8)"
    by (rule disjunctive_add) (use low in \<open>auto simp: bit_push_bit_iff not_le\<close>)
  then show ?thesis by (simp add: push_bit_eq_mult ac_simps)
qed

lemma strip_prefix_iff: "strip_prefix q s = Some r \<longleftrightarrow> s = q @ r"
  by (auto simp: strip_prefix_def) (metis append_take_drop_id)

lemma update_url_iff [simp]: "update_url url = is_valid_ota_url url"
proof
  let ?stop = "\<lambda>b. b \<notin> set (ascii ''/?#'')"
  show "update_url url" if "is_valid_ota_url url"
  proof -
    from that obtain r where r: "url = ascii ''http://'' @ r" "takeWhile ?stop r \<noteq> []"
      by (auto simp: is_valid_ota_url_def strip_prefix_iff split: option.splits)
    have "url = ascii ''http://'' @ takeWhile ?stop r @ dropWhile ?stop r" by (simp add: r(1))
    moreover have "set (takeWhile ?stop r) \<inter> set (ascii ''/?#'') = {}" by (auto dest: set_takeWhileD)
    moreover have "dropWhile ?stop r = [] \<or> hd (dropWhile ?stop r) \<in> set (ascii ''/?#'')" using hd_dropWhile [of ?stop r] by blast
    ultimately show ?thesis unfolding update_url_def using r(2) by blast
  qed
  show "is_valid_ota_url url" if u: "update_url url"
  proof -
    from u obtain host rest where h: "url = ascii ''http://'' @ host @ rest" "host \<noteq> []" "set host \<inter> set (ascii ''/?#'') = {}"
      by (auto simp: update_url_def)
    then have "takeWhile ?stop (host @ rest) \<noteq> []" by (cases host) auto
    moreover have "strip_prefix (ascii ''http://'') url = Some (host @ rest)" by (simp only: strip_prefix_iff h(1))
    ultimately show ?thesis by (simp only: is_valid_ota_url_def option.case simp_thms)
  qed
qed

definition given_text :: "nat \<Rightarrow> bytes \<Rightarrow> bool" where
  "given_text n b \<longleftrightarrow> b \<noteq> [] \<and> text_ok n b"

definition mqtt_deliverable :: "mqtt_fields \<Rightarrow> bool" where
  "mqtt_deliverable q \<longleftrightarrow> given_text MQTT_HOST_MAX_LEN (mq_host q) \<and> mq_port q \<noteq> 0 \<and>
     pred_option (given_text MQTT_USER_MAX_LEN) (mq_username q) \<and> pred_option (given_text MQTT_PASS_MAX_LEN) (mq_password q) \<and>
     (mq_password q = None \<or> mq_username q \<noteq> None) \<and> pred_option (given_text MQTT_CLIENT_MAX_LEN) (mq_client_id q)"

definition deliverable :: "schema_profile \<Rightarrow> provisioning_config \<Rightarrow> bool" where
  "deliverable p c \<longleftrightarrow> given_text SSID_MAX_LEN (pc_wifi_ssid c) \<and>
     text_ok PASSWORD_MAX_LEN (pc_wifi_password c) \<and> (pc_wifi_password c = [] \<or> AP_PASSWORD_MIN_LEN \<le> length (pc_wifi_password c)) \<and>
     text_ok OTA_URL_MAX_LEN (pc_ota_url c) \<and> (update_url (pc_ota_url c) \<or> pc_ota_url c = [] \<and> p = WifiMqttDevice) \<and>
     given_text DEVICE_NAME_MAX_LEN (pc_device_name c) \<and> extras_ok (pc_extras c) \<and>
     (case p of
        LorawanFieldDevice \<Rightarrow> pc_mqtt c = None \<and> (case pc_lora c of
            Some l \<Rightarrow> hex_text 16 (lf_dev_eui_hex l) \<and> hex_text 16 (lf_join_eui_hex l) \<and> hex_text 32 (lf_app_key_hex l)
          | None \<Rightarrow> False)
      | WifiMqttDevice \<Rightarrow> pc_lora c = None \<and> (case pc_mqtt c of Some m \<Rightarrow> mqtt_deliverable m | None \<Rightarrow> False))"

lemma parse_mqtt_uri_result:
  assumes "parse_mqtt_uri uri = Some (h, q)" and "utf8_valid uri"
  shows "h \<noteq> []" and "q \<noteq> 0" and "utf8_valid h"
proof -
  obtain rest port where r: "uri = ascii ''mqtt://'' @ rest" "rest = h @ 0x3A # port" and hq: "h \<noteq> []" "q \<noteq> 0"
    using assms(1) by (auto simp: parse_mqtt_uri_def bind_eq_Some_conv strip_prefix_iff rsplit_once_iff split: if_splits)
  have "utf8_valid rest" using assms(2) unfolding r(1) by (simp add: ascii_def)
  then have "utf8_valid h" unfolding r(2) by (rule utf8_before_ascii) simp
  with hq show "h \<noteq> []" "q \<noteq> 0" "utf8_valid h" by simp_all
qed

lemma accepts_given:
  assumes "accepts p f s" and "slot_ok s"
  shows "f = WifiSsid \<Longrightarrow> given_text SSID_MAX_LEN (fs_value s)"
    and "f = WifiPassword \<Longrightarrow> text_ok PASSWORD_MAX_LEN (fs_value s) \<and> (fs_value s = [] \<or> AP_PASSWORD_MIN_LEN \<le> length (fs_value s))"
    and "f = DeviceName \<Longrightarrow> given_text DEVICE_NAME_MAX_LEN (fs_value s)"
    and "f = OtaUrl \<Longrightarrow> text_ok OTA_URL_MAX_LEN (seen_value s) \<and> (is_valid_ota_url (seen_value s) \<or> seen_value s = [] \<and> p = WifiMqttDevice)"
    and "f = DevEui \<or> f = JoinEui \<Longrightarrow> hex_text 16 (fs_value s)"
    and "f = AppKey \<Longrightarrow> hex_text 32 (fs_value s)"
    and "f = MqttClient \<Longrightarrow> pred_option (given_text MQTT_CLIENT_MAX_LEN) (given_value s)"
  using assms
  by (auto simp: given_text_def text_ok_def slot_ok_def field_caps hex_text_code seen_value_def given_value_def AP_PASSWORD_MIN_LEN_def
      ota_url_required_def split: if_splits schema_profile.splits simp del: utf8_valid.simps)

section \<open>Submissions\<close>

text \<open>The texts that encode a value, and the bodies that submit a configuration.\<close>

inductive encodes :: "bytes \<Rightarrow> bytes \<Rightarrow> bool" where
  empty: "encodes [] []"
| space: "encodes v s \<Longrightarrow> encodes (0x20 # v) (0x2B # s)"
| escape: "hex_digit h hi \<Longrightarrow> hex_digit l lo \<Longrightarrow> encodes v s \<Longrightarrow> encodes (of_nat (16 * hi + lo) # v) (0x25 # h # l # s)"
| plain: "b \<notin> {0x2B, 0x25, 0x26, 0x3D} \<Longrightarrow> encodes v s \<Longrightarrow> encodes (b # v) (b # s)"

fun join_with :: "u8 \<Rightarrow> bytes list \<Rightarrow> bytes" where
  "join_with c [] = []"
| "join_with c [q] = q"
| "join_with c (q # qs) = q @ c # join_with c qs"

definition encodes_pair :: "bytes \<times> bytes \<Rightarrow> bytes \<Rightarrow> bool" where
  "encodes_pair kv q \<longleftrightarrow> (\<exists>ek ev. encodes (fst kv) ek \<and> encodes (snd kv) ev \<and> q = ek @ 0x3D # ev)"

definition opt_text :: "bytes option \<Rightarrow> bytes" where
  "opt_text v = (case v of Some t \<Rightarrow> t | None \<Rightarrow> [])"

fun field_text :: "provisioning_config \<Rightarrow> form_field \<Rightarrow> bytes" where
  "field_text c WifiSsid = pc_wifi_ssid c"
| "field_text c WifiPassword = pc_wifi_password c"
| "field_text c DevEui = lf_dev_eui_hex (the (pc_lora c))"
| "field_text c JoinEui = lf_join_eui_hex (the (pc_lora c))"
| "field_text c AppKey = lf_app_key_hex (the (pc_lora c))"
| "field_text c MqttUri = ascii ''mqtt://'' @ mq_host (the (pc_mqtt c)) @ 0x3A # ascii (dec_digits (unat (mq_port (the (pc_mqtt c)))))"
| "field_text c MqttUser = opt_text (mq_username (the (pc_mqtt c)))"
| "field_text c MqttPass = opt_text (mq_password (the (pc_mqtt c)))"
| "field_text c MqttClient = opt_text (mq_client_id (the (pc_mqtt c)))"
| "field_text c OtaUrl = pc_ota_url c"
| "field_text c DeviceName = pc_device_name c"
| "field_text c Form = []"

definition submission :: "schema_profile \<Rightarrow> provisioning_config \<Rightarrow> (bytes \<times> bytes) list" where
  "submission p c = map (\<lambda>f. (form_name f, field_text c f)) (profile_fields p) @ map (\<lambda>e. (ex_key e, ex_value e)) (pc_extras c)"

definition submits :: "schema_profile \<Rightarrow> provisioning_config \<Rightarrow> bytes \<Rightarrow> bool" where
  "submits p c body \<longleftrightarrow> (\<exists>qs. list_all2 encodes_pair (submission p c) qs \<and> body = join_with 0x26 qs)"

lemma encodes_decodes:
  "encodes v s \<Longrightarrow> length acc + length v \<le> n \<Longrightarrow>
    percent_loop n acc s = (if utf8_valid (acc @ v) then Decoded (acc @ v) else Malformed)"
  by (induction v s arbitrary: acc rule: encodes.induct) (simp_all add: hex_digit_value hex_byte del: utf8_valid.simps of_nat_add of_nat_mult)

lemma encodes_no_separator: "encodes v s \<Longrightarrow> 0x26 \<notin> set s \<and> 0x3D \<notin> set s"
  by (induction v s rule: encodes.induct) (auto simp: hex_digit_value hex_value_def split: if_splits)

lemma split_on_piece: "c \<notin> set q \<Longrightarrow> split_on c q = [q]"
  by (induction q) auto

lemma split_on_sep: "c \<notin> set q \<Longrightarrow> split_on c (q @ c # rest) = q # split_on c rest"
  by (induction q) auto

lemma split_on_join: "qs \<noteq> [] \<Longrightarrow> \<forall>q \<in> set qs. c \<notin> set q \<Longrightarrow> split_on c (join_with c qs) = qs"
  by (induction c qs rule: join_with.induct) (simp_all add: split_on_piece split_on_sep)

definition sendable :: "bytes \<times> bytes \<Rightarrow> bool" where
  "sendable kv \<longleftrightarrow> text_ok 16 (fst kv) \<and> take 1 (fst kv) \<noteq> [0x5F] \<and> text_ok 160 (snd kv)"

lemma handle_encoded_pair:
  assumes "encodes_pair kv q" and "sendable kv"
  shows "handle_pair p a q = place_value p (fst kv) (Some (snd kv)) a"
proof -
  obtain ek ev where e: "encodes (fst kv) ek" "encodes (snd kv) ev" "q = ek @ 0x3D # ev"
    using assms(1) by (auto simp: encodes_pair_def)
  have "split_once 0x3D q = Some (ek, ev)" using e(1,3) encodes_no_separator by (simp add: split_once_iff)
  moreover have "percent_decode KEY_DECODE_MAX ek = Decoded (fst kv)" "percent_decode VALUE_DECODE_MAX ev = Decoded (snd kv)"
    using encodes_decodes [OF e(1), of "[]" 16] encodes_decodes [OF e(2), of "[]" 160] assms(2)
    by (simp_all add: percent_decode_def sendable_def text_ok_def KEY_DECODE_MAX_def VALUE_DECODE_MAX_def)
  ultimately show ?thesis using assms(2) e(3) by (simp add: handle_pair_def sendable_def)
qed

lemma parse_submission:
  assumes "list_all2 encodes_pair kvs qs" and "list_all sendable kvs" and "kvs \<noteq> []"
  shows "foldl (handle_pair p) a (split_on 0x26 (join_with 0x26 qs)) = foldl (\<lambda>a (k, v). place_value p k (Some v) a) a kvs"
proof -
  have no: "0x26 \<notin> set q" if "encodes_pair kv q" for kv q
    using that encodes_no_separator by (auto simp: encodes_pair_def)
  have "qs \<noteq> []" using assms(1,3) by auto
  moreover have "\<forall>q \<in> set qs. 0x26 \<notin> set q"
    using assms(1) no by (metis in_set_conv_nth list_all2_conv_all_nth)
  ultimately have "split_on 0x26 (join_with 0x26 qs) = qs" by (rule split_on_join)
  moreover have "foldl (handle_pair p) a qs = foldl (\<lambda>a (k, v). place_value p k (Some v) a) a kvs" for a
    using assms(1,2) by (induction kvs qs arbitrary: a rule: list_all2_induct) (auto simp: handle_encoded_pair)
  ultimately show ?thesis by simp
qed

lemma place_extras:
  assumes "extras_ok (fa_extras a @ es)"
  shows "foldl (\<lambda>a (k, v). place_value p k (Some v) a) a (map (\<lambda>e. (ex_key e, ex_value e)) es) = a\<lparr>fa_extras := fa_extras a @ es\<rparr>"
  using assms
proof (induction es arbitrary: a)
  case (Cons e es)
  have e: "extra_ok e" "free_key (ex_key e)" "ex_key e \<notin> ex_key ` set (fa_extras a)" "length (fa_extras a) < 8"
    using Cons.prems by (auto simp: extras_ok_def field_caps)
  have "canonical_index p (ex_key e) = None" "\<not> is_cross_profile p (ex_key e)"
    using e(2) by (cases p; simp add: canonical_index_def is_cross_profile_def free_key_def position_None list_ex_iff
        del: form_name.simps; fail)+
  then have "place_value p (ex_key e) (Some (ex_value e)) a = a\<lparr>fa_extras := fa_extras a @ [e]\<rparr>"
    using e by (cases e) (auto simp: place_value_def insert_extra_def extra_ok_def text_ok_def list_ex_iff field_caps)
  moreover have "extras_ok (fa_extras (a\<lparr>fa_extras := fa_extras a @ [e]\<rparr>) @ es)" using Cons.prems by simp
  ultimately show ?case using Cons.IH [of "a\<lparr>fa_extras := fa_extras a @ [e]\<rparr>"] by simp
qed simp

lemma utf8_append:
  assumes "utf8_valid xs" and "utf8_valid ys"
  shows "utf8_valid (xs @ ys)"
  using assms(1)
proof (induction xs rule: length_induct)
  case (1 xs)
  show ?case
  proof (cases xs)
    case (Cons c cs)
    have ih: "utf8_valid zs \<Longrightarrow> utf8_valid (zs @ ys)" if "length zs \<le> length cs" for zs
      using 1(1) that Cons by simp
    have v: "utf8_valid (c # cs)" using 1(2) Cons by simp
    have "utf8_valid (c # (cs @ ys))"
      using v ih [of cs] ih [of "tl cs"] ih [of "tl (tl cs)"] ih [of "tl (tl (tl cs))"]
      unfolding utf8_valid.simps(2) [of c]
      by (auto simp del: utf8_valid.simps(2) split: if_splits list.splits)
    with Cons show ?thesis by simp
  qed (simp add: assms(2))
qed

lemma utf8_ascii: "list_all (\<lambda>b. b < 0x80) xs \<Longrightarrow> utf8_valid xs"
  by (induction xs) simp_all

lemma hex_text_utf8: "hex_text n b \<Longrightarrow> utf8_valid b"
proof -
  have "is_ascii_hexdigit d \<Longrightarrow> d < 0x80" for d
    by (auto simp: is_ascii_hexdigit_def hex_value_def word_le_nat_alt word_less_nat_alt split: if_splits)
  then show "hex_text n b \<Longrightarrow> utf8_valid b"
    by (intro utf8_ascii) (auto simp: hex_text_code list_all_iff)
qed

lemma text_of_ascii: "text_of (ascii s) = s"
proof -
  have "unat (of_char c :: u8) = of_char c" for c
  proof -
    have "(of_char c :: u8) = of_nat (of_char c)" by (simp only: of_nat_of_char)
    moreover have "(of_char c :: nat) < 256" by simp
    ultimately show ?thesis by (metis unat_of_nat_u8)
  qed
  then show ?thesis by (simp add: text_of_def ascii_def comp_def)
qed

lemma ascii_digits: "list_all (\<lambda>b. b < 0x80 \<and> b \<noteq> 0x3A) (ascii (dec_digits n))"
proof -
  have "(of_char c :: u8) < 0x80 \<and> of_char c \<noteq> (0x3A :: u8)" if c: "c \<in> set (dec_digits n)" for c
  proof -
    have d: "(of_char c :: nat) < 58" using dec_digits_are_digits [OF c] by simp
    have u: "(of_char c :: u8) = of_nat (of_char c)" by (simp only: of_nat_of_char)
    have "unat (of_char c :: u8) = of_char c" unfolding u using d by (intro unat_of_nat_u8) simp
    with d have "unat (of_char c :: u8) < 58" by simp
    then show ?thesis by (auto simp: word_less_nat_alt)
  qed
  then show ?thesis by (simp add: list_all_iff ascii_def)
qed

definition broker_uri :: "bytes \<Rightarrow> u16 \<Rightarrow> bytes" where
  "broker_uri h q = ascii ''mqtt://'' @ h @ 0x3A # ascii (dec_digits (unat q))"

lemma broker_uri_nonempty [simp]: "broker_uri h q \<noteq> []"
  by (simp add: broker_uri_def)

lemma broker_uri_ok:
  assumes "given_text 64 h" and "q \<noteq> 0"
  shows "parse_mqtt_uri (broker_uri h q) = Some (h, q)" and "text_ok 160 (broker_uri h q)"
proof -
  let ?d = "ascii (dec_digits (unat q))"
  have q: "unat q < 65536" using unat_less_pow [of q] by simp
  have "strip_prefix (ascii ''mqtt://'') (broker_uri h q) = Some (h @ 0x3A # ?d)"
    by (simp add: strip_prefix_iff broker_uri_def)
  moreover have "rsplit_once 0x3A (h @ 0x3A # ?d) = Some (h, ?d)"
    using ascii_digits [of "unat q"] by (auto simp: rsplit_once_iff list_all_iff)
  moreover have "?d \<noteq> []" by (simp add: ascii_def)
  ultimately show "parse_mqtt_uri (broker_uri h q) = Some (h, q)"
    using assms by (simp add: parse_mqtt_uri_def given_text_def text_of_ascii parse_uint_dec_digits [OF q])
  have "length ?d \<le> 5" using length_dec_digits [of "unat q" 4] q by (simp add: ascii_def)
  moreover have "utf8_valid (h @ 0x3A # ?d)"
    using assms(1) ascii_digits [of "unat q"]
    by (intro utf8_append) (auto simp: given_text_def text_ok_def list_all_iff intro!: utf8_ascii)
  moreover have "utf8_valid (ascii ''mqtt://'')" by (intro utf8_ascii) (simp add: ascii_def)
  ultimately show "text_ok 160 (broker_uri h q)"
    using assms(1) utf8_append by (simp add: broker_uri_def given_text_def text_ok_def) (simp add: ascii_def)
qed

lemma text_ok_mono: "text_ok n b \<Longrightarrow> n \<le> m \<Longrightarrow> text_ok m b"
  by (simp add: text_ok_def)

lemma submission_sendable:
  assumes "deliverable p c"
  shows "list_all sendable (submission p c)"
proof -
  have name: "text_ok 16 (form_name f) \<and> take 1 (form_name f) \<noteq> [0x5F]" if "f \<noteq> Form" for f
    using that by (cases f) (simp_all add: ascii_def text_ok_def)
  have opt: "text_ok 160 (opt_text v)" if "pred_option (given_text n) v" "n \<le> 160" for v n
    using that by (cases v) (auto simp: opt_text_def given_text_def intro: text_ok_mono, simp add: text_ok_def)
  have hex: "text_ok 160 b" if "hex_text n b" "n \<le> 160" for b n
    using that hex_text_utf8 [OF that(1)] by (simp add: text_ok_def hex_text_code)
  have "text_ok 160 (field_text c f)" if f: "f \<in> set (profile_fields p)" for f
  proof -
    have core: "text_ok 160 (pc_wifi_ssid c)" "text_ok 160 (pc_wifi_password c)" "text_ok 160 (pc_ota_url c)" "text_ok 160 (pc_device_name c)"
      using assms by (simp_all add: deliverable_def given_text_def text_ok_def field_caps)
    show ?thesis
    proof (cases p)
      case LorawanFieldDevice
      then obtain l where l: "pc_lora c = Some l" "hex_text 16 (lf_dev_eui_hex l)" "hex_text 16 (lf_join_eui_hex l)" "hex_text 32 (lf_app_key_hex l)"
        using assms by (auto simp: deliverable_def split: option.splits)
      from f LorawanFieldDevice consider "f = WifiSsid" | "f = WifiPassword" | "f = DevEui" | "f = JoinEui" | "f = AppKey" | "f = OtaUrl" | "f = DeviceName"
        by auto
      then show ?thesis using core hex [OF l(2)] hex [OF l(3)] hex [OF l(4)] by cases (simp_all add: l(1))
    next
      case WifiMqttDevice
      then obtain m where m: "pc_mqtt c = Some m" "mqtt_deliverable m"
        using assms by (auto simp: deliverable_def split: option.splits)
      have "text_ok 160 (broker_uri (mq_host m) (mq_port m))" "text_ok 160 (opt_text (mq_username m))"
        "text_ok 160 (opt_text (mq_password m))" "text_ok 160 (opt_text (mq_client_id m))"
        using m(2) by (auto simp: mqtt_deliverable_def field_caps intro: broker_uri_ok(2) opt)
      with f WifiMqttDevice core show ?thesis by (auto simp: m(1) broker_uri_def)
    qed
  qed
  moreover have "f \<noteq> Form" if "f \<in> set (profile_fields p)" for f using that by (cases p) auto
  moreover have "sendable (ex_key e, ex_value e)" if "e \<in> set (pc_extras c)" for e
    using that assms by (auto simp: deliverable_def extras_ok_def list_all_iff extra_ok_def free_key_def sendable_def field_caps
        intro: text_ok_mono)
  ultimately show ?thesis using name by (auto simp: submission_def list_all_iff sendable_def)
qed

definition filled :: "bytes \<Rightarrow> form_slot" where
  "filled v = \<lparr>fs_seen = True, fs_value = v, fs_duplicate = False, fs_overflowed = False\<rparr>"

definition unfilled :: form_slot where
  "unfilled = \<lparr>fs_seen = False, fs_value = [], fs_duplicate = False, fs_overflowed = False\<rparr>"

lemma form_name_inject: "form_name f = form_name g \<longleftrightarrow> f = g"
  by (cases f; cases g; simp add: ascii_def)

lemma position_nth: "distinct xs \<Longrightarrow> i < length xs \<Longrightarrow> position (\<lambda>x. x = xs ! i) xs = Some i"
proof (induction xs arbitrary: i)
  case (Cons x xs)
  then show ?case by (cases i) (auto simp: nth_mem)
qed simp

lemma canonical_index_nth:
  "i < length (profile_fields p) \<Longrightarrow> canonical_index p (form_name (profile_fields p ! i)) = Some i"
  by (simp only: canonical_index_def form_name_inject position_nth fields_distinct)

text \<open>The first \<open>n\<close> fields, each with one value.\<close>

lemma place_fields:
  assumes "\<forall>f. length (g f) \<le> 160" and "n \<le> length (profile_fields p)"
  shows "foldl (\<lambda>a (k, v). place_value p k (Some v) a) form_start (map (\<lambda>f. (form_name f, g f)) (take n (profile_fields p))) =
    form_start\<lparr>fa_slots := map (\<lambda>f. filled (g f)) (take n (profile_fields p)) @ replicate (8 - n) unfilled\<rparr>"
  using assms(2)
proof (induction n)
  case 0
  show ?case by (simp add: form_start_def unfilled_def MAX_CANONICAL_FIELDS_def)
next
  case (Suc n)
  let ?f = "profile_fields p ! n"
  have n: "n < 8" "n < length (profile_fields p)" using Suc.prems by (cases p; simp)+
  have "8 - n = Suc (8 - Suc n)" using n(1) by simp
  then have empty: "replicate (8 - n) unfilled = unfilled # replicate (8 - Suc n) unfilled" by (simp only: replicate_Suc)
  have "fill_slot (Some (g ?f)) unfilled = filled (g ?f)"
    using assms(1) by (simp add: fill_slot_def unfilled_def filled_def push_str_def VALUE_DECODE_MAX_def)
  with Suc n show ?case
    by (simp add: take_Suc_conv_app_nth place_value_def canonical_index_nth empty list_update_append nth_append)
qed

lemma deliverable_config_ok:
  assumes "deliverable p c"
  shows "config_ok c" and "config_profile c = p" and "p = WifiMqttDevice \<Longrightarrow> pc_lora c = None"
  using assms
  by (auto simp: deliverable_def config_ok_def config_profile_def given_text_def extras_ok_def mqtt_ok_def mqtt_deliverable_def
      pred_option_def split: schema_profile.splits option.splits)

lemma submission_accepted:
  fixes c :: provisioning_config
  assumes "deliverable p c"
  defines "a \<equiv> form_start\<lparr>fa_slots := map (\<lambda>f. filled (field_text c f)) (profile_fields p) @
    replicate (8 - length (profile_fields p)) unfilled, fa_extras := pc_extras c\<rparr>"
  shows "form_accepted p a \<and> c = form_result p (fa_slots a) (fa_extras a)"
proof (cases p)
  case LorawanFieldDevice
  then obtain l where l: "pc_lora c = Some l" "hex_text 16 (lf_dev_eui_hex l)" "hex_text 16 (lf_join_eui_hex l)"
    "hex_text 32 (lf_app_key_hex l)" "pc_mqtt c = None"
    using assms(1) by (auto simp: deliverable_def split: option.splits)
  have slots: "fa_slots a = map (\<lambda>f. filled (field_text c f)) [WifiSsid, WifiPassword, DevEui, JoinEui, AppKey, OtaUrl, DeviceName] @ [unfilled]"
    by (simp add: a_def LorawanFieldDevice)
  have url: "pc_ota_url c \<noteq> []" "is_valid_ota_url (pc_ota_url c)"
    using assms(1) by (auto simp: deliverable_def LorawanFieldDevice is_valid_ota_url_def strip_prefix_def ascii_def)
  have "form_accepted p a"
    using assms(1) l url unfolding form_accepted_def slots
    by (simp add: LorawanFieldDevice deliverable_def given_text_def text_ok_def hex_text_code filled_def single_def field_caps
        AP_PASSWORD_MIN_LEN_def a_def form_start_def)
  moreover have "c = form_result p (fa_slots a) (fa_extras a)"
    unfolding slots using l by (cases c; cases l) (simp add: LorawanFieldDevice filled_def seen_value_def a_def)
  ultimately show ?thesis ..
next
  case WifiMqttDevice
  then obtain m where m: "pc_mqtt c = Some m" "mqtt_deliverable m" "pc_lora c = None"
    using assms(1) by (auto simp: deliverable_def split: option.splits)
  have slots: "fa_slots a = map (\<lambda>f. filled (field_text c f))
      [WifiSsid, WifiPassword, MqttUri, MqttUser, MqttPass, MqttClient, OtaUrl, DeviceName]"
    by (simp add: a_def WifiMqttDevice)
  have uri: "parse_mqtt_uri (field_text c MqttUri) = Some (mq_host m, mq_port m)" "field_text c MqttUri \<noteq> []" "length (mq_host m) \<le> 64"
    using broker_uri_ok(1) [of "mq_host m" "mq_port m"] m(2)
    by (simp_all add: m(1) broker_uri_def mqtt_deliverable_def field_caps ascii_def given_text_def text_ok_def)
  have given: "given_value (filled (opt_text v)) = v" if "pred_option (given_text n) v" for v n
    using that by (cases v) (simp_all add: given_value_def filled_def opt_text_def given_text_def)
  have cred: "pred_option (given_text 64) (mq_username m)" "pred_option (given_text 64) (mq_password m)"
    "mq_password m = None \<or> mq_username m \<noteq> None" "pred_option (given_text 23) (mq_client_id m)"
    using m(2) by (simp_all add: mqtt_deliverable_def field_caps)
  have auth: "auth_accepts (filled (opt_text (mq_username m))) (filled (opt_text (mq_password m)))"
    using cred(1,2,3) by (cases "mq_username m"; cases "mq_password m")
      (simp_all add: auth_accepts_def filled_def opt_text_def given_text_def text_ok_def)
  have client: "accepts p MqttClient (filled (opt_text (mq_client_id m)))"
    using cred(4) by (cases "mq_client_id m") (simp_all add: filled_def opt_text_def given_text_def text_ok_def)
  have "form_accepted p a"
    using assms(1) m uri auth client unfolding form_accepted_def slots
    by (simp add: WifiMqttDevice deliverable_def given_text_def text_ok_def filled_def single_def field_caps
        AP_PASSWORD_MIN_LEN_def a_def form_start_def ota_url_required_def del: field_text.simps(6)) auto
  moreover have "c = form_result p (fa_slots a) (fa_extras a)"
    unfolding slots using m(1,3) uri(1) given [OF cred(1)] given [OF cred(2)] given [OF cred(4)]
    by (cases c; cases m) (simp add: WifiMqttDevice seen_value_def a_def del: field_text.simps(6), simp add: filled_def)
  ultimately show ?thesis ..
qed

text \<open>An example, and values that do not fit the decode buffer.\<close>

lemma encodes_plain_text: "list_all (\<lambda>b. b \<notin> {0x2B, 0x25, 0x26, 0x3D}) v \<Longrightarrow> encodes v v"
  by (induction v) (auto intro: encodes.intros)

lemma encodes_plain_pair:
  "list_all (\<lambda>b. b \<notin> {0x2B, 0x25, 0x26, 0x3D}) k \<Longrightarrow> list_all (\<lambda>b. b \<notin> {0x2B, 0x25, 0x26, 0x3D}) v \<Longrightarrow>
    encodes_pair (k, v) (k @ 0x3D # v)"
  unfolding encodes_pair_def by (rule exI [of _ k], rule exI [of _ v]) (simp add: encodes_plain_text)

definition example_body :: bytes where
  "example_body = ascii ''wifi_ssid=home&wifi_pass=secret12&mqtt_uri=mqtt://b:1883&mqtt_user=&mqtt_pass=&mqtt_client=&ota_url=&dev_name=x&tok=1''"

definition example_form_config :: provisioning_config where
  "example_form_config = \<lparr>pc_wifi_ssid = ascii ''home'', pc_wifi_password = ascii ''secret12'', pc_ota_url = [],
     pc_device_name = ascii ''x'', pc_lora = None,
     pc_mqtt = Some \<lparr>mq_host = ascii ''b'', mq_port = 1883, mq_username = None, mq_password = None, mq_client_id = None\<rparr>,
     pc_extras = [\<lparr>ex_key = ascii ''tok'', ex_value = ascii ''1''\<rparr>]\<rparr>"

lemma example_parse: "parse_form example_body WifiMqttDevice = Inr example_form_config"
  by code_simp

lemma example_submits: "submits WifiMqttDevice example_form_config example_body"
proof -
  let ?qs = "map (\<lambda>(k, v). k @ 0x3D # v) (submission WifiMqttDevice example_form_config)"
  have "list_all (\<lambda>(k, v). list_all (\<lambda>b. b \<notin> {0x2B, 0x25, 0x26, 0x3D}) k \<and> list_all (\<lambda>b. b \<notin> {0x2B, 0x25, 0x26, 0x3D}) v)
      (submission WifiMqttDevice example_form_config)"
    by code_simp
  then have "list_all2 encodes_pair (submission WifiMqttDevice example_form_config) ?qs"
    unfolding list.rel_map by (intro list.rel_refl_strong) (auto simp: list_all_iff intro!: encodes_plain_pair)
  moreover have "example_body = join_with 0x26 ?qs" by code_simp
  ultimately show ?thesis by (auto simp: submits_def)
qed

lemma encodes_overflow:
  "encodes v s \<Longrightarrow> length acc \<le> n \<Longrightarrow> n < length acc + length v \<Longrightarrow> percent_loop n acc s = Overflow"
proof (induction v s arbitrary: acc rule: encodes.induct)
  case (escape h hi l lo v s)
  then show ?case by (cases "length acc < n") (simp_all add: hex_digit_value)
next
  case (plain b v s)
  then show ?case by (cases "length acc < n") simp_all
next
  case (space v s)
  then show ?case by (cases "length acc < n") simp_all
qed simp

lemma percent_loop_encodes:
  "percent_loop n acc s = Decoded d \<Longrightarrow> 0x26 \<notin> set s \<Longrightarrow> 0x3D \<notin> set s \<Longrightarrow> \<exists>v. d = acc @ v \<and> encodes v s"
proof (induction n acc s rule: percent_loop.induct)
  case (1 n acc)
  then show ?case by (auto split: if_splits intro: encodes.empty)
next
  case (2 n acc b rest)
  consider "b = 0x2B" | "b \<noteq> 0x2B" "b = 0x25" | "b \<noteq> 0x2B" "b \<noteq> 0x25" by blast
  then show ?case
  proof cases
    case 1
    then have "length acc < n" "percent_loop n (acc @ [0x20]) rest = Decoded d" using "2.prems" by (simp_all split: if_splits)
    with "2.IH"(1) [OF 1] "2.prems" 1 show ?thesis by (auto intro: encodes.space)
  next
    case b: 2
    then obtain h l rest' hi lo where r: "rest = h # l # rest'" "hex_value h = Some hi" "hex_value l = Some lo" "length acc < n"
      "percent_loop n (acc @ [or (push_bit 4 hi) lo]) rest' = Decoded d"
      using "2.prems" by (simp split: if_splits list.splits option.splits)
    obtain i j where ij: "hex_digit h i" "hex_digit l j"
      using r(2,3) hexdigit_iff [of h] hexdigit_iff [of l] by (auto simp: is_ascii_hexdigit_def)
    then have "or (push_bit 4 hi) lo = of_nat (16 * i + j)"
      using r(2,3) by (auto simp: hex_digit_value simp del: of_nat_add of_nat_mult intro: hex_byte)
    with "2.IH"(2) [OF b r(1) refl r(2,3)] "2.prems" r ij b show ?thesis
      by (auto simp del: of_nat_add of_nat_mult intro: encodes.escape)
  next
    case b: 3
    then have "length acc < n" "percent_loop n (acc @ [b]) rest = Decoded d" using "2.prems" by (simp_all split: if_splits)
    with "2.IH"(3) [OF b] "2.prems" b show ?thesis by (auto intro: encodes.plain)
  qed
qed

section \<open>Fields a body does not name\<close>

definition names_field :: "bytes \<Rightarrow> form_field \<Rightarrow> bool" where
  "names_field body f \<longleftrightarrow> (\<exists>piece \<in> set (split_on 0x26 body). encodes (form_name f) (takeWhile (\<lambda>b. b \<noteq> 0x3D) piece))"

lemma split_on_nonempty: "split_on c s \<noteq> []"
  by (induction s) (simp_all split: list.split)

lemma split_on_append: "split_on c (x @ c # y) = split_on c x @ split_on c y"
  by (induction x) (simp_all add: split_on_nonempty split: list.split)

lemma split_on_pieces: "\<forall>q \<in> set (split_on c s). c \<notin> set q"
proof (induction s)
  case (Cons b s)
  then show ?case by (cases "split_on c s") auto
qed simp

lemma raw_key: "\<exists>v. (case split_once 0x3D q of Some kv \<Rightarrow> kv | None \<Rightarrow> (q, [])) = (takeWhile (\<lambda>b. b \<noteq> 0x3D) q, v)"
proof (cases "0x3D \<in> set q")
  case True
  then show ?thesis by (auto simp: split_once_def dropWhile_eq_Nil_conv split: list.split)
next
  case False
  then have whole: "takeWhile (\<lambda>b. b \<noteq> 0x3D) q = q" by (intro takeWhile_eq_all_conv [THEN iffD2]) blast
  show ?thesis unfolding split_once_None [OF False] whole by simp
qed

lemma place_value_other:
  "canonical_index p key \<noteq> Some i \<Longrightarrow> fa_slots (place_value p key val a) ! i = fa_slots a ! i"
  by (auto simp: place_value_def insert_extra_def split: option.split)

lemma handle_pair_other:
  assumes "canonical_index p (form_name f) = Some i" and "0x26 \<notin> set q"
    and "\<not> encodes (form_name f) (takeWhile (\<lambda>b. b \<noteq> 0x3D) q)"
  shows "fa_slots (handle_pair p a q) ! i = fa_slots a ! i"
proof -
  let ?raw = "takeWhile (\<lambda>b. b \<noteq> 0x3D) q"
  obtain v where v: "(case split_once 0x3D q of Some kv \<Rightarrow> kv | None \<Rightarrow> (q, [])) = (?raw, v)" using raw_key by blast
  have "canonical_index p key \<noteq> Some i" if "percent_decode KEY_DECODE_MAX ?raw = Decoded key" for key
  proof
    assume "canonical_index p key = Some i"
    with assms(1) have "form_name f = key"
      using position_Some [of "\<lambda>g. form_name g = form_name f" "profile_fields p" i]
        position_Some [of "\<lambda>g. form_name g = key" "profile_fields p" i]
      by (simp add: canonical_index_def)
    moreover have "0x26 \<notin> set ?raw" "0x3D \<notin> set ?raw" using assms(2) by (auto dest: set_takeWhileD)
    then have "encodes key ?raw" using percent_loop_encodes [of _ "[]"] that by (auto simp: percent_decode_def)
    ultimately show False using assms(3) by simp
  qed
  then show ?thesis
    by (auto simp: handle_pair_def v place_value_other split: decoded.split)
qed

lemma unnamed_field_unfilled:
  assumes "canonical_index p (form_name f) = Some i" and "\<not> names_field body f"
  shows "fa_slots (foldl (handle_pair p) form_start (split_on 0x26 body)) ! i = unfilled"
proof -
  have "fa_slots (foldl (handle_pair p) a qs) ! i = fa_slots a ! i"
    if "\<forall>q \<in> set qs. 0x26 \<notin> set q \<and> \<not> encodes (form_name f) (takeWhile (\<lambda>b. b \<noteq> 0x3D) q)" for a qs
    using that by (induction qs arbitrary: a) (simp_all add: handle_pair_other [OF assms(1)])
  moreover have "i < 8" by (rule canonical_index_less [OF assms(1)])
  ultimately show ?thesis
    using assms(2) split_on_pieces [of "0x26" body]
    by (simp add: names_field_def form_start_def unfilled_def MAX_CANONICAL_FIELDS_def)
qed

lemma parse_form_deliverable:
  assumes "parse_form body p = Inr c"
  shows "deliverable p c"
proof -
  define a where "a = foldl (handle_pair p) form_start (split_on 0x26 body)"
  have ok: "acc_ok a" unfolding a_def by (rule acc_ok_form)
  have acc: "form_accepted p a" and c: "c = form_result p (fa_slots a) (fa_extras a)"
    using assms parse_form_iff [of body p c] by (simp_all add: a_def)
  have "length (fa_slots a) = 8" using ok by (simp add: acc_ok_def MAX_CANONICAL_FIELDS_def)
  then obtain s0 s1 s2 s3 s4 s5 s6 s7 where slots: "fa_slots a = [s0, s1, s2, s3, s4, s5, s6, s7]"
    by (auto simp: numeral_eq_Suc length_Suc_conv)
  have sl: "slot_ok s0" "slot_ok s1" "slot_ok s2" "slot_ok s3" "slot_ok s4" "slot_ok s5" "slot_ok s6" "slot_ok s7"
    using ok by (simp_all add: acc_ok_def slots)
  have ex: "extras_ok (fa_extras a)" using ok by (simp add: acc_ok_def)
  show ?thesis
  proof (cases p)
    case LorawanFieldDevice
    then have f: "accepts p WifiSsid s0" "accepts p WifiPassword s1" "accepts p DevEui s2" "accepts p JoinEui s3" "accepts p AppKey s4"
      "accepts p OtaUrl s5" "accepts p DeviceName s6"
      using acc by (simp_all add: form_accepted_def slots del: accepts.simps)
    show ?thesis
      using accepts_given(1) [OF f(1) sl(1)] accepts_given(2) [OF f(2) sl(2)] accepts_given(5) [OF f(3) sl(3)]
        accepts_given(5) [OF f(4) sl(4)] accepts_given(6) [OF f(5) sl(5)] accepts_given(4) [OF f(6) sl(6)] accepts_given(3) [OF f(7) sl(7)] ex
      by (simp add: deliverable_def c LorawanFieldDevice slots)
  next
    case WifiMqttDevice
    then have f: "accepts p WifiSsid s0" "accepts p WifiPassword s1" "accepts p MqttUri s2" "accepts p MqttClient s5"
      "accepts p OtaUrl s6" "accepts p DeviceName s7" and auth: "auth_accepts s3 s4"
      using acc by (simp_all add: form_accepted_def slots del: accepts.simps)
    obtain h q where uri: "parse_mqtt_uri (fs_value s2) = Some (h, q)" "length h \<le> 64"
      using f(3) by (auto split: option.splits)
    have host: "given_text MQTT_HOST_MAX_LEN h" "q \<noteq> 0"
      using parse_mqtt_uri_result [OF uri(1)] sl(3) uri(2) by (simp_all add: given_text_def text_ok_def slot_ok_def field_caps)
    have login: "pred_option (given_text MQTT_USER_MAX_LEN) (given_value s3)" "pred_option (given_text MQTT_PASS_MAX_LEN) (given_value s4)"
      "given_value s4 = None \<or> given_value s3 \<noteq> None"
      using auth sl(4,5) by (auto simp: auth_accepts_def given_value_def given_text_def text_ok_def slot_ok_def field_caps simp del: utf8_valid.simps)
    show ?thesis
      using accepts_given(1) [OF f(1) sl(1)] accepts_given(2) [OF f(2) sl(2)] accepts_given(7) [OF f(4) sl(6)]
        accepts_given(4) [OF f(5) sl(7)] accepts_given(3) [OF f(6) sl(8)] ex host login
      by (simp add: deliverable_def mqtt_deliverable_def c WifiMqttDevice slots uri)
  qed
qed

section \<open>Logins that do not fit\<close>

text \<open>Appending a piece that holds the user name or the password.\<close>

abbreviation body_acc :: "bytes \<Rightarrow> form_acc" where
  "body_acc body \<equiv> foldl (handle_pair WifiMqttDevice) form_start (split_on 0x26 body)"

definition put_slot :: "nat \<Rightarrow> form_slot \<Rightarrow> form_acc \<Rightarrow> form_acc" where
  "put_slot i s a = a\<lparr>fa_slots := (fa_slots a)[i := s]\<rparr>"

lemma body_acc_append:
  assumes "0x26 \<notin> set q"
  shows "body_acc (body @ 0x26 # q) = handle_pair WifiMqttDevice (body_acc body) q"
  by (simp add: split_on_append split_on_piece [OF assms])

lemma oversized_user:
  assumes "\<not> names_field body MqttUser" and "encodes u s" and "160 < length u"
  shows "body_acc (body @ ascii ''&mqtt_user='' @ s) = put_slot 3 (fill_slot None unfilled) (body_acc body)"
proof -
  let ?q = "ascii ''mqtt_user'' @ 0x3D # s"
  have "body_acc (body @ 0x26 # ?q) = handle_pair WifiMqttDevice (body_acc body) ?q"
    using encodes_no_separator [OF assms(2)] by (intro body_acc_append) (simp add: ascii_def)
  moreover have "split_once 0x3D ?q = Some (ascii ''mqtt_user'', s)" by (simp add: split_once_iff ascii_def)
  moreover have "percent_decode KEY_DECODE_MAX (ascii ''mqtt_user'') = Decoded (ascii ''mqtt_user'')" by code_simp
  moreover have "percent_decode VALUE_DECODE_MAX s = Overflow"
    unfolding percent_decode_def VALUE_DECODE_MAX_def using assms(3) by (intro encodes_overflow [OF assms(2)]) simp_all
  moreover have "fa_slots (body_acc body) ! 3 = unfilled"
    using auth_slots(1) assms(1) by (intro unnamed_field_unfilled) simp_all
  ultimately have "body_acc (body @ 0x26 # ?q) = put_slot 3 (fill_slot None unfilled) (body_acc body)"
    by (simp add: handle_pair_def place_value_def auth_slots put_slot_def) (simp add: ascii_def)
  then show ?thesis by (simp add: ascii_def)
qed

lemma submitted_password:
  assumes "fa_slots (body_acc body) ! 4 = unfilled" and "encodes q t" and "text_ok 160 q"
  shows "body_acc (body @ ascii ''&mqtt_pass='' @ t) = put_slot 4 (filled q) (body_acc body)"
proof -
  let ?q = "ascii ''mqtt_pass'' @ 0x3D # t"
  have "body_acc (body @ 0x26 # ?q) = handle_pair WifiMqttDevice (body_acc body) ?q"
    using encodes_no_separator [OF assms(2)] by (intro body_acc_append) (simp add: ascii_def)
  moreover have "split_once 0x3D ?q = Some (ascii ''mqtt_pass'', t)" by (simp add: split_once_iff ascii_def)
  moreover have "percent_decode KEY_DECODE_MAX (ascii ''mqtt_pass'') = Decoded (ascii ''mqtt_pass'')" by code_simp
  moreover have "percent_decode VALUE_DECODE_MAX t = Decoded q"
    using encodes_decodes [OF assms(2), of "[]" 160] assms(3) by (simp add: percent_decode_def VALUE_DECODE_MAX_def text_ok_def)
  moreover have "fill_slot (Some q) unfilled = filled q"
    using assms(3) by (simp add: fill_slot_def unfilled_def filled_def push_str_def text_ok_def VALUE_DECODE_MAX_def)
  ultimately have "body_acc (body @ 0x26 # ?q) = put_slot 4 (filled q) (body_acc body)"
    using assms(1) by (simp add: handle_pair_def place_value_def auth_slots put_slot_def) (simp add: ascii_def)
  then show ?thesis by (simp add: ascii_def)
qed

text \<open>The slot of the user name that overflowed counts as no user name.\<close>

lemma overflowed_user_ignored:
  assumes "parse_form body WifiMqttDevice = Inr c" and "fa_slots (body_acc body) ! 3 = unfilled"
    and "body_acc body' = put_slot 3 (fill_slot None unfilled) (body_acc body)"
  shows "parse_form body' WifiMqttDevice = Inr c"
    and "\<exists>m. pc_mqtt c = Some m \<and> mq_username m = None \<and> mq_password m = None"
proof -
  have "length (fa_slots (body_acc body)) = 8"
    using acc_ok_form [of WifiMqttDevice "split_on 0x26 body"] by (simp add: acc_ok_def MAX_CANONICAL_FIELDS_def)
  then obtain s0 s1 s2 s4 s5 s6 s7 where slots: "fa_slots (body_acc body) = [s0, s1, s2, unfilled, s4, s5, s6, s7]"
    using assms(2) by (auto simp: numeral_eq_Suc length_Suc_conv)
  have acc: "form_accepted WifiMqttDevice (body_acc body)"
    and c: "c = form_result WifiMqttDevice (fa_slots (body_acc body)) (fa_extras (body_acc body))"
    using assms(1) by (simp_all add: parse_form_iff)
  have auth: "auth_accepts unfilled s4" using acc by (simp add: form_accepted_def slots)
  then have "form_accepted WifiMqttDevice (body_acc body')"
    using acc by (simp add: assms(3) form_accepted_def put_slot_def slots) (simp add: auth_accepts_def fill_slot_def unfilled_def)
  moreover have "given_value (fill_slot None unfilled) = given_value unfilled"
    by (simp add: given_value_def fill_slot_def unfilled_def)
  ultimately show "parse_form body' WifiMqttDevice = Inr c"
    unfolding parse_form_iff c by (simp add: assms(3) put_slot_def slots)
  show "\<exists>m. pc_mqtt c = Some m \<and> mq_username m = None \<and> mq_password m = None"
    using auth by (auto simp: c slots given_value_def unfilled_def auth_accepts_def)
qed

lemma overflowed_user_missing:
  assumes "parse_form body WifiMqttDevice = Inr c" and "q \<noteq> []"
    and "body_acc body' = put_slot 4 (filled q) (put_slot 3 (fill_slot None unfilled) (body_acc body))"
  shows "parse_form body' WifiMqttDevice = Inl [(MqttPass, Missing)]"
proof -
  have "length (fa_slots (body_acc body)) = 8"
    using acc_ok_form [of WifiMqttDevice "split_on 0x26 body"] by (simp add: acc_ok_def MAX_CANONICAL_FIELDS_def)
  then obtain s0 s1 s2 s3 s4 s5 s6 s7 where slots: "fa_slots (body_acc body) = [s0, s1, s2, s3, s4, s5, s6, s7]"
    by (auto simp: numeral_eq_Suc length_Suc_conv)
  let ?p = WifiMqttDevice and ?u = "fill_slot None unfilled"
  define r where "r = fold (validate_field ?p) (zip (profile_fields ?p) (fa_slots (body_acc body'))) no_outputs"
  have slots': "fa_slots (body_acc body') = [s0, s1, s2, ?u, filled q, s5, s6, s7]"
    by (simp add: assms(3) put_slot_def slots)
  have acc: "form_accepted ?p (body_acc body)" using assms(1) by (simp add: parse_form_iff)
  have "list_all (\<lambda>(f, s). accepts ?p f s) (zip (profile_fields ?p) (fa_slots (body_acc body')))"
    using acc by (simp add: form_accepted_def slots slots')
  then have "fo_errors r = []" unfolding r_def validate_fields_errors by (simp add: no_outputs_def)
  then have "snd (validate_mqtt_fields (fa_slots (body_acc body')) r) = [(MqttPass, Missing)]"
    using assms(2) by (simp add: validate_mqtt_fields_def auth_slots slots' validate_mqtt_auth_def fill_slot_def unfilled_def filled_def
        push_field_error_def MAX_FIELD_ERRORS_def)
  then obtain m where m: "validate_mqtt_fields (fa_slots (body_acc body')) r = (m, [(MqttPass, Missing)])"
    by (cases "validate_mqtt_fields (fa_slots (body_acc body')) r") simp
  have "fa_form_error (body_acc body') = None" using acc by (simp add: form_accepted_def assms(3) put_slot_def)
  then show ?thesis
    by (simp add: parse_form_def r_def [symmetric] Let_def m del: profile_fields.simps)
qed

lemma not_encodes: "percent_loop 16 [] s \<noteq> Decoded v \<Longrightarrow> utf8_valid v \<Longrightarrow> length v \<le> 16 \<Longrightarrow> \<not> encodes v s"
  using encodes_decodes [of v s "[]" 16] by auto

definition anonymous_body :: bytes where
  "anonymous_body = ascii ''wifi_ssid=home&wifi_pass=secret12&mqtt_uri=mqtt://b:1883&dev_name=x&tok=1''"

lemma anonymous_accepted: "parse_form anonymous_body WifiMqttDevice = Inr example_form_config"
  by code_simp

lemma anonymous_names: "\<not> names_field anonymous_body MqttUser" "\<not> names_field anonymous_body MqttPass"
proof -
  have keys: "list_all (\<lambda>s. list_all (\<lambda>f. percent_loop 16 [] (takeWhile (\<lambda>b. b \<noteq> 0x3D) s) \<noteq> Decoded (form_name f)) [MqttUser, MqttPass])
      (split_on 0x26 anonymous_body)"
    by code_simp
  have "\<not> encodes (form_name f) (takeWhile (\<lambda>b. b \<noteq> 0x3D) s)" if "s \<in> set (split_on 0x26 anonymous_body)" "f \<in> {MqttUser, MqttPass}" for f s
    using keys that by (intro not_encodes) (auto simp: list_all_iff simp del: form_name.simps; auto simp: ascii_def)+
  then show "\<not> names_field anonymous_body MqttUser" "\<not> names_field anonymous_body MqttPass"
    unfolding names_field_def by blast+
qed

section \<open>Properties\<close>

text \<open>
  C31: only well-formed configurations leave the parser.  Whatever the body, a configuration it returns
  belongs to the profile, its texts are valid UTF-8 within the capacities of their fields, the name of
  the network and of the device are not empty, a password is empty or has eight bytes, the update URL has
  a host, the LoRaWAN keys are hexadecimal of the right length, the broker has a host and a port, a
  broker password comes with a user name, and the extras are at most eight with distinct keys that
  belong to no field and are not reserved.
\<close>

theorem form_well_formed:
  assumes "parse_form body p = Inr c"
  shows "deliverable p c"
  using assms by (rule parse_form_deliverable)

theorem form_well_formed_witness: "deliverable WifiMqttDevice example_form_config"
  by (rule form_well_formed [OF example_parse])

text \<open>
  C33: every well-formed configuration can be submitted.  Each configuration of the form that
  \<open>form_well_formed\<close> describes is returned exactly when its fields and extras are submitted, each value
  percent-encoded in any way, with or without escapes where none are needed and with either notation of
  a space.
\<close>

theorem form_roundtrip:
  assumes "deliverable p c" and "submits p c body"
  shows "parse_form body p = Inr c"
proof -
  let ?place = "\<lambda>a (k, v). place_value p k (Some v) a" and ?fs = "profile_fields p"
  let ?a = "form_start\<lparr>fa_slots := map (\<lambda>f. filled (field_text c f)) ?fs @ replicate (8 - length ?fs) unfilled, fa_extras := pc_extras c\<rparr>"
  obtain qs where qs: "list_all2 encodes_pair (submission p c) qs" "body = join_with 0x26 qs"
    using assms(2) by (auto simp: submits_def)
  have sendable: "list_all sendable (submission p c)" by (rule submission_sendable [OF assms(1)])
  have "submission p c \<noteq> []" by (cases p) (simp_all add: submission_def)
  with qs sendable have "foldl (handle_pair p) form_start (split_on 0x26 body) = foldl ?place form_start (submission p c)"
    by (simp add: parse_submission)
  also have "\<dots> = ?a"
  proof -
    have len: "length (field_text c f) \<le> 160" if "f \<in> set ?fs" for f
    proof -
      have "(form_name f, field_text c f) \<in> set (submission p c)" using that by (simp add: submission_def)
      with sendable have "sendable (form_name f, field_text c f)" unfolding list_all_iff by (rule bspec)
      then show ?thesis by (simp add: sendable_def text_ok_def)
    qed
    let ?g = "\<lambda>f. if f \<in> set ?fs then field_text c f else []"
    have "foldl ?place form_start (map (\<lambda>f. (form_name f, ?g f)) (take (length ?fs) ?fs)) =
        form_start\<lparr>fa_slots := map (\<lambda>f. filled (?g f)) (take (length ?fs) ?fs) @ replicate (8 - length ?fs) unfilled\<rparr>"
      using len by (intro place_fields) auto
    then have "foldl ?place form_start (map (\<lambda>f. (form_name f, field_text c f)) ?fs) =
        form_start\<lparr>fa_slots := map (\<lambda>f. filled (field_text c f)) ?fs @ replicate (8 - length ?fs) unfilled\<rparr>"
      by (simp cong: map_cong)
    moreover have "extras_ok (pc_extras c)" using assms(1) by (simp add: deliverable_def)
    ultimately show ?thesis
      by (simp add: submission_def foldl_append) (subst place_extras, simp_all add: form_start_def)
  qed
  finally have parsed: "foldl (handle_pair p) form_start (split_on 0x26 body) = ?a" .
  have "form_accepted p ?a \<and> c = form_result p (fa_slots ?a) (fa_extras ?a)"
    using assms(1) by (rule submission_accepted)
  then show ?thesis by (simp only: parse_form_iff parsed)
qed

theorem form_roundtrip_witness: "parse_form example_body WifiMqttDevice = Inr example_form_config"
  by (rule form_roundtrip [OF form_well_formed [OF example_parse] example_submits])

text \<open>
  C34: an oversized login is never reported as too long.  Take any form for an MQTT device that is
  accepted without naming the user name of the broker.  When a user name of more than 160 bytes is
  submitted with it, in any encoding, the form is still accepted, with the same configuration, which has
  neither a user name nor a password, so that the device connects to its broker anonymously.  When a
  password that fits the decode buffer is submitted too, the form is refused, but because the password
  has no user name, although one was submitted.
\<close>

theorem oversized_login_dropped:
  assumes "parse_form body WifiMqttDevice = Inr c" and "\<not> names_field body MqttUser" and "encodes u s" and "160 < length u"
  shows "parse_form (body @ ascii ''&mqtt_user='' @ s) WifiMqttDevice = Inr c \<and>
    (\<exists>m. pc_mqtt c = Some m \<and> mq_username m = None \<and> mq_password m = None) \<and>
    (\<not> names_field body MqttPass \<and> encodes q t \<and> text_ok 160 q \<and> q \<noteq> [] \<longrightarrow>
      parse_form (body @ ascii ''&mqtt_user='' @ s @ ascii ''&mqtt_pass='' @ t) WifiMqttDevice = Inl [(MqttPass, Missing)])"
proof (intro conjI impI)
  have user: "fa_slots (body_acc body) ! 3 = unfilled"
    using auth_slots(1) assms(2) by (intro unnamed_field_unfilled) simp_all
  have acc: "body_acc (body @ ascii ''&mqtt_user='' @ s) = put_slot 3 (fill_slot None unfilled) (body_acc body)"
    by (rule oversized_user [OF assms(2-4)])
  show "parse_form (body @ ascii ''&mqtt_user='' @ s) WifiMqttDevice = Inr c"
    and "\<exists>m. pc_mqtt c = Some m \<and> mq_username m = None \<and> mq_password m = None"
    by (rule overflowed_user_ignored [OF assms(1) user acc])+
  assume p: "\<not> names_field body MqttPass \<and> encodes q t \<and> text_ok 160 q \<and> q \<noteq> []"
  then have "fa_slots (body_acc (body @ ascii ''&mqtt_user='' @ s)) ! 4 = unfilled"
    using unnamed_field_unfilled [of WifiMqttDevice MqttPass 4 body] auth_slots(2) by (simp add: acc put_slot_def)
  then have "body_acc ((body @ ascii ''&mqtt_user='' @ s) @ ascii ''&mqtt_pass='' @ t) =
      put_slot 4 (filled q) (put_slot 3 (fill_slot None unfilled) (body_acc body))"
    using submitted_password p unfolding acc [symmetric] by blast
  then have "parse_form ((body @ ascii ''&mqtt_user='' @ s) @ ascii ''&mqtt_pass='' @ t) WifiMqttDevice = Inl [(MqttPass, Missing)]"
    using p by (intro overflowed_user_missing [OF assms(1), of q]) simp_all
  then show "parse_form (body @ ascii ''&mqtt_user='' @ s @ ascii ''&mqtt_pass='' @ t) WifiMqttDevice = Inl [(MqttPass, Missing)]"
    by (simp only: append_assoc)
qed

theorem oversized_login_dropped_witness:
  "parse_form (anonymous_body @ ascii ''&mqtt_user='' @ replicate 161 0x61) WifiMqttDevice = Inr example_form_config \<and>
   parse_form (anonymous_body @ ascii ''&mqtt_user='' @ replicate 161 0x61 @ ascii ''&mqtt_pass='' @ ascii ''secret'') WifiMqttDevice =
     Inl [(MqttPass, Missing)]"
proof -
  have enc: "encodes (replicate 161 0x61) (replicate 161 0x61)" "encodes (ascii ''secret'') (ascii ''secret'')"
    by (rule encodes_plain_text; simp add: ascii_def list_all_iff)+
  have "text_ok 160 (ascii ''secret'') \<and> ascii ''secret'' \<noteq> []" by code_simp
  then show ?thesis
    using oversized_login_dropped [OF anonymous_accepted anonymous_names(1) enc(1), of "ascii ''secret''" "ascii ''secret''"] anonymous_names(2) enc(2)
    by simp
qed

end
