(* ===== verification/Portal_Http.thy ===== *)
theory Portal_Http
  imports Portal_Form
begin

text \<open>
  The HTTP codec of the bare-metal portal (\<^verbatim>\<open>rustyfarian-esp-hal-network/src/provisioning/portal.rs\<close>): the
  request parser, the response writer, the check of the session nonce, and the reading of a request from a
  socket.

  A buffer with a fill position is the list of the bytes written so far, and its capacity a number; the
  fixed arrays with a length in the parsed request are the bytes they hold.  \<open>usize\<close> has 32 bits, as on
  every chip the portal runs on.  The socket is a library's: it is a function that reads at most so many
  bytes, and what the code relies on is the locale \<open>socket_contract\<close>.
\<close>

section \<open>Model: requests\<close>

definition MAX_TARGET_LEN :: nat where "MAX_TARGET_LEN = 256"
definition DEFAULT_REQUEST_SIZE_CAP :: nat where "DEFAULT_REQUEST_SIZE_CAP = 2048"
definition DEFAULT_TX_BUF :: nat where "DEFAULT_TX_BUF = 6144"

datatype http_method = Get | Post

datatype http_error = BadRequestLine | VersionNotSupported | UriTooLong | BadHeader | DuplicateContentLength
  | InvalidContentLength | RequestTooLarge | IncompleteRequest

record parsed_headers =
  ph_host :: "bytes option"
  ph_content_length :: "u32 option"
  ph_content_type :: "bytes option"

record parsed_request =
  rq_method :: http_method
  rq_target :: bytes
  rq_headers :: parsed_headers

definition target_str :: "parsed_request \<Rightarrow> bytes" where
  "target_str req = (if utf8_valid (rq_target req) then rq_target req else [])"

definition parse_request_line :: "bytes \<Rightarrow> http_error + http_method \<times> bytes" where
  "parse_request_line line =
     (case position (\<lambda>b. b = 0x20) line of
        None \<Rightarrow> Inl BadRequestLine
      | Some first_sp \<Rightarrow>
          let method_bytes = take first_sp line; rest = drop (first_sp + 1) line in
          case (if method_bytes = ascii ''GET'' then Some Get else if method_bytes = ascii ''POST'' then Some Post else None) of
            None \<Rightarrow> Inl BadRequestLine
          | Some m \<Rightarrow>
              (case rposition (\<lambda>b. b = 0x20) rest of
                 None \<Rightarrow> Inl BadRequestLine
               | Some last_sp \<Rightarrow>
                   let target = take last_sp rest; version = trim_ows (drop (last_sp + 1) rest) in
                   if target = [] then Inl BadRequestLine
                   else if MAX_TARGET_LEN < length target then Inl UriTooLong
                   else if version = ascii ''HTTP/1.1'' then Inr (m, target)
                   else if take 5 version = ascii ''HTTP/'' then Inl VersionNotSupported
                   else Inl BadRequestLine))"

definition parse_header_line :: "bytes \<Rightarrow> http_error + bytes \<times> bytes" where
  "parse_header_line line =
     (case position (\<lambda>b. b = 0x3A) line of
        None \<Rightarrow> Inl BadHeader
      | Some colon \<Rightarrow>
          if colon = 0 then Inl BadHeader
          else if line ! (colon - 1) = 0x20 \<or> line ! (colon - 1) = 0x09 then Inl BadHeader
          else Inr (take colon line, trim_ows (drop (colon + 1) line)))"

record header_acc =
  ha_headers :: parsed_headers
  ha_content_length_seen :: bool

definition header_acc_new :: header_acc where
  "header_acc_new = \<lparr>ha_headers = \<lparr>ph_host = None, ph_content_length = None, ph_content_type = None\<rparr>,
     ha_content_length_seen = False\<rparr>"

definition header_feed :: "nat \<Rightarrow> bytes \<Rightarrow> header_acc \<Rightarrow> http_error + header_acc" where
  "header_feed request_size_cap line acc =
     (let trimmed = trim_ows line in
      if trimmed = [] then Inr acc
      else case parse_header_line trimmed of
          Inl e \<Rightarrow> Inl e
        | Inr (name, value) \<Rightarrow>
            if eq_ignore_case name (ascii ''content-length'') then
              (if ha_content_length_seen acc then Inl DuplicateContentLength
               else if value = [] \<or> \<not> list_all is_digit value then Inl InvalidContentLength
               else case parse_u64 value of
                   None \<Rightarrow> Inl InvalidContentLength
                 | Some n \<Rightarrow>
                     if request_size_cap < unat (of_nat n :: u32) then Inl RequestTooLarge
                     else Inr (acc\<lparr>ha_content_length_seen := True,
                       ha_headers := (ha_headers acc)\<lparr>ph_content_length := Some (of_nat n)\<rparr>\<rparr>))
            else if eq_ignore_case name (ascii ''host'') then
              Inr (acc\<lparr>ha_headers := (ha_headers acc)\<lparr>ph_host := Some (take 256 value)\<rparr>\<rparr>)
            else if eq_ignore_case name (ascii ''content-type'') then
              Inr (acc\<lparr>ha_headers := (ha_headers acc)\<lparr>ph_content_type := Some (take 128 value)\<rparr>\<rparr>)
            else Inr acc)"

definition header_end :: "bytes \<Rightarrow> nat option" where
  "header_end buf = find_window (crlf @ crlf) buf"

definition strip_cr :: "bytes \<Rightarrow> bytes" where
  "strip_cr l = (if l \<noteq> [] \<and> last l = 0x0D then butlast l else l)"

fun feed_lines :: "nat \<Rightarrow> bytes list \<Rightarrow> header_acc \<Rightarrow> http_error + header_acc" where
  "feed_lines cap [] acc = Inr acc"
| "feed_lines cap (l # ls) acc =
     (if l = [] then Inr acc else case header_feed cap l acc of Inl e \<Rightarrow> Inl e | Inr acc' \<Rightarrow> feed_lines cap ls acc')"

definition parse_request :: "bytes \<Rightarrow> nat \<Rightarrow> http_error + parsed_request" where
  "parse_request buf request_size_cap =
     (case header_end buf of
        None \<Rightarrow> Inl IncompleteRequest
      | Some n \<Rightarrow>
          (case map strip_cr (split_on 0x0A (take n buf)) of
             [] \<Rightarrow> Inl IncompleteRequest
           | request_line # rest \<Rightarrow>
               (case parse_request_line request_line of
                  Inl e \<Rightarrow> Inl e
                | Inr (m, target) \<Rightarrow>
                    (case feed_lines request_size_cap rest header_acc_new of
                       Inl e \<Rightarrow> Inl e
                     | Inr acc \<Rightarrow> Inr \<lparr>rq_method = m, rq_target = target, rq_headers = ha_headers acc\<rparr>))))"

section \<open>Model: responses\<close>

fun reason_phrase :: "nat \<Rightarrow> bytes" where
  "reason_phrase status =
     (if status = 200 then ascii ''OK'' else if status = 302 then ascii ''Found''
      else if status = 400 then ascii ''Bad Request'' else if status = 403 then ascii ''Forbidden''
      else if status = 404 then ascii ''Not Found'' else if status = 405 then ascii ''Method Not Allowed''
      else if status = 409 then ascii ''Conflict'' else if status = 411 then ascii ''Length Required''
      else if status = 413 then ascii ''Payload Too Large'' else if status = 414 then ascii ''URI Too Long''
      else if status = 500 then ascii ''Internal Server Error'' else if status = 505 then ascii ''HTTP Version Not Supported''
      else ascii ''Unknown'')"

declare reason_phrase.simps [simp del]

definition build_response :: "nat \<Rightarrow> u16 \<Rightarrow> bytes \<Rightarrow> bytes \<Rightarrow> bytes option" where
  "build_response cap status content_type body = write_all cap []
     [ascii ''HTTP/1.1 '', u32_decimal (ucast status), ascii '' '', reason_phrase (unat status), crlf,
      ascii ''Content-Type: '', content_type, crlf,
      ascii ''Content-Length: '', u32_decimal (of_nat (length body)), crlf,
      ascii ''Connection: close'' @ crlf,
      ascii ''Cache-Control: no-store'' @ crlf,
      crlf, body]"

definition build_redirect :: "nat \<Rightarrow> bytes \<Rightarrow> bytes option" where
  "build_redirect cap location = write_all cap []
     [ascii ''HTTP/1.1 302 Found'' @ crlf, ascii ''Location: '', location, crlf, ascii ''Content-Length: 0'' @ crlf,
      ascii ''Connection: close'' @ crlf, ascii ''Cache-Control: no-store'' @ crlf, crlf]"

definition text_plain :: bytes where "text_plain = ascii ''text/plain; charset=utf-8''"
definition text_html :: bytes where "text_html = ascii ''text/html; charset=utf-8''"

fun error_status :: "http_error \<Rightarrow> u16 \<times> bytes" where
  "error_status VersionNotSupported = (505, ascii ''HTTP Version Not Supported'')"
| "error_status UriTooLong = (414, ascii ''URI Too Long'')"
| "error_status RequestTooLarge = (413, ascii ''Payload Too Large'')"
| "error_status _ = (400, ascii ''Bad Request'')"

definition error_response :: "nat \<Rightarrow> http_error \<Rightarrow> bytes" where
  "error_response cap err =
     (case error_status err of (status, body) \<Rightarrow>
       (case build_response cap status text_plain body of Some r \<Rightarrow> r | None \<Rightarrow> []))"

definition MINIMAL_500 :: bytes where
  "MINIMAL_500 = ascii ''HTTP/1.1 500 Internal Server Error'' @ crlf @ ascii ''Content-Length: 0'' @ crlf @
     ascii ''Connection: close'' @ crlf @ ascii ''Cache-Control: no-store'' @ crlf @ crlf"

definition body_read_target :: "nat \<Rightarrow> nat \<Rightarrow> nat \<Rightarrow> nat" where
  "body_read_target hdr_end content_length cap = min (unat (saturating_add (of_nat hdr_end :: u32) (of_nat content_length))) cap"

section \<open>Model: the nonce\<close>

function extract_loop :: "bytes \<Rightarrow> bytes \<Rightarrow> nat \<Rightarrow> bytes option" where
  "extract_loop key_eq body i =
     (if i + length key_eq \<le> length body then
        (if (i = 0 \<or> body ! (i - 1) = 0x26) \<and> take (length key_eq) (drop i body) = key_eq then
           (let value = drop (i + length key_eq) body in
            Some (case position (\<lambda>b. b = 0x26) value of Some p \<Rightarrow> take p value | None \<Rightarrow> value))
         else extract_loop key_eq body (i + 1))
      else None)"
  by pat_completeness auto
termination by (relation "measure (\<lambda>(k, body, i). Suc (length body) - i)") auto

declare extract_loop.simps [simp del]

definition extract_form_field :: "bytes \<Rightarrow> bytes \<Rightarrow> bytes option" where
  "extract_form_field body key = (if 64 < length key + 1 then None else extract_loop (key @ [0x3D]) body 0)"

definition nonce_matches :: "bytes \<Rightarrow> bytes \<Rightarrow> bool" where
  "nonce_matches body expected =
     (case extract_form_field body (ascii ''_nonce'') of
        None \<Rightarrow> False
      | Some value \<Rightarrow>
          if length value \<noteq> length expected then False
          else foldl (\<lambda>diff (a, b). or diff (xor a b)) (0 :: u8) (zip value expected) = 0)"

section \<open>Model: reading from the socket\<close>

text \<open>\<open>read n s\<close> reads at most \<open>n\<close> bytes; no bytes mean that the peer closed.\<close>

type_synonym 's sock_read = "nat \<Rightarrow> 's \<Rightarrow> (unit + bytes) \<times> 's"

function read_request :: "'s sock_read \<Rightarrow> nat \<Rightarrow> nat \<Rightarrow> bytes \<Rightarrow> 's \<Rightarrow> (http_error + bytes) \<times> 's" where
  "read_request read buf_len size_cap present s =
     (if min buf_len size_cap \<le> length present then (Inl RequestTooLarge, s)
      else case read (buf_len - length present) s of
          (Inl _, s') \<Rightarrow> (Inl IncompleteRequest, s')
        | (Inr got, s') \<Rightarrow>
            if got = [] then (Inl IncompleteRequest, s')
            else if header_end (present @ got) \<noteq> None then (Inr (present @ got), s')
            else read_request read buf_len size_cap (present @ got) s')"
  by pat_completeness auto
termination
  by (relation "measure (\<lambda>(read, buf_len, size_cap, present, s). min buf_len size_cap - length present)")
    (auto simp: neq_Nil_conv min_def)

declare read_request.simps [simp del]

function read_body :: "'s sock_read \<Rightarrow> nat \<Rightarrow> bytes \<Rightarrow> 's \<Rightarrow> bytes \<times> 's" where
  "read_body read need buf s =
     (if need \<le> length buf then (buf, s)
      else case read (need - length buf) s of
          (Inl _, s') \<Rightarrow> (buf, s')
        | (Inr got, s') \<Rightarrow> if got = [] then (buf, s') else read_body read need (buf @ got) s')"
  by pat_completeness auto
termination by (relation "measure (\<lambda>(read, need, buf, s). need - length buf)") (auto simp: neq_Nil_conv)

declare read_body.simps [simp del]

section \<open>Lemmas: responses\<close>

declare ascii_not_Nil [simp]

text \<open>
  A complete response: a status line, headers that include the two every answer carries and the length
  of the body, an empty line, and the body.
\<close>

definition response_ok :: "bytes \<Rightarrow> bool" where
  "response_ok r \<longleftrightarrow> (\<exists>status headers body.
     r = status @ crlf @ concat (map (\<lambda>h. h @ crlf) headers) @ crlf @ body \<and>
     take 9 status = ascii ''HTTP/1.1 '' \<and> http_line status \<and> list_all (\<lambda>h. http_line h \<and> h \<noteq> []) headers \<and>
     ascii ''Cache-Control: no-store'' \<in> set headers \<and> ascii ''Connection: close'' \<in> set headers \<and>
     ascii ''Content-Length: '' @ u32_decimal (of_nat (length body)) \<in> set headers)"

lemma response_okI:
  assumes "r = status @ crlf @ concat (map (\<lambda>h. h @ crlf) headers) @ crlf @ body"
    and "take 9 status = ascii ''HTTP/1.1 ''" and "http_line status" and "list_all (\<lambda>h. http_line h \<and> h \<noteq> []) headers"
    and "ascii ''Cache-Control: no-store'' \<in> set headers" and "ascii ''Connection: close'' \<in> set headers"
    and "ascii ''Content-Length: '' @ u32_decimal (of_nat (length body)) \<in> set headers"
  shows "response_ok r"
  unfolding response_ok_def using assms by blast

lemma literal_lines [simp]:
  "http_line (ascii ''HTTP/1.1 '')" "http_line (ascii '' '')" "http_line (ascii ''Content-Type: '')"
  "http_line (ascii ''Content-Length: '')" "http_line (ascii ''Connection: close'')" "http_line (ascii ''Location: '')"
  "http_line (ascii ''Cache-Control: no-store'')" "http_line text_plain" "http_line text_html"
  "http_line (ascii ''HTTP/1.1 302 Found'')" "http_line (ascii ''HTTP/1.1 500 Internal Server Error'')"
  "http_line (ascii ''Content-Length: 0'')"
  by (simp_all add: http_line_def ascii_def text_plain_def text_html_def)

lemma reason_line [simp]: "http_line (reason_phrase n)"
  by (subst reason_phrase.simps) (auto simp: http_line_def ascii_def)

lemma build_response_ok:
  assumes "build_response cap status ct body = Some r" and "http_line ct"
  shows "response_ok r" and "length r \<le> cap"
proof -
  have r: "r = (ascii ''HTTP/1.1 '' @ u32_decimal (ucast status) @ ascii '' '' @ reason_phrase (unat status)) @ crlf @
      concat (map (\<lambda>h. h @ crlf) [ascii ''Content-Type: '' @ ct, ascii ''Content-Length: '' @ u32_decimal (of_nat (length body)),
        ascii ''Connection: close'', ascii ''Cache-Control: no-store'']) @ crlf @ body"
    and l: "length r \<le> cap"
    using assms(1) by (auto simp: build_response_def write_all_Nil split: if_splits)
  show "response_ok r" by (rule response_okI [OF r]) (use assms(2) in simp_all)
  show "length r \<le> cap" by (rule l)
qed

lemma build_redirect_ok:
  assumes "build_redirect cap location = Some r" and "http_line location"
  shows "response_ok r" and "length r \<le> cap"
proof -
  have r: "r = ascii ''HTTP/1.1 302 Found'' @ crlf @ concat (map (\<lambda>h. h @ crlf) [ascii ''Location: '' @ location,
      ascii ''Content-Length: 0'', ascii ''Connection: close'', ascii ''Cache-Control: no-store'']) @ crlf @ []"
    and l: "length r \<le> cap"
    using assms(1) by (auto simp: build_redirect_def write_all_Nil split: if_splits)
  show "response_ok r"
    by (rule response_okI [OF r]) (use assms(2) in \<open>simp_all add: u32_decimal_def\<close>, simp_all add: ascii_def)
  show "length r \<le> cap" by (rule l)
qed

lemma minimal_500_ok: "response_ok MINIMAL_500"
proof -
  have "MINIMAL_500 = ascii ''HTTP/1.1 500 Internal Server Error'' @ crlf @ concat (map (\<lambda>h. h @ crlf)
      [ascii ''Content-Length: 0'', ascii ''Connection: close'', ascii ''Cache-Control: no-store'']) @ crlf @ []"
    by (simp add: MINIMAL_500_def)
  then show ?thesis by (rule response_okI) (simp_all add: u32_decimal_def, simp_all add: ascii_def)
qed

section \<open>Lemmas: the request parser\<close>

fun method_bytes :: "http_method \<Rightarrow> bytes" where
  "method_bytes Get = ascii ''GET''"
| "method_bytes Post = ascii ''POST''"

text \<open>A request as a client writes it, and a header line.\<close>

definition request_head :: "http_method \<Rightarrow> bytes \<Rightarrow> bytes" where
  "request_head m target = method_bytes m @ 0x20 # target @ 0x20 # ascii ''HTTP/1.1''"

definition request_bytes :: "http_method \<Rightarrow> bytes \<Rightarrow> bytes list \<Rightarrow> bytes \<Rightarrow> bytes" where
  "request_bytes m target headers body = request_head m target @ concat (map (\<lambda>h. crlf @ h) headers) @ crlf @ crlf @ body"

definition header_bytes :: "string \<Rightarrow> bytes \<Rightarrow> bytes" where
  "header_bytes name value = ascii name @ ascii '': '' @ value"

lemma strip_cr_line [simp]: "strip_cr (l @ [0x0D]) = l" "http_line l \<Longrightarrow> strip_cr l = l"
  by (auto simp: strip_cr_def http_line_def dest: last_in_set)

lemma split_lines:
  assumes "http_line l" and "list_all (\<lambda>h. http_line h \<and> h \<noteq> []) hs"
  shows "map strip_cr (split_on 0x0A (l @ concat (map (\<lambda>h. crlf @ h) hs))) = l # hs"
  using assms
proof (induction hs arbitrary: l)
  case Nil
  then show ?case by (simp add: split_on_piece http_line_def)
next
  case (Cons h hs)
  have "l @ concat (map (\<lambda>h. crlf @ h) (h # hs)) = (l @ [0x0D]) @ 0x0A # h @ concat (map (\<lambda>h. crlf @ h) hs)"
    by (simp add: crlf_def)
  moreover have "split_on 0x0A \<dots> = (l @ [0x0D]) # split_on 0x0A (h @ concat (map (\<lambda>h. crlf @ h) hs))"
    using Cons.prems(1) by (intro split_on_sep) (simp add: http_line_def)
  ultimately have "split_on 0x0A (l @ concat (map (\<lambda>h. crlf @ h) (h # hs))) = (l @ [0x0D]) # split_on 0x0A (h @ concat (map (\<lambda>h. crlf @ h) hs))"
    by (simp only:)
  moreover have "map strip_cr (split_on 0x0A (h @ concat (map (\<lambda>h. crlf @ h) hs))) = h # hs"
    using Cons.prems by (intro Cons.IH) simp_all
  ultimately show ?case by (simp only: list.map(2) strip_cr_line)
qed

lemma parse_request_head:
  assumes "target \<noteq> []" and "length target \<le> MAX_TARGET_LEN"
  shows "parse_request_line (request_head m target) = Inr (m, target)"
proof -
  have "position (\<lambda>b. b = 0x20) (method_bytes m @ 0x20 # target @ 0x20 # ascii ''HTTP/1.1'') = Some (length (method_bytes m))"
    by (rule position_append) (cases m; simp add: ascii_def)+
  moreover have "rposition (\<lambda>b. b = 0x20) (target @ 0x20 # ascii ''HTTP/1.1'') = Some (length target)"
    by (rule rposition_append) (simp_all add: ascii_def)
  moreover have "trim_ows (ascii ''HTTP/1.1'') = ascii ''HTTP/1.1''"
    by (intro trim_ows_id) (simp add: trimmed_def ascii_def is_ows_def)
  moreover have "method_bytes m = ascii ''POST'' \<Longrightarrow> m = Post" "method_bytes m = ascii ''GET'' \<longleftrightarrow> m = Get"
    by (cases m; simp add: ascii_def)+
  ultimately show ?thesis using assms by (cases m) (simp_all add: parse_request_line_def request_head_def ascii_def)
qed

text \<open>The parser sees the request line and the header lines, whatever follows them.\<close>

lemma parse_request_lines:
  assumes t: "target \<noteq> []" "length target \<le> MAX_TARGET_LEN" "http_line target"
    and hs: "list_all (\<lambda>h. http_line h \<and> h \<noteq> []) hs"
  shows "parse_request (request_bytes m target hs body) cap = (case feed_lines cap hs header_acc_new of
    Inl e \<Rightarrow> Inl e | Inr acc \<Rightarrow> Inr \<lparr>rq_method = m, rq_target = target, rq_headers = ha_headers acc\<rparr>)"
proof -
  have l: "http_line (request_head m target)"
    using t(3) by (cases m) (auto simp: request_head_def http_line_def ascii_def)
  let ?section = "request_head m target @ concat (map (\<lambda>h. crlf @ h) hs)"
  have "header_end (request_bytes m target hs body) = Some (length ?section)"
    using window_skip [of "request_head m target" "concat (map (\<lambda>h. crlf @ h) hs) @ crlf @ crlf @ body"] window_lines [OF hs] l
    by (simp add: header_end_def request_bytes_def http_line_def)
  moreover have "take (length ?section) (request_bytes m target hs body) = ?section" by (simp add: request_bytes_def)
  ultimately show ?thesis
    using split_lines [OF l hs] parse_request_head [OF t(1,2), of m] by (simp add: parse_request_def split: sum.splits)
qed

lemma parse_header_bytes:
  assumes n: "list_all (\<lambda>b. b \<noteq> 0x3A \<and> \<not> is_ows b) (ascii name)" "name \<noteq> []" and v: "trimmed v"
  shows "trim_ows (header_bytes name v) = header_bytes name v"
    and "parse_header_line (header_bytes name v) = Inr (ascii name, v)"
proof -
  have a: "ascii name \<noteq> []" using n(2) by (simp add: ascii_def)
  show "trim_ows (header_bytes name v) = header_bytes name v"
    using v n a by (intro trim_ows_id) (auto simp: trimmed_def header_bytes_def list_all_iff)
  have h: "header_bytes name v = ascii name @ 0x3A # 0x20 # v" by (simp add: header_bytes_def ascii_def)
  have "position (\<lambda>b. b = 0x3A) (header_bytes name v) = Some (length name)"
    unfolding h using position_append [of "\<lambda>b. b = 0x3A" "ascii name"] n(1) by (simp add: list_all_iff)
  moreover have "trim_ows (0x20 # v) = v" using trim_ows_trimmed [OF v, of "[0x20]"] by (simp add: is_ows_def)
  moreover have "ascii name ! (length name - 1) \<in> set (ascii name)" using n(2) by simp
  then have "ascii name ! (length name - 1) \<noteq> 0x20 \<and> ascii name ! (length name - 1) \<noteq> 0x09"
    using n(1) by (auto simp: list_all_iff is_ows_def)
  ultimately show "parse_header_line (header_bytes name v) = Inr (ascii name, v)"
    using n(2) by (simp add: parse_header_line_def h nth_append)
qed

lemma digits_trimmed: "list_all is_digit v \<Longrightarrow> v \<noteq> [] \<Longrightarrow> trimmed v"
proof -
  assume v: "list_all is_digit v" "v \<noteq> []"
  have "\<not> is_ows b" if "is_digit b" for b using that by (auto simp: is_digit_def is_ows_def)
  with v hd_in_set [OF v(2)] last_in_set [OF v(2)] show ?thesis by (auto simp: trimmed_def list_all_iff)
qed

lemma header_names:
  "list_all (\<lambda>b. b \<noteq> 0x3A \<and> \<not> is_ows b) (ascii ''Content-Length'')" "list_all (\<lambda>b. b \<noteq> 0x3A \<and> \<not> is_ows b) (ascii ''Host'')"
  "eq_ignore_case (ascii ''Content-Length'') (ascii ''content-length'')"
  "\<not> eq_ignore_case (ascii ''Host'') (ascii ''content-length'')" "eq_ignore_case (ascii ''Host'') (ascii ''host'')"
  by (simp_all add: eq_ignore_case_def is_ows_def to_lower_def ascii_def)

lemma feed_content_length:
  assumes v: "list_all is_digit v" "v \<noteq> []" "parse_u64 v = Some n" and seen: "\<not> ha_content_length_seen acc"
  shows "header_feed cap (header_bytes ''Content-Length'' v) acc =
    (if cap < unat (of_nat n :: u32) then Inl RequestTooLarge
     else Inr (acc\<lparr>ha_content_length_seen := True, ha_headers := (ha_headers acc)\<lparr>ph_content_length := Some (of_nat n)\<rparr>\<rparr>))"
  using parse_header_bytes [OF header_names(1) _ digits_trimmed [OF v(1,2)]] v seen header_names(3)
  by (simp add: header_feed_def Let_def header_bytes_def)

lemma feed_host:
  assumes "trimmed h"
  shows "header_feed cap (header_bytes ''Host'' h) acc = Inr (acc\<lparr>ha_headers := (ha_headers acc)\<lparr>ph_host := Some (take 256 h)\<rparr>\<rparr>)"
  using parse_header_bytes [OF header_names(2) _ assms] header_names(4,5) by (simp add: header_feed_def Let_def header_bytes_def)

lemma header_bytes_line: "http_line v \<Longrightarrow> http_line (header_bytes ''Content-Length'' v)" "http_line v \<Longrightarrow> http_line (header_bytes ''Host'' v)"
  "header_bytes name v \<noteq> []"
  by (auto simp: header_bytes_def http_line_def ascii_def)

section \<open>Lemmas: the nonce\<close>

lemma diff_zero:
  "length a = length b \<Longrightarrow> foldl (\<lambda>diff (a, b). or diff (xor a b)) d (zip a b) = 0 \<longleftrightarrow> (d :: u8) = 0 \<and> a = b"
proof (induction a b arbitrary: d rule: list_induct2)
  case (Cons x xs y ys)
  have "or d (xor x y) = 0 \<longleftrightarrow> d = 0 \<and> x = y"
    by (metis bit.xor_self or.left_neutral or_eq_0_iff xor.left_neutral xor.assoc xor.right_neutral)
  with Cons show ?case by auto
qed simp

text \<open>The form field by its definition: the first of the pairs whose name is \<open>key\<close>.\<close>

definition form_field :: "bytes \<Rightarrow> bytes \<Rightarrow> bytes option" where
  "form_field body key = map_option (drop (length key + 1)) (find (\<lambda>pair. take (length key + 1) pair = key @ [0x3D]) (split_on 0x26 body))"

lemma extract_skip:
  assumes "0 < a" and "a \<le> b" and "\<And>j. a \<le> j \<Longrightarrow> j < b \<Longrightarrow> j \<le> length body \<Longrightarrow> body ! (j - 1) \<noteq> 0x26"
  shows "extract_loop ke body a = extract_loop ke body b"
  using assms
proof (induction "b - a" arbitrary: a)
  case (Suc n)
  show ?case
  proof (cases "a + length ke \<le> length body")
    case True
    with Suc.prems Suc.hyps(2) have "body ! (a - 1) \<noteq> 0x26" by simp
    with Suc.prems(1) True have "extract_loop ke body a = extract_loop ke body (a + 1)"
      by (subst extract_loop.simps) simp
    with Suc show ?thesis by simp
  next
    case False
    then show ?thesis using Suc.prems(2) by (simp add: extract_loop.simps [of ke body a] extract_loop.simps [of ke body b])
  qed
qed simp

lemma extract_pieces:
  assumes "pre = [] \<or> last pre = 0x26" and k: "0x26 \<notin> set ke" "ke \<noteq> []"
  shows "extract_loop ke (pre @ rest) (length pre) =
    map_option (drop (length ke)) (find (\<lambda>pair. take (length ke) pair = ke) (split_on 0x26 rest))"
  using assms(1)
proof (induction "length rest" arbitrary: pre rest rule: less_induct)
  case less
  have start: "length pre = 0 \<or> (pre @ rest) ! (length pre - 1) = 0x26"
    using less.prems by (cases pre rule: rev_cases) (auto simp: nth_append)
  obtain p tail where rest: "rest = p @ tail" "0x26 \<notin> set p" "tail = [] \<or> (\<exists>rest'. tail = 0x26 # rest')"
    by (metis (mono_tags, lifting) append_Nil2 split_list_first)
  have pieces: "split_on 0x26 rest = p # (case tail of [] \<Rightarrow> [] | _ # rest' \<Rightarrow> split_on 0x26 rest')"
    using rest by (auto simp: split_on_piece split_on_sep)
  have within: "take (length ke) rest = ke \<longleftrightarrow> take (length ke) p = ke"
  proof (cases "length ke \<le> length p")
    case False
    have "take (length ke) rest \<noteq> ke"
    proof
      assume eq: "take (length ke) rest = ke"
      with False rest obtain rest' where "tail = 0x26 # rest'" by (cases tail) auto
      moreover have "ke ! length p = rest ! length p" using False nth_take [of "length p" "length ke" rest] eq by simp
      ultimately have "ke ! length p = 0x26" by (simp add: rest(1))
      moreover have "ke ! length p \<in> set ke" using False by simp
      ultimately show False using k(1) by simp
    qed
    moreover have "length (take (length ke) p) \<noteq> length ke" using False by simp
    ultimately show ?thesis by metis
  qed (simp add: rest)
  show ?case
  proof (cases "take (length ke) p = ke")
    case True
    then have l: "length ke \<le> length p" by (metis length_take min.cobounded1)
    have "0x26 \<notin> set (drop (length ke) p)" using rest(2) by (meson in_set_dropD)
    then have "(case position (\<lambda>b. b = 0x26) (drop (length ke) p @ tail) of Some q \<Rightarrow> take q (drop (length ke) p @ tail)
        | None \<Rightarrow> drop (length ke) p @ tail) = drop (length ke) p"
    proof (cases tail)
      case Nil
      with \<open>0x26 \<notin> set (drop (length ke) p)\<close> have "position (\<lambda>b. b = 0x26) (drop (length ke) p @ tail) = None"
        unfolding position_None by auto
      with Nil show ?thesis by simp
    next
      case (Cons c rest')
      with rest(3) have c: "tail = 0x26 # rest'" by simp
      have "position (\<lambda>b. b = 0x26) (drop (length ke) p @ tail) = Some (length (drop (length ke) p))"
        unfolding c by (rule position_append) (use \<open>0x26 \<notin> set (drop (length ke) p)\<close> in \<open>auto simp: list_all_iff\<close>)
      then show ?thesis by simp
    qed
    then show ?thesis using True l start within rest(1) pieces
      by (subst extract_loop.simps) (simp add: Let_def)
  next
    case False
    have "length pre + length p < length (pre @ rest) \<or> tail = []" using rest(1,3) by auto
    have step: "extract_loop ke (pre @ rest) (length pre) = extract_loop ke (pre @ rest) (length pre + 1)"
      using False within k(2) by (subst extract_loop.simps) (auto simp: extract_loop.simps [of _ _ "Suc (length pre)"])
    have clear: "(pre @ rest) ! (j - 1) \<noteq> 0x26" if "length pre + 1 \<le> j" "j < length pre + length p + 1" for j
    proof -
      have "(pre @ rest) ! (j - 1) = p ! (j - 1 - length pre)" using that rest(1) by (auto simp: nth_append)
      moreover have "j - 1 - length pre < length p" using that by auto
      ultimately show ?thesis using rest(2) by (metis nth_mem)
    qed
    have skip: "extract_loop ke (pre @ rest) (length pre) = extract_loop ke (pre @ rest) (length pre + length p + 1)"
      unfolding step by (rule extract_skip) (use clear in auto)
    show ?thesis
    proof (cases tail)
      case Nil
      with rest(1) k(2) have "extract_loop ke (pre @ rest) (length pre + length p + 1) = None"
        by (subst extract_loop.simps) simp
      with skip False pieces Nil show ?thesis by simp
    next
      case (Cons c rest')
      with rest have c: "rest = p @ 0x26 # rest'" by auto
      have "extract_loop ke ((pre @ p @ [0x26]) @ rest') (length (pre @ p @ [0x26])) =
          map_option (drop (length ke)) (find (\<lambda>pair. take (length ke) pair = ke) (split_on 0x26 rest'))"
        by (rule less.hyps) (use c in simp_all)
      with skip False pieces Cons c show ?thesis by simp
    qed
  qed
qed

lemma extract_form_field_eq:
  assumes "0x26 \<notin> set key" and "length key < 64"
  shows "extract_form_field body key = form_field body key"
  using extract_pieces [of "[]" "key @ [0x3D]" body] assms by (simp add: extract_form_field_def form_field_def)

lemma nonce_field: "nonce_matches body expected \<longleftrightarrow> form_field body (ascii ''_nonce'') = Some expected"
proof -
  have "extract_form_field body (ascii ''_nonce'') = form_field body (ascii ''_nonce'')"
    by (intro extract_form_field_eq) (simp_all add: ascii_def)
  then show ?thesis by (auto simp: nonce_matches_def diff_zero split: option.splits)
qed

section \<open>Lemmas: reading from the socket\<close>

locale socket_contract =
  fixes read :: "'s sock_read"
  assumes read_at_most: "fst (read n s) = Inr got \<Longrightarrow> length got \<le> n"
begin

lemma read_request_length:
  "length present \<le> buf_len \<Longrightarrow> fst (read_request read buf_len cap present s) = Inr buf \<Longrightarrow>
    length buf \<le> buf_len \<and> header_end buf \<noteq> None"
proof (induction "min buf_len cap - length present" arbitrary: present s rule: less_induct)
  case less
  show ?case
  proof (cases "min buf_len cap \<le> length present")
    case True
    with less.prems(2) show ?thesis by (subst (asm) read_request.simps) simp
  next
    case False
    obtain r s' where r: "read (buf_len - length present) s = (r, s')" by fastforce
    with False less.prems(2) obtain got where got: "r = Inr got" "got \<noteq> []"
      by (subst (asm) read_request.simps) (auto split: sum.splits if_splits)
    have l: "length (present @ got) \<le> buf_len" using read_at_most [of "buf_len - length present" s got] r got(1) less.prems(1) by simp
    show ?thesis
    proof (cases "header_end (present @ got)")
      case None
      then have "fst (read_request read buf_len cap (present @ got) s') = Inr buf"
        using less.prems(2) False r got by (subst (asm) read_request.simps) simp
      with less.hyps [of "present @ got" s'] l False got(2) show ?thesis by (auto simp: neq_Nil_conv)
    next
      case (Some n)
      then show ?thesis using less.prems(2) False r got l by (subst (asm) read_request.simps) auto
    qed
  qed
qed

lemma read_body_length:
  "length (fst (read_body read need buf s)) \<le> max need (length buf) \<and> take (length buf) (fst (read_body read need buf s)) = buf"
proof (induction "need - length buf" arbitrary: buf s rule: less_induct)
  case less
  show ?case
  proof (cases "need \<le> length buf")
    case False
    obtain r s' where r: "read (need - length buf) s = (r, s')" by fastforce
    show ?thesis
    proof (cases "\<exists>got. r = Inr got \<and> got \<noteq> []")
      case True
      then obtain got where got: "r = Inr got" "got \<noteq> []" by blast
      have l: "length got \<le> need - length buf" using read_at_most [of "need - length buf" s got] r got(1) by simp
      let ?out = "fst (read_body read need (buf @ got) s')"
      have "need - length (buf @ got) < need - length buf" using False got(2) by (cases got) simp_all
      note IH = less.hyps [OF this, of s']
      have "max need (length (buf @ got)) = need" using l False by simp
      with IH have "length ?out \<le> need" by simp
      moreover have "take (length buf) ?out = take (length buf) (take (length (buf @ got)) ?out)" by simp
      then have "take (length buf) ?out = buf" unfolding IH [THEN conjunct2] by simp
      ultimately show ?thesis using False r got by (subst (1 2) read_body.simps) simp
    next
      case closed: False
      with False r show ?thesis by (subst (1 2) read_body.simps) (auto split: sum.splits)
    qed
  qed (simp add: read_body.simps)
qed

end

text \<open>A connection over which the peer has sent a list of segments and then closed.\<close>

definition segment_read :: "bytes list sock_read" where
  "segment_read n segs = (case segs of
       [] \<Rightarrow> (Inr [], [])
     | seg # rest \<Rightarrow> if length seg \<le> n then (Inr seg, rest) else (Inr (take n seg), drop n seg # rest))"

interpretation segments: socket_contract segment_read
proof
  fix n segs got
  assume r: "fst (segment_read n segs) = Inr got"
  show "length got \<le> n"
  proof (cases segs)
    case Nil
    with r show ?thesis by (simp add: segment_read_def)
  next
    case (Cons seg rest)
    with r have "got = (if length seg \<le> n then seg else take n seg)"
      by (cases "length seg \<le> n") (simp_all add: segment_read_def)
    then show ?thesis by simp
  qed
qed

section \<open>Properties\<close>

text \<open>
  A request is read back as it was written: method, target, host and body length, for every target
  and host the client may send, and whatever bytes the body holds.
\<close>

theorem request_roundtrip:
  assumes "target \<noteq> []" and "length target \<le> MAX_TARGET_LEN" and "http_line target"
    and "trimmed host" and "http_line host" and "length host \<le> 256" and "unat n \<le> cap"
  shows "parse_request (request_bytes m target [header_bytes ''Host'' host, header_bytes ''Content-Length'' (u32_decimal n)] body) cap =
    Inr \<lparr>rq_method = m, rq_target = target,
      rq_headers = \<lparr>ph_host = Some host, ph_content_length = Some n, ph_content_type = None\<rparr>\<rparr>"
  using assms u32_decimal_digits [of n]
  by (subst parse_request_lines)
    (simp_all add: header_bytes_line feed_host feed_content_length parse_u32_decimal header_acc_new_def)

theorem request_roundtrip_witness:
  "parse_request (request_bytes Post (ascii ''/save'') [header_bytes ''Host'' (ascii ''192.168.4.1''),
      header_bytes ''Content-Length'' (u32_decimal 4)] (ascii ''a=b'' @ crlf @ crlf)) 2048 =
    Inr \<lparr>rq_method = Post, rq_target = ascii ''/save'',
      rq_headers = \<lparr>ph_host = Some (ascii ''192.168.4.1''), ph_content_length = Some 4, ph_content_type = None\<rparr>\<rparr>"
  by (rule request_roundtrip) (simp_all add: ascii_def MAX_TARGET_LEN_def http_line_def trimmed_def is_ows_def)

text \<open>
  The constant-time loop over the raw body computes the check it stands for: it accepts exactly when
  the first field named \<^verbatim>\<open>_nonce\<close> of the body has the session's nonce as its value.
\<close>

theorem nonce_check_exact:
  "nonce_matches body expected \<longleftrightarrow> form_field body (ascii ''_nonce'') = Some expected"
  by (rule nonce_field)

text \<open>
  C32: a \<^verbatim>\<open>Content-Length\<close> of 2^32 and more escapes the size limit.  The announced length is cut to 32 bits
  before it is compared, so a request that announces a multiple of 2^32 and a small rest is accepted,
  with the rest as its length, where 413 was due.
\<close>

theorem huge_content_length_accepted:
  assumes "target \<noteq> []" and "length target \<le> MAX_TARGET_LEN" and "http_line target"
    and v: "list_all is_digit v" "v \<noteq> []" "parse_u64 v = Some n" and "n mod 2 ^ 32 \<le> cap"
  shows "parse_request (request_bytes m target [header_bytes ''Content-Length'' v] body) cap =
    Inr \<lparr>rq_method = m, rq_target = target,
      rq_headers = \<lparr>ph_host = None, ph_content_length = Some (of_nat (n mod 2 ^ 32)), ph_content_type = None\<rparr>\<rparr>"
proof -
  have "unat (of_nat n :: u32) = n mod 2 ^ 32" by (simp add: unsigned_of_nat take_bit_eq_mod)
  moreover have "(of_nat (n mod 2 ^ 32) :: u32) = of_nat n" by (simp add: word_of_nat_eq_iff take_bit_eq_mod)
  ultimately show ?thesis
    using assms digits_line [OF v(1)]
    by (subst parse_request_lines) (simp_all add: header_bytes_line feed_content_length header_acc_new_def)
qed

theorem huge_content_length_accepted_witness:
  "parse_request (request_bytes Post (ascii ''/save'') [header_bytes ''Content-Length'' (ascii ''4294967300'')] []) 2048 =
    Inr \<lparr>rq_method = Post, rq_target = ascii ''/save'',
      rq_headers = \<lparr>ph_host = None, ph_content_length = Some (of_nat (4294967300 mod 2 ^ 32)), ph_content_type = None\<rparr>\<rparr>"
  by (rule huge_content_length_accepted)
    (simp_all add: ascii_def MAX_TARGET_LEN_def http_line_def is_digit_def parse_u64_def)

end
