(* ===== verification/Portal_Session.thy ===== *)
theory Portal_Session
  imports Portal_Record
begin

text \<open>
  The shared state of a provisioning session (\<^verbatim>\<open>juggler/src/provisioning/state.rs\<close>, \<^verbatim>\<open>session.rs\<close> and
  \<^verbatim>\<open>reentry.rs\<close>): the state machine, the locked transitions, and the two blocking waits.

  A wait is a loop around a condition variable.  One turn of the loop is a function on the state under
  the lock; between two turns the waiter sleeps without the lock.  A system is the session with a clock
  and any number of waiters, and its events are the atomic pieces of the code: a transition, the entry
  of a wait, a wake-up of a sleeper (the standard library allows one at any time) and the turn after the
  lock was taken again.  A list of events is one interleaving, so the properties hold for all of them.

  The only code that panics with the lock held is the addition of a timeout to \<^verbatim>\<open>Instant::now()\<close>; it
  poisons the mutex.  The largest instant is a parameter.
\<close>

section \<open>Model: the state machine\<close>

datatype provisioning_state = AwaitingSubmission | Persisting | Committed | FactoryResetPending

datatype provisioning_input = ValidSubmission | InvalidSubmission | PersistOk | PersistFailed | FactoryReset

record invalid_transition =
  it_state :: provisioning_state
  it_input :: provisioning_input

fun ps_apply :: "provisioning_state \<Rightarrow> provisioning_input \<Rightarrow> invalid_transition + provisioning_state" where
  "ps_apply AwaitingSubmission ValidSubmission = Inr Persisting"
| "ps_apply AwaitingSubmission InvalidSubmission = Inr AwaitingSubmission"
| "ps_apply AwaitingSubmission FactoryReset = Inr FactoryResetPending"
| "ps_apply Persisting PersistOk = Inr Committed"
| "ps_apply Persisting PersistFailed = Inr AwaitingSubmission"
| "ps_apply s i = Inl \<lparr>it_state = s, it_input = i\<rparr>"

fun ps_as_str :: "provisioning_state \<Rightarrow> string" where
  "ps_as_str AwaitingSubmission = ''awaiting_submission''"
| "ps_as_str Persisting = ''persisting''"
| "ps_as_str Committed = ''committed''"
| "ps_as_str FactoryResetPending = ''factory_reset_pending''"

datatype wait_resolution = ResolvedCommitted | ResolvedFactoryReset | Pending

fun resolve_wait :: "provisioning_state \<Rightarrow> wait_resolution" where
  "resolve_wait Committed = ResolvedCommitted"
| "resolve_wait FactoryResetPending = ResolvedFactoryReset"
| "resolve_wait _ = Pending"

datatype reentry_request = NoReentry | ReenterPortal | ReenterFactoryReset

datatype 'a reentry_gate = GatePortal | GateFactoryReset | Proceed 'a

text \<open>\<open>hook\<close> and \<open>open_store\<close> act on the world, so whether they run is part of the result.\<close>

definition gate_reentry :: "('w, 'e, reentry_request) prog \<Rightarrow> ('w, 'e, 'a) prog \<Rightarrow> ('w, 'e, 'a reentry_gate) prog" where
  "gate_reentry hook open_store = andThen hook (\<lambda>r. case r of
       ReenterPortal \<Rightarrow> ok GatePortal
     | ReenterFactoryReset \<Rightarrow> ok GateFactoryReset
     | NoReentry \<Rightarrow> andThen open_store (\<lambda>x. ok (Proceed x)))"

section \<open>Model: the session\<close>

text \<open>An instant is a number of nanoseconds.\<close>

type_synonym instant = nat

datatype session_outcome = OutcomeCommitted | FactoryResetRequested | TimedOut

record state_inner =
  si_state :: provisioning_state
  si_committed :: "provisioning_config option"

record session_state =
  ss_inner :: state_inner
  ss_poisoned :: bool
  ss_start :: instant

definition session_new :: "instant \<Rightarrow> session_state" where
  "session_new now = \<lparr>ss_inner = \<lparr>si_state = AwaitingSubmission, si_committed = None\<rparr>,
     ss_poisoned = False, ss_start = now\<rparr>"

definition ss_current :: "session_state \<Rightarrow> provisioning_state" where
  "ss_current s = (if ss_poisoned s then AwaitingSubmission else si_state (ss_inner s))"

definition uptime_secs :: "instant \<Rightarrow> session_state \<Rightarrow> nat" where
  "uptime_secs now s = (now - ss_start s) div 1000000000"

text \<open>The second component says whether \<^verbatim>\<open>notify_all\<close> ran.\<close>

definition ss_transition :: "provisioning_input \<Rightarrow> bool \<Rightarrow> (state_inner \<Rightarrow> state_inner) \<Rightarrow> session_state \<Rightarrow>
    (invalid_transition + provisioning_state) \<times> bool \<times> session_state" where
  "ss_transition input wake on_accept s =
     (if ss_poisoned s then (Inl \<lparr>it_state = si_state (ss_inner s), it_input = input\<rparr>, False, s)
      else case ps_apply (si_state (ss_inner s)) input of
          Inr nxt \<Rightarrow> (Inr nxt, wake, s\<lparr>ss_inner := (on_accept (ss_inner s))\<lparr>si_state := nxt\<rparr>\<rparr>)
        | Inl t \<Rightarrow> (Inl t, False, s))"

definition ss_apply :: "provisioning_input \<Rightarrow> session_state \<Rightarrow>
    (invalid_transition + provisioning_state) \<times> bool \<times> session_state" where
  "ss_apply input = ss_transition input False (\<lambda>inner. inner)"

definition apply_and_notify :: "provisioning_input \<Rightarrow> session_state \<Rightarrow>
    (invalid_transition + provisioning_state) \<times> bool \<times> session_state" where
  "apply_and_notify input = ss_transition input True (\<lambda>inner. inner)"

definition ss_commit :: "provisioning_config \<Rightarrow> session_state \<Rightarrow> (invalid_transition + unit) \<times> bool \<times> session_state" where
  "ss_commit config s =
     (case ss_transition PersistOk True (\<lambda>inner. inner\<lparr>si_committed := Some config\<rparr>) s of
        (r, woken, s') \<Rightarrow> (map_sum (\<lambda>t. t) (\<lambda>_. ()) r, woken, s'))"

section \<open>Model: the waits\<close>

text \<open>One turn of the loop, with the lock held: it returns, or waits on the condition variable, with a bound or without.\<close>

datatype 'r turn = Return 'r | WaitFor "duration option"

definition pending_turn :: "'r \<Rightarrow> instant \<Rightarrow> instant option \<Rightarrow> 'r turn" where
  "pending_turn timed_out now deadline =
     (case deadline of
        None \<Rightarrow> WaitFor None
      | Some d \<Rightarrow> let remaining = d - now in if remaining = 0 then Return timed_out else WaitFor (Some remaining))"

definition wait_committed_turn :: "instant \<Rightarrow> instant option \<Rightarrow> state_inner \<Rightarrow>
    provisioning_config option turn \<times> state_inner" where
  "wait_committed_turn now deadline inner =
     (if resolve_wait (si_state inner) = ResolvedCommitted
      then (Return (si_committed inner), inner\<lparr>si_committed := None\<rparr>)
      else (pending_turn None now deadline, inner))"

definition wait_outcome_turn :: "instant \<Rightarrow> instant option \<Rightarrow> state_inner \<Rightarrow> session_outcome turn \<times> state_inner" where
  "wait_outcome_turn now deadline inner =
     (case resolve_wait (si_state inner) of
        ResolvedCommitted \<Rightarrow> (Return OutcomeCommitted, inner)
      | ResolvedFactoryReset \<Rightarrow> (Return FactoryResetRequested, inner)
      | Pending \<Rightarrow> (pending_turn TimedOut now deadline, inner))"

datatype wait_call = WaitCommitted | WaitOutcome

datatype wait_result = ConfigResult "provisioning_config option" | OutcomeResult session_outcome

fun map_turn :: "('a \<Rightarrow> 'b) \<Rightarrow> 'a turn \<Rightarrow> 'b turn" where
  "map_turn f (Return r) = Return (f r)"
| "map_turn f (WaitFor b) = WaitFor b"

fun wait_turn :: "wait_call \<Rightarrow> instant \<Rightarrow> instant option \<Rightarrow> state_inner \<Rightarrow> wait_result turn \<times> state_inner" where
  "wait_turn WaitCommitted now deadline inner = map_prod (map_turn ConfigResult) (\<lambda>i. i) (wait_committed_turn now deadline inner)"
| "wait_turn WaitOutcome now deadline inner = map_prod (map_turn OutcomeResult) (\<lambda>i. i) (wait_outcome_turn now deadline inner)"

text \<open>What a wait returns when the mutex is poisoned: it is treated as a timeout.\<close>

fun give_up :: "wait_call \<Rightarrow> wait_result" where
  "give_up WaitCommitted = ConfigResult None"
| "give_up WaitOutcome = OutcomeResult TimedOut"

text \<open>
  Where a waiter is: not called yet (with its timeout), asleep in the condition variable with its deadline
  and the instant its bounded sleep ends, awake and about to take the lock, or back from the call.
\<close>

datatype phase = Calling "duration option" | Sleeping "instant option" "instant option" | Awake "instant option"
  | Returned wait_result | Panicked

record waiter =
  wt_call :: wait_call
  wt_phase :: phase

record portal_system =
  sy_session :: session_state
  sy_now :: instant
  sy_waiters :: "waiter list"

definition run_turn :: "wait_call \<Rightarrow> instant option \<Rightarrow> instant \<Rightarrow> session_state \<Rightarrow> phase \<times> session_state" where
  "run_turn call deadline now s =
     (if ss_poisoned s then (Returned (give_up call), s)
      else case wait_turn call now deadline (ss_inner s) of (t, inner) \<Rightarrow>
        ((case t of Return r \<Rightarrow> Returned r | WaitFor b \<Rightarrow> Sleeping deadline (map_option (\<lambda>r. now + r) b)),
         s\<lparr>ss_inner := inner\<rparr>))"

definition enter_wait :: "instant \<Rightarrow> wait_call \<Rightarrow> duration option \<Rightarrow> instant \<Rightarrow> session_state \<Rightarrow> phase \<times> session_state" where
  "enter_wait max_instant call timeout now s =
     (if ss_poisoned s then (Returned (give_up call), s)
      else case timeout of
          None \<Rightarrow> run_turn call None now s
        | Some t \<Rightarrow> if max_instant < now + t then (Panicked, s\<lparr>ss_poisoned := True\<rparr>)
                   else run_turn call (Some (now + t)) now s)"

datatype session_event = Apply provisioning_input | ApplyAndNotify provisioning_input | Commit provisioning_config
  | Advance duration | Call nat | WakeUp nat | Reacquire nat

definition wake_waiter :: "waiter \<Rightarrow> waiter" where
  "wake_waiter w = (case wt_phase w of Sleeping d u \<Rightarrow> w\<lparr>wt_phase := Awake d\<rparr> | _ \<Rightarrow> w)"

definition after_transition :: "bool \<times> session_state \<Rightarrow> portal_system \<Rightarrow> portal_system" where
  "after_transition r sys = sys\<lparr>sy_session := snd r,
     sy_waiters := (if fst r then map wake_waiter (sy_waiters sys) else sy_waiters sys)\<rparr>"

definition set_waiter :: "nat \<Rightarrow> phase \<times> session_state \<Rightarrow> portal_system \<Rightarrow> portal_system" where
  "set_waiter i r sys = sys\<lparr>sy_session := snd r, sy_waiters := (sy_waiters sys)[i := (sy_waiters sys ! i)\<lparr>wt_phase := fst r\<rparr>]\<rparr>"

text \<open>The output of an event is the configuration a \<^verbatim>\<open>commit\<close> accepted.\<close>

fun session_step :: "instant \<Rightarrow> portal_system \<Rightarrow> session_event \<Rightarrow> provisioning_config option \<times> portal_system" where
  "session_step m sys (Apply i) = (None, after_transition (snd (ss_apply i (sy_session sys))) sys)"
| "session_step m sys (ApplyAndNotify i) = (None, after_transition (snd (apply_and_notify i (sy_session sys))) sys)"
| "session_step m sys (Commit c) = (case ss_commit c (sy_session sys) of (r, r') \<Rightarrow>
     ((case r of Inr _ \<Rightarrow> Some c | Inl _ \<Rightarrow> None), after_transition r' sys))"
| "session_step m sys (Advance d) = (None, sys\<lparr>sy_now := sy_now sys + d\<rparr>)"
| "session_step m sys (Call i) = (None,
     if i < length (sy_waiters sys) then case sy_waiters sys ! i of w \<Rightarrow>
       (case wt_phase w of Calling t \<Rightarrow> set_waiter i (enter_wait m (wt_call w) t (sy_now sys) (sy_session sys)) sys | _ \<Rightarrow> sys)
     else sys)"
| "session_step m sys (WakeUp i) = (None,
     if i < length (sy_waiters sys) then sys\<lparr>sy_waiters := (sy_waiters sys)[i := wake_waiter (sy_waiters sys ! i)]\<rparr> else sys)"
| "session_step m sys (Reacquire i) = (None,
     if i < length (sy_waiters sys) then case sy_waiters sys ! i of w \<Rightarrow>
       (case wt_phase w of Awake d \<Rightarrow> set_waiter i (run_turn (wt_call w) d (sy_now sys) (sy_session sys)) sys | _ \<Rightarrow> sys)
     else sys)"

definition fresh_system :: "portal_system \<Rightarrow> bool" where
  "fresh_system sys \<longleftrightarrow> sy_session sys = session_new (sy_now sys) \<and>
     list_all (\<lambda>w. case wt_phase w of Calling _ \<Rightarrow> True | _ \<Rightarrow> False) (sy_waiters sys)"

text \<open>The configurations the waits returned, in the order of the waiters, and the one still stored.\<close>

definition config_of_phase :: "phase \<Rightarrow> provisioning_config list" where
  "config_of_phase p = (case p of Returned (ConfigResult (Some c)) \<Rightarrow> [c] | _ \<Rightarrow> [])"

definition delivered :: "portal_system \<Rightarrow> provisioning_config list" where
  "delivered sys = concat (map (config_of_phase \<circ> wt_phase) (sy_waiters sys))"

definition undelivered :: "portal_system \<Rightarrow> provisioning_config list" where
  "undelivered sys = (case si_committed (ss_inner (sy_session sys)) of None \<Rightarrow> [] | Some c \<Rightarrow> [c])"

definition accepted :: "instant \<Rightarrow> portal_system \<Rightarrow> session_event list \<Rightarrow> provisioning_config list" where
  "accepted m sys es = concat (map (\<lambda>r. case r of None \<Rightarrow> [] | Some c \<Rightarrow> [c]) (run_outputs (session_step m) sys es))"

text \<open>
  The documented use: \<^verbatim>\<open>PersistOk\<close> is driven by \<^verbatim>\<open>commit\<close> only, and a factory reset by
  \<^verbatim>\<open>apply_and_notify\<close>.
\<close>

fun by_commit :: "session_event \<Rightarrow> bool" where
  "by_commit (Apply i) \<longleftrightarrow> i \<noteq> PersistOk"
| "by_commit (ApplyAndNotify i) \<longleftrightarrow> i \<noteq> PersistOk"
| "by_commit _ \<longleftrightarrow> True"

fun notifying :: "session_event \<Rightarrow> bool" where
  "notifying (Apply i) \<longleftrightarrow> i \<noteq> PersistOk \<and> i \<noteq> FactoryReset"
| "notifying _ \<longleftrightarrow> True"

section \<open>Lemmas: the machine and the transitions\<close>

fun_cases ps_apply_InrE: "ps_apply s i = Inr t"

lemma terminal_refuses: "resolve_wait s \<noteq> Pending \<Longrightarrow> ps_apply s i = Inl \<lparr>it_state = s, it_input = i\<rparr>"
  by (cases s; cases i) auto

lemma apply_Committed: "ps_apply s i = Inr Committed \<Longrightarrow> s = Persisting \<and> i = PersistOk"
  by (auto elim: ps_apply_InrE)

lemma transition_cases:
  obtains (refused) t where "ss_transition i wk f s = (Inl t, False, s)"
      and "ss_poisoned s \<or> (\<exists>t. ps_apply (si_state (ss_inner s)) i = Inl t)"
    | (moved) n where "\<not> ss_poisoned s" and "ps_apply (si_state (ss_inner s)) i = Inr n"
      and "ss_transition i wk f s = (Inr n, wk, s\<lparr>ss_inner := (f (ss_inner s))\<lparr>si_state := n\<rparr>\<rparr>)"
  by (cases "ss_poisoned s"; cases "ps_apply (si_state (ss_inner s)) i") (auto simp: ss_transition_def)

definition payload :: "session_state \<Rightarrow> provisioning_config list" where
  "payload s = (case si_committed (ss_inner s) of None \<Rightarrow> [] | Some c \<Rightarrow> [c])"

lemma undelivered_payload: "undelivered sys = payload (sy_session sys)"
  by (simp add: undelivered_def payload_def)

lemma run_turn_payload:
  "config_of_phase (fst (run_turn call d now s)) @ payload (snd (run_turn call d now s)) = payload s"
  by (cases call) (auto simp: run_turn_def config_of_phase_def payload_def wait_committed_turn_def wait_outcome_turn_def
      pending_turn_def Let_def split: option.splits prod.splits wait_resolution.splits)

lemma run_turn_state [simp]:
  "si_state (ss_inner (snd (run_turn call d now s))) = si_state (ss_inner s)"
  "ss_poisoned (snd (run_turn call d now s)) = ss_poisoned s"
  by (cases call; auto simp: run_turn_def wait_committed_turn_def wait_outcome_turn_def
      split: prod.splits wait_resolution.splits)+

lemma config_give_up [simp]: "config_of_phase (Returned (give_up call)) = []"
  by (cases call) (simp_all add: config_of_phase_def)

lemma config_Panicked [simp]: "config_of_phase Panicked = []"
  by (simp add: config_of_phase_def)

lemma payload_poisoned [simp]: "payload (ss_poisoned_update f s) = payload s"
  by (simp add: payload_def)

lemma enter_payload:
  "config_of_phase (fst (enter_wait m call t now s)) @ payload (snd (enter_wait m call t now s)) = payload s"
  using run_turn_payload [of call None now s] run_turn_payload [of call "Some (now + the t)" now s]
  by (cases t) (simp_all add: enter_wait_def)

lemma enter_state [simp]: "si_state (ss_inner (snd (enter_wait m call t now s))) = si_state (ss_inner s)"
  by (auto simp: enter_wait_def split: option.splits)

lemma config_wake [simp]: "config_of_phase (wt_phase (wake_waiter w)) = config_of_phase (wt_phase w)"
  by (auto simp: wake_waiter_def config_of_phase_def split: phase.splits)

lemma after_transition_simps [simp]:
  "delivered (after_transition r sys) = delivered sys"
  "undelivered (after_transition r sys) = payload (snd r)"
  "sy_session (after_transition r sys) = snd r"
  "sy_now (after_transition r sys) = sy_now sys"
  "length (sy_waiters (after_transition r sys)) = length (sy_waiters sys)"
  by (simp_all add: after_transition_def delivered_def undelivered_payload o_def)

lemma concat_update_empty:
  assumes "concat (map f xs) = []" and "i < length xs"
  shows "concat (map f (xs[i := x])) = f x"
  using assms by (induction xs arbitrary: i) (auto split: nat.splits)

lemma concat_update_same:
  assumes "f x = f (xs ! i)"
  shows "concat (map f (xs[i := x])) = concat (map f xs)"
  using assms by (metis list_update_id map_update)

section \<open>Lemmas: every accepted configuration is delivered or stored\<close>

text \<open>\<open>acc\<close> is what the commits accepted so far.\<close>

definition conserved :: "portal_system \<Rightarrow> provisioning_config list \<Rightarrow> bool" where
  "conserved sys acc \<longleftrightarrow> delivered sys @ undelivered sys = acc \<and> length acc \<le> 1 \<and>
     (si_state (ss_inner (sy_session sys)) = Committed \<longleftrightarrow> acc \<noteq> [])"

lemma conserved_set_waiter:
  assumes C: "conserved sys acc" and i: "i < length (sy_waiters sys)"
    and old: "config_of_phase (wt_phase (sy_waiters sys ! i)) = []"
    and pay: "config_of_phase p @ payload s = payload (sy_session sys)"
    and st: "si_state (ss_inner s) = si_state (ss_inner (sy_session sys))"
  shows "conserved (set_waiter i (p, s) sys) acc"
proof (cases "config_of_phase p")
  case Nil
  then have "delivered (set_waiter i (p, s) sys) = delivered sys"
    unfolding delivered_def set_waiter_def using old by (simp add: concat_update_same)
  with Nil C pay st show ?thesis by (simp add: conserved_def undelivered_payload set_waiter_def)
next
  case (Cons c cs)
  with pay C have "delivered sys = []"
    by (cases "delivered sys") (auto simp: conserved_def undelivered_payload split: list.splits)
  then have "delivered (set_waiter i (p, s) sys) = config_of_phase p"
    unfolding delivered_def set_waiter_def using i by (simp add: concat_update_empty)
  with \<open>delivered sys = []\<close> C pay st show ?thesis by (simp add: conserved_def undelivered_payload set_waiter_def)
qed

lemma conserved_transition:
  assumes C: "conserved sys acc" and i: "i \<noteq> PersistOk"
  shows "conserved (after_transition (snd (ss_transition i wk (\<lambda>inner. inner) (sy_session sys))) sys) acc"
proof (cases rule: transition_cases [of i wk "\<lambda>inner. inner" "sy_session sys"])
  case (refused t)
  with C show ?thesis by (simp add: conserved_def undelivered_payload)
next
  case (moved n)
  have n: "n \<noteq> Committed" using moved(2) i by (auto dest: apply_Committed)
  have "si_state (ss_inner (sy_session sys)) \<noteq> Committed" using moved(2) by (auto elim: ps_apply_InrE)
  with C n show ?thesis unfolding moved(3) by (auto simp: conserved_def undelivered_payload payload_def)
qed

lemma conserved_commit:
  assumes C: "conserved sys acc"
  shows "conserved (snd (session_step m sys (Commit c))) (acc @ (case fst (session_step m sys (Commit c)) of None \<Rightarrow> [] | Some c \<Rightarrow> [c]))"
proof (cases rule: transition_cases [of PersistOk True "\<lambda>inner. inner\<lparr>si_committed := Some c\<rparr>" "sy_session sys"])
  case (refused t)
  with C show ?thesis by (simp add: ss_commit_def conserved_def undelivered_payload)
next
  case (moved n)
  then have n: "n = Committed" and "si_state (ss_inner (sy_session sys)) \<noteq> Committed" by (auto elim: ps_apply_InrE)
  with C have "acc = []" and "delivered sys = []" by (auto simp: conserved_def)
  with n show ?thesis unfolding session_step.simps ss_commit_def moved(3) by (simp add: conserved_def payload_def)
qed

lemma conserved_step:
  assumes C: "conserved sys acc" and e: "by_commit e"
  shows "conserved (snd (session_step m sys e)) (acc @ (case fst (session_step m sys e) of None \<Rightarrow> [] | Some c \<Rightarrow> [c]))"
proof (cases e)
  case (Commit c)
  with conserved_commit [OF C] show ?thesis by simp
next
  case (Call i)
  with C show ?thesis
    by (auto simp: prod.collapse intro!: conserved_set_waiter [of sys acc i "fst r" "snd r" for r, unfolded prod.collapse] enter_payload
        split: phase.splits) (simp add: config_of_phase_def)
next
  case (Reacquire i)
  with C show ?thesis
    by (auto simp: prod.collapse intro!: conserved_set_waiter [of sys acc i "fst r" "snd r" for r, unfolded prod.collapse] run_turn_payload
        split: phase.splits) (simp add: config_of_phase_def)
next
  case (WakeUp i)
  with C show ?thesis by (simp add: conserved_def delivered_def undelivered_def concat_update_same)
next
  case (Advance d)
  with C show ?thesis by (simp add: conserved_def delivered_def undelivered_def)
qed (use conserved_transition [OF C] e in \<open>simp_all add: ss_apply_def apply_and_notify_def\<close>)

lemma conserved_run:
  assumes "conserved sys acc" and "list_all by_commit es"
  shows "conserved (run_state (session_step m) sys es) (acc @ accepted m sys es)"
  using assms
proof (induction es arbitrary: sys acc)
  case (Cons e es)
  then show ?case using conserved_step [of sys acc e m] by (simp add: accepted_def) (metis append.assoc)
qed (simp add: accepted_def)

lemma fresh_conserved: "fresh_system sys \<Longrightarrow> conserved sys []"
  by (auto simp: fresh_system_def conserved_def delivered_def undelivered_def session_new_def list_all_iff
      config_of_phase_def split: phase.splits)

lemma terminal_stands:
  assumes "resolve_wait (si_state (ss_inner (sy_session sys))) \<noteq> Pending"
  shows "si_state (ss_inner (sy_session (snd (session_step m sys e)))) = si_state (ss_inner (sy_session sys))"
  using assms
  by (cases e) (auto simp: ss_apply_def apply_and_notify_def ss_commit_def ss_transition_def after_transition_def
      set_waiter_def terminal_refuses Let_def split: phase.splits)

section \<open>Lemmas: sleepers\<close>

lemma run_turn_Sleeping:
  assumes "fst (run_turn call d now s) = Sleeping d' u"
  shows "\<not> ss_poisoned s \<and> d' = d \<and>
    (resolve_wait (si_state (ss_inner s)) = Pending \<or>
      call = WaitCommitted \<and> si_state (ss_inner s) = FactoryResetPending) \<and>
    u = d \<and> (case d of None \<Rightarrow> True | Some D \<Rightarrow> now < D)"
  using assms
  by (cases call; cases "si_state (ss_inner s)")
    (auto simp: run_turn_def wait_committed_turn_def wait_outcome_turn_def pending_turn_def Let_def split: if_splits option.splits)

lemma run_turn_phase:
  obtains (returned) r where "fst (run_turn call d now s) = Returned r"
    | (asleep) u where "fst (run_turn call d now s) = Sleeping d u"
  by (cases "ss_poisoned s"; cases "fst (wait_turn call now d (ss_inner s))") (auto simp: run_turn_def split_def)

definition asleep :: "phase \<Rightarrow> bool" where
  "asleep p = (case p of Sleeping _ _ \<Rightarrow> True | _ \<Rightarrow> False)"

text \<open>No waiter is asleep that the current state resolves; \<^verbatim>\<open>wait_committed\<close> is not resolved by a reset.\<close>

definition may_sleep :: "provisioning_state \<Rightarrow> wait_call \<Rightarrow> bool" where
  "may_sleep st call \<longleftrightarrow> resolve_wait st = Pending \<or> call = WaitCommitted \<and> st = FactoryResetPending"

definition none_missed :: "portal_system \<Rightarrow> bool" where
  "none_missed sys \<longleftrightarrow> list_all (\<lambda>w. asleep (wt_phase w) \<longrightarrow> may_sleep (si_state (ss_inner (sy_session sys))) (wt_call w)) (sy_waiters sys)"

lemma asleep_wake [simp]: "\<not> asleep (wt_phase (wake_waiter w))"
  by (auto simp: wake_waiter_def asleep_def split: phase.splits)

lemma wake_call [simp]: "wt_call (wake_waiter w) = wt_call w"
  by (auto simp: wake_waiter_def split: phase.splits)

lemma none_missed_update:
  assumes "none_missed sys" and "si_state (ss_inner s) = si_state (ss_inner (sy_session sys))"
    and "asleep p \<longrightarrow> may_sleep (si_state (ss_inner (sy_session sys))) (wt_call (sy_waiters sys ! i))"
  shows "none_missed (set_waiter i (p, s) sys)"
  using assms set_update_subset_insert [of "sy_waiters sys" i "(sy_waiters sys ! i)\<lparr>wt_phase := p\<rparr>"]
  by (fastforce simp: none_missed_def set_waiter_def list_all_iff)

lemma none_missed_transition:
  assumes N: "none_missed sys" and ok: "wk \<or> i \<noteq> PersistOk \<and> i \<noteq> FactoryReset"
  shows "none_missed (after_transition (snd (ss_transition i wk f (sy_session sys))) sys)"
proof (cases rule: transition_cases [of i wk f "sy_session sys"])
  case (refused t)
  with N show ?thesis by (simp add: none_missed_def after_transition_def)
next
  case (moved n)
  show ?thesis
  proof (cases wk)
    case True
    then show ?thesis unfolding moved(3) by (simp add: none_missed_def after_transition_def list_all_iff)
  next
    case False
    with ok moved(2) have "resolve_wait n = Pending" by (auto elim: ps_apply_InrE)
    then show ?thesis unfolding moved(3) by (simp add: none_missed_def after_transition_def list_all_iff may_sleep_def)
  qed
qed

lemma none_missed_turn: "asleep (fst (run_turn call d now s)) \<longrightarrow> may_sleep (si_state (ss_inner s)) call"
  by (cases rule: run_turn_phase [of call d now s]) (auto simp: asleep_def may_sleep_def dest: run_turn_Sleeping)

lemma none_missed_enter: "asleep (fst (enter_wait m call t now s)) \<longrightarrow> may_sleep (si_state (ss_inner s)) call"
  using none_missed_turn [of call None now s] none_missed_turn [of call "Some (now + the t)" now s]
  by (cases t) (auto simp: enter_wait_def asleep_def)

lemma none_missed_step:
  assumes N: "none_missed sys" and e: "notifying e"
  shows "none_missed (snd (session_step m sys e))"
proof (cases e)
  case (Commit c)
  with none_missed_transition [OF N, of True PersistOk "\<lambda>inner. inner\<lparr>si_committed := Some c\<rparr>"] show ?thesis
    by (auto simp: ss_commit_def split_def)
next
  case (Call i)
  with N none_missed_update [OF N, of "snd r" "fst r" for r] none_missed_enter show ?thesis
    by (auto simp: split: phase.splits)
next
  case (Reacquire i)
  with N none_missed_update [OF N, of "snd r" "fst r" for r] none_missed_turn show ?thesis
    by (auto simp: split: phase.splits)
next
  case (WakeUp i)
  with N set_update_subset_insert [of "sy_waiters sys" i "wake_waiter (sy_waiters sys ! i)"] show ?thesis
    by (fastforce simp: none_missed_def list_all_iff)
next
  case (Advance d)
  with N show ?thesis by (simp add: none_missed_def)
qed (use none_missed_transition [OF N] e in \<open>simp_all add: ss_apply_def apply_and_notify_def\<close>)

lemma none_missed_run: "none_missed sys \<Longrightarrow> list_all notifying es \<Longrightarrow> none_missed (run_state (session_step m) sys es)"
  by (induction es arbitrary: sys) (auto intro: none_missed_step)

lemma fresh_none_missed: "fresh_system sys \<Longrightarrow> none_missed sys"
  by (auto simp: fresh_system_def none_missed_def list_all_iff asleep_def split: phase.splits)

section \<open>Lemmas: deadlines\<close>

fun bounded_by :: "instant \<Rightarrow> phase \<Rightarrow> bool" where
  "bounded_by D (Calling _) \<longleftrightarrow> False"
| "bounded_by D (Sleeping d u) \<longleftrightarrow> d = Some D \<and> u = Some D"
| "bounded_by D (Awake d) \<longleftrightarrow> d = Some D"
| "bounded_by D (Returned _) \<longleftrightarrow> True"
| "bounded_by D Panicked \<longleftrightarrow> True"

lemma bounded_turn: "bounded_by D (fst (run_turn call (Some D) now s))"
  by (cases rule: run_turn_phase [of call "Some D" now s]) (auto dest: run_turn_Sleeping)

lemma bounded_wake: "bounded_by D (wt_phase w) \<Longrightarrow> bounded_by D (wt_phase (wake_waiter w))"
  by (auto simp: wake_waiter_def split: phase.splits)

definition waiter_phase :: "portal_system \<Rightarrow> nat \<Rightarrow> phase" where
  "waiter_phase sys i = wt_phase (sy_waiters sys ! i)"

lemma waiters_length [simp]: "length (sy_waiters (snd (session_step m sys e))) = length (sy_waiters sys)"
  by (cases e) (auto simp: set_waiter_def split: phase.splits prod.splits)

lemma waiters_call [simp]:
  "i < length (sy_waiters sys) \<Longrightarrow> wt_call (sy_waiters (snd (session_step m sys e)) ! i) = wt_call (sy_waiters sys ! i)"
  by (cases e) (auto simp: set_waiter_def after_transition_def nth_list_update split: phase.splits prod.splits)

lemma waiters_length_run [simp]: "length (sy_waiters (run_state (session_step m) sys es)) = length (sy_waiters sys)"
  by (induction es arbitrary: sys) auto

lemma bounded_step:
  assumes "i < length (sy_waiters sys)" and "bounded_by D (waiter_phase sys i)"
  shows "bounded_by D (waiter_phase (snd (session_step m sys e)) i)"
  using assms
  by (cases e) (auto simp: waiter_phase_def set_waiter_def after_transition_def nth_list_update bounded_turn
      intro!: bounded_wake split: phase.splits prod.splits)

lemma bounded_run:
  assumes "i < length (sy_waiters sys)" and "bounded_by D (waiter_phase sys i)"
  shows "bounded_by D (waiter_phase (run_state (session_step m) sys es) i)"
  using assms
proof (induction es arbitrary: sys)
  case (Cons e es)
  with Cons.IH [of "snd (session_step m sys e)"] bounded_step [of i sys D m e] show ?case by simp
qed simp

lemma bounded_enter: "bounded_by (now + t) (fst (enter_wait m call (Some t) now s))"
  by (simp add: enter_wait_def bounded_turn)

lemma bounded_resolved:
  assumes i: "i < length (sy_waiters sys)" and b: "bounded_by D (waiter_phase sys i)" and "D \<le> sy_now sys"
  shows "waiter_phase (run_state (session_step m) sys [WakeUp i, Reacquire i]) i \<in> insert Panicked (range Returned)"
proof -
  have turn: "fst (run_turn call (Some D) (sy_now sys) s) \<in> range Returned" for call s
    using \<open>D \<le> sy_now sys\<close> by (cases rule: run_turn_phase [of call "Some D" "sy_now sys" s]) (auto dest: run_turn_Sleeping)
  show ?thesis
  proof (cases "wt_phase (sy_waiters sys ! i)")
    case (Calling t)
    with b show ?thesis by (simp add: waiter_phase_def)
  next
    case (Sleeping d u)
    with b i turn show ?thesis by (simp add: waiter_phase_def wake_waiter_def set_waiter_def)
  next
    case (Awake d)
    with b i turn show ?thesis by (simp add: waiter_phase_def wake_waiter_def set_waiter_def)
  qed (use i in \<open>simp_all add: waiter_phase_def wake_waiter_def\<close>)
qed

section \<open>Properties\<close>

text \<open>
  C23: a submitted configuration is handed out exactly once.  Whatever the transitions, the wake-ups, the
  timeouts and the order of the waiters, when \<^verbatim>\<open>PersistOk\<close> is driven by \<^verbatim>\<open>commit\<close> only, at most one commit
  is ever accepted, the session is \<^verbatim>\<open>Committed\<close> exactly when one was, and its configuration is either
  still stored or was returned by exactly one \<^verbatim>\<open>wait_committed\<close>.
\<close>

theorem config_delivered_exactly_once:
  fixes m :: instant
  assumes "fresh_system sys" and "list_all by_commit es"
  defines "sys' \<equiv> run_state (session_step m) sys es"
  shows "delivered sys' @ undelivered sys' = accepted m sys es \<and> length (accepted m sys es) \<le> 1 \<and>
    (si_state (ss_inner (sy_session sys')) = Committed \<longleftrightarrow> accepted m sys es \<noteq> [])"
  using conserved_run [OF fresh_conserved [OF assms(1)] assms(2), of m] by (simp add: sys'_def conserved_def)

definition two_waiters :: portal_system where
  "two_waiters = \<lparr>sy_session = session_new 0, sy_now = 0, sy_waiters =
     [\<lparr>wt_call = WaitCommitted, wt_phase = Calling None\<rparr>, \<lparr>wt_call = WaitCommitted, wt_phase = Calling (Some 5)\<rparr>,
      \<lparr>wt_call = WaitOutcome, wt_phase = Calling None\<rparr>]\<rparr>"

definition commit_run :: "session_event list" where
  "commit_run = [Call 0, Call 1, Call 2, Apply ValidSubmission, WakeUp 0, Commit example_config, Advance 5, Reacquire 1,
     Reacquire 0, ApplyAndNotify FactoryReset, Commit example_config]"

lemmas session_eval = two_waiters_def commit_run_def session_new_def enter_wait_def run_turn_def wait_committed_turn_def
  wait_outcome_turn_def pending_turn_def ss_apply_def apply_and_notify_def ss_commit_def ss_transition_def
  after_transition_def set_waiter_def wake_waiter_def

lemma two_waiters_fresh: "fresh_system two_waiters"
  by (simp add: fresh_system_def two_waiters_def)

theorem config_delivered_exactly_once_witness:
  "delivered (run_state (session_step 100) two_waiters commit_run) = [example_config] \<and>
   delivered (run_state (session_step 100) two_waiters commit_run) @
     undelivered (run_state (session_step 100) two_waiters commit_run) = accepted 100 two_waiters commit_run \<and>
   length (accepted 100 two_waiters commit_run) \<le> 1"
proof -
  have "delivered (run_state (session_step 100) two_waiters commit_run) = [example_config]"
    by (simp add: session_eval delivered_def config_of_phase_def)
  moreover have "list_all by_commit commit_run" by (simp add: commit_run_def)
  ultimately show ?thesis using config_delivered_exactly_once [OF two_waiters_fresh, of commit_run 100] by blast
qed

definition outcome_of :: "provisioning_state \<Rightarrow> session_outcome" where
  "outcome_of st = (if resolve_wait st = ResolvedCommitted then OutcomeCommitted else FactoryResetRequested)"

text \<open>
  C24: no wait misses the end of the session.  In every interleaving in which the terminal transitions
  notify, once the session is terminal each \<^verbatim>\<open>wait_outcome\<close> that is not over is awake or not yet called,
  and its next turn returns the outcome of that terminal state, without a timeout and without another
  wake-up; a poisoned mutex is reported as a timeout.
\<close>

theorem session_end_is_never_missed:
  fixes m :: instant and i :: nat
  assumes fresh: "fresh_system sys" and es: "list_all notifying es"
  defines "sys' \<equiv> run_state (session_step m) sys es"
  assumes st: "resolve_wait (si_state (ss_inner (sy_session sys'))) \<noteq> Pending"
    and i: "i < length (sy_waiters sys')" and call: "wt_call (sy_waiters sys' ! i) = WaitOutcome"
    and open_: "waiter_phase sys' i \<notin> insert Panicked (range Returned)"
    and fits: "\<And>t. waiter_phase sys' i = Calling (Some t) \<Longrightarrow> sy_now sys' + t \<le> m"
  shows "waiter_phase (run_state (session_step m) sys' [Call i, Reacquire i]) i =
    Returned (OutcomeResult (if ss_poisoned (sy_session sys') then TimedOut
      else outcome_of (si_state (ss_inner (sy_session sys')))))"
proof -
  have turn: "fst (run_turn WaitOutcome d n (sy_session sys')) = Returned (OutcomeResult (if ss_poisoned (sy_session sys') then TimedOut
      else outcome_of (si_state (ss_inner (sy_session sys')))))" for d n
    using st by (cases "si_state (ss_inner (sy_session sys'))") (auto simp: run_turn_def wait_outcome_turn_def outcome_of_def)
  have "none_missed sys'" unfolding sys'_def by (intro none_missed_run fresh_none_missed fresh es)
  with i call st have awake: "\<not> asleep (waiter_phase sys' i)"
    by (auto simp: none_missed_def list_all_length waiter_phase_def may_sleep_def)
  consider (Calling) t where "wt_phase (sy_waiters sys' ! i) = Calling t" | (Awake) d where "wt_phase (sy_waiters sys' ! i) = Awake d"
    using awake open_ by (cases "wt_phase (sy_waiters sys' ! i)") (auto simp: waiter_phase_def asleep_def)
  then show ?thesis
  proof cases
    case Calling
    with i call fits turn show ?thesis by (cases t) (auto simp: waiter_phase_def enter_wait_def set_waiter_def)
  next
    case Awake
    with i call turn show ?thesis by (simp add: waiter_phase_def set_waiter_def)
  qed
qed

theorem session_end_is_never_missed_witness:
  "waiter_phase (run_state (session_step 100) (run_state (session_step 100) two_waiters commit_run) [Call 2, Reacquire 2]) 2 =
     Returned (OutcomeResult OutcomeCommitted)"
proof -
  let ?s = "run_state (session_step 100) two_waiters commit_run"
  have es: "list_all notifying commit_run" by (simp add: commit_run_def)
  have st: "si_state (ss_inner (sy_session ?s)) = Committed" "ss_poisoned (sy_session ?s) = False"
    and n: "2 < length (sy_waiters ?s)" and call: "wt_call (sy_waiters ?s ! 2) = WaitOutcome" and ph: "waiter_phase ?s 2 = Awake None"
    by (simp_all add: session_eval waiter_phase_def)
  have "waiter_phase (run_state (session_step 100) ?s [Call 2, Reacquire 2]) 2 =
    Returned (OutcomeResult (if ss_poisoned (sy_session ?s) then TimedOut else outcome_of (si_state (ss_inner (sy_session ?s)))))"
    by (rule session_end_is_never_missed [OF two_waiters_fresh es _ n call]) (auto simp only: st ph resolve_wait.simps phase.distinct wait_resolution.distinct insert_iff image_iff)
  then show ?thesis by (simp only: st outcome_of_def resolve_wait.simps if_True if_False refl)
qed

text \<open>
  A wait with a timeout is over by its deadline.  The deadline is fixed when the wait is called; no
  later event, spurious wake-ups included, moves it, a sleep never extends past it, and a turn at or
  after the deadline returns (or the call panicked, when the deadline was not representable).
\<close>

theorem wait_over_by_deadline:
  fixes m :: instant and es :: "session_event list"
  assumes i: "i < length (sy_waiters sys)" and call: "waiter_phase sys i = Calling (Some t)"
  defines "sys' \<equiv> run_state (session_step m) sys (Call i # es)"
  shows "bounded_by (sy_now sys + t) (waiter_phase sys' i) \<and>
    (sy_now sys + t \<le> sy_now sys' \<longrightarrow>
      waiter_phase (run_state (session_step m) sys' [WakeUp i, Reacquire i]) i \<in> insert Panicked (range Returned))"
proof -
  have "bounded_by (sy_now sys + t) (waiter_phase (snd (session_step m sys (Call i))) i)"
    using i call by (simp add: waiter_phase_def set_waiter_def bounded_enter)
  then have "bounded_by (sy_now sys + t) (waiter_phase sys' i)"
    unfolding sys'_def run_state.simps(2) using i by (intro bounded_run) (simp_all only: waiters_length)
  moreover have "i < length (sy_waiters sys')" unfolding sys'_def using i by (simp only: waiters_length_run)
  ultimately show ?thesis using bounded_resolved by blast
qed

theorem wait_over_by_deadline_witness:
  "bounded_by 5 (waiter_phase (run_state (session_step 100) two_waiters [Call 1, WakeUp 1, Advance 4, Reacquire 1, Advance 1]) 1) \<and>
   waiter_phase (run_state (session_step 100) (run_state (session_step 100) two_waiters
     [Call 1, WakeUp 1, Advance 4, Reacquire 1, Advance 1]) [WakeUp 1, Reacquire 1]) 1 \<in> insert Panicked (range Returned)"
proof -
  let ?s = "run_state (session_step 100) two_waiters [Call 1, WakeUp 1, Advance 4, Reacquire 1, Advance 1]"
  have "sy_now ?s = 5" and "sy_now two_waiters = 0" and "length (sy_waiters two_waiters) = 3"
    and "waiter_phase two_waiters 1 = Calling (Some 5)" by (simp_all add: session_eval waiter_phase_def)
  then show ?thesis
    using wait_over_by_deadline [of 1 two_waiters 5 100 "[WakeUp 1, Advance 4, Reacquire 1, Advance 1]"] by simp
qed

lemma store_opened_only_without_reentry:
  assumes "hook w = (Inr r, w')" and "r \<noteq> NoReentry"
  shows "snd (gate_reentry hook open_store w) = w'"
  using assms by (cases r) (simp_all add: gate_reentry_def andThen_def ok_def)

end
