(* ===== verification/Portal_Store.thy ===== *)
theory Portal_Store
  imports Portal_Record
begin

text \<open>
  The two-sector credential store (\<^verbatim>\<open>rustyfarian-esp-hal-network/src/provisioning/store.rs\<close>).

  The flash trait \<^verbatim>\<open>NorFlash\<close> is a library's: it is a record of operations, and what the store relies
  on is the locale \<open>nor_flash_contract\<close>.  Its laws leave open what an operation that failed did to the
  range it was called on, which covers a driver error as well as a power loss in the middle of it.  The
  repository's in-memory flash is an interpretation.

  The lemmas give each store operation its meaning on the memory; the properties follow a save through
  every point where it can stop.
\<close>

section \<open>Model\<close>

record 'w nor_flash =
  nf_read :: "u32 \<Rightarrow> nat \<Rightarrow> ('w, unit, bytes) prog"
  nf_erase :: "u32 \<Rightarrow> u32 \<Rightarrow> ('w, unit, unit) prog"
  nf_write :: "u32 \<Rightarrow> bytes \<Rightarrow> ('w, unit, unit) prog"
  nf_capacity :: nat
  nf_erase_size :: nat
  nf_read_size :: nat

definition MAX_RECORD_LEN :: nat where "MAX_RECORD_LEN = 1280"

definition portal_open :: "'w nor_flash \<Rightarrow> u32 \<Rightarrow> u32 \<Rightarrow> u32 res" where
  "portal_open F base_offset total_bytes =
     (if total_bytes < STORE_SIZE then Inl (Fail (TooSmall STORE_SIZE total_bytes))
      else let erase_size = of_nat (nf_erase_size F) in
        if erase_size \<noteq> of_nat SECTOR_SIZE then Inl (Fail (UnsupportedGeometry erase_size))
        else if base_offset mod erase_size \<noteq> 0 then Inl (Fail NotAligned)
        else let end = saturating_add base_offset total_bytes;
                 capacity = (if nf_capacity F < 2 ^ 32 then of_nat (nf_capacity F) else - 1) in
          if capacity < end then Inl (Fail (OffsetOutOfBounds end capacity)) else Inr base_offset)"

definition sector_offset :: "u32 \<Rightarrow> u32 \<Rightarrow> u32" where
  "sector_offset base sector_index = base + sector_index * of_nat SECTOR_SIZE"

text \<open>\<^verbatim>\<open>map_err(|_| StoreError::Flash)?\<close>\<close>

definition flash_op :: "('w, unit, 'a) prog \<Rightarrow> ('w, failure, 'a) prog" where
  "flash_op p = onResult p (\<lambda>r. case r of Inl _ \<Rightarrow> fail (Fail Flash) | Inr x \<Rightarrow> ok x)"

definition next_multiple_of :: "nat \<Rightarrow> nat \<Rightarrow> nat" where
  "next_multiple_of n k = (if n mod k = 0 then n else n + (k - n mod k))"

text \<open>\<^verbatim>\<open>decode_record(..).ok()\<close>: an error is no record, a panic stays one.\<close>

definition decoded_ok :: "decoded_record res \<Rightarrow> decoded_record option res" where
  "decoded_ok r = (case r of Inr rec \<Rightarrow> Inr (Some rec) | Inl (Fail _) \<Rightarrow> Inr None | Inl Panic \<Rightarrow> Inl Panic)"

definition try_read_sector :: "'w nor_flash \<Rightarrow> u32 \<Rightarrow> u32 \<Rightarrow> ('w, failure, decoded_record option) prog" where
  "try_read_sector F base sector_index =
     (let off = sector_offset base sector_index in
      andThen (flash_op (nf_read F off HEADER_FIXED)) (\<lambda>header.
        let record_len = min (unat (of_le16 (header ! RECORD_LEN_OFFSET) (header ! (RECORD_LEN_OFFSET + 1)))) MAX_RECORD_LEN;
            read_len = min (next_multiple_of record_len (nf_read_size F)) MAX_RECORD_LEN in
        andThen (flash_op (nf_read F off read_len)) (\<lambda>got.
          let buf = put (replicate MAX_RECORD_LEN 0) 0 got in
          case decoded_ok (decode_record (take record_len buf)) of Inl e \<Rightarrow> fail e | Inr r \<Rightarrow> ok r)))"

definition read_both :: "'w nor_flash \<Rightarrow> u32 \<Rightarrow> ('w, failure, decoded_record option \<times> decoded_record option) prog" where
  "read_both F base = andThen (try_read_sector F base 0) (\<lambda>a. andThen (try_read_sector F base 1) (\<lambda>b. ok (a, b)))"

definition is_provisioned :: "'w nor_flash \<Rightarrow> u32 \<Rightarrow> ('w, failure, bool) prog" where
  "is_provisioned F base = andThen (read_both F base) (\<lambda>(a, b). ok (pick_active a b \<noteq> None))"

definition portal_load :: "'w nor_flash \<Rightarrow> u32 \<Rightarrow> ('w, failure, provisioning_config option) prog" where
  "portal_load F base = andThen (read_both F base) (\<lambda>(a, b). ok (map_option dr_config (pick_active a b)))"

record save_target =
  st_next_seq :: u32
  st_target_sector :: u32

definition plan_target :: "decoded_record option \<Rightarrow> decoded_record option \<Rightarrow> save_target" where
  "plan_target a b = \<lparr>
     st_next_seq = saturating_add (case pick_active a b of Some r \<Rightarrow> dr_seq r | None \<Rightarrow> 0) 1,
     st_target_sector = (case (a, b) of
         (None, _) \<Rightarrow> 0
       | (_, None) \<Rightarrow> 1
       | (Some ra, Some rb) \<Rightarrow> if dr_seq rb \<le> dr_seq ra then 1 else 0)\<rparr>"

definition plan_save :: "'w nor_flash \<Rightarrow> u32 \<Rightarrow> ('w, failure, save_target) prog" where
  "plan_save F base = andThen (read_both F base) (\<lambda>(a, b). ok (plan_target a b))"

text \<open>The final overwrite of the buffer touches nothing that outlives the call.\<close>

definition portal_save :: "'w nor_flash \<Rightarrow> u32 \<Rightarrow> provisioning_config \<Rightarrow> ('w, failure, unit) prog" where
  "portal_save F base config =
     andThen (plan_save F base) (\<lambda>t.
       case encode_record config (st_next_seq t) (replicate SECTOR_SIZE 0) of
         (Inl e, _) \<Rightarrow> fail e
       | (Inr raw_len, buf) \<Rightarrow>
           let padded_len = pad_to_write_granularity raw_len;
               buf1 = put buf raw_len (replicate (padded_len - raw_len) 0xFF);
               off = sector_offset base (st_target_sector t) in
           andThen (flash_op (nf_erase F off (off + of_nat SECTOR_SIZE))) (\<lambda>_.
             flash_op (nf_write F off (take padded_len buf1))))"

definition portal_erase_all :: "'w nor_flash \<Rightarrow> u32 \<Rightarrow> ('w, failure, unit) prog" where
  "portal_erase_all F base = flash_op (nf_erase F (sector_offset base 0) (sector_offset base 2))"

section \<open>The contract of the flash\<close>

text \<open>\<open>mem\<close> is the content the flash would report, \<open>good\<close> a flash that is present.\<close>

locale nor_flash_contract =
  fixes F :: "'w nor_flash"
    and mem :: "'w \<Rightarrow> nat \<Rightarrow> u8"
    and good :: "'w \<Rightarrow> bool"
  assumes read_size: "0 < nf_read_size F"
    and read_keeps: "good w \<Longrightarrow> good (snd (nf_read F off n w)) \<and> mem (snd (nf_read F off n w)) = mem w"
    and read_bytes: "good w \<Longrightarrow> fst (nf_read F off n w) = Inr bs \<Longrightarrow> bs = map (\<lambda>i. mem w (unat off + i)) [0 ..< n]"
    and erase_good: "good w \<Longrightarrow> good (snd (nf_erase F a b w))"
    and erase_outside: "good w \<Longrightarrow> x < unat a \<or> unat b \<le> x \<Longrightarrow> mem (snd (nf_erase F a b w)) x = mem w x"
    and erase_sets: "good w \<Longrightarrow> fst (nf_erase F a b w) = Inr () \<Longrightarrow> unat a \<le> x \<Longrightarrow> x < unat b \<Longrightarrow>
      mem (snd (nf_erase F a b w)) x = 0xFF"
    and write_good: "good w \<Longrightarrow> good (snd (nf_write F off bs w))"
    and write_outside: "good w \<Longrightarrow> x < unat off \<or> unat off + length bs \<le> x \<Longrightarrow> mem (snd (nf_write F off bs w)) x = mem w x"
    and write_ands: "good w \<Longrightarrow> fst (nf_write F off bs w) = Inr () \<Longrightarrow> i < length bs \<Longrightarrow>
      mem (snd (nf_write F off bs w)) (unat off + i) = and (mem w (unat off + i)) (bs ! i)"

section \<open>The in-memory flash\<close>

text \<open>\<^verbatim>\<open>InstrumentedFlash\<close>; a slice out of range, where it would panic, is an error here.\<close>

record instr_flash =
  if_data :: bytes
  if_read_log :: "(u32 \<times> nat) list"

definition instr_read :: "u32 \<Rightarrow> nat \<Rightarrow> (instr_flash, unit, bytes) prog" where
  "instr_read off n = (\<lambda>w.
     let w1 = w\<lparr>if_read_log := if_read_log w @ [(off, n)]\<rparr> in
     if length (if_data w1) < unat off + n then (Inl (), w1)
     else (Inr (take n (drop (unat off) (if_data w1))), w1))"

definition instr_erase :: "u32 \<Rightarrow> u32 \<Rightarrow> (instr_flash, unit, unit) prog" where
  "instr_erase a b = (\<lambda>w.
     if length (if_data w) < unat b \<or> unat b < unat a then (Inl (), w)
     else (Inr (), w\<lparr>if_data := put (if_data w) (unat a) (replicate (unat b - unat a) 0xFF)\<rparr>))"

definition instr_write :: "u32 \<Rightarrow> bytes \<Rightarrow> (instr_flash, unit, unit) prog" where
  "instr_write off bs = (\<lambda>w.
     if length (if_data w) < unat off + length bs then (Inl (), w)
     else (Inr (), w\<lparr>if_data := put (if_data w) (unat off)
            (map2 (and) (take (length bs) (drop (unat off) (if_data w))) bs)\<rparr>))"

definition instr_ops :: "instr_flash nor_flash" where
  "instr_ops = \<lparr>nf_read = instr_read, nf_erase = instr_erase, nf_write = instr_write,
     nf_capacity = 8192, nf_erase_size = 4096, nf_read_size = 1\<rparr>"

definition instr_mem :: "instr_flash \<Rightarrow> nat \<Rightarrow> u8" where
  "instr_mem w i = (if i < length (if_data w) then if_data w ! i else 0xFF)"

interpretation instr: nor_flash_contract instr_ops instr_mem "\<lambda>w. length (if_data w) = 8192"
  by unfold_locales
    (auto simp: instr_ops_def instr_mem_def instr_read_def instr_erase_def instr_write_def Let_def nth_put
      intro!: nth_equalityI ext split: if_splits)

section \<open>What the store reads\<close>

text \<open>A view on the memory: the record a sector holds, the record that is active, its sequence number.\<close>

definition mem_bytes :: "(nat \<Rightarrow> u8) \<Rightarrow> u32 \<Rightarrow> nat \<Rightarrow> bytes" where
  "mem_bytes m off n = map (\<lambda>i. m (unat off + i)) [0 ..< n]"

definition sector_record :: "(nat \<Rightarrow> u8) \<Rightarrow> u32 \<Rightarrow> decoded_record option res" where
  "sector_record m off = decoded_ok (decode_record (mem_bytes m off
     (min (unat (of_le16 (m (unat off + 9)) (m (unat off + 10)))) MAX_RECORD_LEN)))"

definition stored :: "(nat \<Rightarrow> u8) \<Rightarrow> u32 \<Rightarrow> decoded_record option res" where
  "stored m base =
     bind_res (sector_record m (sector_offset base 0)) (\<lambda>a.
     bind_res (sector_record m (sector_offset base 1)) (\<lambda>b. Inr (pick_active a b)))"

definition active_seq :: "(nat \<Rightarrow> u8) \<Rightarrow> u32 \<Rightarrow> u32" where
  "active_seq m base = (case stored m base of Inr (Some r) \<Rightarrow> dr_seq r | _ \<Rightarrow> 0)"

definition in_sector :: "u32 \<Rightarrow> nat \<Rightarrow> bool" where
  "in_sector off x = (unat off \<le> x \<and> x < unat off + SECTOR_SIZE)"

text \<open>The store was opened on a device whose size has a successor.\<close>

definition opened :: "'w nor_flash \<Rightarrow> u32 \<Rightarrow> bool" where
  "opened F base = (\<exists>n. portal_open F base n = Inr base \<and> nf_capacity F < 2 ^ 32 - 1)"

lemma next_multiple_of_le: "n \<le> next_multiple_of n k"
  unfolding next_multiple_of_def by (metis le_add1 order_refl)

lemma sector_record_cong:
  assumes "\<And>x. in_sector off x \<Longrightarrow> m' x = m x"
  shows "sector_record m' off = sector_record m off"
proof -
  have *: "m' (unat off + i) = m (unat off + i)" if "i < 4096" for i
    using assms that by (simp add: in_sector_def SECTOR_SIZE_def)
  have "mem_bytes m' off n = mem_bytes m off n" if "n \<le> 1280" for n
    using that * by (simp add: mem_bytes_def)
  with * [of 9] * [of 10] show ?thesis by (simp add: sector_record_def MAX_RECORD_LEN_def)
qed

lemma opened_bound:
  assumes "opened F base"
  shows "unat base + 8192 < 2 ^ 32"
proof -
  obtain n :: u32 where n: "portal_open F base n = Inr base" and cap: "nf_capacity F < 2 ^ 32 - 1"
    using assms by (auto simp: opened_def)
  have c: "unat (of_nat (nf_capacity F) :: u32) = nf_capacity F"
    using cap by (simp add: unat_of_nat_less)
  from n cap have "8192 \<le> n" and "saturating_add base n \<le> of_nat (nf_capacity F)"
    by (auto simp: portal_open_def STORE_SIZE_def Let_def split: if_splits)
  then have "8192 \<le> unat n" and "unat (saturating_add base n) \<le> nf_capacity F"
    by (simp_all add: word_le_nat_alt c)
  with cap show ?thesis by (simp add: unat_saturating_add)
qed

lemma unat_sector_offset:
  assumes "unat base + 8192 < 2 ^ 32"
  shows "unat (sector_offset base 0) = unat base" and "unat (sector_offset base 1) = unat base + 4096"
    and "i = 0 \<or> i = 1 \<Longrightarrow> unat (sector_offset base i + of_nat SECTOR_SIZE) = unat (sector_offset base i) + SECTOR_SIZE"
proof -
  have *: "unat (base + of_nat k) = unat base + k" if "k \<le> 8192" for k
  proof -
    have "unat (of_nat k :: u32) = k" using that by (simp add: unat_of_nat_less)
    with assms that show ?thesis by (simp add: unat_add_lem [THEN iffD1])
  qed
  show o: "unat (sector_offset base 0) = unat base" "unat (sector_offset base 1) = unat base + 4096"
    using * [of 4096] by (simp_all add: sector_offset_def SECTOR_SIZE_def)
  show "i = 0 \<or> i = 1 \<Longrightarrow> unat (sector_offset base i + of_nat SECTOR_SIZE) = unat (sector_offset base i) + SECTOR_SIZE"
    using * [of 4096] * [of 8192] o by (auto simp: sector_offset_def SECTOR_SIZE_def add.assoc)
qed

text \<open>Every writer of the record keeps the length of its buffer.\<close>

definition keeps_length :: "'a writer \<Rightarrow> bool" where
  "keeps_length p = (\<forall>buf. length (snd (p buf)) = length buf)"

lemma keeps_length_then: "keeps_length p \<Longrightarrow> (\<And>x. keeps_length (f x)) \<Longrightarrow> keeps_length (andThen p f)"
  by (simp add: keeps_length_def andThen_def split: prod.splits sum.splits) (metis snd_conv)

lemma keeps_length_write_tlv: "keeps_length (write_tlv pos tag val)"
  by (simp add: keeps_length_def write_tlv_def Let_def)

lemma keeps_length_write_tlvs: "keeps_length (write_tlvs tvs pos)"
  by (induction tvs pos rule: write_tlvs.induct)
    (simp_all add: keeps_length_then keeps_length_write_tlv, simp add: keeps_length_def ok_def)

lemma keeps_length_write_extras: "keeps_length (write_extras earlier es pos)"
  by (induction earlier es pos rule: write_extras.induct)
    (auto intro!: keeps_length_then keeps_length_write_tlv, simp_all add: keeps_length_def ok_def fail_def)

lemma encode_record_keeps_length: "length (snd (encode_record c seq buf)) = length buf"
proof -
  have "keeps_length (write_record_header p seq)" "keeps_length (finish_record pos)" for p pos
    by (simp_all add: keeps_length_def write_record_header_def finish_record_def Let_def)
  then have "keeps_length (encode_record c seq)"
    by (simp add: encode_record_def keeps_length_then keeps_length_write_tlvs keeps_length_write_extras)
  then show ?thesis by (simp add: keeps_length_def)
qed

lemma plan_target_sector:
  "st_target_sector (plan_target a b) = 0 \<or> st_target_sector (plan_target a b) = 1"
  by (simp add: plan_target_def split: option.split)

context nor_flash_contract
begin

lemma read_cases:
  assumes "good w"
  obtains w' where "flash_op (nf_read F off n) w = (Inl (Fail Flash), w')" "good w'" "mem w' = mem w"
  | w' where "flash_op (nf_read F off n) w = (Inr (mem_bytes (mem w) off n), w')" "good w'" "mem w' = mem w"
proof -
  obtain r w' where r: "nf_read F off n w = (r, w')" by fastforce
  have "good w'" "mem w' = mem w" using read_keeps [OF assms, of off n] r by simp_all
  then show thesis
    using that r read_bytes [OF assms, of off n]
    by (cases r) (auto simp: flash_op_def onResult_def fail_def ok_def mem_bytes_def)
qed

lemma try_read_sector_cases:
  assumes "good w"
  obtains w' where "try_read_sector F base i w = (Inl (Fail Flash), w')" "good w'" "mem w' = mem w"
  | w' where "try_read_sector F base i w = (sector_record (mem w) (sector_offset base i), w')" "good w'" "mem w' = mem w"
proof -
  let ?off = "sector_offset base i" let ?m = "mem w"
  let ?n = "min (unat (of_le16 (?m (unat ?off + 9)) (?m (unat ?off + 10)))) MAX_RECORD_LEN"
  let ?k = "min (next_multiple_of ?n (nf_read_size F)) MAX_RECORD_LEN"
  have k: "?n \<le> ?k" "?k \<le> 1280"
    using next_multiple_of_le [of ?n] by (simp_all add: MAX_RECORD_LEN_def)
  have buf: "take ?n (put (replicate MAX_RECORD_LEN 0) 0 (mem_bytes m ?off ?k)) = mem_bytes m ?off ?n" for m
    using k by (intro nth_equalityI) (auto simp: mem_bytes_def MAX_RECORD_LEN_def nth_put)
  show thesis
  proof (rule read_cases [OF assms, of ?off HEADER_FIXED])
    fix w1
    assume "flash_op (nf_read F ?off HEADER_FIXED) w = (Inl (Fail Flash), w1)" "good w1" "mem w1 = mem w"
    then show thesis by (intro that(1) [of w1]) (simp_all add: try_read_sector_def andThen_def Let_def)
  next
    fix w1
    assume 1: "flash_op (nf_read F ?off HEADER_FIXED) w = (Inr (mem_bytes ?m ?off HEADER_FIXED), w1)" "good w1" "mem w1 = ?m"
    show thesis
    proof (rule read_cases [OF 1(2), of ?off ?k])
      fix w2
      assume "flash_op (nf_read F ?off ?k) w1 = (Inl (Fail Flash), w2)" "good w2" "mem w2 = mem w1"
      with 1 show thesis
        by (intro that(1) [of w2]) (simp_all add: try_read_sector_def andThen_def Let_def mem_bytes_def HEADER_FIXED_def RECORD_LEN_OFFSET_def)
    next
      fix w2
      assume 2: "flash_op (nf_read F ?off ?k) w1 = (Inr (mem_bytes (mem w1) ?off ?k), w2)" "good w2" "mem w2 = mem w1"
      have "try_read_sector F base i w = (sector_record ?m ?off, w2)"
        using 1(1,3) 2(1) buf [of ?m]
        by (simp add: try_read_sector_def andThen_def Let_def HEADER_FIXED_def RECORD_LEN_OFFSET_def
            sector_record_def mem_bytes_def fail_def ok_def split: sum.splits)
      with 1 2 show thesis by (intro that(2) [of w2]) simp_all
    qed
  qed
qed

lemma read_both_cases:
  assumes "good w"
  obtains w' where "read_both F base w = (Inl (Fail Flash), w')" "good w'" "mem w' = mem w"
  | e w' where "read_both F base w = (Inl e, w')" "good w'" "mem w' = mem w" "stored (mem w) base = Inl e"
  | a b w' where "read_both F base w = (Inr (a, b), w')" "good w'" "mem w' = mem w"
      "sector_record (mem w) (sector_offset base 0) = Inr a" "sector_record (mem w) (sector_offset base 1) = Inr b"
proof (rule try_read_sector_cases [OF assms, of base 0])
  fix w1
  assume "try_read_sector F base 0 w = (Inl (Fail Flash), w1)" "good w1" "mem w1 = mem w"
  then show thesis by (intro that(1) [of w1]) (simp_all add: read_both_def andThen_def)
next
  fix w1
  assume 1: "try_read_sector F base 0 w = (sector_record (mem w) (sector_offset base 0), w1)" "good w1" "mem w1 = mem w"
  show thesis
  proof (cases "sector_record (mem w) (sector_offset base 0)")
    case (Inl e)
    with 1 show thesis by (intro that(2) [of e w1]) (simp_all add: read_both_def andThen_def stored_def bind_res_def)
  next
    case (Inr a)
    show thesis
    proof (rule try_read_sector_cases [OF 1(2), of base 1])
      fix w2
      assume "try_read_sector F base 1 w1 = (Inl (Fail Flash), w2)" "good w2" "mem w2 = mem w1"
      with 1 Inr show thesis by (intro that(1) [of w2]) (simp_all add: read_both_def andThen_def)
    next
      fix w2
      assume 2: "try_read_sector F base 1 w1 = (sector_record (mem w1) (sector_offset base 1), w2)" "good w2" "mem w2 = mem w1"
      show thesis
      proof (cases "sector_record (mem w) (sector_offset base 1)")
        case (Inl e)
        with 1 2 Inr show thesis
          by (intro that(2) [of e w2]) (simp_all add: read_both_def andThen_def stored_def bind_res_def)
      next
        case (Inr b)
        with 1 2 \<open>sector_record (mem w) (sector_offset base 0) = Inr a\<close> show thesis
          by (intro that(3) [of a b w2]) (simp_all add: read_both_def andThen_def ok_def)
      qed
    qed
  qed
qed

text \<open>A load is the stored record, unless the device fails to read.\<close>

lemma load_result:
  assumes "good w"
  shows "fst (portal_load F base w) = Inl (Fail Flash) \<or>
    fst (portal_load F base w) = bind_res (stored (mem w) base) (\<lambda>r. Inr (map_option dr_config r))"
  by (rule read_both_cases [OF assms, of base])
    (auto simp: portal_load_def andThen_def ok_def stored_def bind_res_def)

lemma erase_cases:
  assumes "good w"
  obtains r w' where "flash_op (nf_erase F a b) w = (r, w')" "good w'"
    "\<And>x. x < unat a \<or> unat b \<le> x \<Longrightarrow> mem w' x = mem w x"
    "r = Inr () \<Longrightarrow> \<forall>x. unat a \<le> x \<and> x < unat b \<longrightarrow> mem w' x = 0xFF"
proof -
  obtain r w' where r: "nf_erase F a b w = (r, w')" by fastforce
  show thesis
    by (rule that [of "case r of Inl _ \<Rightarrow> Inl (Fail Flash) | Inr x \<Rightarrow> Inr x" w'])
      (use r erase_good [OF assms, of a b] erase_outside [OF assms, of _ a b] erase_sets [OF assms, of a b] in
        \<open>auto simp: flash_op_def onResult_def fail_def ok_def split: sum.splits\<close>)
qed

lemma write_cases:
  assumes "good w"
  obtains r w' where "flash_op (nf_write F off bs) w = (r, w')" "good w'"
    "\<And>x. x < unat off \<or> unat off + length bs \<le> x \<Longrightarrow> mem w' x = mem w x"
    "r = Inr () \<Longrightarrow> \<forall>i < length bs. mem w' (unat off + i) = and (mem w (unat off + i)) (bs ! i)"
proof -
  obtain r w' where r: "nf_write F off bs w = (r, w')" by fastforce
  show thesis
    by (rule that [of "case r of Inl _ \<Rightarrow> Inl (Fail Flash) | Inr x \<Rightarrow> Inr x" w'])
      (use r write_good [OF assms, of off bs] write_outside [OF assms, of _ off bs] write_ands [OF assms, of off bs] in
        \<open>auto simp: flash_op_def onResult_def fail_def ok_def split: sum.splits\<close>)
qed

text \<open>A save stops before it writes, or changes the target sector only.\<close>

lemma save_cases:
  assumes "good w" and "unat base + 8192 < 2 ^ 32"
  obtains e w' where "portal_save F base c w = (Inl e, w')" "good w'" "mem w' = mem w"
  | a b buf n r w' where
      "sector_record (mem w) (sector_offset base 0) = Inr a" "sector_record (mem w) (sector_offset base 1) = Inr b"
      "encode_record c (st_next_seq (plan_target a b)) (replicate SECTOR_SIZE 0) = (Inr n, buf)"
      "portal_save F base c w = (r, w')" "good w'"
      "\<And>x. \<not> in_sector (sector_offset base (st_target_sector (plan_target a b))) x \<Longrightarrow> mem w' x = mem w x"
      "r = Inr () \<Longrightarrow> \<forall>i < n. i < SECTOR_SIZE \<longrightarrow>
         mem w' (unat (sector_offset base (st_target_sector (plan_target a b))) + i) = buf ! i"
proof (rule read_both_cases [OF assms(1), of base])
  fix w1
  assume "read_both F base w = (Inl (Fail Flash), w1)" "good w1" "mem w1 = mem w"
  then show thesis by (intro that(1) [of "Fail Flash" w1]) (simp_all add: portal_save_def plan_save_def andThen_def)
next
  fix e w1
  assume "read_both F base w = (Inl e, w1)" "good w1" "mem w1 = mem w"
  then show thesis by (intro that(1) [of e w1]) (simp_all add: portal_save_def plan_save_def andThen_def)
next
  fix a b w1
  assume 1: "read_both F base w = (Inr (a, b), w1)" "good w1" "mem w1 = mem w"
    and ab: "sector_record (mem w) (sector_offset base 0) = Inr a" "sector_record (mem w) (sector_offset base 1) = Inr b"
  let ?t = "plan_target a b" let ?off = "sector_offset base (st_target_sector ?t)"
  have plan: "plan_save F base w = (Inr ?t, w1)" using 1(1) by (simp add: plan_save_def andThen_def ok_def)
  have off: "unat (?off + of_nat SECTOR_SIZE) = unat ?off + SECTOR_SIZE"
    using unat_sector_offset(3) [OF assms(2)] plan_target_sector by blast
  obtain er buf where enc: "encode_record c (st_next_seq ?t) (replicate SECTOR_SIZE 0) = (er, buf)" by fastforce
  have len: "length buf = SECTOR_SIZE" using encode_record_keeps_length [of c "st_next_seq ?t" "replicate SECTOR_SIZE 0"] enc by simp
  show thesis
  proof (cases er)
    case (Inl e)
    with plan enc 1 show thesis by (intro that(1) [of e w1]) (simp_all add: portal_save_def andThen_def fail_def)
  next
    case (Inr n)
    let ?bs = "take (pad_to_write_granularity n) (put buf n (replicate (pad_to_write_granularity n - n) 0xFF))"
    have bs: "length ?bs \<le> SECTOR_SIZE" using len by simp
    have n: "n \<le> pad_to_write_granularity n" by (simp add: pad_to_write_granularity_def WRITE_GRANULARITY_def)
    show thesis
    proof (rule erase_cases [OF 1(2), of ?off "?off + of_nat SECTOR_SIZE"])
      fix r2 w2
      assume 2: "flash_op (nf_erase F ?off (?off + of_nat SECTOR_SIZE)) w1 = (r2, w2)" "good w2"
        "\<And>x. x < unat ?off \<or> unat (?off + of_nat SECTOR_SIZE) \<le> x \<Longrightarrow> mem w2 x = mem w1 x"
        "r2 = Inr () \<Longrightarrow> \<forall>x. unat ?off \<le> x \<and> x < unat (?off + of_nat SECTOR_SIZE) \<longrightarrow> mem w2 x = 0xFF"
      show thesis
      proof (rule write_cases [OF 2(2), of ?off ?bs])
        fix r3 w3
        assume 3: "flash_op (nf_write F ?off ?bs) w2 = (r3, w3)" "good w3"
          "\<And>x. x < unat ?off \<or> unat ?off + length ?bs \<le> x \<Longrightarrow> mem w3 x = mem w2 x"
          "r3 = Inr () \<Longrightarrow> \<forall>i < length ?bs. mem w3 (unat ?off + i) = and (mem w2 (unat ?off + i)) (?bs ! i)"
        let ?r = "case r2 of Inl e \<Rightarrow> Inl e | Inr _ \<Rightarrow> r3" and ?w = "case r2 of Inl e \<Rightarrow> w2 | Inr _ \<Rightarrow> w3"
        have run: "portal_save F base c w = (?r, ?w)"
          using plan enc Inr 2(1) 3(1) by (simp add: portal_save_def andThen_def Let_def split: sum.splits)
        show thesis
        proof (rule that(2) [OF ab enc [unfolded Inr] run])
          show "good ?w" using 2(2) 3(2) by (simp split: sum.splits)
          show "mem ?w x = mem w x" if "\<not> in_sector ?off x" for x
          proof -
            have "x < unat ?off \<or> unat ?off + SECTOR_SIZE \<le> x" using that by (auto simp: in_sector_def)
            with off bs have "mem w2 x = mem w1 x" "mem w3 x = mem w2 x" by (intro 2(3) 3(3); linarith)+
            with 1(3) show ?thesis by (simp split: sum.splits)
          qed
          show "\<forall>i < n. i < SECTOR_SIZE \<longrightarrow> mem ?w (unat ?off + i) = buf ! i" if "?r = Inr ()"
          proof (intro allI impI)
            fix i assume i: "i < n" "i < SECTOR_SIZE"
            have r: "r2 = Inr ()" "r3 = Inr ()" using that by (simp_all split: sum.splits)
            have "i < length ?bs" using i n len by simp
            moreover have "put buf n x ! i = take n (put buf n x) ! i" for x using i by simp
            then have "?bs ! i = buf ! i" using i n by (simp add: take_put)
            moreover have "and 255 x = x" for x :: u8
            proof -
              have "255 = (- 1 :: u8)" by simp
              then show ?thesis by (simp only: and.left_neutral)
            qed
            moreover note r
            ultimately
            show "mem ?w (unat ?off + i) = buf ! i" using 2(4) [OF r(1)] 3(4) [OF r(2)] off i(2) r by simp
          qed
        qed
      qed
    qed
  qed
qed

end

lemma record_length_field:
  assumes "length (record_bytes p seq tvs) < 65536"
  shows "unat (of_le16 (record_bytes p seq tvs ! 9) (record_bytes p seq tvs ! 10)) = length (record_bytes p seq tvs)"
proof -
  let ?n = "length (record_bytes p seq tvs)"
  obtain n0 n1 where n: "le16 (of_nat ?n) = [n0, n1]" "of_le16 n0 n1 = of_nat ?n"
    by (simp add: le16_def be16_def of_le16_def)
  obtain m0 m1 m2 m3 where m: "le32 MAGIC = [m0, m1, m2, m3]" by (simp add: le32_def be32_def)
  obtain s0 s1 s2 s3 where s: "le32 seq = [s0, s1, s2, s3]" by (simp add: le32_def be32_def)
  have "record_bytes p seq tvs ! 9 = n0" "record_bytes p seq tvs ! 10 = n1"
    using n(1) unfolding length_record_bytes
    by (simp_all add: record_bytes_def record_front_def Let_def m s del: of_nat_add)
  with n(2) assms show ?thesis by (simp add: unat_of_nat_less)
qed

text \<open>A sector that begins with an encoded record holds that record.\<close>

lemma sector_record_of_bytes:
  fixes seq :: u32
  assumes "config_ok c"
  defines "r \<equiv> record_bytes (config_profile c) seq (record_tlvs c)"
  assumes "\<And>i. i < length r \<Longrightarrow> m (unat off + i) = r ! i"
  shows "sector_record m off = Inr (Some \<lparr>dr_seq = seq, dr_profile = config_profile c, dr_config = c\<lparr>pc_lora := None\<rparr>\<rparr>)"
proof -
  have len: "length r \<le> 1148" "16 \<le> length r"
    unfolding r_def using record_length [OF assms(1)] by (simp_all add: length_record_bytes HEADER_FIXED_def CRC_LEN_def)
  then have "min (unat (of_le16 (m (unat off + 9)) (m (unat off + 10)))) MAX_RECORD_LEN = length r"
    using record_length_field [of "config_profile c" seq "record_tlvs c"] assms(3)
    by (simp add: r_def [symmetric] MAX_RECORD_LEN_def)
  moreover have "mem_bytes m off (length r) = r"
    using assms(3) by (auto simp: mem_bytes_def intro: nth_equalityI)
  ultimately show ?thesis
    using decode_encoded [OF assms(1), of seq] by (simp add: sector_record_def decoded_ok_def r_def)
qed

lemma active_untouched:
  assumes "stored m base = Inr (Some rec)"
    and "sector_record m (sector_offset base 0) = Inr a" "sector_record m (sector_offset base 1) = Inr b"
  shows "sector_record m (sector_offset base (1 - st_target_sector (plan_target a b))) = Inr (Some rec)"
  using assms
  by (auto simp: stored_def bind_res_def plan_target_def pick_active_def split: option.splits if_splits)

text \<open>\<open>off\<close> and \<open>off'\<close> are the two sectors.\<close>

lemma sectors_disjoint:
  assumes "unat base + 8192 < 2 ^ 32" and "i = 0 \<or> i = 1" and "in_sector (sector_offset base (1 - i)) x"
  shows "\<not> in_sector (sector_offset base i) x"
  using assms(2,3) unat_sector_offset(1,2) [OF assms(1)] by (auto simp: in_sector_def SECTOR_SIZE_def)

lemma stored_with_active:
  assumes "i = 0 \<or> i = 1" and "sector_record m (sector_offset base (1 - i)) = Inr (Some rec)"
  shows "stored m base \<in> {Inr (Some rec), sector_record m (sector_offset base i)} \<and> stored m base \<noteq> Inr None"
  using assms
  by (cases "sector_record m (sector_offset base 0)"; cases "sector_record m (sector_offset base 1)")
    (auto simp: stored_def bind_res_def pick_active_def split: option.splits)

text \<open>The record written last is the active one.\<close>

lemma newest_wins:
  assumes "sector_record m (sector_offset base 0) = Inr a" and "sector_record m (sector_offset base 1) = Inr b"
    and "active_seq m base \<noteq> - 1"
  defines "i \<equiv> st_target_sector (plan_target a b)"
  assumes "sector_record m' (sector_offset base i) = Inr (Some r)" and "dr_seq r = st_next_seq (plan_target a b)"
    and "sector_record m' (sector_offset base (1 - i)) = sector_record m (sector_offset base (1 - i))"
  shows "stored m' base = Inr (Some r)"
proof -
  have up: "saturating_add s 1 = s + 1 \<and> s \<le> s + 1 \<and> \<not> s + 1 \<le> s" if "s \<noteq> - 1" for s :: u32
  proof -
    have "1 + s \<noteq> 0" using that by (metis add.commute add_eq_0_iff2)
    then have u: "unat (s + 1) = unat s + 1" by (metis Suc_eq_plus1 add.commute unatSuc)
    then have "unat s + 1 < 2 ^ 32" using unsigned_less [where 'a = nat and w = "s + 1"] by simp
    with u show ?thesis by (simp add: saturating_add_def word_le_nat_alt)
  qed
  show ?thesis
  proof (cases a)
    case None
    then have "i = 0" by (simp add: i_def plan_target_def)
    with assms None up show ?thesis
      by (cases b) (auto simp: stored_def bind_res_def plan_target_def pick_active_def active_seq_def)
  next
    case (Some ra)
    show ?thesis
    proof (cases b)
      case None
      then have "i = 1" by (simp add: i_def plan_target_def Some)
      with assms None Some up show ?thesis
        by (auto simp: stored_def bind_res_def plan_target_def pick_active_def active_seq_def)
    next
      case (Some rb)
      then have "i = (if dr_seq rb \<le> dr_seq ra then 1 else 0)" by (simp add: i_def plan_target_def \<open>a = Some ra\<close>)
      with assms(1-3,5-) Some \<open>a = Some ra\<close> up [of "dr_seq ra"] up [of "dr_seq rb"] show ?thesis
        by (auto simp: stored_def bind_res_def plan_target_def pick_active_def active_seq_def split: if_splits)
    qed
  qed
qed

text \<open>On the in-memory flash every operation succeeds.\<close>

definition flash_with :: "bytes \<Rightarrow> instr_flash" where
  "flash_with bs = \<lparr>if_data = bs @ replicate (8192 - length bs) 0xFF, if_read_log = []\<rparr>"

lemma instr_opened: "opened instr_ops 0"
proof -
  have "portal_open instr_ops 0 8192 = Inr 0"
    by (simp add: portal_open_def instr_ops_def STORE_SIZE_def SECTOR_SIZE_def saturating_add_def)
  then show ?thesis by (auto simp: opened_def instr_ops_def)
qed

lemma instr_try_read:
  assumes "length (if_data w) = 8192" and "i = 0 \<or> i = 1"
  obtains w' where "try_read_sector instr_ops 0 i w = (sector_record (instr_mem w) (sector_offset 0 i), w')"
    "if_data w' = if_data w"
proof -
  have "unat (sector_offset 0 i) \<le> 4096" using assms(2) by (auto simp: sector_offset_def SECTOR_SIZE_def)
  then have r: "instr_read (sector_offset 0 i) n w = (Inr (mem_bytes (instr_mem w) (sector_offset 0 i) n),
      w\<lparr>if_read_log := if_read_log w @ [(sector_offset 0 i, n)]\<rparr>)" if "n \<le> 4096" "length (if_data w) = 8192" for n w
    using that by (auto simp: instr_read_def Let_def mem_bytes_def instr_mem_def intro!: nth_equalityI)
  have "fst (try_read_sector instr_ops 0 i w) \<noteq> Inl (Fail Flash)" (is ?ok)
    and data: "if_data (snd (try_read_sector instr_ops 0 i w)) = if_data w"
    using assms(1)
    by (simp_all add: try_read_sector_def andThen_def flash_op_def onResult_def instr_ops_def r ok_def fail_def Let_def
        HEADER_FIXED_def MAX_RECORD_LEN_def decoded_ok_def split: sum.splits failure.splits)
  then show thesis
    using instr.try_read_sector_cases [of w 0 i] assms(1) that by (metis fst_conv snd_conv)
qed

lemma blank_sector:
  assumes "\<And>i. i < 1280 \<Longrightarrow> m (unat off + i) = 0xFF"
  shows "sector_record m off = Inr None"
proof -
  have "mem_bytes m off 1280 = replicate 1280 0xFF"
    using assms by (auto simp: mem_bytes_def intro: nth_equalityI)
  moreover have "unat (of_le16 0xFF 0xFF) = 65535" by (simp add: of_le16_def of_be16_def)
  ultimately show ?thesis
    using assms [of 9] assms [of 10]
    by (simp add: sector_record_def MAX_RECORD_LEN_def decode_record_def HEADER_FIXED_def CRC_LEN_def Let_def
        of_le32_def of_be32_def MAGIC_def decoded_ok_def)
qed

lemma flash_with_mem:
  "length bs \<le> 8192 \<Longrightarrow> instr_mem (flash_with bs) i = (if i < length bs then bs ! i else 0xFF)"
  by (simp add: instr_mem_def flash_with_def nth_append)

lemma instr_save:
  assumes "config_ok c" and "length (if_data w) = 8192"
    and "sector_record (instr_mem w) (sector_offset 0 0) = Inr a" and "sector_record (instr_mem w) (sector_offset 0 1) = Inr b"
  shows "fst (portal_save instr_ops 0 c w) = Inr ()"
proof -
  let ?t = "plan_target a b" let ?off = "sector_offset 0 (st_target_sector ?t)"
  obtain w1 where 1: "try_read_sector instr_ops 0 0 w = (Inr a, w1)" "if_data w1 = if_data w"
    using instr_try_read [OF assms(2), of 0] assms(3) by metis
  moreover obtain w2 where 2: "try_read_sector instr_ops 0 1 w1 = (Inr b, w2)" "if_data w2 = if_data w"
  proof -
    have "length (if_data w1) = 8192" "instr_mem w1 = instr_mem w"
      using 1(2) assms(2) by (simp_all add: instr_mem_def fun_eq_iff)
    then show thesis using that instr_try_read [of w1 1] assms(4) 1(2) by metis
  qed
  ultimately have plan: "plan_save instr_ops 0 w = (Inr ?t, w2)"
    by (simp add: plan_save_def read_both_def andThen_def ok_def)
  let ?r = "record_bytes (config_profile c) (st_next_seq ?t) (record_tlvs c)"
  have len: "length ?r \<le> 1148" by (rule record_length [OF assms(1)])
  then obtain buf where enc: "encode_record c (st_next_seq ?t) (replicate SECTOR_SIZE 0) = (Inr (length ?r), buf)" "length buf = 4096"
    using encode_record_output(1) [OF assms(1), of "st_next_seq ?t" "replicate SECTOR_SIZE 0"] by (auto simp: SECTOR_SIZE_def)
  have "?off = 0 \<or> ?off = 4096"
    using plan_target_sector [of a b] by (auto simp: sector_offset_def SECTOR_SIZE_def)
  moreover obtain n where "n = length ?r" by simp
  ultimately show ?thesis
    using plan enc 2(2) assms(2)
    by (auto simp: portal_save_def andThen_def flash_op_def onResult_def ok_def instr_ops_def instr_erase_def
        instr_write_def SECTOR_SIZE_def Let_def)
qed

lemma load_after_save:
  assumes "nor_flash_contract F mem good" and "good w" and "opened F base"
    and "config_ok c" and "active_seq (mem w) base \<noteq> - 1"
    and "portal_save F base c w = (Inr (), w')"
  shows "fst (portal_load F base w') \<in> {Inl (Fail Flash), Inr (Some (c\<lparr>pc_lora := None\<rparr>))}"
proof (rule nor_flash_contract.save_cases [OF assms(1,2) opened_bound [OF assms(3)], of c])
  fix e w1
  assume "portal_save F base c w = (Inl e, w1)"
  with assms(6) show ?thesis by simp
next
  fix a b buf n r w1
  let ?t = "plan_target a b" let ?i = "st_target_sector ?t"
  let ?rec = "\<lparr>dr_seq = st_next_seq ?t, dr_profile = config_profile c, dr_config = c\<lparr>pc_lora := None\<rparr>\<rparr>"
  assume ab: "sector_record (mem w) (sector_offset base 0) = Inr a" "sector_record (mem w) (sector_offset base 1) = Inr b"
    and enc: "encode_record c (st_next_seq ?t) (replicate SECTOR_SIZE 0) = (Inr n, buf)"
    and run: "portal_save F base c w = (r, w1)" "good w1"
    and out: "\<And>x. \<not> in_sector (sector_offset base ?i) x \<Longrightarrow> mem w1 x = mem w x"
    and bytes: "r = Inr () \<Longrightarrow> \<forall>i < n. i < SECTOR_SIZE \<longrightarrow> mem w1 (unat (sector_offset base ?i) + i) = buf ! i"
  have r: "r = Inr ()" "w1 = w'" using run(1) assms(6) by simp_all
  let ?r = "record_bytes (config_profile c) (st_next_seq ?t) (record_tlvs c)"
  have len: "length ?r \<le> 1148" by (rule record_length [OF assms(4)])
  with encode_record_output(1) [OF assms(4), of "st_next_seq ?t" "replicate SECTOR_SIZE 0"] enc
  have n: "n = length ?r" "take n buf = ?r" by (auto simp: SECTOR_SIZE_def)
  have new: "sector_record (mem w') (sector_offset base ?i) = Inr (Some ?rec)"
    using bytes r len n by (intro sector_record_of_bytes [OF assms(4)]) (simp add: SECTOR_SIZE_def, metis nth_take)
  have other: "sector_record (mem w') (sector_offset base (1 - ?i)) = sector_record (mem w) (sector_offset base (1 - ?i))"
    using sectors_disjoint [OF opened_bound [OF assms(3)] plan_target_sector] out r(2) by (metis sector_record_cong)
  have "stored (mem w') base = Inr (Some ?rec)"
    by (rule newest_wins [OF ab assms(5) new _ other]) simp
  with nor_flash_contract.load_result [OF assms(1) run(2), of base] r(2) show ?thesis
    by (auto simp: bind_res_def)
qed

section \<open>Properties\<close>

text \<open>
  C36: a save cannot lose the credentials.  When a record is active, a save changes nothing outside the
  sector that does not hold it, whatever the save returns and wherever the flash fails or the power goes.
  A load after that finds the active configuration, or the one in the other sector, or reports that the
  flash cannot be read; it never finds the device unprovisioned.
\<close>

theorem save_keeps_active:
  fixes c :: provisioning_config
  assumes "nor_flash_contract F mem good" and "good w" and "opened F base"
    and "stored (mem w) base = Inr (Some rec)"
  defines "w' \<equiv> snd (portal_save F base c w)"
  shows "\<exists>i. (i = 0 \<or> i = 1) \<and> sector_record (mem w) (sector_offset base (1 - i)) = Inr (Some rec) \<and>
    (\<forall>x. \<not> in_sector (sector_offset base i) x \<longrightarrow> mem w' x = mem w x) \<and>
    fst (portal_load F base w') \<in> {Inl (Fail Flash), Inr (Some (dr_config rec)),
      bind_res (sector_record (mem w') (sector_offset base i)) (\<lambda>r. Inr (map_option dr_config r))} \<and>
    fst (portal_load F base w') \<noteq> Inr None"
proof -
  have b: "unat base + 8192 < 2 ^ 32" using opened_bound [OF assms(3)] .
  have after: ?thesis if i: "i = 0 \<or> i = 1" and act: "sector_record (mem w) (sector_offset base (1 - i)) = Inr (Some rec)"
    and w': "good w'" and out: "\<And>x. \<not> in_sector (sector_offset base i) x \<Longrightarrow> mem w' x = mem w x" for i
  proof -
    have "sector_record (mem w') (sector_offset base (1 - i)) = Inr (Some rec)"
      using act sectors_disjoint [OF b i] out by (metis sector_record_cong)
    then have "stored (mem w') base \<in> {Inr (Some rec), sector_record (mem w') (sector_offset base i)} \<and> stored (mem w') base \<noteq> Inr None"
      by (rule stored_with_active [OF i])
    with nor_flash_contract.load_result [OF assms(1) w', of base] i act out show ?thesis
      by (intro exI [of _ i]) (auto simp: bind_res_def split: sum.splits)
  qed
  show ?thesis
  proof (rule nor_flash_contract.save_cases [OF assms(1,2) b, of c])
    fix e w1
    assume 1: "portal_save F base c w = (Inl e, w1)" "good w1" "mem w1 = mem w"
    obtain a b where "sector_record (mem w) (sector_offset base 0) = Inr a" "sector_record (mem w) (sector_offset base 1) = Inr b"
      using assms(4) by (auto simp: stored_def bind_res_def split: sum.splits)
    from active_untouched [OF assms(4) this] plan_target_sector [of a b] 1 show ?thesis
      by (intro after [of "st_target_sector (plan_target a b)"]) (simp_all add: w'_def)
  next
    fix a b buf n r w1
    assume "sector_record (mem w) (sector_offset base 0) = Inr a" "sector_record (mem w) (sector_offset base 1) = Inr b"
      "portal_save F base c w = (r, w1)" "good w1"
      "\<And>x. \<not> in_sector (sector_offset base (st_target_sector (plan_target a b))) x \<Longrightarrow> mem w1 x = mem w x"
    with active_untouched [OF assms(4)] plan_target_sector [of a b] show ?thesis
      by (intro after [of "st_target_sector (plan_target a b)"]) (simp_all add: w'_def)
  qed
qed

theorem save_keeps_active_witness:
  "fst (portal_load instr_ops 0 (snd (portal_save instr_ops 0 example_config
     (flash_with (record_bytes WifiMqttDevice 7 (record_tlvs example_config)))))) \<noteq> Inr None"
proof -
  let ?r = "record_bytes WifiMqttDevice 7 (record_tlvs example_config)" let ?w = "flash_with ?r"
  have p: "config_profile example_config = WifiMqttDevice" by (simp add: example_config_def config_profile_def)
  have len: "length ?r \<le> 1148" using record_length [OF example_config_ok, of 7] by (simp add: p)
  have "sector_record (instr_mem ?w) (sector_offset 0 0) =
      Inr (Some \<lparr>dr_seq = 7, dr_profile = WifiMqttDevice, dr_config = example_config\<lparr>pc_lora := None\<rparr>\<rparr>)"
    using len by (subst sector_record_of_bytes [OF example_config_ok, of 7]) (simp_all add: p flash_with_mem sector_offset_def)
  moreover have "sector_record (instr_mem ?w) (sector_offset 0 1) = Inr None"
    using len by (intro blank_sector) (simp add: flash_with_mem sector_offset_def SECTOR_SIZE_def)
  ultimately have "stored (instr_mem ?w) 0 =
      Inr (Some \<lparr>dr_seq = 7, dr_profile = WifiMqttDevice, dr_config = example_config\<lparr>pc_lora := None\<rparr>\<rparr>)"
    by (simp add: stored_def bind_res_def pick_active_def)
  from save_keeps_active [OF instr.nor_flash_contract_axioms _ instr_opened this, of example_config]
  show ?thesis using len by (auto simp: flash_with_def)
qed

text \<open>
  What was saved is loaded.  After a successful save of a configuration within the field capacities,
  unless the sequence numbers are used up, a load returns that configuration (the LoRaWAN group, which
  this layout has no place for, is empty) or reports that the flash cannot be read.
\<close>

theorem save_then_load:
  assumes "nor_flash_contract F mem good" and "good w" and "opened F base"
    and "config_ok c" and "active_seq (mem w) base \<noteq> - 1"
    and "portal_save F base c w = (Inr (), w')"
  shows "fst (portal_load F base w') \<in> {Inl (Fail Flash), Inr (Some (c\<lparr>pc_lora := None\<rparr>))}"
  using assms by (rule load_after_save)

theorem save_then_load_witness:
  "fst (portal_load instr_ops 0 (snd (portal_save instr_ops 0 example_config (flash_with [])))) \<in>
     {Inl (Fail Flash), Inr (Some example_config)}"
proof -
  let ?w = "flash_with []"
  have blank: "sector_record (instr_mem ?w) off = Inr None" for off by (intro blank_sector) (simp add: flash_with_mem)
  have w: "length (if_data ?w) = 8192" by (simp add: flash_with_def)
  have c: "example_config\<lparr>pc_lora := None\<rparr> = example_config" by (simp add: example_config_def)
  have "active_seq (instr_mem ?w) 0 \<noteq> - 1"
    by (simp add: active_seq_def stored_def bind_res_def blank pick_active_def)
  moreover have "portal_save instr_ops 0 example_config ?w = (Inr (), snd (portal_save instr_ops 0 example_config ?w))"
    using instr_save [OF example_config_ok w blank blank] by (simp add: prod_eq_iff)
  ultimately show ?thesis
    using save_then_load [OF instr.nor_flash_contract_axioms w instr_opened example_config_ok] unfolding c by blast
qed

end
