(* ===== verification/Portal_Router.thy ===== *)
theory Portal_Router
  imports Portal_Http Portal_Session Portal_Store
begin

text \<open>
  The routes of the bare-metal portal (\<^verbatim>\<open>portal.rs\<close> with the shared state of \<^verbatim>\<open>session.rs\<close> in
  \<^verbatim>\<open>rustyfarian-esp-hal-network/src/provisioning/\<close>): the pre-filled form, the template, the dispatch of a
  request, and one connection from the first byte read to the answer.

  The world of a request is the session state, the outcomes signalled so far (the waiter takes the last),
  the events the callback saw, and the credential store behind its trait.  The HTML template is an asset,
  so it is a parameter.  A handler may fail because the response buffer is too small, or panic.
\<close>

section \<open>Model: the session's shared state\<close>

datatype provisioning_event = ClientConnected "mac option" | ClientDisconnected "mac option" | SubmissionAccepted
  | SubmissionRejected | EventCommitted | EventFactoryReset

datatype station_event_kind = Joined | Left

fun station_event :: "station_event_kind \<Rightarrow> mac \<Rightarrow> provisioning_event" where
  "station_event Joined m = ClientConnected (Some m)"
| "station_event Left m = ClientDisconnected (Some m)"

datatype provisioning_outcome = SignalCommitted provisioning_config | SignalFactoryReset | HostAborted

definition validate_profile :: "schema_profile \<Rightarrow> schema_profile + unit" where
  "validate_profile p = (case p of WifiMqttDevice \<Rightarrow> Inr () | _ \<Rightarrow> Inl p)"

definition hex_digit :: "u8 \<Rightarrow> u8" where
  "hex_digit nibble = (if nibble < 10 then 0x30 + nibble else 0x61 + nibble - 10)"

definition generate_nonce :: "u32 \<Rightarrow> bytes" where
  "generate_nonce value = map (\<lambda>shift. hex_digit (ucast (and (drop_bit shift value) 0xF))) [28, 24, 20, 16, 12, 8, 4, 0]"

fun floor_boundary :: "bytes \<Rightarrow> nat \<Rightarrow> nat" where
  "floor_boundary s 0 = 0"
| "floor_boundary s (Suc k) = (if is_char_boundary s (Suc k) then Suc k else floor_boundary s k)"

definition copy_capped :: "nat \<Rightarrow> bytes \<Rightarrow> bytes" where
  "copy_capped n s = push_str n [] (take (floor_boundary s (min (length s) n)) s)"

record portal_defaults =
  pd_wifi_ssid :: bytes
  pd_mqtt_host :: bytes
  pd_mqtt_port :: bytes
  pd_mqtt_user :: bytes
  pd_mqtt_client :: bytes
  pd_ota_url :: bytes

definition defaults_from_borrowed :: "portal_defaults \<Rightarrow> portal_defaults" where
  "defaults_from_borrowed d = \<lparr>pd_wifi_ssid = copy_capped 32 (pd_wifi_ssid d), pd_mqtt_host = copy_capped 64 (pd_mqtt_host d),
     pd_mqtt_port = copy_capped 5 (pd_mqtt_port d), pd_mqtt_user = copy_capped 64 (pd_mqtt_user d),
     pd_mqtt_client = copy_capped 23 (pd_mqtt_client d), pd_ota_url = copy_capped 128 (pd_ota_url d)\<rparr>"

record render_config =
  rc_firmware_version :: bytes
  rc_device_name :: bytes
  rc_profile :: schema_profile
  rc_defaults :: portal_defaults

record shared_state =
  sh_nonce :: bytes
  sh_ap_ip :: ipv4_addr
  sh_on_event :: bool

record 'w portal_store =
  ps_save :: "provisioning_config \<Rightarrow> ('w, failure, unit) prog"
  ps_load :: "('w, failure, provisioning_config option) prog"

text \<open>The store behind the mutex.\<close>

definition flash_store :: "'w nor_flash \<Rightarrow> u32 \<Rightarrow> 'w portal_store" where
  "flash_store F base = \<lparr>ps_save = portal_save F base, ps_load = portal_load F base\<rparr>"

section \<open>Model: the pre-filled form\<close>

record prefill =
  pf_wifi_ssid :: bytes
  pf_mqtt_uri :: bytes
  pf_mqtt_user :: bytes
  pf_mqtt_client :: bytes
  pf_ota_url :: bytes
  pf_dev_name :: bytes

definition prefill_empty :: prefill where
  "prefill_empty = \<lparr>pf_wifi_ssid = [], pf_mqtt_uri = [], pf_mqtt_user = [], pf_mqtt_client = [], pf_ota_url = [], pf_dev_name = []\<rparr>"

text \<open>\<^verbatim>\<open>&s[..s.len().min(n)]\<close>\<close>

definition str_upto :: "nat \<Rightarrow> bytes \<Rightarrow> bytes res" where
  "str_upto n s = (let k = min (length s) n in if is_char_boundary s k then Inr (take k s) else Inl Panic)"

definition compose_mqtt_uri :: "bytes \<Rightarrow> bytes \<Rightarrow> bytes res" where
  "compose_mqtt_uri host port =
     (if host = [] \<or> port = [] then Inr []
      else bind_res (str_upto 64 host) (\<lambda>h. bind_res (str_upto 5 port) (\<lambda>p.
        Inr (push_str 74 (push_str 74 (push_str 74 (push_str 74 [] (ascii ''mqtt://'')) h) [0x3A]) p))))"

definition prefill_from_defaults :: "portal_defaults \<Rightarrow> schema_profile \<Rightarrow> prefill res" where
  "prefill_from_defaults d profile =
     (let p = prefill_empty\<lparr>pf_wifi_ssid := push_str 32 [] (pd_wifi_ssid d), pf_ota_url := push_str 128 [] (pd_ota_url d)\<rparr> in
      if profile = WifiMqttDevice then
        bind_res (compose_mqtt_uri (pd_mqtt_host d) (pd_mqtt_port d)) (\<lambda>uri.
          Inr (p\<lparr>pf_mqtt_uri := uri, pf_mqtt_user := push_str 64 [] (pd_mqtt_user d),
            pf_mqtt_client := push_str 23 [] (pd_mqtt_client d)\<rparr>))
      else Inr p)"

definition opt_upto :: "nat \<Rightarrow> bytes option \<Rightarrow> bytes res" where
  "opt_upto n s = (case s of None \<Rightarrow> Inr [] | Some t \<Rightarrow> bind_res (str_upto n t) (\<lambda>u. Inr (push_str n [] u)))"

definition prefill_from_config :: "provisioning_config \<Rightarrow> prefill res" where
  "prefill_from_config cfg =
     bind_res (str_upto 32 (pc_wifi_ssid cfg)) (\<lambda>ssid.
     bind_res (str_upto 128 (case config_ota_url cfg of Some u \<Rightarrow> u | None \<Rightarrow> [])) (\<lambda>ota.
     bind_res (str_upto 24 (pc_device_name cfg)) (\<lambda>name.
     let p = prefill_empty\<lparr>pf_wifi_ssid := push_str 32 [] ssid, pf_ota_url := push_str 128 [] ota, pf_dev_name := push_str 24 [] name\<rparr> in
     case pc_mqtt cfg of
       None \<Rightarrow> Inr p
     | Some mq \<Rightarrow>
         bind_res (compose_mqtt_uri (mq_host mq) (push_str 5 [] (ascii (dec_digits (unat (mq_port mq)))))) (\<lambda>uri.
         bind_res (opt_upto 64 (mq_username mq)) (\<lambda>user.
         bind_res (opt_upto 23 (mq_client_id mq)) (\<lambda>client.
         Inr (p\<lparr>pf_mqtt_uri := uri, pf_mqtt_user := user, pf_mqtt_client := client\<rparr>)))))))"

definition load_prefill :: "'w portal_store \<Rightarrow> schema_profile \<Rightarrow> portal_defaults \<Rightarrow> ('w, failure, prefill) prog" where
  "load_prefill store profile defaults = onResult (ps_load store) (\<lambda>r w.
     ((case r of
         Inr (Some cfg) \<Rightarrow> if config_profile cfg = profile then prefill_from_config cfg else prefill_from_defaults defaults profile
       | Inr None \<Rightarrow> prefill_from_defaults defaults profile
       | Inl Panic \<Rightarrow> Inl Panic
       | Inl (Fail _) \<Rightarrow> prefill_from_defaults defaults profile), w))"

section \<open>Model: the template\<close>

text \<open>
  The five characters that are replaced are ASCII, so a character of several bytes is passed on as its
  bytes; a chunk that does not fit is skipped and sets the flag.
\<close>

definition html_chunk :: "u8 \<Rightarrow> bytes" where
  "html_chunk b =
     (if b = 0x26 then ascii ''&amp;'' else if b = 0x3C then ascii ''&lt;'' else if b = 0x3E then ascii ''&gt;''
      else if b = 0x22 then ascii ''&quot;'' else if b = 0x27 then ascii ''&#39;'' else [b])"

definition html_escape :: "bytes \<Rightarrow> bytes" where
  "html_escape s = concat (map html_chunk s)"

fun write_chunks :: "nat \<Rightarrow> bytes \<times> bool \<Rightarrow> bytes list \<Rightarrow> bytes \<times> bool" where
  "write_chunks cap st [] = st"
| "write_chunks cap (out, overflowed) (c # cs) =
     (if cap < length out + length c then write_chunks cap (out, True) cs else write_chunks cap (out @ c, overflowed) cs)"

definition write_html_escaped :: "nat \<Rightarrow> bytes \<Rightarrow> bytes \<Rightarrow> bytes option" where
  "write_html_escaped cap out s = (case write_chunks cap (out, False) (map html_chunk s) of (out', overflowed) \<Rightarrow>
     if overflowed then None else Some out')"

definition template_for :: "bytes \<Rightarrow> schema_profile \<Rightarrow> bytes res" where
  "template_for wifi_mqtt_html profile = (case profile of WifiMqttDevice \<Rightarrow> Inr wifi_mqtt_html | LorawanFieldDevice \<Rightarrow> Inl Panic)"

datatype substitution = Escaped bytes | Raw bytes | Verbatim

definition marker_value :: "render_config \<Rightarrow> bytes \<Rightarrow> prefill \<Rightarrow> bytes option \<Rightarrow> bytes \<Rightarrow> substitution" where
  "marker_value config nonce p error_text marker =
     (if marker = ascii ''NONCE'' then Escaped nonce
      else if marker = ascii ''WIFI_SSID'' then Escaped (pf_wifi_ssid p)
      else if marker = ascii ''MQTT_URI'' then Escaped (pf_mqtt_uri p)
      else if marker = ascii ''MQTT_USER'' then Escaped (pf_mqtt_user p)
      else if marker = ascii ''MQTT_CLIENT'' then Escaped (pf_mqtt_client p)
      else if marker = ascii ''OTA_URL'' then Escaped (pf_ota_url p)
      else if marker = ascii ''DEV_NAME'' then Escaped (if pf_dev_name p = [] then rc_device_name config else pf_dev_name p)
      else if marker = ascii ''FW_VER'' then Escaped (rc_firmware_version config)
      else if marker = ascii ''ERRORS'' then Raw (case error_text of Some e \<Rightarrow> e | None \<Rightarrow> [])
      else Verbatim)"

text \<open>The length of the marker that starts here, if one does.\<close>

definition marker_at :: "bytes \<Rightarrow> nat option" where
  "marker_at t = (if take 2 t = [0x7B, 0x7B] then find_window [0x7D, 0x7D] (drop 2 t) else None)"

function render_loop :: "(bytes \<Rightarrow> substitution) \<Rightarrow> nat \<Rightarrow> bytes \<Rightarrow> bytes \<Rightarrow> bytes option" where
  "render_loop val cap out [] = Some out"
| "render_loop val cap out (b # rest) =
     (case marker_at (b # rest) of
        Some n \<Rightarrow>
          (case (case val (take n (drop 2 (b # rest))) of
                   Escaped s \<Rightarrow> write_html_escaped cap out s
                 | Raw s \<Rightarrow> write_bytes cap out s
                 | Verbatim \<Rightarrow> write_bytes cap out (take (n + 4) (b # rest))) of
             None \<Rightarrow> None
           | Some out' \<Rightarrow> render_loop val cap out' (drop (n + 4) (b # rest)))
      | None \<Rightarrow> if cap \<le> length out then None else render_loop val cap (out @ [b]) rest)"
  by pat_completeness auto
termination by (relation "measure (\<lambda>(val, cap, out, t). length t)") auto

text \<open>A panic, an output that does not fit, or the page.\<close>

definition render_portal_template :: "bytes \<Rightarrow> render_config \<Rightarrow> bytes \<Rightarrow> prefill \<Rightarrow> bytes option \<Rightarrow> nat \<Rightarrow> bytes option res" where
  "render_portal_template html config nonce p error_text cap =
     bind_res (template_for html (rc_profile config)) (\<lambda>t. Inr (render_loop (marker_value config nonce p error_text) cap [] t))"

section \<open>Model: routes\<close>

record 'w portal_world =
  pw_state :: provisioning_state
  pw_signals :: "provisioning_outcome list"
  pw_events :: "provisioning_event list"
  pw_store :: 'w

datatype handler_error = NoRoom | HandlerPanic

type_synonym ('w, 'a) handler = "('w portal_world, handler_error, 'a) prog"

definition portal_transition :: "provisioning_input \<Rightarrow> ('w portal_world, invalid_transition, provisioning_state) prog" where
  "portal_transition input w =
     (case ps_apply (pw_state w) input of Inl t \<Rightarrow> (Inl t, w) | Inr nxt \<Rightarrow> (Inr nxt, w\<lparr>pw_state := nxt\<rparr>))"

definition emit :: "shared_state \<Rightarrow> provisioning_event \<Rightarrow> ('w, unit) handler" where
  "emit shared ev w = (Inr (), if sh_on_event shared then w\<lparr>pw_events := pw_events w @ [ev]\<rparr> else w)"

definition signal_outcome :: "provisioning_outcome \<Rightarrow> ('w, unit) handler" where
  "signal_outcome out w = (Inr (), w\<lparr>pw_signals := pw_signals w @ [out]\<rparr>)"

definition respond :: "bytes option \<Rightarrow> ('w, bytes) handler" where
  "respond r = (case r of None \<Rightarrow> fail NoRoom | Some bs \<Rightarrow> ok bs)"

definition on_store :: "('w, 'e, 'a) prog \<Rightarrow> ('w portal_world, 'e, 'a) prog" where
  "on_store p w = (case p (pw_store w) of (r, st) \<Rightarrow> (r, w\<lparr>pw_store := st\<rparr>))"

definition PROBE_PATHS :: "bytes list" where
  "PROBE_PATHS = map ascii [''/generate_204'', ''/gen_204'', ''/hotspot-detect.html'', ''/ncsi.txt'', ''/connecttest.txt'',
     ''/canonical.html'']"

definition page_start :: string where
  "page_start = ''<!DOCTYPE html><html><head><meta charset=\"utf-8\"><meta name=\"viewport\" content=\"width=device-width, initial-scale=1\">''"

definition body_start :: string where
  "body_start = ''</head><body style=\"font-family:system-ui,sans-serif;padding:1rem\">''"

definition COMMITTED_HTML :: bytes where
  "COMMITTED_HTML = ascii (page_start @ ''<title>Provisioned</title>'' @ body_start @
     ''<h1>Provisioned</h1><p>Credentials saved. The device will restart and join your network.</p></body></html>'')"

definition FACTORY_RESET_HTML :: bytes where
  "FACTORY_RESET_HTML = ascii (page_start @ ''<title>Factory reset</title>'' @ body_start @
     ''<h1>Factory reset requested</h1><p>The host application will complete the reset.</p></body></html>'')"

definition SESSION_FINISHED_BODY :: bytes where
  "SESSION_FINISHED_BODY = ascii (''Conflict: this provisioning session has already finished or is saving '' @
     ''another submission; nothing was changed. Wait for the device to restart.'')"

definition RESET_CONFIRM_PART1 :: bytes where
  "RESET_CONFIRM_PART1 = ascii (page_start @ ''<title>Factory reset</title>'' @ body_start @
     ''<h1>Factory reset</h1><p>This will erase all stored credentials. Are you sure?</p>'' @
     ''<form method=\"post\" action=\"/factory-reset\"><input type=\"hidden\" name=\"_nonce\" value=\"'')"

definition RESET_CONFIRM_PART2 :: bytes where
  "RESET_CONFIRM_PART2 = ascii ''\"><button type=\"submit\">Confirm factory reset</button></form></body></html>''"

definition RESUBMIT_HINT :: bytes where
  "RESUBMIT_HINT = ascii (''The form shows the saved or default values, not your submission. '' @
     ''Re-enter your changes and any passwords.'')"

definition error_text :: "validation_error \<Rightarrow> bytes" where
  "error_text e = (case e of
       Missing \<Rightarrow> ascii ''required field is missing''
     | Empty \<Rightarrow> ascii ''field must not be empty''
     | Duplicate \<Rightarrow> ascii ''field appears more than once''
     | TooLong n \<Rightarrow> ascii (''field exceeds maximum length of '' @ dec_digits n @ '' bytes'')
     | TooShort n \<Rightarrow> ascii (''field must be at least '' @ dec_digits n @ '' bytes when not empty'')
     | InvalidHex n \<Rightarrow> ascii (''field must be exactly '' @ dec_digits n @ '' hexadecimal characters'')
     | InvalidUrl \<Rightarrow> ascii ''URL is malformed''
     | MalformedBody \<Rightarrow> ascii ''request body is malformed''
     | TooManyFields \<Rightarrow> ascii ''too many extra fields''
     | UnexpectedForProfile \<Rightarrow> ascii ''field does not belong to the selected profile'')"

definition errors_html :: "field_errors \<Rightarrow> bytes" where
  "errors_html errors =
     (if errors = [] then []
      else ascii ''<div class=\"errors\"><strong>Please fix:</strong><ul>''
        @ concat (map (\<lambda>(f, e). ascii ''<li>'' @ html_escape (form_name f) @ ascii '': '' @ html_escape (error_text e) @ ascii ''</li>'') errors)
        @ ascii ''</ul><p>'' @ RESUBMIT_HINT @ ascii ''</p></div>'')"

definition save_failed_banner :: bytes where
  "save_failed_banner = ascii ''<div class=\"errors\">Could not save credentials to flash. Please try again.<p>'' @ RESUBMIT_HINT @
     ascii ''</p></div>''"

definition HEADER_RESERVE :: nat where "HEADER_RESERVE = 200"

text \<open>
  The page is rendered behind a reserved head of the buffer, its header written apart, and both joined.
  \<^verbatim>\<open>GET /\<close> also requires more than 160 bytes, which the reserve includes.
\<close>

definition assemble_page :: "nat \<Rightarrow> bytes \<Rightarrow> bytes \<Rightarrow> bytes option" where
  "assemble_page cap status_line body =
     (case write_all HEADER_RESERVE []
        [ascii ''HTTP/1.1 '' @ status_line @ crlf @ ascii ''Content-Type: '' @ text_html @ crlf @ ascii ''Content-Length: '',
         u32_decimal (of_nat (length body)), crlf @ ascii ''Connection: close'' @ crlf @ ascii ''Cache-Control: no-store'' @ crlf @ crlf] of
        None \<Rightarrow> None
      | Some hdr \<Rightarrow> if cap < length hdr + length body then None else Some (hdr @ body))"

definition portal_page :: "bytes \<Rightarrow> shared_state \<Rightarrow> 'w portal_store \<Rightarrow> render_config \<Rightarrow> nat \<Rightarrow> bytes \<Rightarrow> bytes option \<Rightarrow>
    ('w, bytes) handler" where
  "portal_page html shared store config cap status_line error =
     onResult (on_store (load_prefill store (rc_profile config) (rc_defaults config))) (\<lambda>r.
       case r of
         Inl _ \<Rightarrow> fail HandlerPanic
       | Inr p \<Rightarrow>
           if cap < HEADER_RESERVE then fail NoRoom
           else case render_portal_template html config (sh_nonce shared) p error (cap - HEADER_RESERVE) of
               Inl _ \<Rightarrow> fail HandlerPanic
             | Inr None \<Rightarrow> fail NoRoom
             | Inr (Some body) \<Rightarrow> respond (assemble_page cap status_line body))"

definition get_route :: "bytes \<Rightarrow> shared_state \<Rightarrow> 'w portal_store \<Rightarrow> render_config \<Rightarrow> bytes \<Rightarrow> nat \<Rightarrow> bytes \<Rightarrow> ('w, bytes) handler" where
  "get_route html shared store config ap_ip_str cap target =
     (if target \<in> set PROBE_PATHS then
        respond (build_redirect cap (push_str 32 (push_str 32 (push_str 32 [] (ascii ''http://'')) ap_ip_str) (ascii ''/'')))
      else if target = ascii ''/factory-reset'' then
        (if 1024 < length RESET_CONFIRM_PART1 + length (sh_nonce shared) + length RESET_CONFIRM_PART2 then fail NoRoom
         else respond (build_response cap 200 text_html (RESET_CONFIRM_PART1 @ sh_nonce shared @ RESET_CONFIRM_PART2)))
      else portal_page html shared store config cap (ascii ''200 OK'') None)"

definition post_save :: "bytes \<Rightarrow> shared_state \<Rightarrow> 'w portal_store \<Rightarrow> render_config \<Rightarrow> nat \<Rightarrow> bytes \<Rightarrow> ('w, bytes) handler" where
  "post_save html shared store config cap body =
     (if \<not> nonce_matches body (sh_nonce shared) then
        respond (build_response cap 403 text_plain (ascii ''Forbidden: session token mismatch.''))
      else if \<not> utf8_valid body then
        respond (build_response cap 400 text_plain (ascii ''Bad Request: invalid UTF-8 in body.''))
      else case parse_form body (rc_profile config) of
          Inl errors \<Rightarrow>
            onResult (portal_transition InvalidSubmission) (\<lambda>_.
            andThen (emit shared SubmissionRejected) (\<lambda>_.
              portal_page html shared store config cap (ascii ''400 Bad Request'')
                (if errors_html errors = [] then None else Some (errors_html errors))))
        | Inr config_to_save \<Rightarrow>
            onResult (portal_transition ValidSubmission) (\<lambda>r. case r of
              Inl _ \<Rightarrow> respond (build_response cap 409 text_plain SESSION_FINISHED_BODY)
            | Inr _ \<Rightarrow>
                andThen (emit shared SubmissionAccepted) (\<lambda>_.
                onResult (on_store (ps_save store config_to_save)) (\<lambda>saved. case saved of
                  Inl Panic \<Rightarrow> fail HandlerPanic
                | Inl (Fail _) \<Rightarrow>
                    onResult (portal_transition PersistFailed) (\<lambda>_.
                      portal_page html shared store config cap (ascii ''500 Internal Server Error'') (Some save_failed_banner))
                | Inr _ \<Rightarrow>
                    onResult (portal_transition PersistOk) (\<lambda>r. case r of
                      Inl _ \<Rightarrow> respond (build_response cap 409 text_plain SESSION_FINISHED_BODY)
                    | Inr _ \<Rightarrow>
                        andThen (signal_outcome (SignalCommitted config_to_save)) (\<lambda>_.
                        andThen (emit shared EventCommitted) (\<lambda>_.
                          respond (build_response cap 200 text_html COMMITTED_HTML))))))))"

definition post_factory_reset :: "shared_state \<Rightarrow> nat \<Rightarrow> bytes \<Rightarrow> ('w, bytes) handler" where
  "post_factory_reset shared cap body =
     (if \<not> nonce_matches body (sh_nonce shared) then
        respond (build_response cap 403 text_plain (ascii ''Forbidden: session token mismatch.''))
      else onResult (portal_transition FactoryReset) (\<lambda>r. case r of
          Inl _ \<Rightarrow> respond (build_response cap 409 text_plain SESSION_FINISHED_BODY)
        | Inr _ \<Rightarrow>
            andThen (signal_outcome SignalFactoryReset) (\<lambda>_.
            andThen (emit shared EventFactoryReset) (\<lambda>_.
              respond (build_response cap 200 text_html FACTORY_RESET_HTML)))))"

definition dispatch_request :: "bytes \<Rightarrow> parsed_request \<Rightarrow> bytes \<Rightarrow> shared_state \<Rightarrow> 'w portal_store \<Rightarrow> render_config \<Rightarrow> bytes \<Rightarrow> nat \<Rightarrow>
    ('w, bytes) handler" where
  "dispatch_request html req body shared store config ap_ip_str cap =
     (case rq_method req of
        Get \<Rightarrow> get_route html shared store config ap_ip_str cap (target_str req)
      | Post \<Rightarrow>
          if target_str req = ascii ''/save'' then post_save html shared store config cap body
          else if target_str req = ascii ''/factory-reset'' then post_factory_reset shared cap body
          else respond (build_response cap 404 text_plain (ascii ''Not Found'')))"

section \<open>Model: one connection\<close>

definition write_octet :: "bytes \<Rightarrow> u8 \<Rightarrow> bytes" where
  "write_octet s n = (if n = 0 then push_str 16 s [0x30] else foldl (\<lambda>out d. push_str 16 out [d]) s (rev (u32_digits_rev (unat n))))"

fun ap_ip_text :: "ipv4_addr \<Rightarrow> bytes" where
  "ap_ip_text (Ipv4Addr a b c d) = write_octet (push_str 16 (write_octet (push_str 16 (write_octet (push_str 16
     (write_octet [] a) [0x2E]) b) [0x2E]) c) [0x2E]) d"

text \<open>The answer with the number of body bytes left to drain; a panic stops the device.\<close>

datatype served = Answer bytes nat | ServePanic

definition receive_body :: "'s sock_read \<Rightarrow> parsed_request \<Rightarrow> bytes \<Rightarrow> 's \<Rightarrow> bytes \<times> 's" where
  "receive_body read req buf s =
     (let hdr_end = (case header_end buf of Some p \<Rightarrow> p + 4 | None \<Rightarrow> length buf) in
      case (rq_method req, ph_content_length (rq_headers req)) of
        (Post, Some cl) \<Rightarrow>
          map_prod (drop hdr_end) (\<lambda>s. s) (read_body read (body_read_target hdr_end (unat cl) DEFAULT_REQUEST_SIZE_CAP) buf s)
      | _ \<Rightarrow> (drop hdr_end buf, s))"

definition serve_connection :: "'s sock_read \<Rightarrow> bytes \<Rightarrow> shared_state \<Rightarrow> 'w portal_store \<Rightarrow> render_config \<Rightarrow>
    's \<Rightarrow> 'w portal_world \<Rightarrow> served \<times> 's \<times> 'w portal_world" where
  "serve_connection read html shared store config s w =
     (case read_request read DEFAULT_REQUEST_SIZE_CAP DEFAULT_REQUEST_SIZE_CAP [] s of
        (Inl e, s1) \<Rightarrow> (Answer (error_response DEFAULT_TX_BUF e) 0, s1, w)
      | (Inr buf, s1) \<Rightarrow>
          (case parse_request buf DEFAULT_REQUEST_SIZE_CAP of
             Inl e \<Rightarrow> (Answer (error_response DEFAULT_TX_BUF e) 0, s1, w)
           | Inr req \<Rightarrow>
               (case receive_body read req buf s1 of (body, s2) \<Rightarrow>
                  let drain = (case ph_content_length (rq_headers req) of Some cl \<Rightarrow> unat cl - length body | None \<Rightarrow> 0) in
                  (case dispatch_request html req body shared store config (ap_ip_text (sh_ap_ip shared)) DEFAULT_TX_BUF w of
                     (Inr resp, w') \<Rightarrow> (Answer resp drain, s2, w')
                   | (Inl NoRoom, w') \<Rightarrow> (Answer MINIMAL_500 drain, s2, w')
                   | (Inl HandlerPanic, w') \<Rightarrow> (ServePanic, s2, w')))))"

section \<open>Lemmas: what a handler does to the world\<close>

lemmas handler_defs = onResult_def andThen_def ok_def fail_def respond_def on_store_def emit_def signal_outcome_def
  portal_transition_def

lemma load_prefill_store [simp]: "snd (load_prefill store profile d st) = snd (ps_load store st)"
  by (simp add: load_prefill_def onResult_def split: prod.splits)

lemma portal_page_world [simp]:
  "snd (portal_page html shared store config cap status e w) = w\<lparr>pw_store := snd (ps_load store (pw_store w))\<rparr>"
proof -
  obtain r st where l: "load_prefill store (rc_profile config) (rc_defaults config) (pw_store w) = (r, st)" by fastforce
  then have "st = snd (ps_load store (pw_store w))" using load_prefill_store [of store "rc_profile config"] by (metis snd_conv)
  with l show ?thesis by (auto simp: portal_page_def handler_defs split: sum.splits option.splits)
qed

lemma respond_world [simp]: "snd (respond r w) = w"
  by (simp add: respond_def ok_def fail_def split: option.splits)

lemma get_world: "snd (get_route html shared store config ip cap target w) \<in> {w, w\<lparr>pw_store := snd (ps_load store (pw_store w))\<rparr>}"
  by (auto simp: get_route_def fail_def)

lemma refused_save: "\<not> nonce_matches body (sh_nonce shared) \<Longrightarrow> snd (post_save html shared store config cap body w) = w"
  by (simp add: post_save_def)

lemma refused_reset: "\<not> nonce_matches body (sh_nonce shared) \<Longrightarrow> snd (post_factory_reset shared cap body w) = w"
  by (simp add: post_factory_reset_def)

definition noted :: "shared_state \<Rightarrow> provisioning_event list \<Rightarrow> provisioning_event list" where
  "noted shared evs = (if sh_on_event shared then evs else [])"

text \<open>The branches of a submission with the right nonce.\<close>

lemma save_invalid:
  assumes "nonce_matches body (sh_nonce shared)" and "utf8_valid body" and "parse_form body (rc_profile config) = Inl errors"
  shows "snd (post_save html shared store config cap body w) =
    w\<lparr>pw_events := pw_events w @ noted shared [SubmissionRejected], pw_store := snd (ps_load store (pw_store w))\<rparr>"
proof -
  have "pw_state w = n" if "ps_apply (pw_state w) InvalidSubmission = Inr n" for n using that by (auto elim: ps_apply_InrE)
  then show ?thesis using assms
    by (auto simp: post_save_def noted_def onResult_def andThen_def portal_transition_def emit_def split: sum.splits)
qed

lemma save_refused:
  assumes valid: "nonce_matches body (sh_nonce shared)" "utf8_valid body" "parse_form body (rc_profile config) = Inr c"
    and "pw_state w \<noteq> AwaitingSubmission"
  shows "post_save html shared store config cap body w = respond (build_response cap 409 text_plain SESSION_FINISHED_BODY) w"
  using assms by (cases "pw_state w") (simp_all add: post_save_def onResult_def portal_transition_def)

lemma save_stored:
  assumes valid: "nonce_matches body (sh_nonce shared)" "utf8_valid body" "parse_form body (rc_profile config) = Inr c"
    and "pw_state w = AwaitingSubmission" and "ps_save store c (pw_store w) = (Inr (), st)"
  shows "post_save html shared store config cap body w = respond (build_response cap 200 text_html COMMITTED_HTML)
    (w\<lparr>pw_state := Committed, pw_signals := pw_signals w @ [SignalCommitted c],
      pw_events := pw_events w @ noted shared [SubmissionAccepted, EventCommitted], pw_store := st\<rparr>)"
  using assms
  by (cases w) (simp add: post_save_def onResult_def andThen_def portal_transition_def emit_def on_store_def signal_outcome_def noted_def)

lemma save_rejected:
  assumes "nonce_matches body (sh_nonce shared)" and "utf8_valid body" and "parse_form body (rc_profile config) = Inl errors"
  shows "post_save html shared store config cap body w =
    portal_page html shared store config cap (ascii ''400 Bad Request'') (if errors_html errors = [] then None else Some (errors_html errors))
      (w\<lparr>pw_events := pw_events w @ noted shared [SubmissionRejected]\<rparr>)"
proof -
  have "pw_state w = n" if "ps_apply (pw_state w) InvalidSubmission = Inr n" for n using that by (auto elim: ps_apply_InrE)
  then show ?thesis using assms
    by (auto simp: post_save_def noted_def onResult_def andThen_def portal_transition_def emit_def split: sum.splits)
qed

lemma save_failed_page:
  assumes valid: "nonce_matches body (sh_nonce shared)" "utf8_valid body" "parse_form body (rc_profile config) = Inr c"
    and "pw_state w = AwaitingSubmission" and "ps_save store c (pw_store w) = (Inl (Fail e), st)"
  shows "post_save html shared store config cap body w =
    portal_page html shared store config cap (ascii ''500 Internal Server Error'') (Some save_failed_banner)
      (w\<lparr>pw_events := pw_events w @ noted shared [SubmissionAccepted], pw_store := st\<rparr>)"
  using assms
  by (cases w) (simp add: post_save_def onResult_def andThen_def portal_transition_def emit_def on_store_def noted_def)

lemma save_failed:
  assumes valid: "nonce_matches body (sh_nonce shared)" "utf8_valid body" "parse_form body (rc_profile config) = Inr c"
    and "pw_state w = AwaitingSubmission" and "ps_save store c (pw_store w) = (Inl (Fail e), st)"
  shows "snd (post_save html shared store config cap body w) =
    w\<lparr>pw_events := pw_events w @ noted shared [SubmissionAccepted], pw_store := snd (ps_load store st)\<rparr>"
  unfolding save_failed_page [OF assms] by simp

lemma save_panicked:
  assumes valid: "nonce_matches body (sh_nonce shared)" "utf8_valid body" "parse_form body (rc_profile config) = Inr c"
    and "pw_state w = AwaitingSubmission" and "ps_save store c (pw_store w) = (Inl Panic, st)"
  shows "post_save html shared store config cap body w = (Inl HandlerPanic,
    w\<lparr>pw_state := Persisting, pw_events := pw_events w @ noted shared [SubmissionAccepted], pw_store := st\<rparr>)"
  using assms
  by (simp add: post_save_def onResult_def andThen_def portal_transition_def emit_def on_store_def noted_def fail_def)

lemma reset_refused:
  assumes "nonce_matches body (sh_nonce shared)" and "pw_state w \<noteq> AwaitingSubmission"
  shows "post_factory_reset shared cap body w = respond (build_response cap 409 text_plain SESSION_FINISHED_BODY) w"
  using assms by (cases "pw_state w") (simp_all add: post_factory_reset_def onResult_def portal_transition_def)

lemma reset_accepted:
  assumes "nonce_matches body (sh_nonce shared)" and "pw_state w = AwaitingSubmission"
  shows "post_factory_reset shared cap body w = respond (build_response cap 200 text_html FACTORY_RESET_HTML)
    (w\<lparr>pw_state := FactoryResetPending, pw_signals := pw_signals w @ [SignalFactoryReset],
      pw_events := pw_events w @ noted shared [EventFactoryReset]\<rparr>)"
  using assms
  by (simp add: post_factory_reset_def onResult_def andThen_def portal_transition_def emit_def signal_outcome_def noted_def)

section \<open>Lemmas: one outcome\<close>

fun outcome_fits :: "provisioning_state \<Rightarrow> provisioning_outcome list \<Rightarrow> bool" where
  "outcome_fits AwaitingSubmission signals \<longleftrightarrow> signals = []"
| "outcome_fits Persisting signals \<longleftrightarrow> signals = []"
| "outcome_fits Committed signals \<longleftrightarrow> (\<exists>c. signals = [SignalCommitted c])"
| "outcome_fits FactoryResetPending signals \<longleftrightarrow> signals = [SignalFactoryReset]"

definition portal_ok :: "'w portal_world \<Rightarrow> bool" where
  "portal_ok w \<longleftrightarrow> outcome_fits (pw_state w) (pw_signals w)"

lemma portal_ok_save:
  assumes "portal_ok w"
  shows "portal_ok (snd (post_save html shared store config cap body w))"
proof (cases "nonce_matches body (sh_nonce shared)")
  case nonce: True
  show ?thesis
  proof (cases "utf8_valid body")
    case utf8: True
    show ?thesis
    proof (cases "parse_form body (rc_profile config)")
      case (Inl errors)
      with assms show ?thesis by (simp add: portal_ok_def save_invalid [OF nonce utf8 Inl])
    next
      case (Inr c)
      note valid = nonce utf8 Inr
      show ?thesis
      proof (cases "pw_state w = AwaitingSubmission")
        case True
        obtain r st where "ps_save store c (pw_store w) = (r, st)" by fastforce
        with assms True save_stored [OF valid True] save_failed [OF valid True] save_panicked [OF valid True] show ?thesis
          by (cases r; cases "projl r") (auto simp: portal_ok_def)
      qed (simp add: assms save_refused [OF valid])
    qed
  qed (use assms nonce in \<open>simp add: post_save_def\<close>)
qed (simp add: assms refused_save)

lemma portal_ok_reset: "portal_ok w \<Longrightarrow> portal_ok (snd (post_factory_reset shared cap body w))"
  using refused_reset [of body shared cap w] reset_refused [of body shared w cap] reset_accepted [of body shared w cap]
  by (cases "nonce_matches body (sh_nonce shared)"; cases "pw_state w = AwaitingSubmission") (simp_all add: portal_ok_def)

lemma portal_ok_dispatch:
  assumes "portal_ok w"
  shows "portal_ok (snd (dispatch_request html req body shared store config ip cap w))"
proof (cases "rq_method req")
  case Get
  with assms get_world [of html shared store config ip cap "target_str req" w] show ?thesis
    by (auto simp: dispatch_request_def portal_ok_def)
next
  case Post
  with assms portal_ok_save portal_ok_reset show ?thesis by (auto simp: dispatch_request_def)
qed

definition portal_start :: "'w \<Rightarrow> 'w portal_world" where
  "portal_start st = \<lparr>pw_state = AwaitingSubmission, pw_signals = [], pw_events = [], pw_store = st\<rparr>"

definition portal_step :: "bytes \<Rightarrow> shared_state \<Rightarrow> 'w portal_store \<Rightarrow> render_config \<Rightarrow> bytes \<Rightarrow> nat \<Rightarrow>
    'w portal_world \<Rightarrow> parsed_request \<times> bytes \<Rightarrow> (handler_error + bytes) \<times> 'w portal_world" where
  "portal_step html shared store config ip cap w r = dispatch_request html (fst r) (snd r) shared store config ip cap w"

interpretation portal: polled_machine "portal_step html shared store config ip cap" "\<lambda>w. \<exists>st. w = portal_start st" portal_ok
  for html shared store config ip cap
proof
  show "portal_ok w" if "\<exists>st. w = portal_start st" for w using that by (auto simp: portal_ok_def portal_start_def)
qed (simp add: portal_step_def portal_ok_dispatch)

section \<open>Lemmas: answers\<close>

lemma write_chunks_flag: "write_chunks cap (out, True) cs = (out', f) \<Longrightarrow> f"
  by (induction cs arbitrary: out) (auto split: if_splits)

lemma write_chunks_eq:
  "length out \<le> cap \<Longrightarrow> (case write_chunks cap (out, False) cs of (out', f) \<Rightarrow> if f then None else Some out') = write_all cap out cs"
proof (induction cs arbitrary: out)
  case (Cons c cs)
  show ?case
  proof (cases "cap < length out + length c")
    case True
    then show ?thesis using write_chunks_flag [of cap out cs]
      by (cases "write_chunks cap (out, True) cs") (auto simp: write_all.simps write_bytes_def)
  next
    case False
    then show ?thesis using Cons.IH [of "out @ c"] by (simp add: write_all.simps write_bytes_def)
  qed
qed (simp add: write_all.simps)

text \<open>An escaped value is written whole or not at all, and has no character that could end its context.\<close>

lemma write_html_escaped_eq:
  "length out \<le> cap \<Longrightarrow> write_html_escaped cap out s = write_bytes cap out (html_escape s)"
  by (simp add: write_html_escaped_def write_chunks_eq write_all_eq write_bytes_def html_escape_def not_less)

lemma html_escape_inert: "0x3C \<notin> set (html_escape s)" "0x3E \<notin> set (html_escape s)" "0x22 \<notin> set (html_escape s)" "0x27 \<notin> set (html_escape s)"
  by (auto simp: html_escape_def html_chunk_def ascii_def split: if_splits)

lemma respond_Inr: "fst (respond r w) = Inr x \<longleftrightarrow> r = Some x"
  by (auto simp: respond_def ok_def fail_def split: option.splits)

definition answers_ok :: "nat \<Rightarrow> handler_error + bytes \<Rightarrow> bool" where
  "answers_ok cap r \<longleftrightarrow> (case r of Inl _ \<Rightarrow> True | Inr bs \<Rightarrow> response_ok bs \<and> length bs \<le> cap)"

lemma respond_build_ok: "http_line ct \<Longrightarrow> answers_ok cap (fst (respond (build_response cap status ct body) w))"
  using build_response_ok by (auto simp: answers_ok_def respond_Inr split: sum.splits)

lemma assemble_page_ok:
  assumes "assemble_page cap status body = Some r" and "http_line status"
  shows "response_ok r \<and> length r \<le> cap"
proof -
  have r: "r = (ascii ''HTTP/1.1 '' @ status) @ crlf @ concat (map (\<lambda>h. h @ crlf) [ascii ''Content-Type: '' @ text_html,
      ascii ''Content-Length: '' @ u32_decimal (of_nat (length body)), ascii ''Connection: close'', ascii ''Cache-Control: no-store'']) @ crlf @ body"
    and l: "length r \<le> cap"
    using assms(1) by (auto simp: assemble_page_def write_all_Nil split: if_splits)
  have "response_ok r" by (rule response_okI [OF r]) (use assms(2) in simp_all)
  with l show ?thesis by blast
qed

lemma portal_page_ok:
  assumes "http_line status"
  shows "answers_ok cap (fst (portal_page html shared store config cap status e w))"
proof -
  obtain r st where "load_prefill store (rc_profile config) (rc_defaults config) (pw_store w) = (r, st)" by fastforce
  then show ?thesis using assemble_page_ok [OF _ assms, of cap]
    by (auto simp: portal_page_def onResult_def on_store_def answers_ok_def fail_def respond_Inr split: sum.splits option.splits)
qed

text \<open>A page starts with its status line.\<close>

lemma portal_page_status:
  "fst (portal_page html shared store config cap status e w) = Inr r \<Longrightarrow> prefix (ascii ''HTTP/1.1 '' @ status @ crlf) r"
  by (auto simp: portal_page_def onResult_def on_store_def fail_def respond_Inr assemble_page_def write_all_Nil
    split: prod.splits sum.splits option.splits if_splits)

lemma status_lines [simp]: "http_line (ascii ''200 OK'')" "http_line (ascii ''400 Bad Request'')"
  by (simp_all add: http_line_def ascii_def)

lemma push_str_line: "http_line out \<Longrightarrow> http_line s \<Longrightarrow> http_line (push_str n out s)"
  by (simp add: push_str_def)

lemma write_octet_line:
  assumes "http_line s"
  shows "http_line (write_octet s n)"
proof -
  have "http_line (foldl (\<lambda>out d. push_str 16 out [d]) s ds)" if "list_all is_digit ds" for ds
    using that assms
  proof (induction ds arbitrary: s)
    case (Cons d ds)
    from Cons.prems have "http_line (push_str 16 s [d])" by (intro push_str_line) (auto simp: http_line_def is_digit_def)
    with Cons show ?case by simp
  qed simp
  moreover have "list_all is_digit (rev (u32_digits_rev k))" for k using u32_digits [of k] by (simp add: list_all_iff)
  ultimately show ?thesis using assms push_str_line [of s "[0x30]" 16] by (simp add: write_octet_def) (simp add: http_line_def)
qed

lemma ap_ip_line: "http_line (ap_ip_text a)"
  by (cases a) (simp add: write_octet_line push_str_line http_line_def [of "[]"] http_line_def [of "[0x2E]"])

lemma get_ok: "http_line ip \<Longrightarrow> answers_ok cap (fst (get_route html shared store config ip cap target w))"
proof -
  assume ip: "http_line ip"
  let ?loc = "push_str 32 (push_str 32 (push_str 32 [] (ascii ''http://'')) ip) (ascii ''/'')"
  have "http_line ?loc" by (intro push_str_line ip) (simp_all add: http_line_def ascii_def)
  then have "answers_ok cap (fst (respond (build_redirect cap ?loc) w))"
    using build_redirect_ok by (auto simp: answers_ok_def respond_Inr split: sum.splits)
  then show ?thesis
    by (simp add: get_route_def respond_build_ok portal_page_ok) (simp add: answers_ok_def fail_def)
qed

lemma save_ok: "answers_ok cap (fst (post_save html shared store config cap body w))"
proof -
  have inv: "answers_ok cap (fst (portal_page html shared store config cap (ascii ''400 Bad Request'') e w))"
    "answers_ok cap (fst (portal_page html shared store config cap (ascii ''500 Internal Server Error'') e w))" for e w
    by (rule portal_page_ok; simp add: http_line_def ascii_def)+
  show ?thesis
    using inv unfolding post_save_def onResult_def andThen_def emit_def signal_outcome_def
    by (auto simp: respond_build_ok split: sum.splits failure.splits prod.splits) (auto simp: answers_ok_def fail_def)
qed

lemma reset_ok: "answers_ok cap (fst (post_factory_reset shared cap body w))"
  by (auto simp: post_factory_reset_def onResult_def andThen_def emit_def signal_outcome_def respond_build_ok
      split: sum.splits prod.splits)

lemma dispatch_ok: "http_line ip \<Longrightarrow> answers_ok cap (fst (dispatch_request html req body shared store config ip cap w))"
  by (simp add: dispatch_request_def get_ok save_ok reset_ok respond_build_ok split: http_method.split)

lemma error_answer_ok: "response_ok (error_response DEFAULT_TX_BUF e) \<and> length (error_response DEFAULT_TX_BUF e) \<le> DEFAULT_TX_BUF"
proof -
  have l: "length (u32_decimal n) \<le> 32" for n :: u32
  proof -
    have "length (u32_digits_rev k) \<le> 10" if "k < 10 ^ 10" for k :: nat
    proof -
      have "k < 10 ^ d \<Longrightarrow> length (u32_digits_rev k) \<le> d" for d :: nat and k :: nat
        by (induction d arbitrary: k) (subst u32_digits_rev.simps; auto simp: less_mult_imp_div_less mult.commute)+
      with that show ?thesis by blast
    qed
    moreover have "unat n < 10 ^ 10" using unat_less_pow [of n] by simp
    ultimately have "length (u32_digits_rev (unat n)) \<le> 10" by blast
    then show ?thesis by (simp add: u32_decimal_def)
  qed
  obtain status body where s: "error_status e = (status, body)" by fastforce
  have "length body \<le> 32" using s by (cases e) (auto simp: ascii_def)
  moreover have "length (reason_phrase (unat status)) \<le> 32" by (subst reason_phrase.simps) (auto simp: ascii_def)
  ultimately have "length (u32_decimal (ucast status)) + (length (reason_phrase (unat status)) +
      (length (u32_decimal (of_nat (length body))) + length body)) \<le> 6027"
    using l [of "ucast status"] l [of "of_nat (length body)"] by linarith
  then obtain r where "build_response DEFAULT_TX_BUF status text_plain body = Some r"
    by (simp add: build_response_def write_all_Nil DEFAULT_TX_BUF_def text_plain_def crlf_def)
  with s build_response_ok [OF this] show ?thesis by (simp add: error_response_def)
qed

section \<open>Lemmas: what a page shows\<close>

text \<open>The part of a stored configuration that is not secret: passwords, keys and extra fields are blanked.\<close>

definition public_view :: "provisioning_config \<Rightarrow> provisioning_config" where
  "public_view c = c\<lparr>pc_wifi_password := [], pc_mqtt := map_option (\<lambda>m. m\<lparr>mq_password := None\<rparr>) (pc_mqtt c),
     pc_lora := None, pc_extras := []\<rparr>"

lemma prefill_public: "prefill_from_config c = prefill_from_config (public_view c)" "config_profile c = config_profile (public_view c)"
  by (cases "pc_mqtt c"; simp add: prefill_from_config_def public_view_def config_profile_def config_ota_url_def)+

text \<open>Two results of a load that differ in secrets at most.\<close>

definition same_shown :: "failure + provisioning_config option \<Rightarrow> failure + provisioning_config option \<Rightarrow> bool" where
  "same_shown x y \<longleftrightarrow> map_sum (\<lambda>e. e) (map_option public_view) x = map_sum (\<lambda>e. e) (map_option public_view) y"

lemma load_prefill_public:
  assumes "same_shown (fst (ps_load A a)) (fst (ps_load B b))"
  shows "fst (load_prefill A p df a) = fst (load_prefill B p df b)"
proof -
  have eq: "prefill_from_config c = prefill_from_config d \<and> config_profile c = config_profile d" if "public_view c = public_view d" for c d
    using that prefill_public by metis
  obtain r x s y where l: "ps_load A a = (r, x)" "ps_load B b = (s, y)" by fastforce
  have "map_sum (\<lambda>e. e) (map_option public_view) r = map_sum (\<lambda>e. e) (map_option public_view) s"
    using assms l by (simp add: same_shown_def)
  then consider e where "r = Inl e" "s = Inl e" | "r = Inr None" "s = Inr None"
    | c d where "r = Inr (Some c)" "s = Inr (Some d)" "public_view c = public_view d"
    by (cases r; cases s) (auto simp: map_option_case split: option.splits)
  then show ?thesis
  proof cases
    case (3 c d)
    with eq [of c d] have "prefill_from_config c = prefill_from_config d" "config_profile c = config_profile d" by simp_all
    with 3 l show ?thesis by (simp add: load_prefill_def onResult_def)
  qed (simp_all add: load_prefill_def onResult_def l)
qed

lemma portal_page_public:
  assumes "fst (load_prefill A (rc_profile config) (rc_defaults config) (pw_store w)) = fst (load_prefill B (rc_profile config) (rc_defaults config) (pw_store v))"
  shows "fst (portal_page html shared A config cap status e w) = fst (portal_page html shared B config cap status e v)"
proof -
  obtain r st st' where "load_prefill A (rc_profile config) (rc_defaults config) (pw_store w) = (r, st)"
    "load_prefill B (rc_profile config) (rc_defaults config) (pw_store v) = (r, st')" using assms by (metis prod.collapse)
  then show ?thesis
    by (auto simp: portal_page_def onResult_def on_store_def fail_def respond_def ok_def split: sum.splits option.splits)
qed

lemma respond_any: "fst (respond r w) = fst (respond r v)"
  by (simp add: respond_def ok_def fail_def split: option.splits)

lemma respond_fst: "fst (respond r w) = (case r of None \<Rightarrow> Inl NoRoom | Some bs \<Rightarrow> Inr bs)"
  by (simp add: respond_def ok_def fail_def split: option.splits)

lemma get_route_public:
  assumes "fst (load_prefill A (rc_profile config) (rc_defaults config) (pw_store w)) = fst (load_prefill B (rc_profile config) (rc_defaults config) (pw_store v))"
  shows "fst (get_route html shared A config ip cap target w) = fst (get_route html shared B config ip cap target v)"
  using portal_page_public [OF assms] respond_any by (auto simp: get_route_def fail_def)

text \<open>Two saves of one configuration with the same outcome; after a failed one the form shows the same.\<close>

definition saved_alike :: "'v portal_store \<Rightarrow> 'v \<Rightarrow> 'w portal_store \<Rightarrow> 'w \<Rightarrow> provisioning_config \<Rightarrow> bool" where
  "saved_alike A a B b c \<longleftrightarrow> fst (ps_save A c a) = fst (ps_save B c b) \<and>
     (\<forall>e. fst (ps_save A c a) = Inl (Fail e) \<longrightarrow> same_shown (fst (ps_load A (snd (ps_save A c a)))) (fst (ps_load B (snd (ps_save B c b)))))"

lemma post_save_public:
  assumes load: "same_shown (fst (ps_load A (pw_store w))) (fst (ps_load B (pw_store v)))"
    and save: "\<And>c. saved_alike A (pw_store w) B (pw_store v) c" and st: "pw_state w = pw_state v"
  shows "fst (post_save html shared A config cap body w) = fst (post_save html shared B config cap body v)"
proof (cases "nonce_matches body (sh_nonce shared) \<and> utf8_valid body")
  case False
  then show ?thesis by (auto simp: post_save_def respond_fst)
next
  case True
  show ?thesis
  proof (cases "parse_form body (rc_profile config)")
    case (Inl errors)
    show ?thesis
      unfolding save_rejected [OF conjunct1 [OF True] conjunct2 [OF True] Inl]
      by (rule portal_page_public) (use load in \<open>simp add: load_prefill_public\<close>)
  next
    case (Inr c)
    note valid = conjunct1 [OF True] conjunct2 [OF True] Inr
    show ?thesis
    proof (cases "pw_state w = AwaitingSubmission")
      case False
      then show ?thesis
        using st by (simp add: save_refused [OF valid] respond_fst)
    next
      case wait: True
      obtain x a where sa: "ps_save A c (pw_store w) = (x, a)" by fastforce
      obtain b where sb: "ps_save B c (pw_store v) = (x, b)" using save [of c] sa by (metis saved_alike_def fst_conv prod.collapse)
      have wait': "pw_state v = AwaitingSubmission" using wait st by simp
      consider "x = Inr ()" | "x = Inl Panic" | e where "x = Inl (Fail e)"
        by (cases x) (metis failure.exhaust, simp)
      then show ?thesis
      proof cases
        case 1
        then show ?thesis
          using sa sb by (simp add: save_stored [OF valid wait] save_stored [OF valid wait'] respond_fst)
      next
        case 2
        then show ?thesis using sa sb by (simp add: save_panicked [OF valid wait] save_panicked [OF valid wait'])
      next
        case (3 e)
        have page: "same_shown (fst (ps_load A a)) (fst (ps_load B b))" using save [of c] sa sb 3 by (simp add: saved_alike_def)
        show ?thesis
          unfolding save_failed_page [OF valid wait sa [unfolded 3]] save_failed_page [OF valid wait' sb [unfolded 3]]
          by (rule portal_page_public) (use page in \<open>simp add: load_prefill_public\<close>)
      qed
    qed
  qed
qed

lemma post_factory_reset_public:
  assumes "pw_state w = pw_state v"
  shows "fst (post_factory_reset shared cap body w) = fst (post_factory_reset shared cap body v)"
proof (cases "nonce_matches body (sh_nonce shared)")
  case False
  then show ?thesis by (simp add: post_factory_reset_def respond_fst)
next
  case True
  then show ?thesis
    using assms by (cases "pw_state w = AwaitingSubmission") (simp_all add: reset_refused reset_accepted respond_fst)
qed

section \<open>Lemmas: nonces\<close>

lemma hex_digit_inj:
  assumes "hex_digit a = hex_digit b" and "a < 16" "b < 16"
  shows "a = b"
proof -
  have "\<forall>a \<in> set (map of_nat [0 ..< 16]). \<forall>b \<in> set (map of_nat [0 ..< 16]). hex_digit a = hex_digit b \<longrightarrow> a = (b :: u8)"
    by code_simp
  moreover have "x \<in> set (map of_nat [0 ..< 16])" if "x < 16" for x :: u8
    using that by (auto simp: word_less_nat_alt intro!: image_eqI [of _ _ "unat x"])
  ultimately show ?thesis using assms by blast
qed

text \<open>Different random words give different nonces.\<close>

lemma generate_nonce_inj:
  assumes "generate_nonce v = generate_nonce w"
  shows "v = w"
proof -
  have nib: "(ucast (and (drop_bit n v) 0xF) :: u8) = ucast (and (drop_bit n w) 0xF)" if "n \<in> {28, 24, 20, 16, 12, 8, 4, 0}" for n
  proof (rule hex_digit_inj)
    show "hex_digit (ucast (and (drop_bit n v) 0xF)) = hex_digit (ucast (and (drop_bit n w) 0xF))"
      using assms that by (auto simp: generate_nonce_def)
    have small: "(ucast (and (drop_bit n x) 0xF) :: u8) < 16" for x :: u32
    proof -
      have "and (drop_bit n x) 0xF \<le> 0xF" by (rule word_and_le1)
      then have "unat (and (drop_bit n x) 0xF) \<le> 15" by (simp add: word_le_nat_alt)
      then show ?thesis by (simp add: word_less_nat_alt unsigned_ucast_eq take_bit_eq_mod)
    qed
    show "(ucast (and (drop_bit n v) 0xF) :: u8) < 16" "(ucast (and (drop_bit n w) 0xF) :: u8) < 16" by (rule small)+
  qed
  show ?thesis
  proof (rule bit_word_eqI)
    fix i assume "i < LENGTH(32)"
    define n where "n = 4 * (i div 4)"
    have n: "n \<in> {28, 24, 20, 16, 12, 8, 4, 0}" and i: "i = n + i mod 4" "i mod 4 < 4"
      using \<open>i < LENGTH(32)\<close> by (auto simp: n_def)
    have b: "bit (ucast (and (drop_bit n x) 0xF) :: u8) (i mod 4) \<longleftrightarrow> bit x i" for x :: u32
    proof -
      have "bit (0xF :: u32) j" if "j < 4" for j :: nat
        using that by (auto simp: numeral_eq_Suc less_Suc_eq bit_Suc)
      moreover have "i mod 4 < LENGTH(8)" using i(2) by simp
      ultimately show ?thesis
        using i by (simp only: bit_ucast_iff bit_and_iff bit_drop_bit_eq comp_def) simp
    qed
    from nib [OF n] b show "bit v i \<longleftrightarrow> bit w i" by metis
  qed
qed

section \<open>Properties\<close>

text \<open>A store that keeps one configuration and can be made to fail, and a request for the witnesses.\<close>

definition cell_store :: "bool \<Rightarrow> provisioning_config option portal_store" where
  "cell_store works = \<lparr>ps_save = (\<lambda>c st. if works then (Inr (), Some c) else (Inl (Fail Flash), st)), ps_load = (\<lambda>st. (Inr st, st))\<rparr>"

definition example_shared :: shared_state where
  "example_shared = \<lparr>sh_nonce = ascii ''0badcafe'', sh_ap_ip = Ipv4Addr 192 168 4 1, sh_on_event = True\<rparr>"

definition example_render :: render_config where
  "example_render = \<lparr>rc_firmware_version = ascii ''1.0'', rc_device_name = ascii ''dev'', rc_profile = WifiMqttDevice,
     rc_defaults = \<lparr>pd_wifi_ssid = [], pd_mqtt_host = [], pd_mqtt_port = [], pd_mqtt_user = [], pd_mqtt_client = [], pd_ota_url = []\<rparr>\<rparr>"

definition example_request :: "http_method \<Rightarrow> string \<Rightarrow> parsed_request" where
  "example_request m target = \<lparr>rq_method = m, rq_target = ascii target,
     rq_headers = \<lparr>ph_host = None, ph_content_length = None, ph_content_type = None\<rparr>\<rparr>"

definition example_post :: bytes where
  "example_post = ascii ''_nonce=0badcafe&'' @ example_body"

lemma example_post_ok:
  "nonce_matches example_post (sh_nonce example_shared)" "utf8_valid example_post"
  "parse_form example_post (rc_profile example_render) = Inr example_form_config"
proof -
  have "form_field example_post (ascii ''_nonce'') = Some (sh_nonce example_shared)" by code_simp
  then show "nonce_matches example_post (sh_nonce example_shared)" by (simp add: nonce_field)
  show "utf8_valid example_post" by code_simp
  have "parse_form example_post WifiMqttDevice = Inr example_form_config" by code_simp
  then show "parse_form example_post (rc_profile example_render) = Inr example_form_config" by (simp add: example_render_def)
qed

text \<open>
  C21: nothing happens without the session's nonce.  A request that is not a \<^verbatim>\<open>POST\<close> whose first \<^verbatim>\<open>_nonce\<close>
  field is the nonce leaves the session state, the signalled outcomes and the events alone, and touches
  the store at most by one load; so no page the phone opens can save credentials or request a reset.
\<close>

theorem no_effect_without_nonce:
  assumes "rq_method req \<noteq> Post \<or> form_field body (ascii ''_nonce'') \<noteq> Some (sh_nonce shared)"
  shows "snd (dispatch_request html req body shared store config ip cap w) \<in> {w, w\<lparr>pw_store := snd (ps_load store (pw_store w))\<rparr>}"
proof (cases "rq_method req")
  case Get
  then show ?thesis using get_world by (simp add: dispatch_request_def)
next
  case Post
  with assms have "\<not> nonce_matches body (sh_nonce shared)" by (simp add: nonce_field)
  then show ?thesis using Post by (simp add: dispatch_request_def refused_save refused_reset)
qed

theorem no_effect_without_nonce_witness:
  "snd (dispatch_request [] (example_request Post ''/save'') example_body example_shared (cell_store True) example_render [] 6144
      (portal_start None)) \<in> {portal_start None, (portal_start None)\<lparr>pw_store := None\<rparr>}"
proof -
  have "form_field example_body (ascii ''_nonce'') \<noteq> Some (sh_nonce example_shared)" by code_simp
  then show ?thesis
    using no_effect_without_nonce [of "example_request Post ''/save''" example_body example_shared "[]" "cell_store True"
        example_render "[]" 6144 "portal_start None"] by (simp add: cell_store_def portal_start_def)
qed

text \<open>
  C22: what a valid submission does.  With the right nonce and a form that parses to \<open>c\<close>, \<^verbatim>\<open>POST /save\<close> hands
  \<open>c\<close> to the store once when the session is waiting: if the store took it, the session is committed, \<open>c\<close>
  is signalled and the answer is the 200 page; if the store failed, the session waits again, nothing is
  signalled and the answer is the form with status 500 and the banner of a failed save.  In any other
  state the answer is 409, and neither store nor session is touched.
\<close>

theorem save_request_effect:
  fixes w :: "'w portal_world" and store :: "'w portal_store" and html ip :: bytes and cap :: nat
  assumes req: "rq_method req = Post" "target_str req = ascii ''/save''"
    and valid: "nonce_matches body (sh_nonce shared)" "utf8_valid body" "parse_form body (rc_profile config) = Inr c"
  defines "res \<equiv> dispatch_request html req body shared store config ip cap w"
  shows "if pw_state w \<noteq> AwaitingSubmission then res = respond (build_response cap 409 text_plain SESSION_FINISHED_BODY) w
    else case ps_save store c (pw_store w) of
        (Inr _, st) \<Rightarrow> res = respond (build_response cap 200 text_html COMMITTED_HTML) (w\<lparr>pw_state := Committed,
          pw_signals := pw_signals w @ [SignalCommitted c],
          pw_events := pw_events w @ noted shared [SubmissionAccepted, EventCommitted], pw_store := st\<rparr>)
      | (Inl (Fail e), st) \<Rightarrow> snd res = w\<lparr>pw_events := pw_events w @ noted shared [SubmissionAccepted],
          pw_store := snd (ps_load store st)\<rparr> \<and>
          fst res = fst (portal_page html shared store config cap (ascii ''500 Internal Server Error'') (Some save_failed_banner)
            (w\<lparr>pw_store := st\<rparr>)) \<and>
          (\<forall>r. fst res = Inr r \<longrightarrow> prefix (ascii ''HTTP/1.1 500 Internal Server Error'' @ crlf) r)
      | (Inl Panic, st) \<Rightarrow> fst res = Inl HandlerPanic \<and> pw_signals (snd res) = pw_signals w"
proof -
  have res: "res = post_save html shared store config cap body w" using req by (simp add: res_def dispatch_request_def)
  obtain r st where saved: "ps_save store c (pw_store w) = (r, st)" by fastforce
  show ?thesis
  proof (cases "pw_state w = AwaitingSubmission")
    case True
    show ?thesis
    proof (cases r)
      case (Inl e)
      show ?thesis
      proof (cases e)
        case (Fail f)
        with Inl saved have s: "ps_save store c (pw_store w) = (Inl (Fail f), st)" by simp
        let ?w = "w\<lparr>pw_events := pw_events w @ noted shared [SubmissionAccepted], pw_store := st\<rparr>"
        have page: "res = portal_page html shared store config cap (ascii ''500 Internal Server Error'') (Some save_failed_banner) ?w"
          unfolding res by (rule save_failed_page [OF valid True s])
        have "fst res = fst (portal_page html shared store config cap (ascii ''500 Internal Server Error'') (Some save_failed_banner) (w\<lparr>pw_store := st\<rparr>))"
          unfolding page by (rule portal_page_public) simp
        moreover have "ascii ''HTTP/1.1 500 Internal Server Error'' @ crlf =
            ascii ''HTTP/1.1 '' @ ascii ''500 Internal Server Error'' @ crlf" by (simp add: ascii_def)
        then have "prefix (ascii ''HTTP/1.1 500 Internal Server Error'' @ crlf) r" if "fst res = Inr r" for r
          using portal_page_status that unfolding page by metis
        ultimately show ?thesis using s True page by simp
      qed (use Inl saved True in \<open>simp_all add: res save_panicked [OF valid]\<close>)
    next
      case (Inr u)
      with saved True show ?thesis unfolding res by (simp add: save_stored [OF valid])
    qed
  qed (simp add: res save_refused [OF valid])
qed

theorem save_request_effect_witness:
  "dispatch_request [] (example_request Post ''/save'') example_post example_shared (cell_store True) example_render [] 6144
      (portal_start None) = respond (build_response 6144 200 text_html COMMITTED_HTML)
        \<lparr>pw_state = Committed, pw_signals = [SignalCommitted example_form_config],
          pw_events = [SubmissionAccepted, EventCommitted], pw_store = Some example_form_config\<rparr>"
proof -
  have "rq_method (example_request Post ''/save'') = Post" by (simp add: example_request_def)
  moreover have "target_str (example_request Post ''/save'') = ascii ''/save''" by code_simp
  ultimately show ?thesis
    using save_request_effect [OF _ _ example_post_ok, where req = "example_request Post ''/save''" and html = "[]"
        and store = "cell_store True" and ip = "[]" and cap = 6144 and w = "portal_start None"]
    by (simp add: portal_start_def cell_store_def noted_def example_shared_def)
qed

text \<open>
  C25: a session has one outcome.  After any sequence of requests at most one outcome has been signalled,
  and it is the one the state names: a committed configuration, or a factory reset, and none while the
  session is open.
\<close>

theorem one_outcome_per_session:
  "outcome_fits (pw_state (run_state (portal_step html shared store config ip cap) (portal_start st) requests))
     (pw_signals (run_state (portal_step html shared store config ip cap) (portal_start st) requests))"
  using portal.inv_run by (fastforce simp: portal_ok_def)

text \<open>
  C26: every answer is a complete response.  Whatever the client sends and however the bytes arrive, what the
  portal writes back has a status line, \<^verbatim>\<open>Cache-Control: no-store\<close>, \<^verbatim>\<open>Connection: close\<close>, the length of the
  body that follows, and fits the transmit buffer.
\<close>

theorem every_answer_complete:
  assumes "fst (serve_connection read html shared store config s w) = Answer r drain"
  shows "response_ok r \<and> length r \<le> DEFAULT_TX_BUF"
proof -
  have minimal: "response_ok MINIMAL_500 \<and> length MINIMAL_500 \<le> DEFAULT_TX_BUF"
    using minimal_500_ok by (simp add: MINIMAL_500_def DEFAULT_TX_BUF_def crlf_def)
  have "response_ok bs \<and> length bs \<le> DEFAULT_TX_BUF"
    if "dispatch_request html req body shared store config (ap_ip_text (sh_ap_ip shared)) DEFAULT_TX_BUF w = (Inr bs, w')" for req body bs w'
    using dispatch_ok [OF ap_ip_line, of DEFAULT_TX_BUF html req body shared store config "sh_ap_ip shared" w] that
    by (simp add: answers_ok_def)
  with minimal error_answer_ok assms show ?thesis
    by (auto simp: serve_connection_def Let_def split: prod.splits sum.splits handler_error.splits)
qed

theorem every_answer_complete_witness:
  "\<exists>r d. fst (serve_connection segment_read [] example_shared (cell_store True) example_render [ascii ''GARBAGE'' @ crlf @ crlf]
      (portal_start None)) = Answer r d \<and> response_ok r \<and> length r \<le> DEFAULT_TX_BUF"
proof -
  have "fst (serve_connection segment_read [] example_shared (cell_store True) example_render [ascii ''GARBAGE'' @ crlf @ crlf]
      (portal_start None)) = Answer (error_response DEFAULT_TX_BUF BadRequestLine) 0" by code_simp
  from this every_answer_complete [OF this] show ?thesis by blast
qed

text \<open>
  C27: a page never depends on a secret.  Take two stores whose configurations agree in everything but
  passwords, keys and extra fields, and in which a save of the same submission has the same outcome.  Then
  every request, a \<^verbatim>\<open>GET\<close> or a \<^verbatim>\<open>POST\<close> that is accepted, rejected or fails to be saved, is answered with
  the same bytes: no page, not even the form behind an error, shows or depends on a stored secret.
\<close>

theorem pages_hide_secrets:
  assumes "same_shown (fst (ps_load A (pw_store w))) (fst (ps_load B (pw_store v)))"
    and "\<And>c. saved_alike A (pw_store w) B (pw_store v) c" and "pw_state w = pw_state v"
  shows "fst (dispatch_request html req body shared A config ip cap w) = fst (dispatch_request html req body shared B config ip cap v)"
  using get_route_public [OF load_prefill_public [OF assms(1)]] post_save_public [OF assms] post_factory_reset_public [OF assms(3)]
  by (simp add: dispatch_request_def respond_fst split: http_method.split)

theorem pages_hide_secrets_witness:
  "fst (dispatch_request [] (example_request Post ''/save'') example_post example_shared (cell_store False) example_render [] 6144
      (portal_start (Some example_config))) =
   fst (dispatch_request [] (example_request Post ''/save'') example_post example_shared (cell_store False) example_render [] 6144
      (portal_start (Some (example_config\<lparr>pc_wifi_password := ascii ''other one''\<rparr>))))"
  by (rule pages_hide_secrets)
    (simp_all add: cell_store_def portal_start_def public_view_def same_shown_def saved_alike_def)

text \<open>
  C28: a request never outgrows its buffer.  Over every socket that returns at most what it was asked for,
  the bytes read for the headers and then for the body stay within the 2048 bytes of the request buffer,
  also when the announced length is larger, and the body is what follows the empty line.
\<close>

theorem request_fits_buffer:
  assumes "socket_contract read"
    and "read_request read DEFAULT_REQUEST_SIZE_CAP DEFAULT_REQUEST_SIZE_CAP [] s = (Inr buf, s')"
  shows "\<exists>p. header_end buf = Some p \<and> length buf \<le> DEFAULT_REQUEST_SIZE_CAP \<and>
    length (fst (receive_body read req buf s')) \<le> DEFAULT_REQUEST_SIZE_CAP - (p + 4) \<and>
    take (length buf - (p + 4)) (fst (receive_body read req buf s')) = drop (p + 4) buf"
proof -
  obtain p where p: "header_end buf = Some p" and l: "length buf \<le> DEFAULT_REQUEST_SIZE_CAP"
    using socket_contract.read_request_length [OF assms(1), of "[]" DEFAULT_REQUEST_SIZE_CAP DEFAULT_REQUEST_SIZE_CAP s buf] assms(2) by auto
  have body: "length (fst (read_body read (body_read_target n k DEFAULT_REQUEST_SIZE_CAP) buf s')) \<le> DEFAULT_REQUEST_SIZE_CAP
      \<and> take (length buf) (fst (read_body read (body_read_target n k DEFAULT_REQUEST_SIZE_CAP) buf s')) = buf" for n k
    using socket_contract.read_body_length [OF assms(1), of "body_read_target n k DEFAULT_REQUEST_SIZE_CAP" buf s'] l
    by (auto simp: body_read_target_def)
  have "take (length buf - (p + 4)) (drop (p + 4) xs) = drop (p + 4) (take (length buf) xs)" for xs :: bytes
    by (simp add: drop_take)
  with p l body show ?thesis
    by (auto simp: receive_body_def Let_def diff_le_mono split: http_method.split option.split)
qed

theorem request_fits_buffer_witness:
  "length (fst (receive_body segment_read (example_request Post ''/save'') (ascii ''POST /save HTTP/1.1'' @ crlf @ crlf @ ascii ''a=b'') [])) \<le> 2025"
proof -
  let ?buf = "ascii ''POST /save HTTP/1.1'' @ crlf @ crlf @ ascii ''a=b''"
  have "read_request segment_read DEFAULT_REQUEST_SIZE_CAP DEFAULT_REQUEST_SIZE_CAP [] [?buf] = (Inr ?buf, [])" by code_simp
  moreover have "header_end ?buf = Some 19" by code_simp
  ultimately show ?thesis
    using request_fits_buffer [OF segments.socket_contract_axioms, of "[?buf]" ?buf "[]" "example_request Post ''/save''"]
    by (simp add: DEFAULT_REQUEST_SIZE_CAP_def)
qed

end
