(* ===== verification/Wake_Lists.thy ===== *)
theory Wake_Lists
  imports Juggler_Prelude
begin

text \<open>
  Waking tasks that wait for a condition (\<^verbatim>\<open>juggler/src/waker_slots.rs\<close> and \<^verbatim>\<open>wait_list.rs\<close>): the
  fixed set of wakers of the bare-metal tier, the growing list of the std tier, and the poll protocol of
  each, which registers before it checks the condition for the last time.

  Wakers are a parameter: \<^verbatim>\<open>will_wake\<close> may miss that two wakers belong to one task, but when it answers
  yes they do, as the standard library documents.  The locale \<open>wake_registry\<close> is what the protocol asks
  of a registry; both registries are instances of it, and the machine at the end runs any number of
  waits against the tasks that change the condition, one lock section per step.
\<close>

section \<open>Model: the slots\<close>

type_synonym 'k waker_slots = "'k option list"

definition slots_new :: "nat \<Rightarrow> 'k waker_slots" where
  "slots_new n = replicate n None"

definition slots_register :: "('k \<Rightarrow> 'k \<Rightarrow> bool) \<Rightarrow> 'k \<Rightarrow> 'k waker_slots \<Rightarrow> bool \<times> 'k waker_slots" where
  "slots_register will_wake waker slots =
     (if list_ex (\<lambda>slot. case slot of Some w \<Rightarrow> will_wake w waker | None \<Rightarrow> False) slots then (True, slots)
      else case position (\<lambda>slot. slot = None) slots of
          Some i \<Rightarrow> (True, slots[i := Some waker])
        | None \<Rightarrow> (False, slots))"

text \<open>The wakers that are woken, and the slots after it.\<close>

definition slots_wake_all :: "'k waker_slots \<Rightarrow> 'k list \<times> 'k waker_slots" where
  "slots_wake_all slots = (List.map_filter (\<lambda>slot. slot) slots, map (\<lambda>_. None) slots)"

definition slots_len :: "'k waker_slots \<Rightarrow> nat" where
  "slots_len slots = length (filter (\<lambda>slot. slot \<noteq> None) slots)"

definition slots_is_empty :: "'k waker_slots \<Rightarrow> bool" where
  "slots_is_empty slots \<longleftrightarrow> slots_len slots = 0"

datatype ready_poll = Ready | Waiting | Full

definition poll_ready :: "bool \<Rightarrow> bool \<Rightarrow> ready_poll" where
  "poll_ready waker_registered condition_met =
     (if condition_met then Ready else if waker_registered then Waiting else Full)"

section \<open>Model: the wait list\<close>

record 'k wait_list =
  wl_next :: u64
  wl_entries :: "(u64 \<times> 'k) list"

definition wl_new :: "'k wait_list" where
  "wl_new = \<lparr>wl_next = 0, wl_entries = []\<rparr>"

text \<open>The first component is the id of the wait afterwards.\<close>

definition wl_register :: "('k \<Rightarrow> 'k \<Rightarrow> bool) \<Rightarrow> u64 option \<Rightarrow> 'k \<Rightarrow> 'k wait_list \<Rightarrow> u64 \<times> 'k wait_list" where
  "wl_register will_wake wid waker l =
     (let (n, l1) = (case wid of Some n \<Rightarrow> (n, l) | None \<Rightarrow> (wl_next l, l\<lparr>wl_next := wl_next l + 1\<rparr>)) in
      (n, case position (\<lambda>(waiter, _). waiter = n) (wl_entries l1) of
            Some p \<Rightarrow> if will_wake (snd (wl_entries l1 ! p)) waker then l1
                      else l1\<lparr>wl_entries := (wl_entries l1)[p := (n, waker)]\<rparr>
          | None \<Rightarrow> l1\<lparr>wl_entries := wl_entries l1 @ [(n, waker)]\<rparr>))"

definition wl_unregister :: "u64 \<Rightarrow> 'k wait_list \<Rightarrow> 'k wait_list" where
  "wl_unregister n l = l\<lparr>wl_entries := filter (\<lambda>(waiter, _). waiter \<noteq> n) (wl_entries l)\<rparr>"

definition wl_wake_all :: "'k wait_list \<Rightarrow> 'k list \<times> 'k wait_list" where
  "wl_wake_all l = (map snd (wl_entries l), l\<lparr>wl_entries := []\<rparr>)"

definition wl_len :: "'k wait_list \<Rightarrow> nat" where "wl_len l = length (wl_entries l)"

definition wl_is_empty :: "'k wait_list \<Rightarrow> bool" where "wl_is_empty l \<longleftrightarrow> wl_len l = 0"

text \<open>
  A wait list with the ids its waits hold (the field \<^verbatim>\<open>id\<close> of each \<^verbatim>\<open>Wait\<close>).  A wait that finished has
  taken its id out, and one that was dropped is gone.
\<close>

type_synonym 'k wait_ids = "'k wait_list \<times> (nat \<Rightarrow> u64 option)"

definition wait_register :: "('k \<Rightarrow> 'k \<Rightarrow> bool) \<Rightarrow> nat \<Rightarrow> 'k \<Rightarrow> 'k wait_ids \<Rightarrow> bool \<times> 'k wait_ids" where
  "wait_register will_wake i waker r =
     (case wl_register will_wake (snd r i) waker (fst r) of (n, l) \<Rightarrow> (True, (l, (snd r)(i := Some n))))"

definition wait_finish :: "nat \<Rightarrow> 'k wait_ids \<Rightarrow> 'k wait_ids" where
  "wait_finish i r = (case snd r i of None \<Rightarrow> r | Some n \<Rightarrow> (wl_unregister n (fst r), (snd r)(i := None)))"

definition wait_wake_all :: "'k wait_ids \<Rightarrow> 'k list \<times> 'k wait_ids" where
  "wait_wake_all r = map_prod (\<lambda>ks. ks) (\<lambda>l. (l, snd r)) (wl_wake_all (fst r))"

section \<open>Model: waits against publishers\<close>

text \<open>The operations of a registry, as the protocol uses them: of a wait's number and its task's waker.\<close>

record ('r, 'k) registry =
  rg_precheck :: bool
  rg_register :: "nat \<Rightarrow> 'k \<Rightarrow> 'r \<Rightarrow> bool \<times> 'r"
  rg_finish :: "nat \<Rightarrow> 'r \<Rightarrow> 'r"
  rg_wake_all :: "'r \<Rightarrow> 'k list \<times> 'r"

definition slots_registry :: "('k \<Rightarrow> 'k \<Rightarrow> bool) \<Rightarrow> ('k waker_slots, 'k) registry" where
  "slots_registry will_wake = \<lparr>rg_precheck = False, rg_register = (\<lambda>_. slots_register will_wake), rg_finish = (\<lambda>_ r. r),
     rg_wake_all = slots_wake_all\<rparr>"

definition list_registry :: "('k \<Rightarrow> 'k \<Rightarrow> bool) \<Rightarrow> ('k wait_ids, 'k) registry" where
  "list_registry will_wake = \<lparr>rg_precheck = True, rg_register = wait_register will_wake, rg_finish = wait_finish,
     rg_wake_all = wait_wake_all\<rparr>"

text \<open>
  Where a wait is: not polled or polled again after a wake (\<open>Idle\<close>), inside a poll before and after the
  registration, parked after \<^verbatim>\<open>Poll::Pending\<close>, left to a timer, or over.  The flags say whether its task was
  woken during the poll, in which case the executor polls it again.
\<close>

datatype 'k wait_phase = Idle | Entered 'k bool | Registered 'k bool bool | Parked 'k | OnTimer | Over

record ('r, 'k) wait_system =
  ws_cond :: bool
  ws_reg :: 'r
  ws_waits :: "nat \<Rightarrow> 'k wait_phase"
  ws_owed :: nat
  ws_inflight :: "'k list"

datatype 'k wait_event = Publish bool | TakeAll | WakeNext | PollBegin nat 'k | Register nat | CheckLast nat | DropWait nat

fun wake_phase :: "('k \<Rightarrow> 't) \<Rightarrow> 'k \<Rightarrow> 'k wait_phase \<Rightarrow> 'k wait_phase" where
  "wake_phase task k (Entered k' woken) = Entered k' (woken \<or> task k = task k')"
| "wake_phase task k (Registered k' r woken) = Registered k' r (woken \<or> task k = task k')"
| "wake_phase task k (Parked k') = (if task k = task k' then Idle else Parked k')"
| "wake_phase task k p = p"

definition set_wait :: "nat \<Rightarrow> 'k wait_phase \<Rightarrow> ('r, 'k) wait_system \<Rightarrow> ('r, 'k) wait_system" where
  "set_wait i p s = s\<lparr>ws_waits := (ws_waits s)(i := p)\<rparr>"

definition end_wait :: "('r, 'k) registry \<Rightarrow> nat \<Rightarrow> ('r, 'k) wait_system \<Rightarrow> ('r, 'k) wait_system" where
  "end_wait R i s = set_wait i Over (s\<lparr>ws_reg := rg_finish R i (ws_reg s)\<rparr>)"

text \<open>
  A publisher changes the condition and then calls \<^verbatim>\<open>wake_all\<close>, which takes the wakers under the lock and
  wakes them one by one.  A task may poll its wait at any time, also without having been woken.
\<close>

fun wait_step :: "('k \<Rightarrow> 't) \<Rightarrow> ('r, 'k) registry \<Rightarrow> ('r, 'k) wait_system \<Rightarrow> 'k wait_event \<Rightarrow> ('r, 'k) wait_system" where
  "wait_step task R s (Publish b) = s\<lparr>ws_cond := b, ws_owed := (if b then Suc (ws_owed s) else ws_owed s)\<rparr>"
| "wait_step task R s TakeAll =
     (if ws_owed s = 0 then s
      else case rg_wake_all R (ws_reg s) of (ks, r) \<Rightarrow>
        s\<lparr>ws_reg := r, ws_owed := ws_owed s - 1, ws_inflight := ws_inflight s @ ks\<rparr>)"
| "wait_step task R s WakeNext =
     (case ws_inflight s of
        [] \<Rightarrow> s
      | k # ks \<Rightarrow> s\<lparr>ws_inflight := ks, ws_waits := (\<lambda>i. wake_phase task k (ws_waits s i))\<rparr>)"
| "wait_step task R s (PollBegin i k) =
     (case ws_waits s i of
        Over \<Rightarrow> s
      | Entered _ _ \<Rightarrow> s
      | Registered _ _ _ \<Rightarrow> s
      | _ \<Rightarrow> if rg_precheck R \<and> ws_cond s then end_wait R i s else set_wait i (Entered k False) s)"
| "wait_step task R s (Register i) =
     (case ws_waits s i of
        Entered k woken \<Rightarrow> (case rg_register R i k (ws_reg s) of (b, r) \<Rightarrow>
          set_wait i (Registered k b woken) (s\<lparr>ws_reg := r\<rparr>))
      | _ \<Rightarrow> s)"
| "wait_step task R s (CheckLast i) =
     (case ws_waits s i of
        Registered k b woken \<Rightarrow> (case poll_ready b (ws_cond s) of
          Ready \<Rightarrow> end_wait R i s
        | Waiting \<Rightarrow> set_wait i (if woken then Idle else Parked k) s
        | Full \<Rightarrow> set_wait i OnTimer s)
      | _ \<Rightarrow> s)"
| "wait_step task R s (DropWait i) = (case ws_waits s i of Over \<Rightarrow> s | _ \<Rightarrow> end_wait R i s)"

definition wait_run :: "('k \<Rightarrow> 't) \<Rightarrow> ('r, 'k) registry \<Rightarrow> ('r, 'k) wait_system \<Rightarrow> 'k wait_event list \<Rightarrow> ('r, 'k) wait_system" where
  "wait_run task R = foldl (wait_step task R)"

definition waits_new :: "'r \<Rightarrow> ('r, 'k) wait_system" where
  "waits_new r = \<lparr>ws_cond = False, ws_reg = r, ws_waits = (\<lambda>_. Idle), ws_owed = 0, ws_inflight = []\<rparr>"

definition parked :: "('r, 'k) wait_system \<Rightarrow> nat \<Rightarrow> bool" where
  "parked s i \<longleftrightarrow> (case ws_waits s i of Parked _ \<Rightarrow> True | _ \<Rightarrow> False)"

text \<open>The condition holds and every publisher has finished its wake-ups.\<close>

definition settled :: "('r, 'k) wait_system \<Rightarrow> bool" where
  "settled s \<longleftrightarrow> ws_cond s \<and> ws_owed s = 0 \<and> ws_inflight s = []"

section \<open>The contract of a registry\<close>

text \<open>
  \<open>covers r i k\<close>: emptying \<open>r\<close> wakes the task of \<open>k\<close> for wait \<open>i\<close>.  \<open>credit\<close> is the number of new ids the
  registry can still hand out.
\<close>

locale wake_registry =
  fixes R :: "('r, 'k) registry" and task :: "'k \<Rightarrow> 't"
    and covers :: "'r \<Rightarrow> nat \<Rightarrow> 'k \<Rightarrow> bool"
    and ok :: "'r \<Rightarrow> bool"
    and credit :: "'r \<Rightarrow> nat"
  assumes register_ok: "ok r \<Longrightarrow> 0 < credit r \<Longrightarrow> ok (snd (rg_register R i k r))"
    and register_credit: "ok r \<Longrightarrow> 0 < credit r \<Longrightarrow> credit r \<le> Suc (credit (snd (rg_register R i k r)))"
    and register_covers: "ok r \<Longrightarrow> 0 < credit r \<Longrightarrow> fst (rg_register R i k r) \<Longrightarrow> covers (snd (rg_register R i k r)) i k"
    and register_keeps: "ok r \<Longrightarrow> 0 < credit r \<Longrightarrow> covers r j l \<Longrightarrow> j \<noteq> i \<Longrightarrow> covers (snd (rg_register R i k r)) j l"
    and finish_ok: "ok r \<Longrightarrow> ok (rg_finish R i r)"
    and finish_credit: "ok r \<Longrightarrow> credit r \<le> credit (rg_finish R i r)"
    and finish_keeps: "ok r \<Longrightarrow> covers r j l \<Longrightarrow> j \<noteq> i \<Longrightarrow> covers (rg_finish R i r) j l"
    and wake_ok: "ok r \<Longrightarrow> ok (snd (rg_wake_all R r))"
    and wake_credit: "ok r \<Longrightarrow> credit r \<le> credit (snd (rg_wake_all R r))"
    and wake_covers: "ok r \<Longrightarrow> covers r i k \<Longrightarrow> task k \<in> task ` set (fst (rg_wake_all R r))"
begin

definition attended :: "('r, 'k) wait_system \<Rightarrow> nat \<Rightarrow> 'k \<Rightarrow> bool" where
  "attended s i k \<longleftrightarrow> covers (ws_reg s) i k \<or> task k \<in> task ` set (ws_inflight s)"

definition safe :: "('r, 'k) wait_system \<Rightarrow> bool" where
  "safe s \<longleftrightarrow> ok (ws_reg s) \<and>
     (\<forall>i k. ws_waits s i = Parked k \<or> ws_waits s i = Registered k True False \<longrightarrow> attended s i k) \<and>
     (\<forall>i k. ws_waits s i = Parked k \<and> ws_cond s \<and> ws_owed s = 0 \<longrightarrow> task k \<in> task ` set (ws_inflight s))"

lemma safe_attended: "safe s \<Longrightarrow> ws_waits s i = Parked k \<or> ws_waits s i = Registered k True False \<Longrightarrow> attended s i k"
  unfolding safe_def by blast

lemma safe_Publish: "safe s \<Longrightarrow> safe (wait_step task R s (Publish b))"
  by (auto simp: safe_def attended_def)

lemma safe_TakeAll:
  assumes "safe s"
  shows "safe (wait_step task R s TakeAll)"
proof (cases "ws_owed s = 0")
  case False
  obtain ks r where w: "rg_wake_all R (ws_reg s) = (ks, r)" by fastforce
  have k: "ok (ws_reg s)" using assms by (simp add: safe_def)
  have "task k \<in> task ` set (ws_inflight s @ ks)" if "ws_waits s i = Parked k \<or> ws_waits s i = Registered k True False" for i k
    using safe_attended [OF assms that] wake_covers [OF k, of i k] w by (auto simp: attended_def)
  moreover have "ok r" using wake_ok [OF k] w by simp
  ultimately show ?thesis unfolding safe_def attended_def using False w by simp blast
qed (use assms in simp)

lemma safe_WakeNext:
  assumes "safe s"
  shows "safe (wait_step task R s WakeNext)"
proof (cases "ws_inflight s")
  case (Cons k ks)
  have parked: "ws_waits s i = Parked l \<and> task k \<noteq> task l" if "wake_phase task k (ws_waits s i) = Parked l" for i l
    using that by (cases "ws_waits s i") (auto split: if_splits)
  have reg: "ws_waits s i = Registered l True False \<and> task k \<noteq> task l"
    if "wake_phase task k (ws_waits s i) = Registered l True False" for i l
    using that by (cases "ws_waits s i") (auto split: if_splits)
  show ?thesis using assms Cons parked reg by (fastforce simp: safe_def attended_def)
qed (use assms in simp)

lemma safe_end_wait: "safe s \<Longrightarrow> safe (end_wait R i s)"
  using finish_ok finish_keeps unfolding safe_def attended_def end_wait_def set_wait_def by simp blast

lemma safe_set_wait:
  "safe s \<Longrightarrow> (\<And>k. p \<noteq> Parked k \<and> p \<noteq> Registered k True False) \<Longrightarrow> safe (set_wait i p s)"
  by (auto simp: safe_def attended_def set_wait_def)

lemma safe_Register:
  assumes "safe s" and c: "0 < credit (ws_reg s)"
  shows "safe (wait_step task R s (Register i))"
proof (cases "ws_waits s i")
  case (Entered k woken)
  obtain b r where w: "rg_register R i k (ws_reg s) = (b, r)" by fastforce
  have k: "ok (ws_reg s)" using assms by (simp add: safe_def)
  have "b \<Longrightarrow> covers r i k" "ok r" and "\<And>j l. covers (ws_reg s) j l \<Longrightarrow> j \<noteq> i \<Longrightarrow> covers r j l"
    using register_covers [OF k c, of i k] register_ok [OF k c, of i k] register_keeps [OF k c, of _ _ i k] w by auto
  then show ?thesis using assms(1) Entered w by (auto simp: safe_def attended_def set_wait_def)
qed (use assms in simp_all)

lemma safe_CheckLast:
  assumes "safe s"
  shows "safe (wait_step task R s (CheckLast i))"
proof (cases "ws_waits s i")
  case (Registered k b woken)
  show ?thesis
  proof (cases "ws_cond s")
    case True
    with Registered assms show ?thesis by (simp add: poll_ready_def safe_end_wait)
  next
    case False
    with Registered assms show ?thesis
      using safe_set_wait [OF assms, of OnTimer i] safe_set_wait [OF assms, of Idle i]
      by (auto simp: poll_ready_def) (auto simp: safe_def attended_def set_wait_def)
  qed
qed (use assms in simp_all)

lemma safe_step:
  assumes "safe s" and "0 < credit (ws_reg s)"
  shows "safe (wait_step task R s e)"
proof (cases e)
  case (PollBegin i k)
  with assms safe_set_wait [of s "Entered k False" i] show ?thesis by (auto intro: safe_end_wait split: wait_phase.splits)
next
  case (DropWait i)
  with assms show ?thesis by (auto intro: safe_end_wait split: wait_phase.splits)
qed (use assms safe_Publish safe_TakeAll safe_WakeNext safe_Register safe_CheckLast in \<open>simp_all del: wait_step.simps\<close>)

lemma credit_step:
  assumes "ok (ws_reg s)" and "0 < credit (ws_reg s)"
  shows "credit (ws_reg s) \<le> Suc (credit (ws_reg (wait_step task R s e)))"
proof (cases e)
  case TakeAll
  with wake_credit [OF assms(1)] show ?thesis by (auto split: prod.splits)
next
  case (Register i)
  with register_credit [OF assms, of i] show ?thesis
    by (auto simp: set_wait_def split: wait_phase.splits prod.splits) (metis snd_conv)
qed (use finish_credit [OF assms(1)] in \<open>auto simp: end_wait_def set_wait_def poll_ready_def le_Suc_eq
      split: wait_phase.splits list.splits\<close>)

lemma safe_run:
  assumes "safe s" and "length es \<le> credit (ws_reg s)"
  shows "safe (wait_run task R s es)"
  using assms
proof (induction es arbitrary: s)
  case (Cons e es)
  then have c: "0 < credit (ws_reg s)" by auto
  moreover have "ok (ws_reg s)" using Cons.prems(1) by (simp add: safe_def)
  ultimately have "length es \<le> credit (ws_reg (wait_step task R s e))"
    using Cons.prems(2) credit_step [of s e] by simp
  with Cons.IH [OF safe_step [OF Cons.prems(1) c]] show ?case by (simp add: wait_run_def)
qed (simp add: wait_run_def)

lemma safe_new: "ok r \<Longrightarrow> safe (waits_new r)"
  by (simp add: safe_def waits_new_def)

lemma nobody_forgotten:
  assumes "ok r" and "length es \<le> credit r"
    and "ws_cond (wait_run task R (waits_new r) es)" and "ws_owed (wait_run task R (waits_new r) es) = 0"
    and "ws_inflight (wait_run task R (waits_new r) es) = []"
  shows "\<not> parked (wait_run task R (waits_new r) es) i"
proof -
  have "length es \<le> credit (ws_reg (waits_new r :: ('r, 'k) wait_system))" using assms(2) by (simp add: waits_new_def)
  from safe_run [OF safe_new [OF assms(1)] this] assms(3,4,5) show ?thesis
    by (auto simp: safe_def parked_def split: wait_phase.splits)
qed

lemma run_credit:
  assumes "ok r" and "length es \<le> credit r"
  shows "ok (ws_reg (wait_run task R (waits_new r) es)) \<and>
    credit r \<le> credit (ws_reg (wait_run task R (waits_new r) es)) + length es"
  using assms(2)
proof (induction es rule: rev_induct)
  case Nil
  then show ?case using assms(1) by (simp add: wait_run_def waits_new_def)
next
  case (snoc e es)
  let ?s = "wait_run task R (waits_new r) es"
  have c: "ok (ws_reg ?s)" "0 < credit (ws_reg ?s)" "credit r \<le> credit (ws_reg ?s) + length es" using snoc by auto
  have "safe ?s" using safe_run [OF safe_new [OF assms(1)], of es] snoc.prems by (simp add: waits_new_def)
  from safe_step [OF this c(2), of e] have "ok (ws_reg (wait_step task R ?s e))" unfolding safe_def by blast
  with credit_step [OF c(1,2), of e] c(3) show ?case by (simp add: wait_run_def)
qed

end

section \<open>Both registries keep the contract\<close>

definition slots_covers :: "('k \<Rightarrow> 't) \<Rightarrow> 'k waker_slots \<Rightarrow> nat \<Rightarrow> 'k \<Rightarrow> bool" where
  "slots_covers task slots i k \<longleftrightarrow> (\<exists>w. Some w \<in> set slots \<and> task w = task k)"

definition list_covers :: "('k \<Rightarrow> 't) \<Rightarrow> 'k wait_ids \<Rightarrow> nat \<Rightarrow> 'k \<Rightarrow> bool" where
  "list_covers task r i k \<longleftrightarrow> (\<exists>n w. snd r i = Some n \<and> (n, w) \<in> set (wl_entries (fst r)) \<and> task w = task k)"

text \<open>Ids belong to one wait, are below the next one, and every entry is some wait's.\<close>

definition ids_ok :: "'k wait_ids \<Rightarrow> bool" where
  "ids_ok r \<longleftrightarrow> (\<forall>i j n. snd r i = Some n \<and> snd r j = Some n \<longrightarrow> i = j) \<and>
     (\<forall>i n. snd r i = Some n \<longrightarrow> n < wl_next (fst r)) \<and>
     distinct (map fst (wl_entries (fst r))) \<and> (\<forall>e \<in> set (wl_entries (fst r)). fst e \<in> ran (snd r))"

definition ids_left :: "'k wait_ids \<Rightarrow> nat" where
  "ids_left r = 2 ^ 64 - 1 - unat (wl_next (fst r))"

lemma next_id_grows:
  assumes "0 < ids_left r"
  shows "wl_next (fst r) < wl_next (fst r) + 1" and "unat (wl_next (fst r) + 1) = Suc (unat (wl_next (fst r)))"
proof -
  have "unat (- 1 :: u64) = 2 ^ 64 - 1" by (simp add: unsigned_minus_1_eq_mask mask_eq_exp_minus_1)
  with assms have "wl_next (fst r) \<noteq> - 1" by (metis diff_self_eq_0 ids_left_def less_irrefl)
  then show "unat (wl_next (fst r) + 1) = Suc (unat (wl_next (fst r)))"
    by (metis add.commute add.left_neutral add_eq_0_iff unatSuc)
  then show "wl_next (fst r) < wl_next (fst r) + 1" by (simp add: word_less_nat_alt)
qed

lemma ids_okI:
  assumes "\<And>a b m. snd r a = Some m \<Longrightarrow> snd r b = Some m \<Longrightarrow> a = b" and "\<And>j m. snd r j = Some m \<Longrightarrow> m < wl_next (fst r)"
    and "distinct (map fst (wl_entries (fst r)))" and "\<And>e. e \<in> set (wl_entries (fst r)) \<Longrightarrow> fst e \<in> ran (snd r)"
  shows "ids_ok r"
  unfolding ids_ok_def using assms by blast

lemma ids_inj: "ids_ok r \<Longrightarrow> snd r a = Some m \<Longrightarrow> snd r b = Some m \<Longrightarrow> a = b"
  unfolding ids_ok_def by blast

lemma new_ids:
  "ids_ok (wl_new, \<lambda>_. None)" "length es < 2 ^ 64 \<Longrightarrow> length es \<le> ids_left (wl_new, \<lambda>_. None)"
  by (simp_all add: ids_ok_def wl_new_def ids_left_def)

locale wakers =
  fixes will_wake :: "'k \<Rightarrow> 'k \<Rightarrow> bool" and task :: "'k \<Rightarrow> 't"
  assumes will_wake_task: "will_wake a b \<Longrightarrow> task a = task b"
begin

lemma slots_register_covers:
  assumes "fst (slots_register will_wake k r)"
  shows "slots_covers task (snd (slots_register will_wake k r)) i k"
proof (cases "list_ex (\<lambda>slot. case slot of Some w \<Rightarrow> will_wake w k | None \<Rightarrow> False) r")
  case True
  then obtain w where "Some w \<in> set r" "will_wake w k" by (auto simp: list_ex_iff split: option.splits)
  with True show ?thesis by (auto simp: slots_register_def slots_covers_def dest: will_wake_task)
next
  case False
  with assms obtain p where p: "position (\<lambda>slot. slot = None) r = Some p"
    by (auto simp: slots_register_def split: option.splits)
  then have "Some k \<in> set (r[p := Some k])" by (auto dest!: position_Some intro: set_update_memI)
  with False p show ?thesis by (auto simp: slots_register_def slots_covers_def)
qed

lemma slots_register_keeps:
  assumes "slots_covers task r j l"
  shows "slots_covers task (snd (slots_register will_wake k r)) j l"
proof -
  obtain w where w: "Some w \<in> set r" "task w = task l" using assms by (auto simp: slots_covers_def)
  have "Some w \<in> set (r[p := Some k])" if "position (\<lambda>slot. slot = None) r = Some p" for p
    using w(1) position_Some [OF that] by (metis in_set_conv_nth length_list_update nth_list_update_neq option.distinct(1))
  with w show ?thesis by (auto simp: slots_register_def slots_covers_def split: option.splits)
qed

lemma slots_wake_covers:
  assumes "slots_covers task r i k"
  shows "task k \<in> task ` set (fst (slots_wake_all r))"
proof -
  obtain w where "Some w \<in> set r" "task w = task k" using assms by (auto simp: slots_covers_def)
  moreover from this(1) have "w \<in> set (fst (slots_wake_all r))" by (force simp: slots_wake_all_def List.map_filter_def)
  ultimately show ?thesis by (metis image_eqI)
qed

sublocale slots: wake_registry "slots_registry will_wake" task "slots_covers task" "\<lambda>_. True" "\<lambda>_. B" for B
  by unfold_locales (simp_all add: slots_registry_def slots_register_covers slots_register_keeps slots_wake_covers)

text \<open>Registering a wait leaves every other entry alone.\<close>

lemma wait_register_entries:
  assumes "ids_ok r" and "0 < ids_left r"
  obtains n w nx es' where "wait_register will_wake i k r = (True, \<lparr>wl_next = nx, wl_entries = es'\<rparr>, (snd r)(i := Some n))"
    and "n < nx" and "wl_next (fst r) \<le> nx" and "unat nx \<le> Suc (unat (wl_next (fst r)))"
    and "\<And>j. j \<noteq> i \<Longrightarrow> snd r j \<noteq> Some n" and "snd r i = Some n \<or> snd r i = None"
    and "task w = task k" and "distinct (map fst es')"
    and "set es' = insert (n, w) {e \<in> set (wl_entries (fst r)). fst e \<noteq> n}"
proof -
  define n where "n = (case snd r i of Some n \<Rightarrow> n | None \<Rightarrow> wl_next (fst r))"
  define nx where "nx = (case snd r i of Some n \<Rightarrow> wl_next (fst r) | None \<Rightarrow> wl_next (fst r) + 1)"
  define es where "es = wl_entries (fst r)"
  define es' where "es' = (case position (\<lambda>(waiter, _). waiter = n) es of
      Some p \<Rightarrow> if will_wake (snd (es ! p)) k then es else es[p := (n, k)] | None \<Rightarrow> es @ [(n, k)])"
  have reg: "wait_register will_wake i k r = (True, \<lparr>wl_next = nx, wl_entries = es'\<rparr>, (snd r)(i := Some n))"
    by (cases "snd r i"; cases "fst r")
      (auto simp: wait_register_def wl_register_def n_def nx_def es_def es'_def Let_def split: option.splits)
  have nx: "n < nx" "wl_next (fst r) \<le> nx" "unat nx \<le> Suc (unat (wl_next (fst r)))"
    using assms next_id_grows [OF assms(2)] by (auto simp: n_def nx_def ids_ok_def split: option.splits)
  have others: "snd r j \<noteq> Some n" if "j \<noteq> i" for j
    using assms(1) that by (fastforce simp: n_def ids_ok_def split: option.splits)
  have d: "distinct (map fst es)" using assms(1) by (simp add: ids_ok_def es_def)
  obtain w where w: "task w = task k" and d': "distinct (map fst es')" and set': "set es' = insert (n, w) {e \<in> set es. fst e \<noteq> n}"
  proof (cases "position (\<lambda>(waiter, _). waiter = n) es")
    case None
    then have "\<forall>e \<in> set es. fst e \<noteq> n" by (auto simp: position_None)
    with d None show ?thesis by (intro that [of k]) (auto simp: es'_def)
  next
    case (Some p)
    then have p: "p < length es" "fst (es ! p) = n" by (auto dest!: position_Some)
    have only: "q = p" if "q < length es" "fst (es ! q) = n" for q
      using d p that nth_eq_iff_index_eq [OF d, of q p] by simp
    have at_p: "fst e = n \<longleftrightarrow> e = es ! p" if "e \<in> set es" for e
      using only p that by (metis in_set_conv_nth)
    have rest: "{e \<in> set es. fst e \<noteq> n} = set es - {es ! p}" using at_p by blast
    show ?thesis
    proof (cases "will_wake (snd (es ! p)) k")
      case True
      have "(n, snd (es ! p)) = es ! p" using p(2) by (metis prod.collapse)
      then have "set es = insert (n, snd (es ! p)) {e \<in> set es. fst e \<noteq> n}"
        unfolding rest using nth_mem [OF p(1)] by auto
      with True Some d show ?thesis by (intro that [of "snd (es ! p)"]) (auto simp: es'_def dest: will_wake_task)
    next
      case False
      have "set (es[p := (n, k)]) = insert (n, k) {e \<in> set es. fst e \<noteq> n}"
        unfolding rest using d p(1) by (intro set_update_distinct) (simp_all add: distinct_map)
      moreover have "map fst (es[p := (n, k)]) = map fst es" using p by (simp add: map_update list_update_same_conv)
      ultimately show ?thesis using False Some d by (intro that [of k]) (simp_all add: es'_def)
    qed
  qed
  have "snd r i = Some n \<or> snd r i = None" by (auto simp: n_def split: option.splits)
  with reg nx others w d' set' show ?thesis unfolding es_def by (rule_tac that)
qed

lemma wait_register_ids:
  assumes k: "ids_ok r" and c: "0 < ids_left r"
  shows "ids_ok (snd (wait_register will_wake i k r)) \<and> ids_left r \<le> Suc (ids_left (snd (wait_register will_wake i k r)))
    \<and> list_covers task (snd (wait_register will_wake i k r)) i k
    \<and> (\<forall>j l. list_covers task r j l \<and> j \<noteq> i \<longrightarrow> list_covers task (snd (wait_register will_wake i k r)) j l)"
proof -
  obtain n w nx es' where reg: "wait_register will_wake i k r = (True, \<lparr>wl_next = nx, wl_entries = es'\<rparr>, (snd r)(i := Some n))"
    and nx: "n < nx" "wl_next (fst r) \<le> nx" "unat nx \<le> Suc (unat (wl_next (fst r)))"
    and n: "\<And>j. j \<noteq> i \<Longrightarrow> snd r j \<noteq> Some n" "snd r i = Some n \<or> snd r i = None"
    and w: "task w = task k" and d: "distinct (map fst es')"
    and es': "set es' = insert (n, w) {e \<in> set (wl_entries (fst r)). fst e \<noteq> n}"
    by (rule wait_register_entries [OF k c, of i k]) (rule that)
  have "m < nx" if "((snd r)(i := Some n)) j = Some m" for j m
  proof (cases "j = i")
    case False
    with that k have "m < wl_next (fst r)" by (simp add: ids_ok_def)
    from this nx(2) show ?thesis by (rule less_le_trans)
  qed (use that nx(1) in simp)
  moreover have "a = b" if "((snd r)(i := Some n)) a = Some m" "((snd r)(i := Some n)) b = Some m" for a b m
    using that n(1) [of a] n(1) [of b] ids_inj [OF k, of a m b] by (auto split: if_splits)
  moreover have "fst e \<in> ran ((snd r)(i := Some n))" if e: "e \<in> set es'" for e
  proof (cases "fst e = n")
    case True
    then show ?thesis by (auto simp: ran_def)
  next
    case False
    with e es' have "e \<in> set (wl_entries (fst r))" by auto
    with k obtain j where "snd r j = Some (fst e)" by (fastforce simp: ids_ok_def ran_def)
    with False n(2) have "((snd r)(i := Some n)) j = Some (fst e)" by auto
    then show ?thesis by (rule ranI)
  qed
  ultimately have "ids_ok (\<lparr>wl_next = nx, wl_entries = es'\<rparr>, (snd r)(i := Some n))"
    using d by (intro ids_okI) (simp_all only: fst_conv snd_conv wait_list.simps)
  moreover have "ids_left r \<le> Suc (ids_left (\<lparr>wl_next = nx, wl_entries = es'\<rparr>, (snd r)(i := Some n)))"
    using nx(3) by (simp add: ids_left_def)
  moreover have "list_covers task (\<lparr>wl_next = nx, wl_entries = es'\<rparr>, (snd r)(i := Some n)) i k"
    using es' w by (auto simp: list_covers_def)
  moreover have "list_covers task (\<lparr>wl_next = nx, wl_entries = es'\<rparr>, (snd r)(i := Some n)) j l"
    if "list_covers task r j l" "j \<noteq> i" for j l
    using that es' n(1) by (fastforce simp: list_covers_def)
  ultimately show ?thesis by (simp add: reg)
qed

lemma wait_finish_ids:
  assumes "ids_ok r"
  shows "ids_ok (wait_finish i r) \<and> ids_left (wait_finish i r) = ids_left r
    \<and> (\<forall>j l. list_covers task r j l \<and> j \<noteq> i \<longrightarrow> list_covers task (wait_finish i r) j l)"
proof (cases "snd r i")
  case (Some n)
  have "distinct (map fst (filter (\<lambda>(a, _). a \<noteq> n) (wl_entries (fst r))))"
    using assms by (simp add: ids_ok_def distinct_map_filter)
  moreover have "fst e \<in> ran ((snd r)(i := None))" if e: "e \<in> set (wl_entries (fst r))" "fst e \<noteq> n" for e
  proof -
    from assms e(1) obtain j where "snd r j = Some (fst e)" by (fastforce simp: ids_ok_def ran_def)
    with Some e(2) have "((snd r)(i := None)) j = Some (fst e)" by auto
    then show ?thesis by (rule ranI)
  qed
  ultimately have "ids_ok (wait_finish i r)"
    using assms Some by (auto simp: ids_ok_def wait_finish_def wl_unregister_def split: if_splits)
  moreover have "list_covers task (wait_finish i r) j l" if c: "list_covers task r j l" "j \<noteq> i" for j l
  proof -
    obtain a w where a: "snd r j = Some a" "(a, w) \<in> set (wl_entries (fst r))" "task w = task l"
      using c(1) by (auto simp: list_covers_def)
    moreover from a(1) c(2) assms Some have "a \<noteq> n" by (auto simp: ids_ok_def)
    ultimately show ?thesis using Some c(2) by (auto simp: list_covers_def wait_finish_def wl_unregister_def)
  qed
  ultimately show ?thesis using Some by (simp add: wait_finish_def wl_unregister_def ids_left_def)
qed (use assms in \<open>simp add: wait_finish_def\<close>)

lemma wait_wake_ids:
  assumes "ids_ok r"
  shows "ids_ok (snd (wait_wake_all r))" and "ids_left r = ids_left (snd (wait_wake_all r))"
    and "list_covers task r i k \<Longrightarrow> task k \<in> task ` set (fst (wait_wake_all r))"
proof -
  show "ids_ok (snd (wait_wake_all r))" and "ids_left r = ids_left (snd (wait_wake_all r))"
    using assms by (simp_all add: ids_ok_def ids_left_def wait_wake_all_def wl_wake_all_def)
  assume "list_covers task r i k"
  then obtain n w where "(n, w) \<in> set (wl_entries (fst r))" "task w = task k" by (auto simp: list_covers_def)
  then show "task k \<in> task ` set (fst (wait_wake_all r))"
    by (auto simp: wait_wake_all_def wl_wake_all_def) (metis image_eqI snd_conv)
qed

lemma list_registry_simps:
  "rg_register (list_registry will_wake) = wait_register will_wake"
  "rg_finish (list_registry will_wake) = wait_finish" "rg_wake_all (list_registry will_wake) = wait_wake_all"
  by (simp_all add: list_registry_def)

sublocale waits: wake_registry "list_registry will_wake" task "list_covers task" ids_ok ids_left
  by (unfold_locales; unfold list_registry_simps)
    (blast intro: wait_register_ids [THEN conjunct1] wait_register_ids [THEN conjunct2, THEN conjunct1]
      wait_register_ids [THEN conjunct2, THEN conjunct2, THEN conjunct1]
      wait_register_ids [THEN conjunct2, THEN conjunct2, THEN conjunct2, rule_format]
      wait_finish_ids [THEN conjunct1] wait_finish_ids [THEN conjunct2, THEN conjunct1, symmetric, THEN eq_imp_le]
      wait_finish_ids [THEN conjunct2, THEN conjunct2, rule_format]
      wait_wake_ids(1,3) wait_wake_ids(2) [THEN eq_imp_le])+

lemma slots_nobody_forgotten:
  assumes "settled (wait_run task (slots_registry will_wake) (waits_new r) es)"
  shows "\<not> parked (wait_run task (slots_registry will_wake) (waits_new r) es) i"
  using assms slots.nobody_forgotten [where r = r and es = es and i = i and B = "length es"] by (simp add: settled_def)

lemma list_nobody_forgotten:
  assumes "settled (wait_run task (list_registry will_wake) (waits_new (wl_new, \<lambda>_. None)) es)" and "length es < 2 ^ 64"
  shows "\<not> parked (wait_run task (list_registry will_wake) (waits_new (wl_new, \<lambda>_. None)) es) i"
  using assms waits.nobody_forgotten [OF new_ids, of es i] by (simp add: settled_def)

lemma list_run_ids:
  assumes "length es < 2 ^ 64"
  shows "ids_ok (ws_reg (wait_run task (list_registry will_wake) (waits_new (wl_new, \<lambda>_. None)) es))"
  using waits.run_credit [OF new_ids, of es] assms by simp

end

text \<open>
  \<^verbatim>\<open>core::task::Waker\<close> is a data pointer and a table of functions, and \<^verbatim>\<open>will_wake\<close> compares both, so
  two wakers it identifies belong to one task, whatever task a waker belongs to.
\<close>

record raw_waker =
  rw_data :: nat
  rw_vtable :: nat

definition raw_will_wake :: "raw_waker \<Rightarrow> raw_waker \<Rightarrow> bool" where
  "raw_will_wake a b \<longleftrightarrow> rw_data a = rw_data b \<and> rw_vtable a = rw_vtable b"

interpretation raw: wakers raw_will_wake task for task :: "raw_waker \<Rightarrow> 't"
  by unfold_locales (auto simp: raw_will_wake_def intro!: arg_cong [of _ _ task])

section \<open>Lemmas: who is registered\<close>

definition polled :: "'k wait_event list \<Rightarrow> nat list" where
  "polled es = remdups (concat (map (\<lambda>e. case e of PollBegin i _ \<Rightarrow> [i] | _ \<Rightarrow> []) es))"

text \<open>Only waits that were polled and are not over have an id.\<close>

definition tracked :: "nat set \<Rightarrow> ('k wait_ids, 'k) wait_system \<Rightarrow> bool" where
  "tracked P s \<longleftrightarrow> (\<forall>i. snd (ws_reg s) i \<noteq> None \<longrightarrow> i \<in> P \<and> ws_waits s i \<noteq> Over) \<and>
     (\<forall>i k w. ws_waits s i = Entered k w \<longrightarrow> i \<in> P)"

lemma wait_finish_own [simp]: "snd (wait_finish i r) = (snd r)(i := None)"
  by (auto simp: wait_finish_def split: option.splits)

lemma wait_wake_own [simp]: "snd (snd (wait_wake_all r)) = snd r"
  by (simp add: wait_wake_all_def wl_wake_all_def)

lemma wait_register_own: "\<exists>n. snd (snd (wait_register will_wake i k r)) = (snd r)(i := Some n)"
  by (auto simp: wait_register_def split: prod.splits)

lemma tracked_end: "tracked P s \<Longrightarrow> tracked P (end_wait (list_registry will_wake) i s)"
  by (auto simp: tracked_def end_wait_def set_wait_def list_registry_def)

lemma tracked_set:
  assumes "tracked P s" and "p \<noteq> Over" and "\<And>k w. p = Entered k w \<Longrightarrow> i \<in> P"
  shows "tracked P (set_wait i p s)"
  using assms by (auto simp: tracked_def set_wait_def)

lemma tracked_step:
  assumes T: "tracked P s"
  shows "tracked (P \<union> set (polled [e])) (wait_step task (list_registry will_wake) s e)"
proof (cases e)
  case TakeAll
  with T show ?thesis by (auto simp: tracked_def polled_def list_registry_def split: prod.splits) (metis snd_conv wait_wake_own)+
next
  case WakeNext
  have "wake_phase task k p \<noteq> Over" if "p \<noteq> Over" for k and p :: "'a wait_phase" using that by (cases p) auto
  moreover have "\<exists>w'. p = Entered k' w'" if "wake_phase task k p = Entered k' w" for k k' w and p :: "'a wait_phase"
    using that by (cases p) (auto split: if_splits)
  ultimately show ?thesis using T WakeNext unfolding tracked_def polled_def
    by (auto split: list.splits) (metis option.distinct(1))+
next
  case (PollBegin i k)
  have "tracked (P \<union> set (polled [e])) s" and i: "i \<in> P \<union> set (polled [e])"
    using T PollBegin by (auto simp: tracked_def polled_def)
  with PollBegin tracked_end [OF this(1)] tracked_set [OF this(1), of "Entered k False" i] show ?thesis
    by (auto split: wait_phase.splits)
next
  case (Register i)
  show ?thesis
  proof (cases "ws_waits s i")
    case (Entered k w)
    obtain b r where r: "wait_register will_wake i k (ws_reg s) = (b, r)" by (meson surj_pair)
    with wait_register_own [of will_wake i k "ws_reg s"] obtain n where "snd r = (snd (ws_reg s))(i := Some n)" by auto
    with T Entered Register r show ?thesis
      by (auto simp: tracked_def set_wait_def list_registry_def polled_def)
  qed (use T Register in \<open>simp_all add: polled_def\<close>)
next
  case (CheckLast i)
  with T tracked_end [OF T] tracked_set [OF T] show ?thesis
    by (auto simp: polled_def poll_ready_def split: wait_phase.splits)
next
  case (DropWait i)
  with T tracked_end [OF T] show ?thesis by (auto simp: polled_def split: wait_phase.splits)
qed (use T in \<open>simp add: tracked_def polled_def\<close>)

lemma tracked_run: "tracked (set (polled es)) (wait_run task (list_registry will_wake) (waits_new (wl_new, \<lambda>_. None)) es)"
proof (induction es rule: rev_induct)
  case (snoc e es)
  have "set (polled (es @ [e])) = set (polled es) \<union> set (polled [e])" by (auto simp: polled_def)
  with tracked_step [OF snoc.IH, of e] show ?case by (simp add: wait_run_def)
qed (simp add: wait_run_def waits_new_def tracked_def)

lemma entries_bounded:
  fixes r :: "'k wait_ids"
  assumes k: "ids_ok r" and f: "\<And>i. snd r i \<noteq> None \<Longrightarrow> i \<in> set xs" and d: "distinct xs"
  shows "wl_len (fst r) \<le> length xs"
proof -
  have "set (map fst (wl_entries (fst r))) \<subseteq> (\<lambda>i. the (snd r i)) ` set xs"
  proof
    fix n assume "n \<in> set (map fst (wl_entries (fst r)))"
    with k obtain i where "snd r i = Some n" by (auto simp: ids_ok_def ran_def)
    with f [of i] show "n \<in> (\<lambda>i. the (snd r i)) ` set xs" by force
  qed
  then have "card (set (map fst (wl_entries (fst r)))) \<le> card (set xs)" by (meson List.finite_set card_image_le card_mono finite_imageI le_trans)
  moreover have "card (set (map fst (wl_entries (fst r)))) = wl_len (fst r)"
    using k distinct_card [of "map fst (wl_entries (fst r))"] by (simp only: ids_ok_def wl_len_def length_map)
  ultimately show ?thesis using d by (simp add: distinct_card)
qed

text \<open>The slots never change in number, and a refusal means that every slot is another task's.\<close>

lemma slots_register_length [simp]: "length (snd (slots_register will_wake k r)) = length r"
  by (simp add: slots_register_def split: option.splits)

lemma slots_refuse:
  "fst (slots_register will_wake k r) = False \<Longrightarrow> slots_len r = length r \<and> (\<forall>w. Some w \<in> set r \<longrightarrow> \<not> will_wake w k)"
  by (auto simp: slots_register_def slots_len_def list_ex_iff position_None split: if_splits option.splits)

section \<open>Properties\<close>

text \<open>
  C29: no wake-up is lost.  However the polls of any number of waits interleave with changes of the
  condition and the wakes that follow them, when the condition holds and every publisher has finished,
  no wait is parked: it is over, its task was woken and polls it again, or it was refused a slot and
  watches a timer.  This holds for the slots, of any number, and for the wait list within 2^64
  events, and for every \<^verbatim>\<open>will_wake\<close> that never confuses two tasks.
\<close>

theorem no_wakeup_lost:
  assumes "wakers will_wake task"
  shows "(settled (wait_run task (slots_registry will_wake) (waits_new (slots_new n)) es) \<longrightarrow>
      \<not> parked (wait_run task (slots_registry will_wake) (waits_new (slots_new n)) es) i) \<and>
    (length es < 2 ^ 64 \<and> settled (wait_run task (list_registry will_wake) (waits_new (wl_new, \<lambda>_. None)) es) \<longrightarrow>
      \<not> parked (wait_run task (list_registry will_wake) (waits_new (wl_new, \<lambda>_. None)) es) i)"
  using wakers.slots_nobody_forgotten [OF assms] wakers.list_nobody_forgotten [OF assms] by blast

definition two_polls :: "nat wait_event list" where
  "two_polls = [PollBegin 0 7, Register 0, PollBegin 1 8, CheckLast 0, Publish True, Register 1, TakeAll, WakeNext,
     CheckLast 1, WakeNext]"

theorem no_wakeup_lost_witness:
  "settled (wait_run (\<lambda>k. k) (slots_registry (=)) (waits_new (slots_new 1)) two_polls) \<and>
   \<not> parked (wait_run (\<lambda>k. k) (slots_registry (=)) (waits_new (slots_new 1)) two_polls) 0 \<and>
   settled (wait_run (\<lambda>k. k) (list_registry (=)) (waits_new (wl_new, \<lambda>_. None)) two_polls) \<and>
   \<not> parked (wait_run (\<lambda>k. k) (list_registry (=)) (waits_new (wl_new, \<lambda>_. None)) two_polls) 0"
proof -
  have w: "wakers ((=) :: nat \<Rightarrow> nat \<Rightarrow> bool) (\<lambda>k. k)" by unfold_locales simp
  have "settled (wait_run (\<lambda>k. k) (slots_registry (=)) (waits_new (slots_new 1)) two_polls)"
    and "settled (wait_run (\<lambda>k. k) (list_registry (=)) (waits_new (wl_new, \<lambda>_. None)) two_polls)"
    and "length two_polls < 2 ^ 64" by code_simp+
  with no_wakeup_lost [OF w, of 1 two_polls 0] show ?thesis by blast
qed

text \<open>
  C30: the wait list never holds more entries than there are waits that were polled and are not over.  So
  a wait that was cancelled, timed out or finished leaves nothing behind, and once all are over the list
  is empty.
\<close>

theorem wait_list_bounded:
  fixes will_wake :: "'k \<Rightarrow> 'k \<Rightarrow> bool" and task :: "'k \<Rightarrow> 't" and es :: "'k wait_event list"
  assumes "wakers will_wake task" and "length es < 2 ^ 64"
  defines "s \<equiv> wait_run task (list_registry will_wake) (waits_new (wl_new, \<lambda>_. None)) es"
  shows "wl_len (fst (ws_reg s)) \<le> length (filter (\<lambda>i. ws_waits s i \<noteq> Over) (polled es))"
proof (rule entries_bounded)
  show "ids_ok (ws_reg s)"
    unfolding s_def by (rule wakers.list_run_ids [OF assms(1,2)])
  show "i \<in> set (filter (\<lambda>i. ws_waits s i \<noteq> Over) (polled es))" if "snd (ws_reg s) i \<noteq> None" for i
    using tracked_run [of es task will_wake] that by (simp add: tracked_def s_def)
  show "distinct (filter (\<lambda>i. ws_waits s i \<noteq> Over) (polled es))" by (simp add: polled_def)
qed

theorem wait_list_bounded_witness:
  "wl_len (fst (ws_reg (wait_run (\<lambda>k. k) (list_registry (=)) (waits_new (wl_new, \<lambda>_. None))
      [PollBegin 0 7, Register 0, CheckLast 0, PollBegin 1 (8 :: nat), Register 1, DropWait 0]))) \<le> 1"
proof -
  let ?es = "[PollBegin 0 7, Register 0, CheckLast 0, PollBegin 1 (8 :: nat), Register 1, DropWait 0]"
  have w: "wakers ((=) :: nat \<Rightarrow> nat \<Rightarrow> bool) (\<lambda>k. k)" by unfold_locales simp
  have "length (filter (\<lambda>i. ws_waits (wait_run (\<lambda>k. k) (list_registry (=)) (waits_new (wl_new, \<lambda>_. None)) ?es) i \<noteq> Over) (polled ?es)) = 1"
    by code_simp
  with wait_list_bounded [OF w, of ?es] show ?thesis by simp
qed

end
