(* ===== verification/Ota_Image.thy ===== *)
theory Ota_Image
  imports Net_Text Ota_Version
begin

text \<open>
  What both firmware download tiers share: the cooperative deadline (\<^verbatim>\<open>juggler/src/ota/deadline.rs\<close>), the
  streaming digest and the hexadecimal form of a digest (\<^verbatim>\<open>juggler/src/ota/verifier.rs\<close>), the sidecar
  metadata of an image (\<^verbatim>\<open>juggler/src/ota/metadata.rs\<close>) and the stages of an update
  (\<^verbatim>\<open>juggler/src/ota/state.rs\<close>).  SHA-256 is another crate's: a hasher is a record of its operations, and
  what the code relies on is the locale \<open>digest_contract\<close>.
\<close>

section \<open>Model: the deadline\<close>

record deadline =
  dl_total :: "duration option"

datatype activation_permit = ActivationPermit

definition deadline_none :: deadline where "deadline_none = \<lparr>dl_total = None\<rparr>"

definition deadline_after :: "duration \<Rightarrow> deadline" where "deadline_after limit = \<lparr>dl_total = Some limit\<rparr>"

definition deadline_check :: "deadline \<Rightarrow> duration \<Rightarrow> ota_error + unit" where
  "deadline_check d elapsed =
     (case dl_total d of
        Some limit \<Rightarrow> if limit \<le> elapsed then Inl DownloadTimeout else Inr ()
      | None \<Rightarrow> Inr ())"

definition permit_activation :: "deadline \<Rightarrow> duration \<Rightarrow> ota_error + activation_permit" where
  "permit_activation d elapsed = (case deadline_check d elapsed of Inl e \<Rightarrow> Inl e | Inr _ \<Rightarrow> Inr ActivationPermit)"

definition deadline_remaining :: "deadline \<Rightarrow> duration \<Rightarrow> duration option" where
  "deadline_remaining d elapsed = map_option (\<lambda>limit. limit - elapsed) (dl_total d)"

definition deadline_clip :: "deadline \<Rightarrow> duration \<Rightarrow> duration \<Rightarrow> duration" where
  "deadline_clip d per_op elapsed =
     (case deadline_remaining d elapsed of Some remaining \<Rightarrow> min per_op remaining | None \<Rightarrow> per_op)"

definition classify_read_error :: "bool \<Rightarrow> ota_error" where
  "classify_read_error is_timeout = (if is_timeout then DownloadTimeout else ServerUnreachable)"

section \<open>Model: the digest\<close>

record 'h sha_crate =
  sh_new :: 'h
  sh_update :: "bytes \<Rightarrow> 'h \<Rightarrow> 'h"
  sh_finalize :: "'h \<Rightarrow> bytes"

definition verifier_new :: "'h sha_crate \<Rightarrow> 'h" where "verifier_new H = sh_new H"

definition verifier_update :: "'h sha_crate \<Rightarrow> bytes \<Rightarrow> 'h \<Rightarrow> 'h" where "verifier_update H data h = sh_update H data h"

definition verifier_finalize :: "'h sha_crate \<Rightarrow> 'h \<Rightarrow> bytes" where "verifier_finalize H h = sh_finalize H h"

definition hex_char_to_nibble :: "u8 \<Rightarrow> ota_error + u8" where
  "hex_char_to_nibble c =
     (if 0x30 \<le> c \<and> c \<le> 0x39 then Inr (c - 0x30)
      else if 0x61 \<le> c \<and> c \<le> 0x66 then Inr (c - 0x61 + 10)
      else if 0x41 \<le> c \<and> c \<le> 0x46 then Inr (c - 0x41 + 10)
      else Inl ChecksumMismatch)"

fun hex_pairs :: "bytes \<Rightarrow> ota_error + bytes" where
  "hex_pairs (a # b # rest) =
     (case hex_char_to_nibble a of
        Inl e \<Rightarrow> Inl e
      | Inr high \<Rightarrow> (case hex_char_to_nibble b of
            Inl e \<Rightarrow> Inl e
          | Inr low \<Rightarrow> (case hex_pairs rest of
                Inl e \<Rightarrow> Inl e
              | Inr bs \<Rightarrow> Inr (or (push_bit 4 high) low # bs))))"
| "hex_pairs _ = Inr []"

definition hex_to_bytes :: "bytes \<Rightarrow> ota_error + bytes" where
  "hex_to_bytes hex = (if length hex \<noteq> 64 then Inl ChecksumMismatch else hex_pairs hex)"

definition HEX_CHARS :: bytes where "HEX_CHARS = ascii ''0123456789abcdef''"

definition bytes_to_hex :: "bytes \<Rightarrow> bytes" where
  "bytes_to_hex bs = concat (map (\<lambda>b. [HEX_CHARS ! unat (drop_bit 4 b), HEX_CHARS ! unat (and b 0x0F)]) bs)"

section \<open>Model: metadata and stages\<close>

record image_metadata =
  im_sha256 :: bytes
  im_version :: version

definition meta_text :: "bytes \<Rightarrow> string" where "meta_text s = map (\<lambda>b. char_of (unat b)) s"

definition image_metadata_parse :: "bytes \<Rightarrow> bytes \<Rightarrow> ota_error + image_metadata" where
  "image_metadata_parse sha256_hex version_str =
     (case hex_to_bytes (ascii (trim (meta_text sha256_hex))) of
        Inl e \<Rightarrow> Inl e
      | Inr sha \<Rightarrow> (case version_parse (trim (meta_text version_str)) of
            Inl e \<Rightarrow> Inl e
          | Inr v \<Rightarrow> Inr \<lparr>im_sha256 = sha, im_version = v\<rparr>))"

datatype ota_state = Idle | Downloading | Verifying | Writing | SwapPending | Booted

fun ota_next_state :: "ota_state \<Rightarrow> ota_state option" where
  "ota_next_state Idle = Some Downloading"
| "ota_next_state Downloading = Some Verifying"
| "ota_next_state Verifying = Some Writing"
| "ota_next_state Writing = Some SwapPending"
| "ota_next_state SwapPending = Some Booted"
| "ota_next_state Booted = None"

section \<open>The digest's contract\<close>

text \<open>Hashing chunk by chunk gives the digest of the whole, whatever the chunks.\<close>

locale digest_contract =
  fixes H :: "'h sha_crate"
    and sha256 :: "bytes \<Rightarrow> bytes"
  assumes streaming: "verifier_finalize H (foldl (\<lambda>h c. verifier_update H c h) (verifier_new H) chunks) = sha256 (concat chunks)"

text \<open>A hasher that keeps what it was given keeps the contract, for every digest.\<close>

definition keeping_hasher :: "(bytes \<Rightarrow> bytes) \<Rightarrow> bytes sha_crate" where
  "keeping_hasher digest = \<lparr>sh_new = [], sh_update = (\<lambda>c h. h @ c), sh_finalize = digest\<rparr>"

lemma keeping_all: "foldl (\<lambda>h c. verifier_update (keeping_hasher digest) c h) h chunks = h @ concat chunks"
  by (induction chunks arbitrary: h) (simp_all add: verifier_update_def keeping_hasher_def)

interpretation keeping: digest_contract "keeping_hasher digest" digest
  by unfold_locales (simp only: keeping_all, simp add: keeping_hasher_def verifier_finalize_def verifier_new_def)

text \<open>\<open>h\<close> is a hasher that was given \<open>stream\<close>, in some chunks.\<close>

definition hashed :: "'h sha_crate \<Rightarrow> 'h \<Rightarrow> bytes \<Rightarrow> bool" where
  "hashed H h stream \<longleftrightarrow> (\<exists>chunks. concat chunks = stream \<and> h = foldl (\<lambda>h c. verifier_update H c h) (verifier_new H) chunks)"

lemma hashed_update: "hashed H h stream \<Longrightarrow> hashed H (verifier_update H chunk h) (stream @ chunk)"
  unfolding hashed_def
proof (elim exE conjE)
  fix chunks assume "concat chunks = stream" "h = foldl (\<lambda>h c. verifier_update H c h) (verifier_new H) chunks"
  then show "\<exists>chunks. concat chunks = stream @ chunk \<and>
      verifier_update H chunk h = foldl (\<lambda>h c. verifier_update H c h) (verifier_new H) chunks"
    by (intro exI [of _ "chunks @ [chunk]"]) simp
qed

lemma hashed_new: "hashed H (verifier_new H) []"
  unfolding hashed_def by (rule exI [of _ "[]"]) simp

lemma hashed_digest: "digest_contract H sha256 \<Longrightarrow> hashed H h stream \<Longrightarrow> verifier_finalize H h = sha256 stream"
  using digest_contract.streaming by (auto simp: hashed_def)

section \<open>Lemmas\<close>

lemma permit_iff: "permit_activation d t = Inr p \<longleftrightarrow> (case dl_total d of Some limit \<Rightarrow> t < limit | None \<Rightarrow> True)"
  by (cases p) (auto simp: permit_activation_def deadline_check_def split: option.splits)

text \<open>A clipped wait that starts before the deadline ends by the deadline.\<close>

lemma clip_within: "dl_total d = Some limit \<Longrightarrow> elapsed \<le> limit \<Longrightarrow> elapsed + deadline_clip d per_op elapsed \<le> limit"
  by (simp add: deadline_clip_def deadline_remaining_def)

lemma nibble_of_hex: "n < 16 \<Longrightarrow> hex_char_to_nibble (HEX_CHARS ! n) = Inr (of_nat n)"
proof -
  assume "n < 16"
  then have "n \<in> set [0 ..< 16]" by simp
  moreover have "list_all (\<lambda>n. hex_char_to_nibble (HEX_CHARS ! n) = Inr (of_nat n)) [0 ..< 16]" by code_simp
  ultimately show ?thesis unfolding list_all_iff by blast
qed

lemma nibbles: "unat (drop_bit 4 b) < 16" "unat (and b 0x0F) < 16" "or (push_bit 4 (drop_bit 4 b)) (and b 0x0F) = b" for b :: u8
proof -
  have "unat (drop_bit 4 b) = unat b div 16" by (simp add: drop_bit_eq_div unat_div_distrib)
  then show "unat (drop_bit 4 b) < 16" using unat_less_pow [of b] by simp
  have m: "and b 0x0F = take_bit 4 b" by (simp add: take_bit_eq_mask mask_eq_exp_minus_1)
  show "unat (and b 0x0F) < 16" unfolding m by (simp add: take_bit_eq_mod unat_mod_distrib)
  show "or (push_bit 4 (drop_bit 4 b)) (and b 0x0F) = b"
    unfolding m by (rule bit_word_eqI) (auto simp: bit_simps)
qed

lemma hex_pairs_of_bytes: "hex_pairs (bytes_to_hex bs) = Inr bs"
proof (induction bs)
  case (Cons b bs)
  have "bytes_to_hex (b # bs) = HEX_CHARS ! unat (drop_bit 4 b) # HEX_CHARS ! unat (and b 0x0F) # bytes_to_hex bs"
    by (simp add: bytes_to_hex_def)
  then show ?case using Cons nibbles [of b] by (simp add: nibble_of_hex)
qed (simp add: bytes_to_hex_def)

lemma hex_roundtrip: "length digest = 32 \<Longrightarrow> hex_to_bytes (bytes_to_hex digest) = Inr digest"
proof -
  have "length (bytes_to_hex bs) = 2 * length bs" for bs by (induction bs) (simp_all add: bytes_to_hex_def)
  then show "length digest = 32 \<Longrightarrow> hex_to_bytes (bytes_to_hex digest) = Inr digest"
    by (simp add: hex_to_bytes_def hex_pairs_of_bytes)
qed

lemma stages_end: "map_option (\<lambda>s. Option.bind (Option.bind (Option.bind (ota_next_state s) ota_next_state) ota_next_state) ota_next_state)
    (ota_next_state Idle) = Some (Some Booted)"
  by simp

end
