(* ===== verification/Ota_Url.thy ===== *)
theory Ota_Url
  imports Net_Text
begin

text \<open>
  Firmware URLs: the check that command intake and manifest parsing share
  (\<^verbatim>\<open>juggler/src/ota/wire/url.rs\<close>), the URL parser and the request printer of the bare-metal HTTP client
  (\<^verbatim>\<open>rustyfarian-esp-hal-network/src/ota/http.rs\<close>), and the redaction of URLs in the log of the ESP-IDF tier
  (\<^verbatim>\<open>rustyfarian-esp-idf-network/src/ota/downloader.rs\<close>).  The two parsers are written apart; they are shown
  to accept the same URLs, and an accepted URL to be printed as one request that carries nothing else.
\<close>

section \<open>Model: the shared check\<close>

definition SCHEME :: bytes where "SCHEME = ascii ''http://''"

text \<open>\<^verbatim>\<open>u8::is_ascii_whitespace\<close>, \<^verbatim>\<open>u8::is_ascii_control\<close>, and \<^verbatim>\<open>str::get(..n)\<close>.\<close>

definition ascii_whitespace :: "u8 \<Rightarrow> bool" where
  "ascii_whitespace b \<longleftrightarrow> b = 0x20 \<or> b = 0x09 \<or> b = 0x0A \<or> b = 0x0C \<or> b = 0x0D"

definition ascii_control :: "u8 \<Rightarrow> bool" where
  "ascii_control b \<longleftrightarrow> b < 0x20 \<or> b = 0x7F"

definition str_get :: "nat \<Rightarrow> bytes \<Rightarrow> bytes option" where
  "str_get n s = (if n \<le> length s \<and> is_char_boundary s n then Some (take n s) else None)"

text \<open>\<^verbatim>\<open>['/', '?', '#']\<close>, and \<^verbatim>\<open>str::parse::<u16>\<close> of a text of digits.\<close>

definition url_delim :: "u8 \<Rightarrow> bool" where
  "url_delim b \<longleftrightarrow> b = 0x2F \<or> b = 0x3F \<or> b = 0x23"

definition parse_u16 :: "bytes \<Rightarrow> nat option" where
  "parse_u16 p =
     (if p = [] then None
      else let n = foldl (\<lambda>a b. a * 10 + unat (b - 0x30)) 0 p in if n < 65536 then Some n else None)"

definition split_host :: "bytes \<Rightarrow> (bytes \<times> bytes option) option" where
  "split_host host_and_port =
     (case strip_prefix [0x5B] host_and_port of
        Some bracketed \<Rightarrow>
          (case position (\<lambda>b. b = 0x5D) bracketed of
             None \<Rightarrow> None
           | Some close \<Rightarrow>
               let after = drop (close + 1) bracketed in
               (case strip_prefix [0x3A] after of
                  Some p \<Rightarrow> Some (take close bracketed, Some p)
                | None \<Rightarrow> if after = [] then Some (take close bracketed, None) else None))
      | None \<Rightarrow>
          (case split_once 0x3A host_and_port of
             Some (h, p) \<Rightarrow> Some (h, Some p)
           | None \<Rightarrow> Some (host_and_port, None)))"

definition is_plain_http_url :: "bytes \<Rightarrow> bool" where
  "is_plain_http_url url =
     (case str_get (length SCHEME) url of
        None \<Rightarrow> False
      | Some pre \<Rightarrow>
          if \<not> eq_ignore_case pre SCHEME then False
          else let rest = drop (length SCHEME) url in
          if list_ex (\<lambda>b. ascii_whitespace b \<or> ascii_control b) rest then False
          else let authority = takeWhile (\<lambda>b. \<not> url_delim b) rest;
                   host_and_port = last (split_on 0x40 authority) in
          case split_host host_and_port of
            None \<Rightarrow> False
          | Some (host, port) \<Rightarrow>
              if host = [] then False
              else case port of
                  Some p \<Rightarrow> p \<noteq> [] \<and> list_all is_digit p \<and> parse_u16 p \<noteq> None
                | None \<Rightarrow> True)"

section \<open>Model: the HTTP client's parser\<close>

datatype ota_http_error = BadStatusLine | NonSuccess (nonsuccess_status: u16) | MissingContentLength | DuplicateContentLength
  | InvalidContentLength | TransferEncodingPresent | BodyTooLarge | EmptyBody | Io | EarlyEof | BadUrl

record parsed_url =
  pu_host :: bytes
  pu_port :: u16
  pu_path :: bytes
  pu_query :: bytes

definition split_authority :: "bytes \<Rightarrow> ota_http_error + bytes \<times> bytes option" where
  "split_authority host_port =
     (if take 1 host_port = [0x5B] then
        (case position (\<lambda>b. b = 0x5D) host_port of
           None \<Rightarrow> Inl BadUrl
         | Some close \<Rightarrow>
             let after = drop (close + 1) host_port in
             (case strip_prefix [0x3A] after of
                Some p \<Rightarrow> Inr (take (close + 1) host_port, Some p)
              | None \<Rightarrow> if after = [] then Inr (take (close + 1) host_port, None) else Inl BadUrl))
      else (case split_once 0x3A host_port of
          Some (h, p) \<Rightarrow> Inr (h, Some p)
        | None \<Rightarrow> Inr (host_port, None)))"

definition parse_port :: "bytes option \<Rightarrow> ota_http_error + u16" where
  "parse_port port_str =
     (case port_str of
        Some p \<Rightarrow>
          if \<not> list_all is_digit p then Inl BadUrl
          else (case parse_u16 p of None \<Rightarrow> Inl BadUrl | Some n \<Rightarrow> Inr (of_nat n))
      | None \<Rightarrow> Inr 80)"

text \<open>The path, \<^verbatim>\<open>/\<close> when absent, and the query with its question mark.\<close>

definition split_target :: "bytes \<Rightarrow> bytes \<times> bytes" where
  "split_target tail =
     (let (path, query) = (case position (\<lambda>b. b = 0x3F) tail of Some q \<Rightarrow> (take q tail, drop q tail) | None \<Rightarrow> (tail, [])) in
      (if path = [] then ascii ''/'' else path, query))"

definition parse_url :: "bytes \<Rightarrow> ota_http_error + parsed_url" where
  "parse_url url =
     (case str_get (length SCHEME) url of
        None \<Rightarrow> Inl BadUrl
      | Some pre \<Rightarrow>
          if \<not> eq_ignore_case pre SCHEME then Inl BadUrl
          else let rest = drop (length SCHEME) url in
          if list_ex (\<lambda>b. ascii_whitespace b \<or> ascii_control b) rest then Inl BadUrl
          else let auth_end = (case position url_delim rest of Some i \<Rightarrow> i | None \<Rightarrow> length rest);
                   authority = take auth_end rest;
                   tail = takeWhile (\<lambda>b. b \<noteq> 0x23) (drop auth_end rest);
                   (path, query) = split_target tail;
                   host_port = last (split_on 0x40 authority) in
          case split_authority host_port of
            Inl e \<Rightarrow> Inl e
          | Inr (host, port_str) \<Rightarrow>
              (case parse_port port_str of
                 Inl e \<Rightarrow> Inl e
               | Inr port \<Rightarrow>
                   if host = [] \<or> host = ascii ''[]'' then Inl BadUrl
                   else Inr \<lparr>pu_host = host, pu_port = port, pu_path = path, pu_query = query\<rparr>))"

definition u16_decimal :: "u16 \<Rightarrow> bytes" where
  "u16_decimal n = (if n = 0 then [0x30] else rev (u32_digits_rev (unat n)))"

definition format_get_request :: "nat \<Rightarrow> bytes \<Rightarrow> u16 \<Rightarrow> bytes \<Rightarrow> bytes \<Rightarrow> bytes option" where
  "format_get_request cap host port path query = write_all cap []
     ([ascii ''GET '', path, query, ascii '' HTTP/1.1'' @ crlf @ ascii ''Host: '', host] @
      (if port \<noteq> 80 then [ascii '':'', u16_decimal port] else []) @
      [crlf @ ascii ''Connection: close'' @ crlf @ crlf])"

text \<open>A request without a body as its lines, and the three lines of the client's request.\<close>

definition request_lines :: "bytes list \<Rightarrow> bytes" where
  "request_lines ls = concat (map (\<lambda>l. l @ crlf) ls) @ crlf"

section \<open>Model: the log\<close>

fun split_seq :: "bytes \<Rightarrow> bytes \<Rightarrow> (bytes \<times> bytes) option" where
  "split_seq pat s = (case find_window pat s of Some i \<Rightarrow> Some (take i s, drop (i + length pat) s) | None \<Rightarrow> None)"

definition url_for_log :: "bytes \<Rightarrow> bytes" where
  "url_for_log url =
     (case split_seq (ascii ''://'') url of
        None \<Rightarrow> url
      | Some (scheme, rest) \<Rightarrow>
          let (authority, path) = (case split_once 0x2F rest of Some (a, p) \<Rightarrow> (a, p) | None \<Rightarrow> (rest, []));
              authority_no_userinfo = (case rsplit_once 0x40 authority of Some (_, h) \<Rightarrow> h | None \<Rightarrow> authority) in
          if path = [] then scheme @ ascii ''://'' @ authority_no_userinfo
          else scheme @ ascii ''://'' @ authority_no_userinfo @ ascii ''/'' @ path)"

section \<open>Lemmas: the two parsers\<close>

lemma position_takeWhile: "take (case position p s of Some i \<Rightarrow> i | None \<Rightarrow> length s) s = takeWhile (\<lambda>b. \<not> p b) s"
  by (induction s) (auto split: option.splits)

lemma strip_prefix_1: "strip_prefix [c] s = (case s of x # xs \<Rightarrow> if x = c then Some xs else None | [] \<Rightarrow> None)"
  by (cases s) (auto simp: strip_prefix_def)

lemma take_1: "take (Suc 0) s = [c] \<longleftrightarrow> (\<exists>xs. s = c # xs)"
  by (cases s) auto

lemma split_once_prefix: "split_once c s = Some (a, b) \<Longrightarrow> prefix a s"
  by (auto simp: split_once_iff)

lemma brackets: "ascii ''[]'' = [0x5B, 0x5D]"
  by (simp add: ascii_def)

text \<open>Both take the authority apart in the same way, up to the brackets of an IPv6 literal.\<close>

lemma split_agrees:
  "case split_host hp of
     None \<Rightarrow> split_authority hp = Inl BadUrl
   | Some (h, p) \<Rightarrow> \<exists>h'. split_authority hp = Inr (h', p) \<and> (h = [] \<longleftrightarrow> h' = [] \<or> h' = ascii ''[]'')"
proof (cases "take 1 hp = [0x5B]")
  case True
  then obtain br where hp: "hp = 0x5B # br" by (auto simp: take_1)
  show ?thesis
  proof (cases "position (\<lambda>b. b = 0x5D) br")
    case None
    then show ?thesis by (simp add: hp split_host_def split_authority_def strip_prefix_1)
  next
    case (Some c)
    then have c: "c < length br" "br ! c = 0x5D" using position_Some by fastforce+
    then have "take (Suc c) br = take c br @ [0x5D]" by (simp add: take_Suc_conv_app_nth)
    then have "(take c br = []) = (0x5B # take (Suc c) br = ascii ''[]'')" unfolding brackets by auto
    with Some show ?thesis
      by (simp add: hp split_host_def split_authority_def strip_prefix_1 Let_def split: option.splits list.splits)
  qed
next
  case False
  then have "strip_prefix [0x5B] hp = None" by (auto simp: strip_prefix_1 take_1 split: list.splits)
  moreover have "h \<noteq> ascii ''[]''" if "prefix h hp" for h
    using that False unfolding brackets take_1 by (auto simp: prefix_def)
  ultimately show ?thesis
    using False split_once_prefix [of "0x3A" hp]
    by (auto simp: split_host_def split_authority_def split: option.splits)
qed

lemma parse_port_iff:
  "(\<exists>n. parse_port port = Inr n) \<longleftrightarrow>
     (case port of Some p \<Rightarrow> p \<noteq> [] \<and> list_all is_digit p \<and> parse_u16 p \<noteq> None | None \<Rightarrow> True)"
  by (cases port) (auto simp: parse_port_def parse_u16_def Let_def split: option.splits)

lemma parsers_agree: "is_plain_http_url url \<longleftrightarrow> (\<exists>p. parse_url url = Inr p)"
proof -
  define rest where "rest = drop (length SCHEME) url"
  define hp where "hp = last (split_on 0x40 (takeWhile (\<lambda>b. \<not> url_delim b) rest))"
  show ?thesis
  proof (cases "\<exists>pre. str_get (length SCHEME) url = Some pre \<and> eq_ignore_case pre SCHEME \<and>
      \<not> list_ex (\<lambda>b. ascii_whitespace b \<or> ascii_control b) rest")
    case True
    then obtain pre where pre: "str_get (length SCHEME) url = Some pre" "eq_ignore_case pre SCHEME"
      "\<not> list_ex (\<lambda>b. ascii_whitespace b \<or> ascii_control b) rest" by blast
    have plain: "is_plain_http_url url \<longleftrightarrow> (\<exists>h p. split_host hp = Some (h, p) \<and> h \<noteq> [] \<and> (\<exists>n. parse_port p = Inr n))"
      unfolding parse_port_iff using pre
      by (auto simp: is_plain_http_url_def Let_def rest_def [symmetric] hp_def [symmetric] split: option.splits)
    have parsed: "(\<exists>u. parse_url url = Inr u) \<longleftrightarrow>
        (\<exists>h p. split_authority hp = Inr (h, p) \<and> \<not> (h = [] \<or> h = ascii ''[]'') \<and> (\<exists>n. parse_port p = Inr n))"
      using pre position_takeWhile [where p = url_delim and s = rest]
      by (auto simp: parse_url_def Let_def rest_def [symmetric] hp_def [symmetric] split: sum.splits prod.splits)
    show ?thesis unfolding plain parsed using split_agrees [of hp] by (cases "split_host hp") auto
  next
    case False
    then show ?thesis
      by (auto simp: is_plain_http_url_def parse_url_def Let_def rest_def [symmetric] split: option.splits)
  qed
qed

section \<open>Lemmas: the request\<close>

text \<open>Text that cannot end a line or a word of a request.\<close>

definition url_text :: "bytes \<Rightarrow> bool" where
  "url_text s \<longleftrightarrow> list_all (\<lambda>b. \<not> ascii_whitespace b \<and> \<not> ascii_control b) s"

lemma url_text_parts:
  assumes "url_text s"
  shows "url_text (take n s)" and "url_text (drop n s)" and "url_text (takeWhile p s)"
  using assms by (auto simp: url_text_def list_all_iff dest: in_set_takeD in_set_dropD set_takeWhileD)

lemma url_text_split_on: "url_text s \<Longrightarrow> \<forall>p \<in> set (split_on c s). url_text p"
  by (induction s) (auto simp: url_text_def split: list.splits)

lemma split_on_not_Nil [simp]: "split_on c s \<noteq> []"
  by (induction s) (auto split: list.splits)

lemma url_text_line: "url_text s \<Longrightarrow> http_line s"
  by (auto simp: url_text_def http_line_def list_all_iff ascii_whitespace_def)

lemma split_authority_text:
  assumes "url_text hp" and "split_authority hp = Inr (h, p)"
  shows "url_text h"
proof (cases "take 1 hp = [0x5B]")
  case True
  with assms show ?thesis
    by (auto simp: split_authority_def Let_def url_text_parts split: option.splits if_splits)
next
  case False
  show ?thesis
  proof (cases "split_once 0x3A hp")
    case None
    with assms False show ?thesis by (auto simp: split_authority_def)
  next
    case (Some ab)
    then obtain a b where "split_once 0x3A hp = Some (a, b)" by (cases ab) auto
    with assms False have "h = a" by (simp add: split_authority_def)
    moreover from \<open>split_once 0x3A hp = Some (a, b)\<close> assms(1) have "url_text a" by (auto simp: split_once_iff url_text_def)
    ultimately show ?thesis by simp
  qed
qed

lemma split_target_text:
  assumes "url_text tail" and "split_target tail = (path, query)"
  shows "url_text path" and "url_text query" and "path \<noteq> []"
proof -
  have slash: "url_text (ascii ''/'')" by (simp add: url_text_def ascii_def ascii_whitespace_def ascii_control_def)
  have nil: "url_text []" by (simp add: url_text_def)
  show "url_text path" "url_text query" "path \<noteq> []"
    using assms slash nil url_text_parts [OF assms(1)]
    by (auto simp: split_target_def ascii_def split: option.splits if_splits)
qed

lemma parse_url_text:
  assumes "parse_url url = Inr u"
  shows "url_text (pu_host u)" and "url_text (pu_path u)" and "url_text (pu_query u)" and "pu_host u \<noteq> []" and "pu_path u \<noteq> []"
proof -
  define rest where "rest = drop (length SCHEME) url"
  define n where "n = (case position url_delim rest of Some i \<Rightarrow> i | None \<Rightarrow> length rest)"
  define hp where "hp = last (split_on 0x40 (take n rest))"
  define tail where "tail = takeWhile (\<lambda>b. b \<noteq> 0x23) (drop n rest)"
  from assms have clean: "url_text rest"
    by (auto simp: parse_url_def Let_def rest_def [symmetric] url_text_def list_all_iff list_ex_iff split: option.splits if_splits)
  have hp: "url_text hp"
    unfolding hp_def using url_text_split_on [OF url_text_parts(1) [OF clean]] by (metis last_in_set split_on_not_Nil)
  have tail: "url_text tail" unfolding tail_def by (intro url_text_parts clean)
  from assms obtain p where h: "split_authority hp = Inr (pu_host u, p)" "pu_host u \<noteq> []"
    and pq: "split_target tail = (pu_path u, pu_query u)"
    by (cases "str_get (length SCHEME) url")
      (auto simp: parse_url_def Let_def rest_def [symmetric] n_def [symmetric] hp_def [symmetric] tail_def [symmetric]
        split: if_splits sum.splits prod.splits)
  show "url_text (pu_host u)" by (rule split_authority_text [OF hp h(1)])
  show "url_text (pu_path u)" "url_text (pu_query u)" "pu_path u \<noteq> []" using split_target_text [OF tail pq] by simp_all
  show "pu_host u \<noteq> []" by (rule h(2))
qed

lemma format_get_request_eq:
  "format_get_request cap host port path query =
     (let r = request_lines [ascii ''GET '' @ (path @ query) @ ascii '' HTTP/1.1'',
                ascii ''Host: '' @ host @ (if port = 80 then [] else ascii '':'' @ u16_decimal port), ascii ''Connection: close'']
      in if length r \<le> cap then Some r else None)"
  by (simp add: format_get_request_def write_all_Nil request_lines_def Let_def)

lemma u16_decimal_line: "http_line (u16_decimal n)"
  using u32_digits [of "unat n"] by (auto simp: u16_decimal_def intro!: digits_line) (auto simp: http_line_def is_digit_def list_all_iff)

lemma get_request_lines:
  assumes "parse_url url = Inr u"
    and "format_get_request cap (pu_host u) (pu_port u) (pu_path u) (pu_query u) = Some r"
  shows "\<exists>target authority. r = request_lines [ascii ''GET '' @ target @ ascii '' HTTP/1.1'', ascii ''Host: '' @ authority,
      ascii ''Connection: close''] \<and> url_text target \<and> target \<noteq> [] \<and> url_text authority \<and> authority \<noteq> [] \<and> length r \<le> cap"
proof -
  let ?auth = "pu_host u @ (if pu_port u = 80 then [] else ascii '':'' @ u16_decimal (pu_port u))"
  have digits: "url_text (u16_decimal n)" for n
    using u32_digits [of "unat n"]
    by (auto simp: url_text_def u16_decimal_def list_all_iff is_digit_def ascii_whitespace_def ascii_control_def word_le_nat_alt
        word_less_nat_alt dest!: bspec)
  have "url_text (ascii '':'')" by (simp add: url_text_def ascii_def ascii_whitespace_def ascii_control_def)
  with parse_url_text [OF assms(1)] digits [of "pu_port u"]
  have "url_text ?auth" "?auth \<noteq> []" "url_text (pu_path u @ pu_query u)" "pu_path u @ pu_query u \<noteq> []"
    by (auto simp: url_text_def)
  with assms(2) show ?thesis unfolding format_get_request_eq Let_def by (metis (no_types, lifting) option.distinct(1) option.inject)
qed

text \<open>What the log shows between the scheme and the next slash is what follows the last \<^verbatim>\<open>@\<close> there.\<close>

lemma log_hides_userinfo:
  assumes "find_window (ascii ''://'') url = Some i" and "split_once 0x2F (drop (i + 3) url) = Some (authority, path)"
  shows "\<exists>host. url_for_log url = take i url @ ascii ''://'' @ host @ (if path = [] then [] else ascii ''/'' @ path) \<and>
    suffix host authority \<and> 0x40 \<notin> set host"
proof -
  define host where "host = (case rsplit_once 0x40 authority of Some (_, h) \<Rightarrow> h | None \<Rightarrow> authority)"
  have len: "length (ascii ''://'') = 3" by (simp add: ascii_def)
  have "suffix host authority \<and> 0x40 \<notin> set host"
  proof (cases "rsplit_once 0x40 authority")
    case None
    have "0x40 \<notin> set authority"
    proof
      assume "0x40 \<in> set authority"
      then obtain x y where "authority = x @ 0x40 # y" "0x40 \<notin> set y" by (metis split_list_last)
      then have "rsplit_once 0x40 authority = Some (x, y)" by (simp add: rsplit_once_iff)
      with None show False by simp
    qed
    with None show ?thesis by (simp add: host_def)
  next
    case (Some xy)
    then obtain x y where xy: "rsplit_once 0x40 authority = Some (x, y)" by (cases xy) auto
    then have "host = y" by (simp add: host_def)
    with xy show ?thesis unfolding rsplit_once_iff by (auto intro: suffixI [of _ "x @ [0x40]"])
  qed
  moreover have "url_for_log url = take i url @ ascii ''://'' @ host @ (if path = [] then [] else ascii ''/'' @ path)"
    using assms by (simp add: url_for_log_def len host_def Let_def)
  ultimately show ?thesis by blast
qed

section \<open>Properties\<close>

text \<open>
  C16: the two URL parsers accept the same URLs.  What command intake and manifest parsing let through, the
  bare-metal client can fetch, and it fetches nothing else.
\<close>

theorem url_parsers_agree: "is_plain_http_url url \<longleftrightarrow> (\<exists>p. parse_url url = Inr p)"
  by (rule parsers_agree)

text \<open>
  A URL cannot inject anything into the request.  For every URL the parser accepts, the printed request
  consists of exactly three lines, and target and authority hold neither white space nor control characters;
  it never exceeds the buffer.
\<close>

theorem request_carries_url_only:
  assumes "parse_url url = Inr u"
    and "format_get_request cap (pu_host u) (pu_port u) (pu_path u) (pu_query u) = Some r"
  shows "\<exists>target authority. r = request_lines [ascii ''GET '' @ target @ ascii '' HTTP/1.1'', ascii ''Host: '' @ authority,
      ascii ''Connection: close''] \<and> url_text target \<and> target \<noteq> [] \<and> url_text authority \<and> authority \<noteq> [] \<and> length r \<le> cap"
  by (rule get_request_lines [OF assms])

definition example_url :: bytes where
  "example_url = ascii ''HTTP://me:pw@[::1]:8080?v=2#top''"

theorem request_carries_url_only_witness:
  "\<exists>target authority. request_lines [ascii ''GET /?v=2 HTTP/1.1'', ascii ''Host: [::1]:8080'', ascii ''Connection: close''] =
      request_lines [ascii ''GET '' @ target @ ascii '' HTTP/1.1'', ascii ''Host: '' @ authority, ascii ''Connection: close''] \<and>
    url_text target \<and> target \<noteq> [] \<and> url_text authority \<and> authority \<noteq> [] \<and>
    length (request_lines [ascii ''GET /?v=2 HTTP/1.1'', ascii ''Host: [::1]:8080'', ascii ''Connection: close'']) \<le> 256"
proof (rule request_carries_url_only)
  show "parse_url example_url = Inr \<lparr>pu_host = ascii ''[::1]'', pu_port = 8080, pu_path = ascii ''/'', pu_query = ascii ''?v=2''\<rparr>"
    by code_simp
  show "format_get_request 256 (pu_host \<lparr>pu_host = ascii ''[::1]'', pu_port = 8080, pu_path = ascii ''/'', pu_query = ascii ''?v=2''\<rparr>)
      (pu_port \<lparr>pu_host = ascii ''[::1]'', pu_port = 8080, pu_path = ascii ''/'', pu_query = ascii ''?v=2''\<rparr>)
      (pu_path \<lparr>pu_host = ascii ''[::1]'', pu_port = 8080, pu_path = ascii ''/'', pu_query = ascii ''?v=2''\<rparr>)
      (pu_query \<lparr>pu_host = ascii ''[::1]'', pu_port = 8080, pu_path = ascii ''/'', pu_query = ascii ''?v=2''\<rparr>) =
    Some (request_lines [ascii ''GET /?v=2 HTTP/1.1'', ascii ''Host: [::1]:8080'', ascii ''Connection: close''])"
    by code_simp
qed

end
