(* ===== verification/Ota_Http.thy ===== *)
theory Ota_Http
  imports Ota_Url Ota_Version
begin

text \<open>
  The HTTP client of the bare-metal firmware download (\<^verbatim>\<open>rustyfarian-esp-hal-network/src/ota/http.rs\<close>): the
  strict response parser, the reading of the header section byte by byte, and one \<^verbatim>\<open>GET\<close> from the first
  byte sent to the first byte of the body.  A socket is a library's: two functions that send and receive at
  most so many bytes.  What the parser accepts is shown to be exactly what the module promises, and the
  header reader to stop exactly in front of the body.
\<close>

section \<open>Model: parsing\<close>

fun ota_error_of_http :: "ota_http_error \<Rightarrow> ota_error" where
  "ota_error_of_http (NonSuccess s) = DownloadFailed s"
| "ota_error_of_http TransferEncodingPresent = DownloadFailed 0"
| "ota_error_of_http EmptyBody = DownloadFailed 0"
| "ota_error_of_http BodyTooLarge = InsufficientSpace"
| "ota_error_of_http _ = ServerUnreachable"

definition parse_status_line :: "bytes \<Rightarrow> ota_http_error + u16" where
  "parse_status_line line =
     (if take 9 line \<noteq> ascii ''HTTP/1.1 '' then Inl BadStatusLine
      else let after_prefix = drop 9 line in
      if length after_prefix < 3 then Inl BadStatusLine
      else let code_bytes = take 3 after_prefix in
      if \<not> list_all is_digit code_bytes then Inl BadStatusLine
      else let after_code = drop 3 after_prefix in
      if after_code \<noteq> [] \<and> after_code ! 0 \<noteq> 0x20 \<and> after_code ! 0 \<noteq> 0x0D \<and> after_code ! 0 \<noteq> 0x0A then Inl BadStatusLine
      else Inr (ucast (code_bytes ! 0 - 0x30) * 100 + ucast (code_bytes ! 1 - 0x30) * 10 + ucast (code_bytes ! 2 - 0x30)))"

definition parse_header :: "bytes \<Rightarrow> ota_http_error + bytes \<times> bytes" where
  "parse_header line =
     (case position (\<lambda>b. b = 0x3A) line of
        None \<Rightarrow> Inl BadStatusLine
      | Some colon \<Rightarrow>
          if colon = 0 then Inl BadStatusLine
          else if line ! (colon - 1) = 0x20 \<or> line ! (colon - 1) = 0x09 then Inl BadStatusLine
          else Inr (take colon line, trim_ows (drop (colon + 1) line)))"

record header_state =
  hs_content_length :: "nat option"
  hs_has_transfer_encoding :: bool

definition header_state_new :: header_state where
  "header_state_new = \<lparr>hs_content_length = None, hs_has_transfer_encoding = False\<rparr>"

definition header_state_feed :: "bytes \<Rightarrow> header_state \<Rightarrow> ota_http_error + header_state" where
  "header_state_feed line h =
     (if trim_ows line = [] then Inr h
      else case parse_header line of
          Inl e \<Rightarrow> Inl e
        | Inr (name, value) \<Rightarrow>
            if eq_ignore_case name (ascii ''content-length'') then
              (if hs_content_length h \<noteq> None then Inl DuplicateContentLength
               else if value = [] \<or> \<not> list_all is_digit value then Inl InvalidContentLength
               else case parse_u64 value of
                   None \<Rightarrow> Inl InvalidContentLength
                 | Some n \<Rightarrow> Inr (h\<lparr>hs_content_length := Some n\<rparr>))
            else if eq_ignore_case name (ascii ''transfer-encoding'') then Inr (h\<lparr>hs_has_transfer_encoding := True\<rparr>)
            else Inr h)"

definition header_state_finish :: "header_state \<Rightarrow> nat \<Rightarrow> ota_http_error + nat" where
  "header_state_finish h max_bytes =
     (if hs_has_transfer_encoding h then Inl TransferEncodingPresent
      else case hs_content_length h of
          None \<Rightarrow> Inl MissingContentLength
        | Some content_length \<Rightarrow>
            if content_length = 0 then Inl EmptyBody
            else if max_bytes < content_length then Inl BodyTooLarge
            else Inr content_length)"

section \<open>Model: the client\<close>

text \<open>\<^verbatim>\<open>HeaderLineIter\<close>.\<close>

function header_lines :: "bytes \<Rightarrow> bytes list" where
  "header_lines data =
     (if data = [] then []
      else case find_window crlf data of
          Some pos \<Rightarrow> if pos = 0 then [] else take pos data # header_lines (drop (pos + 2) data)
        | None \<Rightarrow> [data])"
  by pat_completeness auto
termination by (relation "measure length") auto

declare header_lines.simps [simp del]

definition split_status_line :: "bytes \<Rightarrow> ota_error + u16 \<times> bytes" where
  "split_status_line data =
     (case find_window crlf data of
        None \<Rightarrow> Inl ServerUnreachable
      | Some pos \<Rightarrow>
          (case parse_status_line (take pos data) of
             Inl e \<Rightarrow> Inl (ota_error_of_http e)
           | Inr code \<Rightarrow> Inr (code, drop (pos + 2) data)))"

fun feed_all :: "bytes list \<Rightarrow> header_state \<Rightarrow> ota_error + header_state" where
  "feed_all [] h = Inr h"
| "feed_all (l # ls) h = (case header_state_feed l h of Inl e \<Rightarrow> Inl (ota_error_of_http e) | Inr h' \<Rightarrow> feed_all ls h')"

text \<open>The socket: \<open>sk_read n\<close> returns at most \<open>n\<close> bytes, \<open>sk_write bs\<close> how many of the bytes it took.\<close>

record 'w tcp_socket =
  sk_read :: "nat \<Rightarrow> ('w, unit, bytes) prog"
  sk_write :: "bytes \<Rightarrow> ('w, unit, nat) prog"

function read_headers :: "'w tcp_socket \<Rightarrow> nat \<Rightarrow> bytes \<Rightarrow> ('w, ota_http_error, bytes) prog" where
  "read_headers S buf_len present w =
     (if buf_len \<le> length present then (Inl Io, w)
      else case sk_read S 1 w of
          (Inl _, w') \<Rightarrow> (Inl Io, w')
        | (Inr got, w') \<Rightarrow>
            (case got of
               [] \<Rightarrow> (Inl EarlyEof, w')
             | b # _ \<Rightarrow>
                 let present' = present @ [b] in
                 if 4 \<le> length present' \<and> drop (length present' - 4) present' = crlf @ crlf then (Inr present', w')
                 else read_headers S buf_len present' w'))"
  by pat_completeness auto
termination by (relation "measure (\<lambda>(S, buf_len, present, w). buf_len - length present)") auto

declare read_headers.simps [simp del]

function send_request :: "'w tcp_socket \<Rightarrow> bytes \<Rightarrow> ('w, ota_error, unit) prog" where
  "send_request S req w =
     (if req = [] then (Inr (), w)
      else case sk_write S req w of
          (Inl _, w') \<Rightarrow> (Inl ServerUnreachable, w')
        | (Inr n, w') \<Rightarrow> if n = 0 then (Inl ServerUnreachable, w') else send_request S (drop n req) w')"
  by pat_completeness auto
termination by (relation "measure (\<lambda>(S, req, w). length req)") auto

declare send_request.simps [simp del]

definition read_response :: "'w tcp_socket \<Rightarrow> nat \<Rightarrow> ('w, ota_error, nat) prog" where
  "read_response S max_bytes =
     onResult (read_headers S 1024 []) (\<lambda>r. case r of
         Inl e \<Rightarrow> fail (ota_error_of_http e)
       | Inr header_data \<Rightarrow>
           (case split_status_line header_data of
              Inl e \<Rightarrow> fail e
            | Inr (code, headers_block) \<Rightarrow>
                if code \<noteq> 200 then fail (DownloadFailed code)
                else (case feed_all (header_lines headers_block) header_state_new of
                    Inl e \<Rightarrow> fail e
                  | Inr h \<Rightarrow>
                      (case header_state_finish h max_bytes of
                         Inl e \<Rightarrow> fail (ota_error_of_http e)
                       | Inr content_length \<Rightarrow> ok content_length))))"

definition fetch_get :: "'w tcp_socket \<Rightarrow> parsed_url \<Rightarrow> nat \<Rightarrow> ('w, ota_error, nat) prog" where
  "fetch_get S parsed max_bytes =
     (case format_get_request 256 (pu_host parsed) (pu_port parsed) (pu_path parsed) (pu_query parsed) of
        None \<Rightarrow> fail ServerUnreachable
      | Some req \<Rightarrow> andThen (send_request S req) (\<lambda>_. read_response S max_bytes))"

section \<open>The response grammar\<close>

text \<open>A response head as the server writes it.\<close>

definition response_head :: "bytes \<Rightarrow> bytes list \<Rightarrow> bytes" where
  "response_head line headers = request_lines (line # headers)"

text \<open>The values of the header fields of a name, in order.\<close>

definition named :: "string \<Rightarrow> bytes \<Rightarrow> bytes option" where
  "named name line = (case parse_header line of
       Inr (n, v) \<Rightarrow> if eq_ignore_case n (ascii name) then Some v else None
     | Inl _ \<Rightarrow> None)"

definition values_of :: "string \<Rightarrow> bytes list \<Rightarrow> bytes list" where
  "values_of name = List.map_filter (named name)"

definition field_ok :: "bytes \<Rightarrow> bool" where
  "field_ok line \<longleftrightarrow> trim_ows line = [] \<or> (\<exists>x. parse_header line = Inr x)"

text \<open>
  What the module documents: every line is a header field, exactly one \<^verbatim>\<open>Content-Length\<close> with a decimal
  64-bit value, no \<^verbatim>\<open>Transfer-Encoding\<close>, and a length from 1 to the size of the partition.
\<close>

definition acceptable :: "bytes list \<Rightarrow> nat \<Rightarrow> nat \<Rightarrow> bool" where
  "acceptable headers max_bytes n \<longleftrightarrow>
     list_all field_ok headers \<and> values_of ''transfer-encoding'' headers = [] \<and>
     (\<exists>v. values_of ''content-length'' headers = [v] \<and> v \<noteq> [] \<and> list_all is_digit v \<and> parse_u64 v = Some n) \<and>
     0 < n \<and> n \<le> max_bytes"

section \<open>Lemmas: header fields\<close>

lemma values_of_simps [simp]:
  "values_of name [] = []"
  "values_of name (l # ls) = (case named name l of None \<Rightarrow> values_of name ls | Some v \<Rightarrow> v # values_of name ls)"
  by (simp_all add: values_of_def List.map_filter_def split: option.splits)

lemma blank_no_header: "trim_ows line = [] \<Longrightarrow> \<exists>e. parse_header line = Inl e"
proof -
  assume blank: "trim_ows line = []"
  have "position (\<lambda>b. b = 0x3A) line = None"
  proof (rule ccontr)
    assume "position (\<lambda>b. b = 0x3A) line \<noteq> None"
    then have colon: "0x3A \<in> set line" by (auto simp: position_None)
    then obtain a b where l: "line = a @ 0x3A # b" by (auto simp: in_set_conv_decomp)
    obtain i where i: "position (\<lambda>b. \<not> is_ows b) line = Some i" "i \<le> length a"
    proof -
      have "\<not> is_ows (line ! length a)" by (simp add: l is_ows_def)
      moreover obtain i where "position (\<lambda>b. \<not> is_ows b) line = Some i"
        using colon by (cases "position (\<lambda>b. \<not> is_ows b) line") (auto simp: position_None is_ows_def)
      ultimately show thesis using that position_Some [of "\<lambda>b. \<not> is_ows b" line i] by (meson not_le)
    qed
    obtain j where j: "rposition (\<lambda>b. \<not> is_ows b) line = Some j" "length a \<le> j" "j < length line"
    proof -
      obtain k where k: "position (\<lambda>b. \<not> is_ows b) (rev line) = Some k"
        using colon by (cases "position (\<lambda>b. \<not> is_ows b) (rev line)") (auto simp: position_None is_ows_def)
      have "\<not> is_ows (rev line ! length b)" by (simp add: l is_ows_def nth_append)
      with position_Some [OF k] have "k \<le> length b" by (meson not_le)
      then show thesis using that k by (auto simp: rposition_def l)
    qed
    from blank i j show False by (simp add: trim_ows_def)
  qed
  then show ?thesis by (simp add: parse_header_def)
qed

definition length_after :: "nat option \<Rightarrow> bytes list \<Rightarrow> nat option \<Rightarrow> bool" where
  "length_after before values after \<longleftrightarrow> (case values of
       [] \<Rightarrow> after = before
     | [v] \<Rightarrow> before = None \<and> v \<noteq> [] \<and> list_all is_digit v \<and> parse_u64 v \<noteq> None \<and> after = parse_u64 v
     | _ \<Rightarrow> False)"

lemma names_differ: "eq_ignore_case n (ascii ''content-length'') \<Longrightarrow> \<not> eq_ignore_case n (ascii ''transfer-encoding'')"
  by (simp add: eq_ignore_case_def ascii_def)

lemma feed_one:
  "header_state_feed l h = Inr h' \<longleftrightarrow>
     field_ok l \<and> length_after (hs_content_length h) (values_of ''content-length'' [l]) (hs_content_length h') \<and>
     hs_has_transfer_encoding h' = (hs_has_transfer_encoding h \<or> values_of ''transfer-encoding'' [l] \<noteq> [])"
proof (cases "trim_ows l = []")
  case True
  with blank_no_header [OF this] show ?thesis
    by (cases h; cases h') (auto simp: header_state_feed_def field_ok_def named_def length_after_def)
next
  case False
  show ?thesis
  proof (cases "parse_header l")
    case (Inl e)
    with False show ?thesis by (simp add: header_state_feed_def field_ok_def)
  next
    case (Inr nv)
    then obtain n v where nv: "parse_header l = Inr (n, v)" by (cases nv) auto
    show ?thesis
    proof (cases "eq_ignore_case n (ascii ''content-length'')")
      case True
      with False nv names_differ [OF True] show ?thesis
        by (cases h; cases h') (auto simp: header_state_feed_def field_ok_def named_def length_after_def split: option.splits)
    next
      case other: False
      with False nv show ?thesis
        by (cases h; cases h') (auto simp: header_state_feed_def field_ok_def named_def length_after_def)
    qed
  qed
qed

lemma length_after_Cons:
  "length_after a (values_of name [l] @ vs) c \<longleftrightarrow> (\<exists>b. length_after a (values_of name [l]) b \<and> length_after b vs c)"
  by (auto simp: length_after_def split: option.splits list.splits)

lemma values_of_Cons: "values_of name (l # ls) = values_of name [l] @ values_of name ls"
  by (simp split: option.splits)

lemma feed_all_iff:
  "feed_all ls h = Inr h' \<longleftrightarrow>
     list_all field_ok ls \<and> length_after (hs_content_length h) (values_of ''content-length'' ls) (hs_content_length h') \<and>
     hs_has_transfer_encoding h' = (hs_has_transfer_encoding h \<or> values_of ''transfer-encoding'' ls \<noteq> [])"
proof (induction ls arbitrary: h)
  case Nil
  show ?case by (cases h; cases h') (auto simp: length_after_def)
next
  case (Cons l ls)
  have "feed_all (l # ls) h = Inr h' \<longleftrightarrow> (\<exists>m. header_state_feed l h = Inr m \<and> feed_all ls m = Inr h')"
    by (simp split: sum.splits)
  also have "\<dots> \<longleftrightarrow> (\<exists>cl te. header_state_feed l h = Inr \<lparr>hs_content_length = cl, hs_has_transfer_encoding = te\<rparr> \<and>
      feed_all ls \<lparr>hs_content_length = cl, hs_has_transfer_encoding = te\<rparr> = Inr h')"
    by (metis header_state.surjective old.unit.exhaust)
  finally show ?case
    unfolding feed_one Cons.IH values_of_Cons [of _ l ls] length_after_Cons by (auto simp del: values_of_simps)
qed

lemma headers_accepted_iff:
  "(\<exists>h. feed_all headers header_state_new = Inr h \<and> header_state_finish h max_bytes = Inr n) \<longleftrightarrow> acceptable headers max_bytes n"
proof -
  have fin: "header_state_finish h max_bytes = Inr n \<longleftrightarrow>
      \<not> hs_has_transfer_encoding h \<and> hs_content_length h = Some n \<and> 0 < n \<and> n \<le> max_bytes" for h
    by (auto simp: header_state_finish_def split: option.splits)
  have la: "length_after None vs (Some n) \<longleftrightarrow> (\<exists>v. vs = [v] \<and> v \<noteq> [] \<and> list_all is_digit v \<and> parse_u64 v = Some n)" for vs
    by (auto simp: length_after_def split: list.splits)
  have "(\<exists>h. feed_all headers header_state_new = Inr h \<and> header_state_finish h max_bytes = Inr n) \<longleftrightarrow>
      (\<exists>cl te. feed_all headers header_state_new = Inr \<lparr>hs_content_length = cl, hs_has_transfer_encoding = te\<rparr> \<and>
        header_state_finish \<lparr>hs_content_length = cl, hs_has_transfer_encoding = te\<rparr> max_bytes = Inr n)"
    by (metis header_state.surjective old.unit.exhaust)
  then show ?thesis unfolding feed_all_iff fin by (auto simp: header_state_new_def acceptable_def la)
qed

section \<open>Lemmas: the header section of a stream\<close>

abbreviation occurs :: "bytes \<Rightarrow> bytes \<Rightarrow> nat \<Rightarrow> bool" where
  "occurs pat s j \<equiv> take (length pat) (drop j s) = pat"

lemma find_window_iff:
  assumes "pat \<noteq> []"
  shows "find_window pat s = Some i \<longleftrightarrow> occurs pat s i \<and> (\<forall>j < i. \<not> occurs pat s j)"
proof (induction s arbitrary: i)
  case Nil
  show ?case using assms by simp
next
  case (Cons b s)
  then show ?case by (cases i) (auto simp: less_Suc_eq_0_disj)
qed

lemma occurs_append: "occurs pat (a @ b) (length a + j) = occurs pat b j"
  by simp

lemma occursI: "s = a @ pat @ b \<Longrightarrow> occurs pat s (length a)"
  by simp

lemma occurs_split:
  assumes "occurs pat s j" and "pat \<noteq> []"
  shows "s = take j s @ pat @ drop (j + length pat) s" and "j < length s"
proof -
  have "drop j s = pat @ drop (length pat) (drop j s)"
    using append_take_drop_id [of "length pat" "drop j s"] unfolding assms(1) by simp
  then show "s = take j s @ pat @ drop (j + length pat) s"
    using append_take_drop_id [of j s] by (simp add: add.commute)
  show "j < length s" using assms by (cases "j < length s") auto
qed

lemma first_occurs:
  assumes "occurs pat s n"
  obtains k where "occurs pat s k" and "\<forall>j < k. \<not> occurs pat s j"
proof
  show "occurs pat s (LEAST j. occurs pat s j)" by (rule LeastI) (rule assms)
  show "\<forall>j < (LEAST j. occurs pat s j). \<not> occurs pat s j" by (blast dest: not_less_Least)
qed

definition blank :: bytes where "blank = crlf @ crlf"

lemma window_length [simp]: "length crlf = 2" "length blank = 4"
  by (simp_all add: crlf_def blank_def)

text \<open>What is left of a header section in front of a header: its fields and the empty line that ends it.\<close>

definition section_rest :: "bytes \<Rightarrow> bool" where
  "section_rest s \<longleftrightarrow> s = crlf \<or> \<not> occurs crlf s 0 \<and> (\<exists>pre. s = pre @ blank \<and> (\<forall>j < length pre. \<not> occurs blank s j))"

lemma section_step:
  assumes s: "s = pre @ blank" "\<forall>j < length pre. \<not> occurs blank s j"
    and l: "occurs crlf s k" "\<forall>j < k. \<not> occurs crlf s j"
  shows "section_rest (drop (k + 2) s)" and "k \<le> length pre"
proof -
  have "occurs crlf s (length pre)" unfolding s(1) blank_def by simp
  with l(2) show k: "k \<le> length pre" by (meson not_le)
  obtain l rest where split: "s = l @ crlf @ rest" and len: "length l = k" and rest: "drop (k + 2) s = rest"
    using occurs_split [OF l(1)] by (simp add: crlf_def)
  show "section_rest (drop (k + 2) s)"
  proof (cases "occurs crlf rest 0")
    case True
    then have "take 2 rest = crlf" by simp
    then have "rest = crlf @ drop 2 rest" using append_take_drop_id [of 2 rest] by metis
    with split have "s = l @ blank @ drop 2 rest" by (simp add: blank_def)
    then have "occurs blank s k" using len by (metis occursI)
    with s(2) k have "k = length pre" by (meson le_neq_implies_less)
    then have "drop (k + 2) s = crlf" by (simp add: s(1) blank_def crlf_def)
    then show ?thesis by (simp add: section_rest_def)
  next
    case False
    have "k \<noteq> length pre" using False unfolding rest [symmetric] by (auto simp: s(1) blank_def crlf_def)
    moreover have "k + 1 \<noteq> length pre"
    proof
      assume k1: "k + 1 = length pre"
      then have "drop (Suc k) s = blank" by (simp add: s(1))
      moreover have "drop (Suc k) s = [0x0A] @ rest" unfolding split using len by (simp add: crlf_def)
      ultimately show False by (simp add: blank_def crlf_def)
    qed
    ultimately have k2: "k + 2 \<le> length pre" using k by linarith
    have rest': "drop (k + 2) s = drop (k + 2) pre @ blank" using k2 by (simp add: s(1))
    have "\<not> occurs blank (drop (k + 2) s) j" if "j < length (drop (k + 2) pre)" for j
      using that s(2) [rule_format, of "k + 2 + j"] k2 by (simp add: add.commute add.left_commute)
    with rest' False rest show ?thesis unfolding section_rest_def by metis
  qed
qed

lemma header_lines_section:
  assumes "section_rest s"
  shows "s = request_lines (header_lines s) \<and> list_all (\<lambda>l. l \<noteq> [] \<and> find_window crlf (l @ crlf) = Some (length l)) (header_lines s)"
  using assms
proof (induction s rule: header_lines.induct)
  case (1 s)
  have ne: "crlf \<noteq> []" by (simp add: crlf_def)
  show ?case
  proof (cases "s = crlf")
    case True
    then have "header_lines s = []" by (subst header_lines.simps) (simp add: crlf_def)
    with True show ?thesis by (simp add: request_lines_def)
  next
    case False
    with 1(2) obtain pre where pre: "\<not> occurs crlf s 0" "s = pre @ blank" "\<forall>j < length pre. \<not> occurs blank s j"
      by (auto simp: section_rest_def)
    then have "s \<noteq> []" by (simp add: blank_def crlf_def)
    have "occurs crlf s (length pre)" unfolding pre(2) blank_def by simp
    then obtain k where k: "occurs crlf s k" "\<forall>j < k. \<not> occurs crlf s j" by (rule first_occurs)
    have "find_window crlf s = Some k" using k unfolding find_window_iff [OF ne] by blast
    moreover have "k \<noteq> 0" using k(1) pre(1) by metis
    ultimately have lines: "header_lines s = take k s # header_lines (drop (k + 2) s)"
      using \<open>s \<noteq> []\<close> by (subst header_lines.simps) simp
    have split: "s = take k s @ crlf @ drop (k + 2) s" and kl: "k < length s"
      using occurs_split [OF k(1) ne] by simp_all
    have "\<not> occurs crlf (take k s @ crlf) j" if "j < k" for j
    proof -
      have "s = (take k s @ crlf) @ drop (k + 2) s" using split by simp
      moreover have "take 2 (drop j ((take k s @ crlf) @ r)) = take 2 (drop j (take k s @ crlf))" for r
        using that kl by simp
      ultimately have "take 2 (drop j (take k s @ crlf)) = take 2 (drop j s)" by metis
      with k(2) that show ?thesis by simp
    qed
    then have "find_window crlf (take k s @ crlf) = Some (length (take k s))"
      unfolding find_window_iff [OF ne] using kl by simp
    moreover have "drop (k + 2) s = request_lines (header_lines (drop (k + 2) s)) \<and>
        list_all (\<lambda>l. l \<noteq> [] \<and> find_window crlf (l @ crlf) = Some (length l)) (header_lines (drop (k + 2) s))"
      using 1(1) [OF \<open>s \<noteq> []\<close> \<open>find_window crlf s = Some k\<close> \<open>k \<noteq> 0\<close>] section_step(1) [OF pre(2,3) k] by simp
    ultimately show ?thesis unfolding lines using split kl \<open>k \<noteq> 0\<close> by (auto simp: request_lines_def)
  qed
qed

section \<open>Lemmas: reading a response\<close>

text \<open>
  What the client relies on: a read that succeeds hands out the next bytes of the stream, no more than were
  asked for, and nothing only at its end.
\<close>

locale byte_stream =
  fixes S :: "'w tcp_socket"
    and stream :: "'w \<Rightarrow> bytes"
  assumes read_next: "fst (sk_read S n w) = Inr got \<Longrightarrow>
      stream w = got @ stream (snd (sk_read S n w)) \<and> length got \<le> n \<and> (0 < n \<longrightarrow> got = [] \<longrightarrow> stream w = [])"
begin

definition ends :: "bytes \<Rightarrow> bool" where
  "ends d \<longleftrightarrow> 4 \<le> length d \<and> drop (length d - 4) d = blank"

lemma read_headers_sound:
  assumes "read_headers S len present w = (Inr d, w')"
  shows "\<exists>more. d = present @ more \<and> stream w = more @ stream w' \<and> length d \<le> len \<and> ends d \<and>
    (\<forall>k. length present < k \<longrightarrow> k < length d \<longrightarrow> \<not> ends (take k d))"
  using assms
proof (induction "len - length present" arbitrary: present w rule: less_induct)
  case less
  obtain b w1 where room: "length present < len" and read: "sk_read S 1 w = (Inr [b], w1)"
    and step: "(if ends (present @ [b]) then (Inr (present @ [b]), w1) else read_headers S len (present @ [b]) w1) = (Inr d, w')"
  proof -
    obtain r w1 where r: "sk_read S (Suc 0) w = (r, w1)" by fastforce
    from less(2) obtain got where "r = Inr got" and "got \<noteq> []" and "length present < len"
      by (subst (asm) read_headers.simps) (auto simp: r not_le split: if_splits sum.splits list.splits)
    moreover have "length got \<le> 1" using read_next [of "Suc 0" w got] r \<open>r = Inr got\<close> by simp
    ultimately obtain b where b: "r = Inr [b]" by (cases got) auto
    have "(if ends (present @ [b]) then (Inr (present @ [b]), w1) else read_headers S len (present @ [b]) w1) = (Inr d, w')"
      using less(2) \<open>length present < len\<close> r b
      by (subst (asm) read_headers.simps) (simp add: ends_def Let_def blank_def)
    with that r b \<open>length present < len\<close> show thesis by simp
  qed
  have str: "stream w = b # stream w1" using read_next [of 1 w "[b]"] read by simp
  show ?case
  proof (cases "ends (present @ [b])")
    case True
    with step have "d = present @ [b]" "w' = w1" by auto
    with True str room show ?thesis by auto
  next
    case False
    with step have rec: "read_headers S len (present @ [b]) w1 = (Inr d, w')" by simp
    have "len - length (present @ [b]) < len - length present" using room by simp
    from less(1) [OF this rec] obtain more where more: "d = present @ b # more" "stream w1 = more @ stream w'"
      "length d \<le> len" "ends d" "\<forall>k. Suc (length present) < k \<longrightarrow> k < length d \<longrightarrow> \<not> ends (take k d)"
      by force
    have "\<not> ends (take (Suc (length present)) d)" using False more(1) by simp
    then have "\<forall>k. length present < k \<longrightarrow> k < length d \<longrightarrow> \<not> ends (take k d)"
      using more(5) by (metis Suc_lessI)
    with more(1-4) str show ?thesis by (intro exI [of _ "b # more"]) simp
  qed
qed

lemma headers_section:
  assumes "read_headers S len [] w = (Inr d, w')"
  shows "stream w = d @ stream w'" and "length d \<le> len" and "\<exists>pre. d = pre @ blank \<and> (\<forall>j < length pre. \<not> occurs blank d j)"
proof -
  from read_headers_sound [OF assms] have d: "stream w = d @ stream w'" "length d \<le> len" "ends d"
    "\<forall>k. 0 < k \<longrightarrow> k < length d \<longrightarrow> \<not> ends (take k d)" by auto
  show "stream w = d @ stream w'" "length d \<le> len" by (rule d)+
  define pre where "pre = take (length d - 4) d"
  have pre: "d = pre @ blank" using d(3) append_take_drop_id [of "length d - 4" d] by (simp add: ends_def pre_def)
  have "\<not> occurs blank d j" if "j < length pre" for j
  proof
    assume j: "occurs blank d j"
    have len: "length d = length pre + 4" by (simp add: pre)
    have "drop j (take (j + 4) d) = blank" using j by (simp add: drop_take)
    then have "ends (take (j + 4) d)" using that len by (simp add: ends_def)
    with d(4) that len show False by auto
  qed
  with pre show "\<exists>pre. d = pre @ blank \<and> (\<forall>j < length pre. \<not> occurs blank d j)" by blast
qed

lemma read_response_sound:
  assumes "read_response S max_bytes w = (Inr n, w')"
  shows "\<exists>line headers. stream w = response_head line headers @ stream w' \<and> length (response_head line headers) \<le> 1024 \<and>
    parse_status_line line = Inr 200 \<and> acceptable headers max_bytes n \<and>
    list_all (\<lambda>l. l \<noteq> [] \<and> find_window crlf (l @ crlf) = Some (length l)) headers"
proof -
  obtain r w1 where r: "read_headers S 1024 [] w = (r, w1)" by fastforce
  obtain d where d: "r = Inr d"
    using assms by (cases r) (simp_all add: read_response_def onResult_def r fail_def)
  obtain code block where s: "split_status_line d = Inr (code, block)"
    using assms by (cases "split_status_line d") (auto simp: read_response_def onResult_def r d fail_def)
  have code: "code = 200" using assms by (auto simp: read_response_def onResult_def r d s fail_def split: if_splits)
  obtain hs where fed: "feed_all (header_lines block) header_state_new = Inr hs"
    using assms by (cases "feed_all (header_lines block) header_state_new")
      (auto simp: read_response_def onResult_def r d s code fail_def)
  have fin: "header_state_finish hs max_bytes = Inr n" and w': "w' = w1"
    using assms by (cases "header_state_finish hs max_bytes"; simp add: read_response_def onResult_def r d s code fed fail_def ok_def)+
  obtain pos where pos: "find_window crlf d = Some pos" "parse_status_line (take pos d) = Inr 200" "block = drop (pos + 2) d"
    using s code by (auto simp: split_status_line_def split: option.splits sum.splits)
  have h: "\<exists>h. feed_all (header_lines (drop (pos + 2) d)) header_state_new = Inr h \<and> header_state_finish h max_bytes = Inr n"
    using fed fin pos(3) by blast
  note sec = headers_section [OF r [unfolded d]]
  then obtain pre where pre: "d = pre @ blank" "\<forall>j < length pre. \<not> occurs blank d j" by blast
  have ne: "crlf \<noteq> []" by (simp add: crlf_def)
  have k: "occurs crlf d pos" "\<forall>j < pos. \<not> occurs crlf d j" using pos(1) unfolding find_window_iff [OF ne] by blast+
  let ?rest = "drop (pos + 2) d"
  have "?rest = request_lines (header_lines ?rest)"
    and nl: "list_all (\<lambda>l. l \<noteq> [] \<and> find_window crlf (l @ crlf) = Some (length l)) (header_lines ?rest)"
    using header_lines_section [OF section_step(1) [OF pre k]] by auto
  moreover have "d = take pos d @ crlf @ ?rest" using occurs_split(1) [OF k(1) ne] by simp
  ultimately have "d = response_head (take pos d) (header_lines ?rest)"
    by (simp add: response_head_def request_lines_def)
  moreover have "acceptable (header_lines ?rest) max_bytes n" using h unfolding headers_accepted_iff .
  ultimately show ?thesis using sec(1,2) pos(2) nl w'
    by (intro exI [of _ "take pos d"] exI [of _ "header_lines ?rest"]) (simp del: append_assoc)
qed

end

section \<open>Lemmas: reading a response that is there\<close>

text \<open>A peer that has sent its bytes and closed.\<close>

definition list_socket :: "bytes tcp_socket" where
  "list_socket = \<lparr>sk_read = (\<lambda>n s. (Inr (take n s), drop n s)), sk_write = (\<lambda>bs s. (Inr (length bs), s))\<rparr>"

interpretation peer: byte_stream list_socket "\<lambda>s. s"
  by unfold_locales (auto simp: list_socket_def)

lemma read_headers_complete:
  assumes "occurs blank (present @ s) k" and "\<forall>j. length present < j + 4 \<longrightarrow> j < k \<longrightarrow> \<not> occurs blank (present @ s) j"
    and "length present < k + 4" and "k + 4 \<le> len"
  shows "read_headers list_socket len present s = (Inr (take (k + 4) (present @ s)), drop (k + 4) (present @ s))"
  using assms
proof (induction s arbitrary: present)
  case Nil
  then have "length (take 4 (drop k present)) = 4" by simp
  with Nil(3) show ?case by simp
next
  case (Cons b s)
  have room: "length present < len" using Cons.prems by simp
  have step: "read_headers list_socket len present (b # s) =
      (if peer.ends (present @ [b]) then (Inr (present @ [b]), s) else read_headers list_socket len (present @ [b]) s)"
    using room by (subst read_headers.simps) (simp add: list_socket_def peer.ends_def Let_def blank_def)
  show ?case
  proof (cases "length present + 1 = k + 4")
    case True
    then have k: "length present = k + 3" by simp
    have "drop k (present @ [b]) = take 4 (drop k (present @ b # s))"
      by (simp add: k)
    then have "peer.ends (present @ [b])" using Cons.prems(1) k by (simp add: peer.ends_def)
    moreover have "take (k + 4) (present @ b # s) = present @ [b]" "drop (k + 4) (present @ b # s) = s" by (simp_all add: k)
    ultimately show ?thesis unfolding step by simp
  next
    case False
    then have lt: "length present + 1 < k + 4" using Cons.prems(3) by simp
    have "\<not> peer.ends (present @ [b])"
    proof
      assume e: "peer.ends (present @ [b])"
      define j where "j = length (present @ [b]) - 4"
      have "occurs blank (present @ b # s) j" using e by (simp add: peer.ends_def j_def)
      moreover have "length present < j + 4" "j < k" using e lt by (auto simp: peer.ends_def j_def)
      ultimately show False using Cons.prems(2) by blast
    qed
    with step Cons.IH [of "present @ [b]"] Cons.prems lt show ?thesis by simp
  qed
qed

lemma find_crlf: "http_line l \<Longrightarrow> find_window crlf (l @ crlf @ r) = Some (length l)"
  by (induction l) (auto simp: crlf_def http_line_def)

lemma header_lines_request:
  assumes "list_all (\<lambda>l. http_line l \<and> l \<noteq> []) ls"
  shows "header_lines (request_lines ls) = ls"
  using assms
proof (induction ls)
  case Nil
  show ?case by (subst header_lines.simps) (simp add: request_lines_def crlf_def)
next
  case (Cons l ls)
  have "request_lines (l # ls) = l @ crlf @ request_lines ls" by (simp add: request_lines_def)
  moreover from this Cons.prems have "find_window crlf (request_lines (l # ls)) = Some (length l)" using find_crlf by simp
  ultimately show ?case using Cons by (subst header_lines.simps) simp
qed

lemma head_window:
  assumes "http_line line" and "list_all (\<lambda>l. http_line l \<and> l \<noteq> []) headers"
  shows "find_window blank (response_head line headers @ body) = Some (length (response_head line headers) - 4)"
proof -
  have shift: "crlf @ concat (map (\<lambda>l. l @ crlf) hs) = concat (map (\<lambda>h. crlf @ h) hs) @ crlf" for hs by (induction hs) simp_all
  have h: "response_head line headers = line @ concat (map (\<lambda>h. crlf @ h) headers) @ crlf @ crlf"
    using shift [of headers] by (simp add: response_head_def request_lines_def)
  have "0x0D \<notin> set line" using assms(1) by (simp add: http_line_def)
  from window_skip [OF this] window_lines [OF assms(2), of body] show ?thesis
    unfolding h blank_def by simp
qed

lemma read_response_complete:
  assumes "http_line line" and "list_all (\<lambda>l. http_line l \<and> l \<noteq> []) headers" and "parse_status_line line = Inr 200"
    and "acceptable headers max_bytes n" and "length (response_head line headers) \<le> 1024"
  shows "read_response list_socket max_bytes (response_head line headers @ body) = (Inr n, body)"
proof -
  let ?head = "response_head line headers"
  have ne: "blank \<noteq> []" "4 \<le> length ?head" by (simp_all add: blank_def crlf_def response_head_def request_lines_def)
  let ?k = "length ?head - 4"
  have k: "occurs blank (?head @ body) ?k" "\<forall>j < ?k. \<not> occurs blank (?head @ body) j"
    using head_window [OF assms(1,2), of body] unfolding find_window_iff [OF ne(1)] by blast+
  have kk: "?k + 4 = length ?head" using ne(2) by simp
  have read: "read_headers list_socket 1024 [] (?head @ body) = (Inr ?head, body)"
    using read_headers_complete [where present = "[]" and s = "?head @ body" and k = ?k and len = 1024] k kk assms(5) ne(2)
    by (cases "?head") auto
  have head: "?head = line @ crlf @ request_lines headers" by (simp add: response_head_def request_lines_def)
  have split: "split_status_line ?head = Inr (200, request_lines headers)"
    unfolding head using find_crlf [OF assms(1)] assms(3) by (simp add: split_status_line_def crlf_def)
  obtain h where h: "feed_all headers header_state_new = Inr h" "header_state_finish h max_bytes = Inr n"
    using assms(4) unfolding headers_accepted_iff [symmetric] by blast
  show ?thesis
    by (simp add: read_response_def onResult_def read split header_lines_request [OF assms(2)] h ok_def)
qed

section \<open>Properties\<close>

text \<open>
  C15: the firmware client takes only the response it documents, and stops at the body.  Over every socket
  that hands out the bytes of a stream in order, a response that is accepted is a header section of at most
  1024 bytes with status 200, exactly one \<^verbatim>\<open>Content-Length\<close>, a decimal number from 1 to the size of the
  partition, and no \<^verbatim>\<open>Transfer-Encoding\<close>; what is left in the stream is what follows its empty line.
\<close>

theorem response_strict:
  assumes "byte_stream S stream" and "read_response S max_bytes w = (Inr n, w')"
  shows "\<exists>line headers. stream w = response_head line headers @ stream w' \<and> length (response_head line headers) \<le> 1024 \<and>
    parse_status_line line = Inr 200 \<and> acceptable headers max_bytes n \<and>
    list_all (\<lambda>l. l \<noteq> [] \<and> find_window crlf (l @ crlf) = Some (length l)) headers"
  by (rule byte_stream.read_response_sound [OF assms])

definition example_headers :: "bytes list" where
  "example_headers = [ascii ''Server: x'', ascii ''content-length:  4 '']"

theorem response_strict_witness:
  "\<exists>line headers. response_head (ascii ''HTTP/1.1 200 OK'') example_headers @ [1, 2, 3, 4] = response_head line headers @ [1, 2, 3, 4] \<and>
    length (response_head line headers) \<le> 1024 \<and> parse_status_line line = Inr 200 \<and> acceptable headers 100 4 \<and>
    list_all (\<lambda>l. l \<noteq> [] \<and> find_window crlf (l @ crlf) = Some (length l)) headers"
proof -
  have "feed_all example_headers header_state_new = Inr \<lparr>hs_content_length = Some 4, hs_has_transfer_encoding = False\<rparr>"
    by code_simp
  then have acc: "acceptable example_headers 100 4"
    unfolding headers_accepted_iff [symmetric] by (simp add: header_state_finish_def)
  have lines: "http_line (ascii ''HTTP/1.1 200 OK'')" "list_all (\<lambda>l. http_line l \<and> l \<noteq> []) example_headers"
    "parse_status_line (ascii ''HTTP/1.1 200 OK'') = Inr 200" "length (response_head (ascii ''HTTP/1.1 200 OK'') example_headers) \<le> 1024"
    by code_simp+
  show ?thesis
    by (rule response_strict [OF peer.byte_stream_axioms read_response_complete [OF lines(1-3) acc lines(4)]])
qed

end
