(* ===== verification/Ota_Download.thy ===== *)
theory Ota_Download
  imports Ota_Image Ota_Http Ota_Write_Align
begin

text \<open>
  Downloading and activating a firmware image with \<^verbatim>\<open>EspHalOtaManager\<close> of the bare-metal tier
  (\<^verbatim>\<open>rustyfarian-esp-hal-network/src/ota/manager.rs\<close>).

  The world is one type; the clock, the socket, the time-out combinator, the partition table and the flash
  are operations on it that other crates provide, collected in the record \<open>hal_device\<close>.  What the code relies
  on is the locale \<open>hal_contract\<close>: no operation but the activation moves the boot slot, and a write that
  succeeds has written.  Nothing is assumed of an operation that fails.  The boot slot moves only after
  exactly the announced number of bytes, with the expected digest, is in the partition, and only before the
  deadline.  \<open>sim\<close> interprets the contract on a chip simulated in memory.
\<close>

section \<open>Model: the bare-metal tier\<close>

text \<open>Times are microseconds since the call, as \<^verbatim>\<open>embassy_time\<close> counts them, in 64 bits.\<close>

record 'w hal_device =
  hd_elapsed :: "'w \<Rightarrow> nat \<times> 'w"
  hd_socket :: "'w tcp_socket"
  hd_fetch_timeout :: "nat \<Rightarrow> ('w, ota_error, nat) prog \<Rightarrow> ('w, unit, ota_error + nat) prog"
  hd_read_timeout :: "nat \<Rightarrow> ('w, unit, bytes) prog \<Rightarrow> ('w, unit, unit + bytes) prog"
  hd_updater_new :: "('w, unit, unit) prog"
  hd_next_partition :: "('w, unit, nat) prog"
  hd_as_nor_flash :: "('w, unit, unit) prog"
  hd_nor_erase :: "u32 \<Rightarrow> u32 \<Rightarrow> ('w, unit, unit) prog"
  hd_nor_write :: "u32 \<Rightarrow> bytes \<Rightarrow> ('w, unit, unit) prog"
  hd_region_write :: "u32 \<Rightarrow> bytes \<Rightarrow> ('w, unit, unit) prog"
  hd_activate :: "('w, unit, unit) prog"
  hd_set_state :: "bool \<Rightarrow> ('w, unit, unit) prog"
  hd_sector_size :: u32
  hd_write_size :: nat

datatype download_failure = DownloadPanic | DownloadError ota_error

type_synonym ('w, 'a) download = "('w, download_failure, 'a) prog"

definition CHUNK_LEN :: nat where "CHUNK_LEN = 512"

definition to_core :: "nat \<Rightarrow> duration" where "to_core micros = micros * 1000"

definition to_embassy :: "duration \<Rightarrow> nat" where
  "to_embassy d = (let micros = (if d div 1000 < 2 ^ 64 then d div 1000 else 2 ^ 64 - 1) in min micros ((2 ^ 64 - 1) div 2))"

text \<open>\<^verbatim>\<open>.map_err(|_| e)?\<close>, and the \<^verbatim>\<open>?\<close> of a pure result.\<close>

definition or_else :: "ota_error \<Rightarrow> ('w, 'e, 'a) prog \<Rightarrow> ('w, 'a) download" where
  "or_else e p = onResult p (\<lambda>r. case r of Inl _ \<Rightarrow> fail (DownloadError e) | Inr x \<Rightarrow> ok x)"

definition lift_result :: "ota_error + 'a \<Rightarrow> ('w, 'a) download" where
  "lift_result r = (case r of Inl e \<Rightarrow> fail (DownloadError e) | Inr x \<Rightarrow> ok x)"

definition hal_elapsed :: "'w hal_device \<Rightarrow> ('w, duration) download" where
  "hal_elapsed D = (\<lambda>w. case hd_elapsed D w of (t, w') \<Rightarrow> (Inr (to_core t), w'))"

definition hal_check :: "'w hal_device \<Rightarrow> deadline \<Rightarrow> ('w, unit) download" where
  "hal_check D d = andThen (hal_elapsed D) (\<lambda>t. lift_result (deadline_check d t))"

definition hal_budget :: "'w hal_device \<Rightarrow> deadline \<Rightarrow> duration \<Rightarrow> ('w, nat) download" where
  "hal_budget D d per_op = andThen (hal_elapsed D) (\<lambda>t. ok (to_embassy (deadline_clip d per_op t)))"

definition hal_fetch :: "'w hal_device \<Rightarrow> deadline \<Rightarrow> duration \<Rightarrow> parsed_url \<Rightarrow> nat \<Rightarrow> ('w, nat) download" where
  "hal_fetch D d per_op parsed max_bytes =
     andThen (hal_budget D d per_op) (\<lambda>b.
     andThen (or_else (classify_read_error True) (hd_fetch_timeout D b (fetch_get (hd_socket D) parsed max_bytes))) (\<lambda>r.
     lift_result r))"

definition hal_read_chunk :: "'w hal_device \<Rightarrow> deadline \<Rightarrow> duration \<Rightarrow> nat \<Rightarrow> ('w, bytes) download" where
  "hal_read_chunk D d per_op to_read =
     andThen (hal_budget D d per_op) (\<lambda>b.
     andThen (or_else (classify_read_error True) (hd_read_timeout D b (sk_read (hd_socket D) to_read))) (\<lambda>r.
     case r of Inl _ \<Rightarrow> fail (DownloadError (classify_read_error False)) | Inr chunk \<Rightarrow> ok chunk))"

text \<open>An aligner call with its write closure; the aligner is part of the result.\<close>

definition aligner_call :: "(chunk_aligner \<times> 'w, 'e align_error, unit) prog \<Rightarrow> chunk_aligner \<Rightarrow> ('w, chunk_aligner) download" where
  "aligner_call p al = (\<lambda>w. case p (al, w) of
       (Inl _, (_, w')) \<Rightarrow> (Inl (DownloadError FlashWriteFailed), w')
     | (Inr _, (al', w')) \<Rightarrow> (Inr al', w'))"

datatype sink = ReadModifyWrite | Nor

definition hal_write_chunk :: "'w hal_device \<Rightarrow> sink \<Rightarrow> u32 \<Rightarrow> bytes \<Rightarrow> chunk_aligner \<Rightarrow> ('w, chunk_aligner) download" where
  "hal_write_chunk D s offset chunk al =
     (case s of
        ReadModifyWrite \<Rightarrow> andThen (or_else FlashWriteFailed (hd_region_write D offset chunk)) (\<lambda>_. ok al)
      | Nor \<Rightarrow> aligner_call (push (hd_nor_write D) offset chunk) al)"

text \<open>The bytes a read returned are the chunk; \<^verbatim>\<open>remaining -= n\<close> cannot wrap, as a read returns no more than it was asked for.\<close>

lemma andThen_cong [fundef_cong]:
  "p = q \<Longrightarrow> (\<And>x. f x = g x) \<Longrightarrow> andThen p f = andThen q g"
  by (simp add: andThen_def fun_eq_iff split: prod.splits sum.splits)

function hal_body :: "'w hal_device \<Rightarrow> 'h sha_crate \<Rightarrow> deadline \<Rightarrow> duration \<Rightarrow> sink \<Rightarrow> nat \<Rightarrow> nat \<Rightarrow> 'h \<Rightarrow> chunk_aligner \<Rightarrow>
    ('w, 'h \<times> chunk_aligner) download" where
  "hal_body D H d per_op s content_length remaining h al =
     (if remaining = 0 then ok (h, al)
      else andThen (hal_read_chunk D d per_op (min (unat (of_nat remaining :: u32)) CHUNK_LEN)) (\<lambda>chunk.
        if chunk = [] then fail (DownloadError (DownloadFailed 0))
        else andThen (hal_check D d) (\<lambda>_.
          andThen (hal_write_chunk D s (of_nat (content_length - remaining)) chunk al) (\<lambda>al'.
          andThen (hal_check D d) (\<lambda>_.
          hal_body D H d per_op s content_length (remaining - length chunk) (verifier_update H chunk h) al')))))"
  by pat_completeness auto
termination by (relation "measure (\<lambda>(D, H, d, per_op, s, content_length, remaining, h, al). remaining)") auto

declare hal_body.simps [simp del]

definition hal_prepare :: "'w hal_device \<Rightarrow> u32 \<Rightarrow> ('w, sink) download" where
  "hal_prepare D erased_span =
     onResult (hd_as_nor_flash D) (\<lambda>nor_capable. case nor_capable of
         Inr _ \<Rightarrow>
           andThen (or_else FlashWriteFailed (hd_as_nor_flash D)) (\<lambda>_.
           andThen (or_else FlashWriteFailed (hd_nor_erase D 0 erased_span)) (\<lambda>_. ok Nor))
       | Inl _ \<Rightarrow> ok ReadModifyWrite)"

definition hal_finish :: "'w hal_device \<Rightarrow> deadline \<Rightarrow> sink \<Rightarrow> nat \<Rightarrow> chunk_aligner \<Rightarrow> ('w, unit) download" where
  "hal_finish D d s content_length al =
     (case s of
        Nor \<Rightarrow> andThen (aligner_call (finish (hd_nor_write D) (of_nat content_length)) al) (\<lambda>_. hal_check D d)
      | ReadModifyWrite \<Rightarrow> ok ())"

definition hal_activate :: "'w hal_device \<Rightarrow> activation_permit \<Rightarrow> ('w, unit) download" where
  "hal_activate D permit = or_else FlashWriteFailed (hd_activate D)"

definition hal_permit :: "'w hal_device \<Rightarrow> deadline \<Rightarrow> ('w, activation_permit) download" where
  "hal_permit D d = andThen (hal_elapsed D) (\<lambda>t. lift_result (permit_activation d t))"

definition hal_apply :: "'w hal_device \<Rightarrow> 'h sha_crate \<Rightarrow> deadline \<Rightarrow> duration \<Rightarrow> bytes \<Rightarrow> nat \<Rightarrow> nat \<Rightarrow> ('w, unit) download" where
  "hal_apply D H d per_op expected_sha256 max_bytes content_length =
     (let erased_span = min (round_up (of_nat content_length) (hd_sector_size D)) (of_nat max_bytes) in
      case aligner_new (hd_write_size D) of
        None \<Rightarrow> fail DownloadPanic
      | Some aligner \<Rightarrow>
          andThen (hal_prepare D erased_span) (\<lambda>s.
          andThen (hal_check D d) (\<lambda>_.
          andThen (hal_body D H d per_op s content_length content_length (verifier_new H) aligner) (\<lambda>(h, al).
          andThen (hal_finish D d s content_length al) (\<lambda>_.
          if verifier_finalize H h \<noteq> expected_sha256 then fail (DownloadError ChecksumMismatch)
          else andThen (hal_check D d) (\<lambda>_.
            andThen (hal_permit D d) (\<lambda>permit. hal_activate D permit)))))))"

definition hal_fetch_and_apply :: "'w hal_device \<Rightarrow> 'h sha_crate \<Rightarrow> deadline \<Rightarrow> nat \<Rightarrow> bytes \<Rightarrow> bytes \<Rightarrow> ('w, unit) download" where
  "hal_fetch_and_apply D H d timeout_secs url expected_sha256 =
     (let per_op = timeout_secs * 10 ^ 9 in
      andThen (hal_check D d) (\<lambda>_.
      andThen (lift_result (map_sum ota_error_of_http (\<lambda>u. u) (parse_url url))) (\<lambda>parsed.
      andThen (or_else PartitionNotFound (hd_updater_new D)) (\<lambda>_.
      andThen (or_else PartitionNotFound (hd_next_partition D)) (\<lambda>max_bytes.
      andThen (hal_check D d) (\<lambda>_.
      andThen (hal_fetch D d per_op parsed max_bytes) (\<lambda>content_length.
      andThen (hal_check D d) (\<lambda>_.
      hal_apply D H d per_op expected_sha256 max_bytes content_length))))))))"

definition hal_mark :: "'w hal_device \<Rightarrow> bool \<Rightarrow> ('w, unit) download" where
  "hal_mark D valid =
     andThen (or_else PartitionNotFound (hd_updater_new D)) (\<lambda>_. or_else FlashWriteFailed (hd_set_state D valid))"

section \<open>The aligner over any device\<close>

text \<open>
  A run over the ideal device \<open>nor_write\<close> and the run over a real one, from states that \<open>J\<close> relates: the
  real run ends in a related state, or a write failed and \<open>E\<close> holds.
\<close>

definition tracks :: "('i \<Rightarrow> 'w \<Rightarrow> bool) \<Rightarrow> ('w \<Rightarrow> bool) \<Rightarrow> ('e + unit) \<times> 'a \<times> 'i \<Rightarrow> ('f + unit) \<times> 'a \<times> 'w \<Rightarrow> bool" where
  "tracks J E x y \<longleftrightarrow> (case (x, y) of
     ((Inl _, _), _) \<Rightarrow> True
   | ((Inr _, (_, _)), (Inl _, (_, w))) \<Rightarrow> E w
   | ((Inr _, (al, img)), (Inr _, (al', w))) \<Rightarrow> al' = al \<and> J img w)"

lemma tracks_andThen:
  assumes "tracks J E (p s) (q t)" and "\<And>al img w. J img w \<Longrightarrow> tracks J E (f () (al, img)) (g () (al, w))"
  shows "tracks J E (andThen p f s) (andThen q g t)"
proof -
  obtain r a i where p: "p s = (r, (a, i))" by (metis surj_pair)
  obtain r' a' w where q: "q t = (r', (a', w))" by (metis surj_pair)
  show ?thesis
  proof (cases r)
    case (Inl e)
    then show ?thesis by (simp add: tracks_def andThen_def p)
  next
    case r: (Inr u)
    show ?thesis
    proof (cases r')
      case (Inl e)
      with assms(1) p q r show ?thesis by (cases "f u (a, i)"; cases "fst (f u (a, i))") (auto simp: tracks_def andThen_def)
    next
      case (Inr v)
      with assms(1) p q r have "a' = a" "J i w" by (auto simp: tracks_def)
      with assms(2) p q r Inr show ?thesis by (simp add: andThen_def)
    qed
  qed
qed

lemma tracks_ok: "J img w \<Longrightarrow> tracks J E (Inr u, (al, img)) (Inr v, (al, w))"
  by (simp add: tracks_def)

lemma tracks_with: "J img w \<Longrightarrow> tracks J E (with_aligner f (al, img)) (with_aligner f (al, w))"
  by (simp add: tracks_def with_aligner_def)

locale aligned_device =
  fixes ws :: nat
    and wr :: "u32 \<Rightarrow> bytes \<Rightarrow> ('w, 'f, unit) prog"
    and J :: "bytes \<Rightarrow> 'w \<Rightarrow> bool"
    and E :: "'w \<Rightarrow> bool"
  assumes write_tracks: "nor_write ws off data img = (Inr (), img') \<Longrightarrow> J img w \<Longrightarrow>
      (case wr off data w of (Inl _, w') \<Rightarrow> E w' | (Inr _, w') \<Rightarrow> J img' w')"
begin

lemma tracks_write: "J img w \<Longrightarrow> tracks J E (call_write (nor_write ws) off data (al, img)) (call_write wr off data (al, w))"
  using write_tracks [of off data img _ w]
  by (cases "nor_write ws off data img"; cases "fst (nor_write ws off data img)"; cases "wr off data w"; cases "fst (wr off data w)")
    (auto simp: tracks_def call_write_def)

lemma tracks_rest: "J img w \<Longrightarrow> tracks J E (push_rest (nor_write ws) bytes (al, img)) (push_rest wr bytes (al, w))"
  unfolding push_rest_def Let_def prod.case
  by (intro tracks_andThen) (auto simp: ok_def intro!: tracks_andThen tracks_write tracks_with tracks_ok)

lemma tracks_push: "J img w \<Longrightarrow> tracks J E (push (nor_write ws) off bytes (al, img)) (push wr off bytes (al, w))"
proof (cases "off \<noteq> carry_offset al + of_nat (carry_len al)")
  case True
  then show ?thesis by (simp add: push_def tracks_def)
next
  case False
  assume J: "J img w"
  show ?thesis
  proof (cases "0 < carry_len al")
    case True
    then show ?thesis using False J
      by (auto simp: push_def Let_def intro!: tracks_andThen tracks_write tracks_with tracks_ok tracks_rest)
  qed (use False tracks_rest [OF J] in \<open>simp add: push_def\<close>)
qed

lemma tracks_finish: "J img w \<Longrightarrow> tracks J E (finish (nor_write ws) end' (al, img)) (finish wr end' (al, w))"
  by (auto simp: finish_def Let_def tracks_def [of _ _ "(Inl _, _)"] intro!: tracks_andThen tracks_write tracks_with tracks_ok)

end

section \<open>Programs and the boot slot\<close>

text \<open>
  \<open>boot\<close> is the slot the bootloader starts, \<open>part\<close> what is known of the inactive partition.  A program is
  quiet when it changes neither.
\<close>

locale update_world =
  fixes boot :: "'w \<Rightarrow> 'b"
    and part :: "'w \<Rightarrow> 'p"
begin

abbreviation same :: "'w \<Rightarrow> 'w \<Rightarrow> bool" where
  "same w w' \<equiv> boot w' = boot w \<and> part w' = part w"

definition quiet :: "('w, 'e, 'a) prog \<Rightarrow> bool" where
  "quiet p \<longleftrightarrow> (\<forall>w. same w (snd (p w)))"

lemma quietI: "(\<And>w. same w (snd (p w))) \<Longrightarrow> quiet p"
  by (simp add: quiet_def)

lemma quietD: "quiet p \<Longrightarrow> p w = (r, w') \<Longrightarrow> same w w'"
  unfolding quiet_def by (metis snd_conv)

lemma quiet_ok: "quiet (ok x)" "quiet (fail e)"
  by (simp_all add: quiet_def ok_def fail_def)

lemma quiet_andThen: "quiet p \<Longrightarrow> (\<And>x. quiet (f x)) \<Longrightarrow> quiet (andThen p f)"
  by (simp add: quiet_def andThen_def split: prod.splits sum.splits) (metis snd_conv)

lemma quiet_onResult: "quiet p \<Longrightarrow> (\<And>x. quiet (f x)) \<Longrightarrow> quiet (onResult p f)"
  by (simp add: quiet_def onResult_def split: prod.splits) (metis snd_conv)

lemma quiet_or_else: "quiet p \<Longrightarrow> quiet (or_else e p)"
  unfolding or_else_def by (intro quiet_onResult) (auto split: sum.split intro: quiet_ok)

lemma quiet_lift: "quiet (lift_result r)"
  unfolding lift_result_def by (auto split: sum.split intro: quiet_ok)

text \<open>\<open>holds b p Q w\<close>: from \<open>w\<close>, \<open>p\<close> leaves the boot slot at \<open>b\<close> when it fails and ends with \<open>Q\<close> when it does not.\<close>

definition holds :: "'b \<Rightarrow> ('w, 'e, 'a) prog \<Rightarrow> ('a \<Rightarrow> 'w \<Rightarrow> bool) \<Rightarrow> 'w \<Rightarrow> bool" where
  "holds b p Q w \<longleftrightarrow> (case p w of (Inl _, w') \<Rightarrow> boot w' = b | (Inr x, w') \<Rightarrow> Q x w')"

lemma holds_ok: "Q x w \<Longrightarrow> holds b (ok x) Q w"
  by (simp add: holds_def ok_def)

lemma holds_fail: "boot w = b \<Longrightarrow> holds b (fail e) Q w"
  by (simp add: holds_def fail_def)

lemma holds_andThen: "holds b p (\<lambda>x. holds b (f x) Q) w \<Longrightarrow> holds b (andThen p f) Q w"
  by (auto simp: holds_def andThen_def split: prod.splits sum.splits)

lemma holds_mono: "holds b p Q w \<Longrightarrow> (\<And>x w'. Q x w' \<Longrightarrow> Q' x w') \<Longrightarrow> holds b p Q' w"
  by (auto simp: holds_def split: prod.splits sum.splits)

lemma holds_seq:
  "holds b p P w \<Longrightarrow> (\<And>x w'. P x w' \<Longrightarrow> holds b (f x) Q w') \<Longrightarrow> holds b (andThen p f) Q w"
  by (rule holds_andThen) (rule holds_mono)

lemma holds_quiet:
  assumes "quiet p" and "boot w = b" and "\<And>x w'. p w = (Inr x, w') \<Longrightarrow> same w w' \<Longrightarrow> Q x w'"
  shows "holds b p Q w"
  using assms quietD [OF assms(1), of w] by (auto simp: holds_def split: prod.splits sum.splits)

lemma holds_or_else:
  assumes "\<And>w'. boot (snd (p w)) = b" and "\<And>x w'. p w = (Inr x, w') \<Longrightarrow> Q x w'"
  shows "holds b (or_else e p) Q w"
  using assms by (auto simp: holds_def or_else_def onResult_def fail_def ok_def split: prod.splits sum.splits)

text \<open>\<open>sound V b res\<close>: the boot slot is still \<open>b\<close> and the call failed, or \<open>V\<close> holds of the world it left.\<close>

definition sound :: "('w \<Rightarrow> bool) \<Rightarrow> 'b \<Rightarrow> ('e + unit) \<times> 'w \<Rightarrow> bool" where
  "sound V b res \<longleftrightarrow> boot (snd res) = b \<and> (\<exists>e. fst res = Inl e) \<or> V (snd res)"

lemma sound_seq:
  assumes "holds b p P w" and "\<And>x w'. P x w' \<Longrightarrow> sound V b (f x w')"
  shows "sound V b (andThen p f w)"
  using assms by (auto simp: holds_def andThen_def sound_def [of _ _ "(Inl _, _)"] split: prod.splits sum.splits)

lemma sound_quiet:
  assumes "quiet p" and "boot w = b" and "\<And>x w'. p w = (Inr x, w') \<Longrightarrow> boot w' = b \<Longrightarrow> sound V b (f x w')"
  shows "sound V b (andThen p f w)"
  using assms(2,3) by (intro sound_seq [OF holds_quiet [OF assms(1,2), of "\<lambda>x w'. p w = (Inr x, w') \<and> boot w' = b"]]) auto

end

section \<open>The contract of the bare-metal tier\<close>

text \<open>
  \<open>boot\<close> is the slot the bootloader starts, \<open>part\<close> the bytes of the inactive partition.  Only the activation
  may move the boot slot.  Nothing is assumed of what a failed erase or write leaves in the partition.  A
  time-out either hands on the result of the operation or interrupts it.
\<close>

locale hal_contract = update_world boot part
  for boot :: "'w \<Rightarrow> 'b" and part :: "'w \<Rightarrow> nat \<Rightarrow> u8" +
  fixes D :: "'w hal_device"
  assumes elapsed_same: "boot (snd (hd_elapsed D w)) = boot w \<and> part (snd (hd_elapsed D w)) = part w"
    and read_same: "boot (snd (sk_read (hd_socket D) n w)) = boot w \<and> part (snd (sk_read (hd_socket D) n w)) = part w"
    and read_bound: "fst (sk_read (hd_socket D) n w) = Inr got \<Longrightarrow> length got \<le> n"
    and write_same: "boot (snd (sk_write (hd_socket D) bs w)) = boot w \<and> part (snd (sk_write (hd_socket D) bs w)) = part w"
    and fetch_same: "(\<And>v. boot (snd (p v)) = boot v \<and> part (snd (p v)) = part v) \<Longrightarrow>
      boot (snd (hd_fetch_timeout D b p w)) = boot w \<and> part (snd (hd_fetch_timeout D b p w)) = part w"
    and fetch_result: "hd_fetch_timeout D b p w = (Inr r, w') \<Longrightarrow> p w = (r, w')"
    and chunk_same: "(\<And>v. boot (snd (q v)) = boot v \<and> part (snd (q v)) = part v) \<Longrightarrow>
      boot (snd (hd_read_timeout D b q w)) = boot w \<and> part (snd (hd_read_timeout D b q w)) = part w"
    and chunk_result: "hd_read_timeout D b q w = (Inr x, w') \<Longrightarrow> q w = (x, w')"
    and updater_same: "boot (snd (hd_updater_new D w)) = boot w \<and> part (snd (hd_updater_new D w)) = part w"
    and partition_same: "boot (snd (hd_next_partition D w)) = boot w \<and> part (snd (hd_next_partition D w)) = part w"
    and capacity_small: "fst (hd_next_partition D w) = Inr n \<Longrightarrow> n + unat (hd_sector_size D) \<le> 2 ^ 32"
    and nor_flash_same: "boot (snd (hd_as_nor_flash D w)) = boot w \<and> part (snd (hd_as_nor_flash D w)) = part w"
    and erase_boot: "boot (snd (hd_nor_erase D a b' w)) = boot w"
    and erase_sets: "fst (hd_nor_erase D a b' w) = Inr () \<Longrightarrow> unat a \<le> i \<Longrightarrow> i < unat b' \<Longrightarrow>
      part (snd (hd_nor_erase D a b' w)) i = 0xFF"
    and nor_write_boot: "boot (snd (hd_nor_write D off bs w)) = boot w"
    and nor_write_ands: "fst (hd_nor_write D off bs w) = Inr () \<Longrightarrow>
      unat off mod hd_write_size D = 0 \<Longrightarrow> length bs mod hd_write_size D = 0 \<Longrightarrow>
      part (snd (hd_nor_write D off bs w)) i =
        (if unat off \<le> i \<and> i < unat off + length bs then and (part w i) (bs ! (i - unat off)) else part w i)"
    and region_write_boot: "boot (snd (hd_region_write D off bs w)) = boot w"
    and region_write_sets: "fst (hd_region_write D off bs w) = Inr () \<Longrightarrow>
      part (snd (hd_region_write D off bs w)) i =
        (if unat off \<le> i \<and> i < unat off + length bs then bs ! (i - unat off) else part w i)"
    and activate_part: "part (snd (hd_activate D w)) = part w"
    and set_state_part: "part (snd (hd_set_state D v w)) = part w"
    and sector_positive: "0 < hd_sector_size D"
begin

lemma quiet_elapsed: "quiet (hal_elapsed D)"
  using elapsed_same by (auto intro!: quietI simp: hal_elapsed_def split: prod.splits) (metis snd_conv)+

lemmas quiet_rules = quiet_ok quiet_andThen quiet_onResult quiet_or_else quiet_lift quiet_elapsed

lemma quiet_check: "quiet (hal_check D d)" "quiet (hal_budget D d per_op)" "quiet (hal_permit D d)"
  unfolding hal_check_def hal_budget_def hal_permit_def by (intro quiet_rules)+

lemma quiet_send: "same w (snd (send_request (hd_socket D) req w))"
proof (induction "length req" arbitrary: req w rule: less_induct)
  case less
  obtain r w1 where r: "sk_write (hd_socket D) req w = (r, w1)" by fastforce
  with write_same [of req w] have "same w w1" by simp
  then show ?case using less [of "drop n req" w1 for n] r
    unfolding send_request.simps [of _ req w] by (auto split: sum.splits)
qed

lemma quiet_headers: "same w (snd (read_headers (hd_socket D) len present w))"
proof (induction "len - length present" arbitrary: present w rule: less_induct)
  case less
  obtain r w1 where r: "sk_read (hd_socket D) (Suc 0) w = (r, w1)" by fastforce
  with read_same [of "Suc 0" w] have "same w w1" by simp
  then show ?case using less [of "present @ [b]" w1 for b] r
    unfolding read_headers.simps [of _ _ present w] by (auto simp: Let_def split: sum.splits list.splits)
qed

lemma quiet_fetch_get: "quiet (fetch_get (hd_socket D) parsed max_bytes)"
proof -
  have headers: "quiet (read_headers (hd_socket D) n [])" for n by (rule quietI) (rule quiet_headers)
  have "quiet (read_response (hd_socket D) max_bytes)"
    unfolding read_response_def
    by (intro quiet_onResult headers) (auto intro: quiet_ok split: sum.split prod.split if_split)
  moreover have "quiet (send_request (hd_socket D) req)" for req by (rule quietI) (rule quiet_send)
  ultimately show ?thesis unfolding fetch_get_def by (auto split: option.split intro: quiet_rules)
qed

lemma quiet_fetch: "quiet (hal_fetch D d per_op parsed max_bytes)"
proof -
  have "quiet (hd_fetch_timeout D b (fetch_get (hd_socket D) parsed max_bytes))" for b
    using fetch_same [of "fetch_get (hd_socket D) parsed max_bytes" b] quiet_fetch_get [of parsed max_bytes]
    by (intro quietI) (simp add: quiet_def)
  then show ?thesis unfolding hal_fetch_def by (intro quiet_rules quiet_check)
qed

lemma quiet_chunk: "quiet (hal_read_chunk D d per_op n)"
proof -
  have "quiet (hd_read_timeout D b (sk_read (hd_socket D) n))" for b
    using chunk_same [of "sk_read (hd_socket D) n" b] read_same by (intro quietI) simp
  then show ?thesis unfolding hal_read_chunk_def
    by (intro quiet_andThen quiet_or_else quiet_check) (auto split: sum.split intro: quiet_ok)
qed

lemma hal_chunk_length:
  assumes "hal_read_chunk D d per_op n w = (Inr chunk, w')"
  shows "length chunk \<le> n"
proof -
  obtain b w1 where b: "hal_budget D d per_op w = (Inr b, w1)"
    using assms by (cases "hal_budget D d per_op w"; cases "fst (hal_budget D d per_op w)") (auto simp: hal_read_chunk_def andThen_def)
  obtain r w2 where r: "hd_read_timeout D b (sk_read (hd_socket D) n) w1 = (r, w2)" by fastforce
  with assms b have "r = Inr (Inr chunk)"
    by (auto simp: hal_read_chunk_def andThen_def or_else_def onResult_def fail_def ok_def split: sum.splits)
  with r chunk_result have "sk_read (hd_socket D) n w1 = (Inr chunk, w2)" by blast
  with read_bound [of n w1] show ?thesis by simp
qed

section \<open>The partition while an image is written\<close>

definition blank_after :: "'b \<Rightarrow> nat \<Rightarrow> bytes \<Rightarrow> 'w \<Rightarrow> bool" where
  "blank_after b n img w \<longleftrightarrow> boot w = b \<and> (\<forall>i < length img. i < n \<longrightarrow> part w i = img ! i) \<and>
     (\<forall>i. length img \<le> i \<longrightarrow> i < n \<longrightarrow> part w i = 0xFF)"

lemma and_erased: "and (0xFF :: u8) x = x"
proof -
  have "(0xFF :: u8) = - 1" by simp
  then show ?thesis by (simp only: and.left_neutral)
qed

lemma device_aligned: "aligned_device (hd_write_size D) (hd_nor_write D) (blank_after b n) (\<lambda>w. boot w = b)"
proof
  fix off data img img' w
  assume nor: "nor_write (hd_write_size D) off data img = (Inr (), img')" and J: "blank_after b n img w"
  from nor have n: "unat off mod hd_write_size D = 0" "length data mod hd_write_size D = 0" "unat off = length img" "img' = img @ data"
    by (auto simp: nor_write_def split: if_splits)
  obtain r w' where r: "hd_nor_write D off data w = (r, w')" by fastforce
  have boot: "boot w' = b" using J nor_write_boot [of off data w] r by (simp add: blank_after_def)
  have "blank_after b n img' w'" if "r = Inr ()"
  proof -
    have p: "part w' i = (if length img \<le> i \<and> i < length img + length data then and (part w i) (data ! (i - length img)) else part w i)" for i
      using nor_write_ands [of off data w i] n r that by simp
    show ?thesis unfolding blank_after_def n(4)
      using J boot by (auto simp: p blank_after_def nth_append and_erased simp del: word_bw_comms)
  qed
  with r boot show "case hd_nor_write D off data w of (Inl _, w') \<Rightarrow> boot w' = b | (Inr _, w') \<Rightarrow> blank_after b n img' w'"
    by (cases r) auto
qed

definition written :: "'b \<Rightarrow> sink \<Rightarrow> nat \<Rightarrow> bytes \<Rightarrow> chunk_aligner \<Rightarrow> 'w \<Rightarrow> bool" where
  "written b s n stream al w \<longleftrightarrow> boot w = b \<and> (case s of
       ReadModifyWrite \<Rightarrow> \<forall>i < length stream. part w i = stream ! i
     | Nor \<Rightarrow> \<exists>img. aligner_inv (hd_write_size D) al img stream \<and> blank_after b n img w)"

lemma written_same: "written b s n stream al w \<Longrightarrow> same w w' \<Longrightarrow> written b s n stream al w'"
  by (auto simp: written_def blank_after_def split: sink.splits)

lemma check_written:
  assumes "written b s n stream al w"
  shows "holds b (hal_check D d) (\<lambda>_. written b s n stream al) w"
proof (rule holds_quiet [OF quiet_check(1)])
  show "boot w = b" using assms by (simp add: written_def)
  show "written b s n stream al w'" if "same w w'" for w' by (rule written_same [OF assms that])
qed

lemma write_chunk_holds:
  assumes W: "written b s n stream al w" and len: "length stream + length chunk < 2 ^ 32"
  shows "holds b (hal_write_chunk D s (of_nat (length stream)) chunk al) (\<lambda>al'. written b s n (stream @ chunk) al') w"
proof (cases s)
  case ReadModifyWrite
  let ?off = "of_nat (length stream) :: u32"
  have off: "unat ?off = length stream" using len by (intro unat_of_nat_less) simp
  have "written b s n (stream @ chunk) al w'" if "hd_region_write D ?off chunk w = (Inr (), w')" for w'
    using region_write_sets [of ?off chunk w] region_write_boot [of ?off chunk w] that W off ReadModifyWrite
    by (auto simp: written_def nth_append)
  then show ?thesis
    using region_write_boot [of ?off chunk w] W ReadModifyWrite
    by (auto simp: hal_write_chunk_def written_def intro!: holds_andThen holds_or_else holds_ok)
next
  case Nor
  with W obtain img where img: "aligner_inv (hd_write_size D) al img stream" "blank_after b n img w" by (auto simp: written_def)
  from push_inv [OF img(1) len] obtain al' img'
    where p: "push (nor_write (hd_write_size D)) (of_nat (length stream)) chunk (al, img) = (Inr (), (al', img'))"
      and inv: "aligner_inv (hd_write_size D) al' img' (stream @ chunk)" by blast
  obtain r a w' where q: "push (hd_nor_write D) (of_nat (length stream)) chunk (al, w) = (r, (a, w'))" by (metis surj_pair)
  from aligned_device.tracks_push [OF device_aligned img(2), of "of_nat (length stream)" chunk al] p q inv
  show ?thesis by (cases r) (auto simp: tracks_def holds_def hal_write_chunk_def aligner_call_def written_def blank_after_def Nor)
qed

lemma body_holds:
  assumes "length stream + remaining = n" and "n < 2 ^ 32" and "written b s n stream al w" and "hashed H h stream"
  shows "holds b (hal_body D H d per_op s n remaining h al)
    (\<lambda>(h', al') w'. \<exists>image. length image = n \<and> written b s n image al' w' \<and> hashed H h' image) w"
  using assms
proof (induction remaining arbitrary: stream h al w rule: less_induct)
  case (less remaining)
  have boot: "boot w = b" using less.prems(3) by (simp add: written_def)
  show ?case
  proof (cases "remaining = 0")
    case True
    with less.prems show ?thesis by (subst hal_body.simps) (auto intro!: holds_ok exI [of _ stream])
  next
    case False
    have rem: "unat (of_nat remaining :: u32) = remaining" using less.prems(1,2) by (intro unat_of_nat_less) simp
    have off: "n - remaining = length stream" using less.prems(1) by simp
    have "holds b (if chunk = [] then fail (DownloadError (DownloadFailed 0))
        else andThen (hal_check D d) (\<lambda>_. andThen (hal_write_chunk D s (of_nat (length stream)) chunk al) (\<lambda>al'.
          andThen (hal_check D d) (\<lambda>_. hal_body D H d per_op s n (remaining - length chunk) (verifier_update H chunk h) al'))))
        (\<lambda>(h', al') w'. \<exists>image. length image = n \<and> written b s n image al' w' \<and> hashed H h' image) w1"
      if same: "same w w1" and len: "length chunk \<le> remaining" for chunk w1
    proof (cases "chunk = []")
      case True
      then show ?thesis using boot same by (simp add: holds_fail)
    next
      case ne: False
      have step: "holds b (hal_body D H d per_op s n (remaining - length chunk) (verifier_update H chunk h) al')
          (\<lambda>(h', al') w'. \<exists>image. length image = n \<and> written b s n image al' w' \<and> hashed H h' image) w2"
        if "written b s n (stream @ chunk) al' w2" for al' w2
        using that ne len False less.prems(1,2) hashed_update [OF less.prems(4)] by (intro less.IH) auto
      have W: "written b s n stream al w1" by (rule written_same [OF less.prems(3) same])
      have small: "length stream + length chunk < 2 ^ 32" using len less.prems(1,2) by simp
      show ?thesis using ne
        by (simp only: if_False, intro holds_seq [OF check_written [OF W]] holds_seq [OF write_chunk_holds [OF _ small]]
          holds_seq [OF check_written] step)
    qed
    note cont = this
    have eq: "hal_body D H d per_op s n remaining h al =
        andThen (hal_read_chunk D d per_op (min remaining CHUNK_LEN)) (\<lambda>chunk.
          if chunk = [] then fail (DownloadError (DownloadFailed 0))
          else andThen (hal_check D d) (\<lambda>_. andThen (hal_write_chunk D s (of_nat (length stream)) chunk al) (\<lambda>al'.
            andThen (hal_check D d) (\<lambda>_. hal_body D H d per_op s n (remaining - length chunk) (verifier_update H chunk h) al'))))"
      using False by (subst hal_body.simps) (simp only: off rem if_False)
    show ?thesis unfolding eq
    proof (rule holds_andThen, rule holds_quiet [OF quiet_chunk boot])
      fix chunk w1 assume read: "hal_read_chunk D d per_op (min remaining CHUNK_LEN) w = (Inr chunk, w1)" and "same w w1"
      then show "holds b (if chunk = [] then fail (DownloadError (DownloadFailed 0))
          else andThen (hal_check D d) (\<lambda>_. andThen (hal_write_chunk D s (of_nat (length stream)) chunk al) (\<lambda>al'.
            andThen (hal_check D d) (\<lambda>_. hal_body D H d per_op s n (remaining - length chunk) (verifier_update H chunk h) al'))))
          (\<lambda>(h', al') w'. \<exists>image. length image = n \<and> written b s n image al' w' \<and> hashed H h' image) w1"
        using cont hal_chunk_length [OF read] by simp
    qed
  qed
qed

lemma prepare_holds:
  assumes "boot w = b" and "n \<le> max_bytes" and "max_bytes + unat (hd_sector_size D) \<le> 2 ^ 32"
    and "aligner_new (hd_write_size D) = Some al"
  shows "holds b (hal_prepare D (min (round_up (of_nat n) (hd_sector_size D)) (of_nat max_bytes))) (\<lambda>s. written b s n [] al) w"
proof -
  have sector: "0 < unat (hd_sector_size D)" using sector_positive by (simp add: word_less_nat_alt)
  then have un: "unat (of_nat n :: u32) = n" "unat (of_nat max_bytes :: u32) = max_bytes"
    using assms(2,3) by (auto intro!: unat_of_nat_less)
  let ?span = "min (round_up (of_nat n) (hd_sector_size D)) (of_nat max_bytes :: u32)"
  have "n \<le> unat (round_up (of_nat n) (hd_sector_size D))"
    using round_up_unat [OF sector_positive, of "of_nat n"] assms(2,3) by (simp add: un)
  then have span: "n \<le> unat ?span" using assms(2) by (auto simp: min_def un)
  have inv: "aligner_inv (hd_write_size D) al [] []"
    using assms(4) by (auto simp: aligner_new_def aligner_inv_def MAX_WRITE_SIZE_def split: if_splits)
  have erased: "holds b (or_else FlashWriteFailed (hd_nor_erase D 0 ?span)) (\<lambda>_. written b Nor n [] al) w1" if "boot w1 = b" for w1
  proof (rule holds_or_else)
    show "boot (snd (hd_nor_erase D 0 ?span w1)) = b" using erase_boot that by simp
    fix x w2 assume "hd_nor_erase D 0 ?span w1 = (Inr x, w2)"
    with erase_boot [of 0 ?span w1] erase_sets [of 0 ?span w1] that span inv show "written b Nor n [] al w2"
      by (auto simp: written_def blank_after_def)
  qed
  have probe: "quiet (or_else FlashWriteFailed (hd_as_nor_flash D))" using nor_flash_same by (intro quiet_or_else quietI)
  obtain r w1 where r: "hd_as_nor_flash D w = (r, w1)" by fastforce
  then have w1: "boot w1 = b" using nor_flash_same [of w] assms(1) by simp
  have "holds b (andThen (or_else FlashWriteFailed (hd_as_nor_flash D))
      (\<lambda>_. andThen (or_else FlashWriteFailed (hd_nor_erase D 0 ?span)) (\<lambda>_. ok Nor))) (\<lambda>s. written b s n [] al) w1"
    using w1 by (intro holds_andThen holds_quiet [OF probe w1] holds_seq [OF erased] holds_ok) simp
  moreover have "holds b (ok ReadModifyWrite) (\<lambda>s. written b s n [] al) w1"
    using w1 by (intro holds_ok) (simp add: written_def)
  ultimately show ?thesis by (cases r) (simp_all add: hal_prepare_def onResult_def holds_def r)
qed

lemma finish_holds:
  assumes W: "written b s n fw al w" and n: "length fw = n"
  shows "holds b (hal_finish D d s n al) (\<lambda>_ w'. boot w' = b \<and> (\<forall>i < n. part w' i = fw ! i)) w"
proof (cases s)
  case ReadModifyWrite
  with assms show ?thesis by (auto simp: hal_finish_def written_def intro!: holds_ok)
next
  case Nor
  with W obtain img where img: "aligner_inv (hd_write_size D) al img fw" "blank_after b n img w" by (auto simp: written_def)
  obtain al' img' where p: "finish (nor_write (hd_write_size D)) (of_nat n) (al, img) = (Inr (), (al', img'))"
    and img': "img' = fw @ replicate (pad_len (hd_write_size D) n) 255"
    using finish_inv [OF img(1)] n by auto
  obtain r a w' where q: "finish (hd_nor_write D) (of_nat n) (al, w) = (r, (a, w'))" by (metis surj_pair)
  have "holds b (aligner_call (finish (hd_nor_write D) (of_nat n)) al) (\<lambda>_ w'. boot w' = b \<and> (\<forall>i < n. part w' i = fw ! i)) w"
    using aligned_device.tracks_finish [OF device_aligned img(2), of "of_nat n" al] p q img' n
    by (cases r) (auto simp: tracks_def holds_def aligner_call_def blank_after_def nth_append)
  moreover have "holds b (hal_check D d) (\<lambda>_ w'. boot w' = b \<and> (\<forall>i < n. part w' i = fw ! i)) v"
    if "boot v = b \<and> (\<forall>i < n. part v i = fw ! i)" for v
    using that by (intro holds_quiet quiet_check) auto
  ultimately show ?thesis unfolding Nor hal_finish_def sink.case by (rule holds_seq)
qed

text \<open>
  What an update that moved the boot slot, or says so, has done: \<open>fw\<close> is in the partition, its digest is
  the expected one, and the clock was read below the deadline right before the activation.
\<close>

definition verified_update :: "(bytes \<Rightarrow> bytes) \<Rightarrow> deadline \<Rightarrow> bytes \<Rightarrow> bytes \<Rightarrow> 'w \<Rightarrow> bool" where
  "verified_update sha256 d expected fw w' \<longleftrightarrow>
     fw \<noteq> [] \<and> (\<forall>i < length fw. part w' i = fw ! i) \<and> sha256 fw = expected \<and>
     (\<exists>v t v'. hd_elapsed D v = (t, v') \<and> (case dl_total d of Some limit \<Rightarrow> to_core t < limit | None \<Rightarrow> True) \<and>
        snd (hd_activate D v') = w')"

definition updated :: "(bytes \<Rightarrow> bytes) \<Rightarrow> deadline \<Rightarrow> bytes \<Rightarrow> 'w \<Rightarrow> bool" where
  "updated sha256 d expected w' \<longleftrightarrow> (\<exists>fw. verified_update sha256 d expected fw w')"

lemma activation_sound:
  assumes "boot w = b" and fw: "fw \<noteq> []" "\<forall>i < length fw. part w i = fw ! i" "sha256 fw = expected"
  shows "sound (updated sha256 d expected) b (andThen (hal_permit D d) (\<lambda>permit. hal_activate D permit) w)"
proof -
  obtain t v where t: "hd_elapsed D w = (t, v)" by fastforce
  with elapsed_same [of w] have v: "boot v = b" "part v = part w" using assms(1) by simp_all
  show ?thesis
  proof (cases "permit_activation d (to_core t)")
    case (Inl e)
    then show ?thesis using v
      by (simp add: hal_permit_def hal_elapsed_def andThen_def t lift_result_def fail_def sound_def)
  next
    case (Inr p)
    then have within: "case dl_total d of Some limit \<Rightarrow> to_core t < limit | None \<Rightarrow> True" by (simp add: permit_iff)
    have "snd (andThen (hal_permit D d) (\<lambda>permit. hal_activate D permit) w) = snd (hd_activate D v)"
      using Inr by (simp add: hal_permit_def hal_elapsed_def andThen_def t lift_result_def ok_def hal_activate_def or_else_def
        onResult_def fail_def split: prod.splits sum.splits)
    moreover have "verified_update sha256 d expected fw (snd (hd_activate D v))"
      unfolding verified_update_def using fw v activate_part [of v] t within by (auto intro!: exI)
    ultimately show ?thesis unfolding sound_def updated_def by auto
  qed
qed

lemma verify_sound:
  assumes "digest_contract H sha256" and "0 < n" and W: "written b s n fw al w" and fw: "length fw = n" "hashed H h fw"
  shows "sound (updated sha256 d expected) b (andThen (hal_finish D d s n al) (\<lambda>_.
    if verifier_finalize H h \<noteq> expected then fail (DownloadError ChecksumMismatch)
    else andThen (hal_check D d) (\<lambda>_. andThen (hal_permit D d) (\<lambda>permit. hal_activate D permit))) w)"
proof (rule sound_seq [OF finish_holds [OF W fw(1)]], goal_cases)
  case (1 x w4)
  show ?case
  proof (cases "verifier_finalize H h = expected")
    case False
    then show ?thesis using 1 by (simp add: fail_def sound_def)
  next
    case True
    then have sha: "sha256 fw = expected" using fw(2) digest_contract.streaming [OF assms(1)] by (auto simp: hashed_def)
    have ne: "fw \<noteq> []" using fw(1) assms(2) by auto
    have "holds b (hal_check D d) (\<lambda>_ v. boot v = b \<and> (\<forall>i < length fw. part v i = fw ! i)) w4"
      using 1 fw(1) by (intro holds_quiet quiet_check) simp_all
    then have "sound (updated sha256 d expected) b (andThen (hal_check D d) (\<lambda>_. andThen (hal_permit D d) (\<lambda>permit. hal_activate D permit)) w4)"
      by (rule sound_seq) (use ne sha True in \<open>simp add: activation_sound\<close>)
    then show ?thesis using True by simp
  qed
qed

lemma apply_sound:
  assumes "digest_contract H sha256" and "boot w = b" and "0 < n" and "n \<le> max_bytes" and "max_bytes + unat (hd_sector_size D) \<le> 2 ^ 32"
  shows "sound (updated sha256 d expected) b (hal_apply D H d per_op expected max_bytes n w)"
proof (cases "aligner_new (hd_write_size D)")
  case None
  then show ?thesis using assms(2) by (simp add: hal_apply_def fail_def sound_def Let_def)
next
  case (Some al)
  have n: "n < 2 ^ 32" using assms(4,5) sector_positive by (simp add: word_less_nat_alt)
  have start: "length [] + n = n" "hashed H (verifier_new H) []" unfolding hashed_def by (simp, rule exI [of _ "[]"]) simp
  show ?thesis unfolding hal_apply_def Let_def Some option.case
  proof (rule sound_seq [OF prepare_holds [OF assms(2,4,5) Some]], goal_cases)
    case (1 s w1)
    show ?case
    proof (rule sound_seq [OF check_written [OF 1]], goal_cases)
      case (1 x w2)
      show ?case
      proof (rule sound_seq [OF body_holds [OF start(1) n 1 start(2)]], goal_cases)
        case (1 hal w3)
        then obtain h al' fw where "hal = (h, al')" "length fw = n" "written b s n fw al' w3" "hashed H h fw" by (cases hal) auto
        with verify_sound [OF assms(1,3)] show ?case by (simp only: prod.case)
      qed
    qed
  qed
qed

lemma fetch_bounds:
  assumes "hal_fetch D d per_op parsed max_bytes w = (Inr n, w')"
  shows "0 < n" and "n \<le> max_bytes"
proof -
  obtain b w1 where b: "hal_budget D d per_op w = (Inr b, w1)"
    using assms by (cases "hal_budget D d per_op w"; cases "fst (hal_budget D d per_op w)") (auto simp: hal_fetch_def andThen_def)
  obtain r w2 where r: "hd_fetch_timeout D b (fetch_get (hd_socket D) parsed max_bytes) w1 = (r, w2)" by fastforce
  with assms b have "r = Inr (Inr n)"
    by (auto simp: hal_fetch_def andThen_def or_else_def onResult_def fail_def ok_def lift_result_def split: sum.splits)
  with r fetch_result have get: "fetch_get (hd_socket D) parsed max_bytes w1 = (Inr n, w2)" by blast
  have "\<exists>h. header_state_finish h max_bytes = Inr n"
    using get by (auto simp: fetch_get_def read_response_def andThen_def onResult_def fail_def ok_def
      split: option.splits prod.splits sum.splits if_splits)
  then show "0 < n" "n \<le> max_bytes" by (auto simp: header_state_finish_def split: if_splits option.splits)
qed

lemma fetch_and_apply_sound:
  assumes "digest_contract H sha256"
  shows "sound (updated sha256 d expected) (boot w) (hal_fetch_and_apply D H d timeout_secs url expected w)"
  unfolding hal_fetch_and_apply_def Let_def
proof (rule sound_quiet [OF quiet_check(1) refl], rule sound_quiet [OF quiet_lift], assumption,
    rule sound_quiet [OF quiet_or_else], rule quietI, rule updater_same, assumption)
  fix parsed w1 and u :: unit and w2 assume w2: "boot w2 = boot w"
  have q: "quiet (or_else PartitionNotFound (hd_next_partition D))" by (intro quiet_or_else quietI partition_same)
  show "sound (updated sha256 d expected) (boot w) (andThen (or_else PartitionNotFound (hd_next_partition D)) (\<lambda>max_bytes.
      andThen (hal_check D d) (\<lambda>_. andThen (hal_fetch D d (timeout_secs * 10 ^ 9) parsed max_bytes) (\<lambda>content_length.
      andThen (hal_check D d) (\<lambda>_. hal_apply D H d (timeout_secs * 10 ^ 9) expected max_bytes content_length)))) w2)"
  proof (rule sound_quiet [OF q w2])
    fix max_bytes w3 assume cap: "or_else PartitionNotFound (hd_next_partition D) w2 = (Inr max_bytes, w3)" and w3: "boot w3 = boot w"
    have "fst (hd_next_partition D w2) = Inr max_bytes"
      using cap by (auto simp: or_else_def onResult_def fail_def ok_def split: prod.splits sum.splits)
    note small = capacity_small [OF this]
    show "sound (updated sha256 d expected) (boot w) (andThen (hal_check D d) (\<lambda>_. andThen (hal_fetch D d (timeout_secs * 10 ^ 9) parsed max_bytes)
        (\<lambda>content_length. andThen (hal_check D d) (\<lambda>_.
          hal_apply D H d (timeout_secs * 10 ^ 9) expected max_bytes content_length))) w3)"
      by (rule sound_quiet [OF quiet_check(1) w3], rule sound_quiet [OF quiet_fetch], assumption, rule sound_quiet [OF quiet_check(1)], assumption)
        (auto intro: apply_sound [OF assms _ _ _ small] dest: fetch_bounds)
  qed
qed

end

interpretation ideal: aligned_device ws "nor_write ws" "(=)" "\<lambda>_. False"
  by unfold_locales simp

section \<open>A simulated chip\<close>

text \<open>
  A chip in memory: a clock that ticks at every reading, a peer that has sent its bytes, a partition of bytes
  and a counter as the boot slot.  An erase or write beyond the partition fails.
\<close>

record sim_chip =
  sm_now :: nat
  sm_in :: bytes
  sm_boot :: nat
  sm_part :: bytes

definition sim_part :: "sim_chip \<Rightarrow> nat \<Rightarrow> u8" where
  "sim_part w i = (if i < length (sm_part w) then sm_part w ! i else 0)"

definition sim_update :: "(u8 \<Rightarrow> u8 \<Rightarrow> u8) \<Rightarrow> nat \<Rightarrow> bytes \<Rightarrow> (sim_chip, unit, unit) prog" where
  "sim_update f off bs w =
     (if length (sm_part w) < off + length bs then (Inl (), w)
      else (Inr (), w\<lparr>sm_part := map (\<lambda>i. if off \<le> i \<and> i < off + length bs then f (sm_part w ! i) (bs ! (i - off)) else sm_part w ! i)
        [0 ..< length (sm_part w)]\<rparr>))"

definition sim_device :: "sim_chip hal_device" where
  "sim_device = \<lparr>hd_elapsed = (\<lambda>w. (sm_now w, w\<lparr>sm_now := sm_now w + 1\<rparr>)),
     hd_socket = \<lparr>sk_read = (\<lambda>n w. (Inr (take n (sm_in w)), w\<lparr>sm_in := drop n (sm_in w)\<rparr>)), sk_write = (\<lambda>bs w. (Inr (length bs), w))\<rparr>,
     hd_fetch_timeout = (\<lambda>b p w. case p w of (r, w') \<Rightarrow> (Inr r, w')),
     hd_read_timeout = (\<lambda>b p w. case p w of (r, w') \<Rightarrow> (Inr r, w')),
     hd_updater_new = (\<lambda>w. (Inr (), w)),
     hd_next_partition = (\<lambda>w. (if length (sm_part w) \<le> 2 ^ 31 then Inr (length (sm_part w)) else Inl (), w)),
     hd_as_nor_flash = (\<lambda>w. (Inr (), w)),
     hd_nor_erase = (\<lambda>a b. sim_update (\<lambda>_ y. y) (unat a) (replicate (unat b - unat a) 0xFF)),
     hd_nor_write = (\<lambda>off bs. sim_update and (unat off) bs),
     hd_region_write = (\<lambda>off bs. sim_update (\<lambda>_ y. y) (unat off) bs),
     hd_activate = (\<lambda>w. (Inr (), w\<lparr>sm_boot := sm_boot w + 1\<rparr>)),
     hd_set_state = (\<lambda>v w. (Inr (), w)),
     hd_sector_size = 4096, hd_write_size = 4\<rparr>"

lemma sim_update_part:
  "sm_boot (snd (sim_update f off bs w)) = sm_boot w"
  "fst (sim_update f off bs w) = Inr () \<Longrightarrow> sim_part (snd (sim_update f off bs w)) i =
     (if off \<le> i \<and> i < off + length bs then f (sim_part w i) (bs ! (i - off)) else sim_part w i)"
  by (auto simp: sim_update_def sim_part_def split: if_splits)

lemma sim_part_same [simp]:
  "sim_part (w\<lparr>sm_now := n\<rparr>) = sim_part w" "sim_part (w\<lparr>sm_in := bs\<rparr>) = sim_part w" "sim_part (w\<lparr>sm_boot := k\<rparr>) = sim_part w"
  by (simp_all add: fun_eq_iff sim_part_def)

interpretation sim: hal_contract sm_boot sim_part sim_device
proof
  fix a b' :: u32 and w i
  assume "fst (hd_nor_erase sim_device a b' w) = Inr ()" and "unat a \<le> i" and "i < unat b'"
  then show "sim_part (snd (hd_nor_erase sim_device a b' w)) i = 0xFF"
    using sim_update_part(2) [of "\<lambda>_ y. y" "unat a" "replicate (unat b' - unat a) 0xFF" w i] by (simp add: sim_device_def)
qed (simp_all add: sim_device_def sim_update_part split_beta split: if_splits)

section \<open>Properties\<close>

text \<open>
  C13: an update never boots what was not verified.  Whatever the server sends, however it is chunked, and
  whichever operation fails or times out, when the bare-metal tier reports success or the boot slot has
  moved, the partition holds an image whose digest is the expected one, and the clock was read below the
  deadline right before the slot was activated.  This holds for the erased and for the read-modify-write
  path, over every clock, socket and flash that keep the contract.
\<close>

theorem hal_boots_verified_only:
  assumes "hal_contract boot part D" and "digest_contract H sha256"
    and "hal_fetch_and_apply D H d timeout_secs url expected w = (r, w')" and "r = Inr () \<or> boot w' \<noteq> boot w"
  shows "\<exists>fw. fw \<noteq> [] \<and> (\<forall>i < length fw. part w' i = fw ! i) \<and> sha256 fw = expected \<and>
    (\<exists>v t v'. hd_elapsed D v = (t, v') \<and> (case dl_total d of Some limit \<Rightarrow> to_core t < limit | None \<Rightarrow> True) \<and>
      snd (hd_activate D v') = w')"
proof -
  have "update_world.sound boot (hal_contract.updated part D sha256 d expected) (boot w) (r, w')"
    using hal_contract.fetch_and_apply_sound [OF assms(1,2), of d expected w timeout_secs url] assms(3) by simp
  with assms(1,4) show ?thesis
    by (auto simp: update_world.sound_def hal_contract.updated_def hal_contract.verified_update_def)
qed

definition example_download :: sim_chip where
  "example_download = \<lparr>sm_now = 0, sm_in = response_head (ascii ''HTTP/1.1 200 OK'') [ascii ''Content-Length: 6''] @ [1, 2, 3, 4, 5, 6],
     sm_boot = 0, sm_part = replicate 8 7\<rparr>"

abbreviation example_chip :: "nat \<Rightarrow> bytes \<Rightarrow> bytes \<Rightarrow> sim_chip" where
  "example_chip now input flash \<equiv> \<lparr>sm_now = now, sm_in = input, sm_boot = 0, sm_part = flash\<rparr>"

lemma example_fetch: "fetch_get (hd_socket sim_device) \<lparr>pu_host = ascii ''h'', pu_port = 80, pu_path = ascii ''/fw.bin'', pu_query = []\<rparr> 8
    (example_chip 3 (sm_in example_download) (replicate 8 7)) = (Inr 6, example_chip 3 [1, 2, 3, 4, 5, 6] (replicate 8 7))"
  by code_simp

lemma example_url: "parse_url (ascii ''http://h/fw.bin'') = Inr \<lparr>pu_host = ascii ''h'', pu_port = 80, pu_path = ascii ''/fw.bin'', pu_query = []\<rparr>"
  by code_simp

lemma example_check: "t * 1000 < 10 ^ 9 \<Longrightarrow>
    hal_check sim_device (deadline_after (10 ^ 9)) (example_chip t i m) = (Inr (), example_chip (Suc t) i m)"
  by (simp add: hal_check_def hal_elapsed_def andThen_def sim_device_def to_core_def deadline_check_def deadline_after_def
    lift_result_def ok_def)

lemma example_erase: "hal_prepare sim_device 8 (example_chip t i (replicate 8 7)) = (Inr Nor, example_chip t i (replicate 8 0xFF))"
  by code_simp

abbreviation example_aligner :: "bytes \<Rightarrow> nat \<Rightarrow> u32 \<Rightarrow> chunk_aligner" where
  "example_aligner bs n off \<equiv> \<lparr>write_size = 4, carry = bs @ [0, 0, 0, 0], carry_len = n, carry_offset = off\<rparr>"

lemma example_write:
  "aligner_new 4 = Some (example_aligner [0, 0, 0, 0] 0 0)"
  "hal_write_chunk sim_device Nor 0 [1, 2, 3, 4, 5, 6] (example_aligner [0, 0, 0, 0] 0 0) (example_chip t i (replicate 8 0xFF)) =
     (Inr (example_aligner [5, 6, 0, 0] 2 4), example_chip t i [1, 2, 3, 4, 0xFF, 0xFF, 0xFF, 0xFF])"
  "aligner_call (finish (hd_nor_write sim_device) 6) (example_aligner [5, 6, 0, 0] 2 4) (example_chip t i [1, 2, 3, 4, 0xFF, 0xFF, 0xFF, 0xFF]) =
     (Inr (example_aligner [5, 6, 0xFF, 0xFF] 0 8), example_chip t i [1, 2, 3, 4, 5, 6, 0xFF, 0xFF])"
  by code_simp+

lemma example_read:
  "t * 1000 < 10 ^ 9 \<Longrightarrow> hal_read_chunk sim_device (deadline_after (10 ^ 9)) per_op 6 (example_chip t [1, 2, 3, 4, 5, 6] m) =
     (Inr [1, 2, 3, 4, 5, 6], example_chip (Suc t) [] m)"
  by (simp add: hal_read_chunk_def hal_budget_def hal_elapsed_def andThen_def or_else_def onResult_def sim_device_def ok_def)

lemma example_body:
  "hal_body sim_device H (deadline_after (10 ^ 9)) per_op Nor 6 6 h (example_aligner [0, 0, 0, 0] 0 0)
      (example_chip 5 [1, 2, 3, 4, 5, 6] (replicate 8 0xFF)) =
    (Inr (verifier_update H [1, 2, 3, 4, 5, 6] h, example_aligner [5, 6, 0, 0] 2 4),
      example_chip 8 [] [1, 2, 3, 4, 0xFF, 0xFF, 0xFF, 0xFF])"
proof -
  note step = example_read [of 5 per_op] example_check [of 6] example_check [of 7] example_write(2)
  show ?thesis
    unfolding hal_body.simps [of _ _ _ _ _ 6 6] andThen_def
    using step by (simp add: CHUNK_LEN_def hal_body.simps [of _ _ _ _ _ _ 0] ok_def)
qed

lemma andThen_step: "p w = (Inr x, w') \<Longrightarrow> f x w' = res \<Longrightarrow> andThen p f w = res"
  by (simp add: andThen_def)

lemma example_activate:
  "andThen (hal_permit sim_device (deadline_after (10 ^ 9))) (\<lambda>permit. hal_activate sim_device permit) (example_chip 10 i m) =
    (Inr (), \<lparr>sm_now = 11, sm_in = i, sm_boot = 1, sm_part = m\<rparr>)"
  by (simp add: hal_permit_def hal_elapsed_def hal_activate_def andThen_def sim_device_def permit_activation_def deadline_check_def
    deadline_after_def to_core_def lift_result_def or_else_def onResult_def ok_def)

lemma example_finish:
  "hal_finish sim_device (deadline_after (10 ^ 9)) Nor 6 (example_aligner [5, 6, 0, 0] 2 4) (example_chip 8 i [1, 2, 3, 4, 0xFF, 0xFF, 0xFF, 0xFF]) =
    (Inr (), example_chip 9 i [1, 2, 3, 4, 5, 6, 0xFF, 0xFF])"
  using example_write(3) [of 8 i] example_check [of 8 i] unfolding hal_finish_def andThen_def by simp

lemma example_apply:
  "hal_apply sim_device (keeping_hasher (\<lambda>bs. bs)) (deadline_after (10 ^ 9)) per_op [1, 2, 3, 4, 5, 6] 8 6
      (example_chip 4 [1, 2, 3, 4, 5, 6] (replicate 8 7)) =
    (Inr (), \<lparr>sm_now = 11, sm_in = [], sm_boot = 1, sm_part = [1, 2, 3, 4, 5, 6, 0xFF, 0xFF]\<rparr>)"
proof -
  have span: "min (round_up (of_nat 6) (hd_sector_size sim_device)) (of_nat 8) = 8"
    and ws: "aligner_new (hd_write_size sim_device) = Some (example_aligner [0, 0, 0, 0] 0 0)"
    using example_write(1) by (simp_all add: sim_device_def round_up_def)
  have check: "hal_check sim_device (deadline_after (10 ^ 9)) (example_chip 4 i m) = (Inr (), example_chip 5 i m)"
    "hal_check sim_device (deadline_after (10 ^ 9)) (example_chip 9 i m) = (Inr (), example_chip 10 i m)" for i m
    using example_check [of 4] example_check [of 9] by simp_all
  have digest: "verifier_finalize (keeping_hasher (\<lambda>bs. bs)) (verifier_update (keeping_hasher (\<lambda>bs. bs)) bs
      (verifier_new (keeping_hasher (\<lambda>bs. bs)))) = bs" for bs
    using keeping.streaming [of "\<lambda>bs. bs" "[bs]"] by simp
  show ?thesis
    unfolding hal_apply_def Let_def span ws option.case
    by (rule andThen_step, rule example_erase check(1) example_body)+
      (simp only: prod.case digest, rule andThen_step, rule example_finish, simp only: refl not_True_eq_False if_False,
        rule andThen_step, rule check(2), rule example_activate)
qed

lemma example_run:
  "hal_fetch_and_apply sim_device (keeping_hasher (\<lambda>bs. bs)) (deadline_after (10 ^ 9)) 30 (ascii ''http://h/fw.bin'') [1, 2, 3, 4, 5, 6] example_download =
    (Inr (), \<lparr>sm_now = 11, sm_in = [], sm_boot = 1, sm_part = [1, 2, 3, 4, 5, 6, 0xFF, 0xFF]\<rparr>)"
proof -
  have start: "example_download = example_chip 0 (sm_in example_download) (replicate 8 7)" by (simp add: example_download_def)
  have check: "hal_check sim_device (deadline_after (10 ^ 9)) (example_chip 0 i m) = (Inr (), example_chip 1 i m)"
    "hal_check sim_device (deadline_after (10 ^ 9)) (example_chip 1 i m) = (Inr (), example_chip 2 i m)"
    "hal_check sim_device (deadline_after (10 ^ 9)) (example_chip 3 i m) = (Inr (), example_chip 4 i m)" for i m
    using example_check [of 0] example_check [of 1] example_check [of 3] by (simp_all add: numeral_2_eq_2)
  have parse: "lift_result (map_sum ota_error_of_http (\<lambda>u. u) (parse_url (ascii ''http://h/fw.bin''))) w =
      (Inr \<lparr>pu_host = ascii ''h'', pu_port = 80, pu_path = ascii ''/fw.bin'', pu_query = []\<rparr>, w)" for w
    by (simp add: example_url lift_result_def ok_def)
  have partition: "or_else PartitionNotFound (hd_updater_new sim_device) w = (Inr (), w)"
    "or_else PartitionNotFound (hd_next_partition sim_device) (example_chip t i (replicate 8 7)) = (Inr 8, example_chip t i (replicate 8 7))" for w t i
    by (simp_all add: or_else_def onResult_def sim_device_def ok_def)
  have fetch: "hal_fetch sim_device (deadline_after (10 ^ 9)) per_op \<lparr>pu_host = ascii ''h'', pu_port = 80, pu_path = ascii ''/fw.bin'', pu_query = []\<rparr> 8
      (example_chip 2 (sm_in example_download) (replicate 8 7)) = (Inr 6, example_chip 3 [1, 2, 3, 4, 5, 6] (replicate 8 7))" for per_op
  proof -
    have "hal_budget sim_device d per_op (example_chip 2 i m) = (Inr (to_embassy (deadline_clip d per_op (to_core 2))), example_chip 3 i m)" for d i m
      by (simp add: hal_budget_def hal_elapsed_def andThen_def sim_device_def ok_def)
    moreover have "hd_fetch_timeout sim_device b p w = (Inr (fst (p w)), snd (p w))" for b p w
      by (simp add: sim_device_def split: prod.split)
    ultimately show ?thesis using example_fetch
      by (simp add: hal_fetch_def andThen_def or_else_def onResult_def ok_def lift_result_def)
  qed
  show ?thesis
    unfolding hal_fetch_and_apply_def Let_def
    by (subst start, (rule andThen_step, rule check parse partition fetch)+, rule example_apply)
qed

theorem hal_boots_verified_only_witness:
  "\<exists>fw. fw \<noteq> [] \<and> (\<forall>i < length fw. sim_part \<lparr>sm_now = 11, sm_in = [], sm_boot = 1, sm_part = [1, 2, 3, 4, 5, 6, 0xFF, 0xFF]\<rparr> i = fw ! i) \<and>
    fw = [1, 2, 3, 4, 5, 6] \<and>
    (\<exists>v t v'. hd_elapsed sim_device v = (t, v') \<and> (case dl_total (deadline_after (10 ^ 9)) of Some limit \<Rightarrow> to_core t < limit | None \<Rightarrow> True) \<and>
      snd (hd_activate sim_device v') = \<lparr>sm_now = 11, sm_in = [], sm_boot = 1, sm_part = [1, 2, 3, 4, 5, 6, 0xFF, 0xFF]\<rparr>)"
  by (rule hal_boots_verified_only [OF sim.hal_contract_axioms keeping.digest_contract_axioms example_run]) simp

end
