(* ===== verification/Ota_Session.thy ===== *)
theory Ota_Session
  imports Ota_Download
begin

text \<open>
  The ESP-IDF tier's download: \<^verbatim>\<open>OtaSession\<close> with its downloader and flasher
  (\<^verbatim>\<open>rustyfarian-esp-idf-network/src/ota/mod.rs\<close>, \<^verbatim>\<open>downloader.rs\<close>, \<^verbatim>\<open>flasher.rs\<close>).  The HTTP client and the
  flash session are ESP-IDF's, an operation on the world each, in the record \<open>idf_device\<close>; what the code relies on is
  the locale \<open>idf_contract\<close>.  As on the bare-metal tier, the boot slot moves only after exactly the announced
  image, with the expected digest, is staged, and only before the deadline.
\<close>

section \<open>Model\<close>

text \<open>
  The elapsed time is a \<^verbatim>\<open>Duration\<close>, in nanoseconds.  \<open>id_read n\<close> reads into a buffer of \<open>n\<close> bytes and returns
  what it read; its error is the negated ESP-IDF error code.  \<open>id_partition_size\<close> is \<open>None\<close> when there is no
  update partition.  \<open>id_eagain\<close> is \<^verbatim>\<open>ESP_ERR_HTTP_EAGAIN\<close>.
\<close>

record 'w idf_device =
  id_elapsed :: "'w \<Rightarrow> duration \<times> 'w"
  id_http_new :: "duration \<Rightarrow> ('w, unit, unit) prog"
  id_initiate_request :: "bytes \<Rightarrow> bytes \<Rightarrow> ('w, unit, unit) prog"
  id_initiate_response :: "('w, unit, unit) prog"
  id_status :: "'w \<Rightarrow> u16"
  id_content_len :: "'w \<Rightarrow> nat option"
  id_read :: "nat \<Rightarrow> ('w, int, bytes) prog"
  id_ota_new :: "('w, unit, unit) prog"
  id_partition_size :: "'w \<Rightarrow> nat option"
  id_initiate_update :: "nat \<Rightarrow> ('w, unit, unit) prog"
  id_write :: "bytes \<Rightarrow> ('w, unit, unit) prog"
  id_complete :: "('w, unit, unit) prog"
  id_abort :: "('w, unit, unit) prog"
  id_mark_valid :: "('w, unit, unit) prog"
  id_mark_invalid :: "'w \<Rightarrow> 'w"
  id_eagain :: int

definition DOWNLOAD_BUFFER_SIZE :: nat where "DOWNLOAD_BUFFER_SIZE = 4096"

definition is_read_timeout :: "'w idf_device \<Rightarrow> int \<Rightarrow> bool" where
  "is_read_timeout D code \<longleftrightarrow> code = - id_eagain D \<or> code = id_eagain D"

text \<open>\<^verbatim>\<open>len as usize\<close> cannot truncate: it is at most the capacity, a \<^verbatim>\<open>usize\<close>.\<close>

definition check_content_length :: "nat option \<Rightarrow> nat \<Rightarrow> ota_error + nat" where
  "check_content_length content_length capacity =
     (case content_length of
        None \<Rightarrow> Inl (DownloadFailed 0)
      | Some len \<Rightarrow>
          if len = 0 then Inl (DownloadFailed 0)
          else if capacity < len then Inl InsufficientSpace
          else Inr len)"

definition check_body_complete :: "nat \<Rightarrow> nat \<Rightarrow> ota_error + unit" where
  "check_body_complete received expected = (if received = expected then Inr () else Inl (DownloadFailed 0))"

definition create_http_connection :: "'w idf_device \<Rightarrow> bytes \<Rightarrow> duration \<Rightarrow> bytes \<Rightarrow> ('w, unit) download" where
  "create_http_connection D url timeout accept =
     (if strip_prefix (ascii ''https://'') url \<noteq> None then fail (DownloadError ServerUnreachable)
      else
        andThen (or_else ServerUnreachable (id_http_new D timeout)) (\<lambda>_.
        andThen (or_else ServerUnreachable (id_initiate_request D url accept)) (\<lambda>_.
        andThen (or_else ServerUnreachable (id_initiate_response D)) (\<lambda>_ w.
        if id_status D w \<noteq> 200 then fail (DownloadError (DownloadFailed (id_status D w))) w else ok () w))))"

text \<open>\<^verbatim>\<open>FirmwareDownloader::connect\<close>: the declared length is read once the headers are in.\<close>

definition idf_connect :: "'w idf_device \<Rightarrow> bytes \<Rightarrow> duration \<Rightarrow> ('w, nat option) download" where
  "idf_connect D url timeout =
     andThen (create_http_connection D url timeout (ascii ''application/octet-stream'')) (\<lambda>_ w. ok (id_content_len D w) w)"

definition idf_elapsed :: "'w idf_device \<Rightarrow> ('w, duration) download" where
  "idf_elapsed D = (\<lambda>w. case id_elapsed D w of (t, w') \<Rightarrow> (Inr t, w'))"

definition idf_check :: "'w idf_device \<Rightarrow> deadline \<Rightarrow> ('w, unit) download" where
  "idf_check D d = andThen (idf_elapsed D) (\<lambda>t. lift_result (deadline_check d t))"

definition idf_permit :: "'w idf_device \<Rightarrow> deadline \<Rightarrow> ('w, activation_permit) download" where
  "idf_permit D d = andThen (idf_elapsed D) (\<lambda>t. lift_result (permit_activation d t))"

definition idf_read :: "'w idf_device \<Rightarrow> nat \<Rightarrow> ('w, bytes) download" where
  "idf_read D want = onResult (id_read D want) (\<lambda>r. case r of
       Inl code \<Rightarrow> fail (DownloadError (classify_read_error (is_read_timeout D code)))
     | Inr chunk \<Rightarrow> ok chunk)"

text \<open>
  \<^verbatim>\<open>VerifyingWriter\<close> under \<^verbatim>\<open>write_all\<close>: the digest takes the bytes, then the flash; \<^verbatim>\<open>OtaWriter::write\<close> takes a whole
  buffer or fails, so one call writes it.
\<close>

definition verifying_write :: "'w idf_device \<Rightarrow> 'h sha_crate \<Rightarrow> bytes \<Rightarrow> 'h \<Rightarrow> ('w, 'h) download" where
  "verifying_write D H buf h =
     (let h' = verifier_update H buf h in andThen (or_else FlashWriteFailed (id_write D buf)) (\<lambda>_. ok h'))"

text \<open>The loop of \<^verbatim>\<open>FirmwareResponse::stream\<close>; \<open>idf_check\<close> is its checkpoint.\<close>

function idf_stream_loop :: "'w idf_device \<Rightarrow> 'h sha_crate \<Rightarrow> deadline \<Rightarrow> nat \<Rightarrow> nat \<Rightarrow> 'h \<Rightarrow> ('w, nat \<times> 'h) download" where
  "idf_stream_loop D H d expected_len downloaded h =
     (if downloaded < expected_len then
        andThen (idf_read D (min (expected_len - downloaded) DOWNLOAD_BUFFER_SIZE)) (\<lambda>chunk.
        if chunk = [] then ok (downloaded, h)
        else andThen (idf_check D d) (\<lambda>_.
          andThen (verifying_write D H chunk h) (\<lambda>h'.
          andThen (idf_check D d) (\<lambda>_.
          idf_stream_loop D H d expected_len (downloaded + length chunk) h'))))
      else ok (downloaded, h))"
  by pat_completeness auto
termination
  by (relation "measure (\<lambda>(D, H, d, expected_len, downloaded, h). expected_len - downloaded)") (auto intro: diff_less_mono2)

declare idf_stream_loop.simps [simp del]

definition idf_stream :: "'w idf_device \<Rightarrow> 'h sha_crate \<Rightarrow> deadline \<Rightarrow> nat \<Rightarrow> ('w, nat \<times> 'h) download" where
  "idf_stream D H d expected_len =
     andThen (idf_stream_loop D H d expected_len 0 (verifier_new H)) (\<lambda>(downloaded, h).
     andThen (lift_result (check_body_complete downloaded expected_len)) (\<lambda>_. ok (downloaded, h)))"

definition abort_with :: "'w idf_device \<Rightarrow> download_failure \<Rightarrow> ('w, 'a) download" where
  "abort_with D err = onResult (id_abort D) (\<lambda>_. fail err)"

text \<open>\<^verbatim>\<open>match p { Err(e) => return Err(abort_with(writer, e)), Ok(x) => .. }\<close>\<close>

definition or_abort :: "'w idf_device \<Rightarrow> ('w, 'a) download \<Rightarrow> ('a \<Rightarrow> ('w, 'b) download) \<Rightarrow> ('w, 'b) download" where
  "or_abort D p f = onResult p (\<lambda>r. case r of Inl e \<Rightarrow> abort_with D e | Inr x \<Rightarrow> f x)"

definition writer_complete :: "'w idf_device \<Rightarrow> activation_permit \<Rightarrow> ('w, unit) download" where
  "writer_complete D permit = or_else FlashWriteFailed (id_complete D)"

definition idf_fetch_and_apply :: "'w idf_device \<Rightarrow> 'h sha_crate \<Rightarrow> deadline \<Rightarrow> nat \<Rightarrow> bytes \<Rightarrow> bytes \<Rightarrow> ('w, unit) download" where
  "idf_fetch_and_apply D H d timeout_secs url expected_sha256 =
     andThen (idf_check D d) (\<lambda>_.
     andThen (idf_connect D url (timeout_secs * 10 ^ 9)) (\<lambda>content_length.
     andThen (idf_check D d) (\<lambda>_.
     andThen (or_else PartitionNotFound (id_ota_new D)) (\<lambda>_.
     andThen (\<lambda>w. case id_partition_size D w of
         Some bytes \<Rightarrow> ok bytes w | None \<Rightarrow> fail (DownloadError PartitionNotFound) w) (\<lambda>capacity.
     andThen (lift_result (check_content_length content_length capacity)) (\<lambda>image_len.
     andThen (or_else FlashWriteFailed (id_initiate_update D image_len)) (\<lambda>_.
     or_abort D (idf_check D d) (\<lambda>_.
     or_abort D (idf_stream D H d image_len) (\<lambda>(_, h).
     if verifier_finalize H h \<noteq> expected_sha256 then abort_with D (DownloadError ChecksumMismatch)
     else
       or_abort D (idf_check D d) (\<lambda>_.
       or_abort D (idf_permit D d) (\<lambda>permit.
       writer_complete D permit)))))))))))"

definition idf_mark_valid :: "'w idf_device \<Rightarrow> ('w, unit) download" where
  "idf_mark_valid D = andThen (or_else FlashWriteFailed (id_ota_new D)) (\<lambda>_. or_else FlashWriteFailed (id_mark_valid D))"

text \<open>A rollback that succeeds reboots and does not return; \<open>id_mark_invalid\<close> is the world when it did return.\<close>

definition idf_rollback :: "'w idf_device \<Rightarrow> ('w, unit) download" where
  "idf_rollback D = andThen (or_else FlashWriteFailed (id_ota_new D)) (\<lambda>_ w. fail (DownloadError FlashWriteFailed) (id_mark_invalid D w))"

section \<open>The contract\<close>

text \<open>
  \<open>staged\<close> is what the update session has written since it began.  Only \<open>id_complete\<close> may move the boot slot;
  nothing is assumed of what a failed operation leaves staged.
\<close>

locale idf_contract = update_world boot staged
  for boot :: "'w \<Rightarrow> 'b" and staged :: "'w \<Rightarrow> bytes" +
  fixes D :: "'w idf_device"
  assumes elapsed_same: "boot (snd (id_elapsed D w)) = boot w \<and> staged (snd (id_elapsed D w)) = staged w"
    and http_new_same: "boot (snd (id_http_new D t w)) = boot w \<and> staged (snd (id_http_new D t w)) = staged w"
    and request_same: "boot (snd (id_initiate_request D url accept w)) = boot w \<and> staged (snd (id_initiate_request D url accept w)) = staged w"
    and response_same: "boot (snd (id_initiate_response D w)) = boot w \<and> staged (snd (id_initiate_response D w)) = staged w"
    and read_same: "boot (snd (id_read D n w)) = boot w \<and> staged (snd (id_read D n w)) = staged w"
    and read_bound: "fst (id_read D n w) = Inr got \<Longrightarrow> length got \<le> n"
    and ota_new_same: "boot (snd (id_ota_new D w)) = boot w \<and> staged (snd (id_ota_new D w)) = staged w"
    and begin_boot: "boot (snd (id_initiate_update D n w)) = boot w"
    and begin_empty: "fst (id_initiate_update D n w) = Inr () \<Longrightarrow> staged (snd (id_initiate_update D n w)) = []"
    and write_boot: "boot (snd (id_write D bs w)) = boot w"
    and write_appends: "fst (id_write D bs w) = Inr () \<Longrightarrow> staged (snd (id_write D bs w)) = staged w @ bs"
    and abort_boot: "boot (snd (id_abort D w)) = boot w"
    and complete_staged: "staged (snd (id_complete D w)) = staged w"
begin

lemma quiet_elapsed: "quiet (idf_elapsed D)"
  using elapsed_same by (auto intro!: quietI simp: idf_elapsed_def split: prod.splits) (metis snd_conv)+

lemma quiet_check: "quiet (idf_check D d)" "quiet (idf_permit D d)"
  unfolding idf_check_def idf_permit_def by (intro quiet_andThen quiet_lift quiet_elapsed)+

lemma quiet_ops: "quiet (id_http_new D t)" "quiet (id_initiate_request D url accept)" "quiet (id_initiate_response D)"
  "quiet (id_read D n)" "quiet (id_ota_new D)"
  by (rule quietI; use http_new_same request_same response_same read_same ota_new_same in simp)+

lemma quiet_getter: "quiet (\<lambda>w. if P w then fail (e w) w else ok (v w) w)" "quiet (\<lambda>w. ok (v w) w)"
  by (rule quietI; simp add: fail_def ok_def)+

lemma quiet_connect: "quiet (idf_connect D url timeout)"
  unfolding idf_connect_def create_http_connection_def
  by (auto intro!: quiet_andThen quiet_or_else quiet_ops quiet_getter quiet_ok)

lemma quiet_read: "quiet (idf_read D n)"
  unfolding idf_read_def by (auto intro!: quiet_onResult quiet_ops quiet_ok split: sum.split)

lemma read_result: "idf_read D n w = (Inr chunk, w') \<Longrightarrow> length chunk \<le> n \<and> staged w' = staged w"
  using read_same [of n w] read_bound [of n w]
  by (auto simp: idf_read_def onResult_def fail_def ok_def split: prod.splits sum.splits)

lemma loop_holds:
  assumes "downloaded \<le> n" and "boot w = b" and "staged w = fw" and "length fw = downloaded" and "hashed H h fw"
  shows "holds b (idf_stream_loop D H d n downloaded h)
    (\<lambda>(got, h') w'. boot w' = b \<and> length (staged w') = got \<and> hashed H h' (staged w')) w"
  using assms
proof (induction "n - downloaded" arbitrary: downloaded h w fw rule: less_induct)
  case less
  note prems = less.prems
  show ?case
  proof (cases "downloaded < n")
    case False
    then show ?thesis using prems unfolding idf_stream_loop.simps [of _ _ _ n downloaded] by (auto intro!: holds_ok)
  next
    case True
    let ?want = "min (n - downloaded) DOWNLOAD_BUFFER_SIZE"
    have "holds b (idf_read D ?want) (\<lambda>chunk v. boot v = b \<and> staged v = fw \<and> length chunk \<le> ?want) w"
      by (rule holds_quiet [OF quiet_read prems(2)]) (use prems(2,3) read_result [of ?want w] in simp)
    then have "holds b (andThen (idf_read D ?want) (\<lambda>chunk.
        if chunk = [] then ok (downloaded, h)
        else andThen (idf_check D d) (\<lambda>_.
          andThen (verifying_write D H chunk h) (\<lambda>h'.
          andThen (idf_check D d) (\<lambda>_.
          idf_stream_loop D H d n (downloaded + length chunk) h')))))
      (\<lambda>(got, h') w'. boot w' = b \<and> length (staged w') = got \<and> hashed H h' (staged w')) w"
    proof (rule holds_seq, goal_cases)
      case (1 chunk v)
      show ?case
      proof (cases "chunk = []")
        case True
        then show ?thesis using 1 prems(4,5) by (auto intro: holds_ok)
      next
        case False
        have check: "holds b (idf_check D d) (\<lambda>_ v'. boot v' = b \<and> staged v' = bs) v" if "boot v = b \<and> staged v = bs" for v bs
          using that by (intro holds_quiet quiet_check) auto
        have wr: "holds b (verifying_write D H chunk h) (\<lambda>h' v'. boot v' = b \<and> staged v' = fw @ chunk \<and> h' = verifier_update H chunk h) v"
          if "boot v = b \<and> staged v = fw" for v
          using that write_boot [of chunk v] write_appends [of chunk v]
          by (auto simp: verifying_write_def Let_def holds_def andThen_def or_else_def onResult_def fail_def ok_def
            split: prod.splits sum.splits)
        have less: "n - (downloaded + length chunk) < n - downloaded"
          using False True by (intro diff_less_mono2) simp_all
        have rest: "holds b (idf_stream_loop D H d n (downloaded + length chunk) (verifier_update H chunk h))
            (\<lambda>(got, h') w'. boot w' = b \<and> length (staged w') = got \<and> hashed H h' (staged w')) v'"
          if "boot v' = b \<and> staged v' = fw @ chunk" for v'
          using that 1 True prems(1,4) hashed_update [OF prems(5), of chunk]
          by (intro less.hyps [OF less, of _ "fw @ chunk"]) auto
        have second: "holds b (andThen (idf_check D d) (\<lambda>_. idf_stream_loop D H d n (downloaded + length chunk) (verifier_update H chunk h)))
            (\<lambda>(got, h') w'. boot w' = b \<and> length (staged w') = got \<and> hashed H h' (staged w')) v'"
          if "boot v' = b \<and> staged v' = fw @ chunk" for v'
          by (rule holds_seq [OF check [OF that]]) (rule rest)
        have "holds b (andThen (verifying_write D H chunk h) (\<lambda>h'. andThen (idf_check D d)
            (\<lambda>_. idf_stream_loop D H d n (downloaded + length chunk) h')))
            (\<lambda>(got, h') w'. boot w' = b \<and> length (staged w') = got \<and> hashed H h' (staged w')) v'"
          if "boot v' = b \<and> staged v' = fw" for v'
          by (rule holds_seq [OF wr [OF that]]) (use second in blast)
        then show ?thesis
          using False 1 by (simp, intro holds_seq [OF check [of _ fw]]) simp_all
      qed
    qed
    then show ?thesis using True by (simp add: idf_stream_loop.simps [of _ _ _ n downloaded])
  qed
qed

text \<open>What an update that moved the boot slot, or says so, has done.\<close>

definition session_verified :: "(bytes \<Rightarrow> bytes) \<Rightarrow> deadline \<Rightarrow> bytes \<Rightarrow> 'w \<Rightarrow> bool" where
  "session_verified sha256 d expected w' \<longleftrightarrow>
     staged w' \<noteq> [] \<and> sha256 (staged w') = expected \<and>
     (\<exists>v t v'. id_elapsed D v = (t, v') \<and> (case dl_total d of Some limit \<Rightarrow> t < limit | None \<Rightarrow> True) \<and>
        snd (id_complete D v') = w')"

lemma abort_sound: "boot w = b \<Longrightarrow> sound V b (abort_with D e w)"
  using abort_boot [of w] by (auto simp: sound_def abort_with_def onResult_def fail_def split: prod.splits)

lemma or_abort_sound:
  assumes "holds b p P w" and "\<And>x w'. P x w' \<Longrightarrow> sound V b (f x w')"
  shows "sound V b (or_abort D p f w)"
  using assms abort_sound by (auto simp: or_abort_def onResult_def holds_def split: prod.splits sum.splits)

lemma complete_sound:
  assumes "boot w = b" and "staged w \<noteq> []" and "sha256 (staged w) = expected"
  shows "sound (session_verified sha256 d expected) b (or_abort D (idf_permit D d) (\<lambda>permit. writer_complete D permit) w)"
proof -
  obtain t v where t: "id_elapsed D w = (t, v)" by fastforce
  with elapsed_same [of w] have v: "boot v = b" "staged v = staged w" using assms(1) by simp_all
  show ?thesis
  proof (cases "permit_activation d t")
    case (Inl e)
    then show ?thesis using v abort_sound [of v b]
      by (simp add: or_abort_def onResult_def idf_permit_def idf_elapsed_def andThen_def t lift_result_def fail_def)
  next
    case (Inr p)
    then have within: "case dl_total d of Some limit \<Rightarrow> t < limit | None \<Rightarrow> True" by (simp add: permit_iff)
    have "snd (or_abort D (idf_permit D d) (\<lambda>permit. writer_complete D permit) w) = snd (id_complete D v)"
      using Inr by (simp add: or_abort_def onResult_def idf_permit_def idf_elapsed_def andThen_def t lift_result_def ok_def fail_def
        writer_complete_def or_else_def split: prod.splits sum.splits)
    moreover have "session_verified sha256 d expected (snd (id_complete D v))"
      unfolding session_verified_def using assms(2,3) v complete_staged [of v] t within by (auto intro!: exI)
    ultimately show ?thesis unfolding sound_def by auto
  qed
qed

lemma stream_holds:
  assumes "boot w = b \<and> staged w = []"
  shows "holds b (idf_stream D H d n) (\<lambda>(got, h) w'. boot w' = b \<and> length (staged w') = n \<and> hashed H h (staged w')) w"
  unfolding idf_stream_def
proof (rule holds_seq [OF loop_holds [of 0 n w b "[]" H]], use assms in \<open>simp_all add: hashed_new\<close>, goal_cases)
  case (1 r w')
  obtain got h where r: "r = (got, h)" by fastforce
  show ?case unfolding r prod.case
    using 1 r by (auto simp: lift_result_def check_body_complete_def holds_def andThen_def ok_def fail_def)
qed

lemma update_sound:
  assumes "digest_contract H sha256" and "boot w = b \<and> staged w = []" and "0 < n"
  shows "sound (session_verified sha256 d expected) b
    (or_abort D (idf_check D d) (\<lambda>_.
     or_abort D (idf_stream D H d n) (\<lambda>(_, h).
     if verifier_finalize H h \<noteq> expected then abort_with D (DownloadError ChecksumMismatch)
     else or_abort D (idf_check D d) (\<lambda>_. or_abort D (idf_permit D d) (\<lambda>permit. writer_complete D permit)))) w)"
proof -
  have check: "holds b (idf_check D d) (\<lambda>_ v'. boot v' = b \<and> staged v' = bs) v" if "boot v = b \<and> staged v = bs" for v bs
    using that by (intro holds_quiet quiet_check) auto
  show ?thesis
  proof (rule or_abort_sound [OF check [OF assms(2)]], rule or_abort_sound [OF stream_holds], assumption, goal_cases)
    case (1 u w1 r w2)
    obtain got h where r: "r = (got, h)" by fastforce
    show ?case
    proof (cases "verifier_finalize H h = expected")
      case False
      then show ?thesis using 1 r by (simp add: abort_sound)
    next
      case True
      then have sha: "sha256 (staged w2) = expected" using 1 r hashed_digest [OF assms(1)] by auto
      have ne: "staged w2 \<noteq> []" "boot w2 = b \<and> staged w2 = staged w2" using 1 r assms(3) by auto
      have "sound (session_verified sha256 d expected) b
          (or_abort D (idf_check D d) (\<lambda>_. or_abort D (idf_permit D d) (\<lambda>permit. writer_complete D permit)) w2)"
        by (rule or_abort_sound [OF check [OF ne(2)]]) (use ne(1) sha in \<open>simp add: complete_sound\<close>)
      then show ?thesis using True r by simp
    qed
  qed
qed

lemma session_sound:
  assumes "digest_contract H sha256"
  shows "sound (session_verified sha256 d expected) (boot w) (idf_fetch_and_apply D H d timeout_secs url expected w)"
proof -
  let ?V = "session_verified sha256 d expected" and ?b = "boot w"
  have size: "quiet (\<lambda>w. case id_partition_size D w of Some bytes \<Rightarrow> ok bytes w | None \<Rightarrow> fail (DownloadError PartitionNotFound) w)"
    by (rule quietI) (simp add: ok_def fail_def split: option.split)
  have start: "holds ?b (or_else FlashWriteFailed (id_initiate_update D n)) (\<lambda>_ v'. boot v' = ?b \<and> staged v' = []) v"
    if "boot v = ?b" for n v
    using that begin_boot [of n v] begin_empty [of n v] by (intro holds_or_else) auto
  show ?thesis unfolding idf_fetch_and_apply_def
    apply (rule sound_quiet [OF quiet_check(1) refl], rule sound_quiet [OF quiet_connect], assumption,
      rule sound_quiet [OF quiet_check(1)], assumption, rule sound_quiet [OF quiet_or_else [OF quiet_ops(5)]], assumption,
      rule sound_quiet [OF size], assumption, rule sound_quiet [OF quiet_lift], assumption)
    apply (rule sound_seq [OF start], assumption, rule update_sound [OF assms], assumption)
    apply (auto simp: lift_result_def check_content_length_def ok_def fail_def split: option.splits if_splits)
    done
qed

end

section \<open>A simulated session\<close>

text \<open>A clock that ticks at every reading, a server that answers 200 with \<open>ss_in\<close>, and an update session in memory.\<close>

record sim_session =
  ss_now :: nat
  ss_in :: bytes
  ss_boot :: nat
  ss_staged :: bytes

definition sim_idf :: "sim_session idf_device" where
  "sim_idf = \<lparr>id_elapsed = (\<lambda>w. (ss_now w, w\<lparr>ss_now := ss_now w + 1\<rparr>)),
     id_http_new = (\<lambda>t w. (Inr (), w)),
     id_initiate_request = (\<lambda>url accept w. (Inr (), w)),
     id_initiate_response = (\<lambda>w. (Inr (), w)),
     id_status = (\<lambda>w. 200),
     id_content_len = (\<lambda>w. Some (length (ss_in w))),
     id_read = (\<lambda>n w. (Inr (take n (ss_in w)), w\<lparr>ss_in := drop n (ss_in w)\<rparr>)),
     id_ota_new = (\<lambda>w. (Inr (), w)),
     id_partition_size = (\<lambda>w. Some 4096),
     id_initiate_update = (\<lambda>n w. (Inr (), w\<lparr>ss_staged := []\<rparr>)),
     id_write = (\<lambda>bs w. (Inr (), w\<lparr>ss_staged := ss_staged w @ bs\<rparr>)),
     id_complete = (\<lambda>w. (Inr (), w\<lparr>ss_boot := ss_boot w + 1\<rparr>)),
     id_abort = (\<lambda>w. (Inr (), w)),
     id_mark_valid = (\<lambda>w. (Inr (), w)),
     id_mark_invalid = (\<lambda>w. w),
     id_eagain = 0x7007\<rparr>"

interpretation sim_idf: idf_contract ss_boot ss_staged sim_idf
  by unfold_locales (simp_all add: sim_idf_def)

section \<open>Properties\<close>

text \<open>
  C14: an update never boots what was not verified.  Whatever the server sends and whichever operation fails,
  when the ESP-IDF tier reports success or the boot slot has moved, the update session holds an image whose
  digest is the expected one, and the clock was read below the deadline right before the slot was selected.
\<close>

theorem idf_boots_verified_only:
  assumes "idf_contract boot staged D" and "digest_contract H sha256"
    and "idf_fetch_and_apply D H d timeout_secs url expected w = (r, w')" and "r = Inr () \<or> boot w' \<noteq> boot w"
  shows "staged w' \<noteq> [] \<and> sha256 (staged w') = expected \<and>
    (\<exists>v t v'. id_elapsed D v = (t, v') \<and> (case dl_total d of Some limit \<Rightarrow> t < limit | None \<Rightarrow> True) \<and>
      snd (id_complete D v') = w')"
proof -
  have "update_world.sound boot (idf_contract.session_verified staged D sha256 d expected) (boot w) (r, w')"
    using idf_contract.session_sound [OF assms(1,2), of d expected w timeout_secs url] assms(3) by simp
  with assms(1,4) show ?thesis
    by (auto simp: update_world.sound_def idf_contract.session_verified_def)
qed

abbreviation example_session :: "nat \<Rightarrow> bytes \<Rightarrow> bytes \<Rightarrow> sim_session" where
  "example_session now input flash \<equiv> \<lparr>ss_now = now, ss_in = input, ss_boot = 0, ss_staged = flash\<rparr>"

lemma or_abort_step: "p w = (Inr x, w') \<Longrightarrow> f x w' = res \<Longrightarrow> or_abort D p f w = res"
  by (simp add: or_abort_def onResult_def)

lemma session_check: "t < 10 \<Longrightarrow> idf_check sim_idf (deadline_after 10) (example_session t i m) = (Inr (), example_session (Suc t) i m)"
  by (simp add: idf_check_def idf_elapsed_def andThen_def sim_idf_def deadline_check_def deadline_after_def lift_result_def ok_def)

lemma session_loop:
  "idf_stream_loop sim_idf H (deadline_after 10) 3 0 h (example_session 3 [1, 2, 3] []) =
    (Inr (3, verifier_update H [1, 2, 3] h), example_session 5 [] [1, 2, 3])"
proof -
  have read: "idf_read sim_idf 3 (example_session 3 [1, 2, 3] []) = (Inr [1, 2, 3], example_session 3 [] [])"
    by (simp add: idf_read_def onResult_def sim_idf_def ok_def)
  have wr: "verifying_write sim_idf H [1, 2, 3] h (example_session 4 [] []) =
      (Inr (verifier_update H [1, 2, 3] h), example_session 4 [] [1, 2, 3])"
    by (simp add: verifying_write_def Let_def andThen_def or_else_def onResult_def sim_idf_def ok_def)
  have idle: "idf_stream_loop sim_idf H (deadline_after 10) 3 (Suc (Suc (Suc 0))) h' = ok (3, h')" for h'
    unfolding idf_stream_loop.simps [of _ _ _ _ "Suc (Suc (Suc 0))"] by (simp add: numeral_3_eq_3)
  show ?thesis
    unfolding idf_stream_loop.simps [of _ _ _ 3 0] andThen_def
    using read wr session_check [of 3] session_check [of 4]
    by (simp add: DOWNLOAD_BUFFER_SIZE_def idle ok_def)
qed

lemma session_run:
  "idf_fetch_and_apply sim_idf (keeping_hasher (\<lambda>bs. bs)) (deadline_after 10) 60 (ascii ''http://h/fw'') [1, 2, 3] (example_session 0 [1, 2, 3] [9]) =
    (Inr (), \<lparr>ss_now = 7, ss_in = [], ss_boot = 1, ss_staged = [1, 2, 3]\<rparr>)"
proof -
  have check: "idf_check sim_idf (deadline_after 10) (example_session 0 i m) = (Inr (), example_session 1 i m)"
    "idf_check sim_idf (deadline_after 10) (example_session 1 i m) = (Inr (), example_session 2 i m)"
    "idf_check sim_idf (deadline_after 10) (example_session 2 i m) = (Inr (), example_session 3 i m)"
    "idf_check sim_idf (deadline_after 10) (example_session 5 i m) = (Inr (), example_session 6 i m)" for i m
    using session_check [of 0] session_check [of 1] session_check [of 2] session_check [of 5] by (simp_all add: numeral_2_eq_2)
  have scheme: "strip_prefix (ascii ''https://'') (ascii ''http://h/fw'') = None" by code_simp
  have connect: "idf_connect sim_idf (ascii ''http://h/fw'') t (example_session 1 [1, 2, 3] m) = (Inr (Some 3), example_session 1 [1, 2, 3] m)" for t m
    by (simp add: idf_connect_def create_http_connection_def scheme andThen_def or_else_def onResult_def sim_idf_def ok_def)
  have new: "or_else PartitionNotFound (id_ota_new sim_idf) w = (Inr (), w)"
    "(case id_partition_size sim_idf w of Some bytes \<Rightarrow> ok bytes w | None \<Rightarrow> fail (DownloadError PartitionNotFound) w) = (Inr 4096, w)"
    "lift_result (check_content_length (Some 3) 4096) w = (Inr 3, w)" for w :: sim_session
    by (simp_all add: or_else_def onResult_def sim_idf_def ok_def lift_result_def check_content_length_def)
  have start: "or_else FlashWriteFailed (id_initiate_update sim_idf 3) (example_session 2 i m) = (Inr (), example_session 2 i [])" for i m
    by (simp add: or_else_def onResult_def sim_idf_def ok_def)
  have stream: "idf_stream sim_idf H (deadline_after 10) 3 (example_session 3 [1, 2, 3] []) =
      (Inr (3, verifier_update H [1, 2, 3] (verifier_new H)), example_session 5 [] [1, 2, 3])" for H :: "'h sha_crate"
    unfolding idf_stream_def
    by (rule andThen_step, rule session_loop) (simp add: andThen_def lift_result_def check_body_complete_def ok_def)
  have digest: "verifier_finalize (keeping_hasher (\<lambda>bs. bs)) (verifier_update (keeping_hasher (\<lambda>bs. bs)) bs
      (verifier_new (keeping_hasher (\<lambda>bs. bs)))) = bs" for bs
    using keeping.streaming [of "\<lambda>bs. bs" "[bs]"] by simp
  have last: "or_abort sim_idf (idf_permit sim_idf (deadline_after 10)) (\<lambda>permit. writer_complete sim_idf permit) (example_session 6 i m) =
      (Inr (), \<lparr>ss_now = 7, ss_in = i, ss_boot = 1, ss_staged = m\<rparr>)" for i m
    by (simp add: or_abort_def onResult_def idf_permit_def idf_elapsed_def andThen_def sim_idf_def permit_activation_def
      deadline_check_def deadline_after_def lift_result_def ok_def writer_complete_def or_else_def)
  show ?thesis
    unfolding idf_fetch_and_apply_def
    by ((rule andThen_step, rule check connect new start)+, rule or_abort_step, rule check, rule or_abort_step, rule stream,
      simp only: prod.case digest, simp only: refl not_True_eq_False if_False, rule or_abort_step, rule check, rule last)
qed

theorem idf_boots_verified_only_witness:
  "[1, 2, 3] \<noteq> ([] :: bytes) \<and> (\<exists>v t v'. id_elapsed sim_idf v = (t, v') \<and>
    (case dl_total (deadline_after 10) of Some limit \<Rightarrow> t < limit | None \<Rightarrow> True) \<and>
    snd (id_complete sim_idf v') = \<lparr>ss_now = 7, ss_in = [], ss_boot = 1, ss_staged = [1, 2, 3]\<rparr>)"
  using idf_boots_verified_only [OF sim_idf.idf_contract_axioms keeping.digest_contract_axioms session_run] by simp

end
