(* ===== verification/Spec2Isabelle.thy ===== *)
theory Spec2Isabelle
  imports Ota_Properties Ota_Write_Align Ota_Health Wifi_Supervisor Mqtt_Session Mqtt_Transfer
    Mqtt_Topics Mqtt_Acks Espnow_Scan Portal_Leases Portal_Dns Portal_Router Wake_Lists Ota_Session
begin

text \<open>
  Verification of the decision-making core of rustyfarian-network: what its crates decide, store, encode and
  wait for, without the radio, the flash controller and the sockets they drive.

  \<^bold>\<open>The program.\<close>  The crate \<^verbatim>\<open>juggler\<close> holds the hardware-independent logic; the crates
  \<^verbatim>\<open>rustyfarian-esp-hal-network\<close> (bare metal) and \<^verbatim>\<open>rustyfarian-esp-idf-network\<close> drive it on a chip.  A device
  without credentials opens an access point and a portal: a DHCP server gives the phone an address, a DNS
  server sends every name to the portal, the HTTP server shows a form, and the submitted configuration is
  checked and saved to two flash sectors.  A device with credentials joins the network and keeps the link,
  keeps an MQTT session over it, and updates its firmware: an image is fetched, written to the inactive slot,
  tried, and confirmed or rolled back, with every step recorded so that a power loss at any point is recovered
  at the next boot.

  \<^bold>\<open>Conventions\<close> (\<^verbatim>\<open>Juggler_Prelude\<close>).  Machine integers are words of their width.  A fallible method that
  changes state is a program \<open>'w \<Rightarrow> ('e + 'a) \<times> 'w\<close>, so that an error keeps what was done before it; a panic
  is a value of its own.  Text is its UTF-8 bytes.  A struct is a record with a prefix per type, an enum a
  datatype with the source's constructors (a suffix where HOL has the name).  Code of other crates (flash
  drivers, sockets, the bootloader's partition table, SHA-256) is an argument of the definitions that call it,
  and what the code relies on is a locale, interpreted on a concrete instance.

  \<^bold>\<open>Firmware updates\<close> (\<^verbatim>\<open>juggler/src/ota\<close>).
  \<^item> \<^verbatim>\<open>Ota_Version\<close>, \<^verbatim>\<open>Ota_Decision\<close>, \<^verbatim>\<open>Ota_Reason\<close>: versions, error codes, the update and boot decisions
    (\<^verbatim>\<open>version.rs\<close>, \<^verbatim>\<open>error.rs\<close>, \<^verbatim>\<open>decision.rs\<close>, \<^verbatim>\<open>reconcile.rs\<close>, \<^verbatim>\<open>wire/reason.rs\<close>, \<^verbatim>\<open>wire/rollback.rs\<close>).
  \<^item> \<^verbatim>\<open>Ota_Kv\<close>: the key-level storage as a record of operations, its contract as the locale \<open>ota_kv\<close>, and the
    fault-injecting backend of \<^verbatim>\<open>persist/fault_kv.rs\<close>, on which the contract is interpreted.
  \<^item> \<^verbatim>\<open>Ota_Store\<close>, \<^verbatim>\<open>Ota_Boot\<close>, \<^verbatim>\<open>Ota_Store_Ops\<close>: every operation on the stored records (\<^verbatim>\<open>persist/store.rs\<close>,
    \<^verbatim>\<open>persist/boot.rs\<close>, \<^verbatim>\<open>runtime/store_ops.rs\<close>); \<^verbatim>\<open>Ota_Store_Laws\<close>, \<^verbatim>\<open>Ota_Recovery\<close> and
    \<^verbatim>\<open>Ota_Properties\<close> show what survives an error or power loss at any key access, and what a healthy boot
    completes.
  \<^item> \<^verbatim>\<open>Ota_Write_Align\<close>, \<^verbatim>\<open>Ota_Health\<close>: aligned flash writes from a chunked stream, and the policy that
    confirms or rejects a new image (\<^verbatim>\<open>write_align.rs\<close>, \<^verbatim>\<open>runtime/health.rs\<close>).
  \<^item> \<^verbatim>\<open>Ota_Url\<close>, \<^verbatim>\<open>Ota_Http\<close>: the URL check and parser and the bare-metal HTTP client (\<^verbatim>\<open>wire/url.rs\<close>,
    \<^verbatim>\<open>rustyfarian-esp-hal-network/src/ota/http.rs\<close>).
  \<^item> \<^verbatim>\<open>Ota_Image\<close>, \<^verbatim>\<open>Ota_Download\<close>, \<^verbatim>\<open>Ota_Session\<close>: deadline, digest and metadata (\<^verbatim>\<open>deadline.rs\<close>,
    \<^verbatim>\<open>verifier.rs\<close>, \<^verbatim>\<open>metadata.rs\<close>, \<^verbatim>\<open>state.rs\<close>), and the whole update of the bare-metal tier (\<^verbatim>\<open>ota/manager.rs\<close>)
    and of the ESP-IDF tier (\<^verbatim>\<open>ota/mod.rs\<close>, \<^verbatim>\<open>ota/downloader.rs\<close>, \<^verbatim>\<open>ota/flasher.rs\<close>).  Both rest on the locale
    \<open>update_world\<close>; \<open>hal_contract\<close> and \<open>idf_contract\<close> extend it by what each tier relies on.

  \<^bold>\<open>The link\<close> (\<^verbatim>\<open>juggler/src/wifi\<close>, \<^verbatim>\<open>backoff.rs\<close>, \<^verbatim>\<open>waker_slots.rs\<close>, \<^verbatim>\<open>wait_list.rs\<close>).  \<^verbatim>\<open>Backoff\<close>, \<^verbatim>\<open>Wifi_Link\<close>
  and \<^verbatim>\<open>Wifi_Supervisor\<close> hold the reconnect machine, the hand-over of suspend and resume, and the supervisor
  whose worker and callers interleave on one lock; \<^verbatim>\<open>Wake_Lists\<close> the two registries of waiting tasks, under
  one locale, with every interleaving of polls, changes and wake-ups.

  \<^bold>\<open>Messages\<close> (\<^verbatim>\<open>juggler/src/mqtt\<close>, \<^verbatim>\<open>espnow\<close>).  \<^verbatim>\<open>Mqtt_Session\<close>: session machine and network gate;
  \<^verbatim>\<open>Mqtt_Transfer\<close>: joining of chunks and the outbox; \<^verbatim>\<open>Mqtt_Topics\<close>: topic matching and client identifiers;
  \<^verbatim>\<open>Mqtt_Acks\<close>: acknowledgement waiters and connection epochs; \<^verbatim>\<open>Espnow_Scan\<close>: the channel scan.

  \<^bold>\<open>The portal\<close> (\<^verbatim>\<open>rustyfarian-esp-hal-network/src/provisioning\<close>, \<^verbatim>\<open>juggler/src/provisioning\<close>).
  \<^item> \<^verbatim>\<open>Net_Bytes\<close>, \<^verbatim>\<open>Net_Text\<close>: cursors over buffers, and the operations on text that parsers share.
  \<^item> \<^verbatim>\<open>Portal_Dhcp\<close>, \<^verbatim>\<open>Portal_Leases\<close>, \<^verbatim>\<open>Portal_Dns\<close>: codecs, lease table and server loops
    (\<^verbatim>\<open>dhcp.rs\<close>, \<^verbatim>\<open>dns_catchall.rs\<close>).
  \<^item> \<^verbatim>\<open>Portal_Form\<close>, \<^verbatim>\<open>Portal_Record\<close>, \<^verbatim>\<open>Portal_Store\<close>: the form parser, the credential record and the
    two-sector store (\<^verbatim>\<open>form.rs\<close>, \<^verbatim>\<open>record.rs\<close>, \<^verbatim>\<open>store.rs\<close>).
  \<^item> \<^verbatim>\<open>Portal_Session\<close>: the session machine and the waits for its end (\<^verbatim>\<open>state.rs\<close>, \<^verbatim>\<open>session.rs\<close>).
  \<^item> \<^verbatim>\<open>Portal_Http\<close>, \<^verbatim>\<open>Portal_Router\<close>: request and response codec, nonce, the routes, the pages, and one
    connection from its first byte to the response (\<^verbatim>\<open>portal.rs\<close>).
  \<^item> This theory ties form, router, record and flash store together: what the portal reports as committed is
    what the device boots with.

  \<^bold>\<open>What the lemmas show.\<close>  For each machine an invariant over all runs (locale \<open>polled_machine\<close> or an
  inductive reachability) and the behaviour of each step; for each codec a round trip and the exact set of
  accepted inputs; for each store what a failure at any point leaves; for each wait that no wake-up is lost.
  Where the code falls short of its documentation, a theorem states what it does.

  \<^bold>\<open>Bounds.\<close>  No definition takes fuel.  Loops over buffers recurse on what is left of the buffer, with a
  measure; loops over sockets recurse on the room left; the bounded loops of the source (the repair loop, the
  attempts of the health policy, the channels of a scan) recurse on their own counters.  Counters that may
  wrap are words, and a theorem that needs them not to wrap says so (2^64 events, 2^32 bytes).

  \<^bold>\<open>Not modelled.\<close>  The drivers themselves (Wi-Fi, ESP-NOW, LoRa, NVS, TCP, TLS) and the tasks and threads
  that only move data between them; JSON, through the serde crate; logging; the examples; the text of the HTML
  templates, which is a parameter; writing a response to the socket and draining it; scrubbing of secrets in
  memory.  \<^verbatim>\<open>PROJECT.json\<close> lists each part with the reason.
\<close>

section \<open>Properties across components\<close>

lemma saved_form_loads:
  assumes "nor_flash_contract F mem good" and "good w" and "opened F base"
    and "parse_form body WifiMqttDevice = Inr c" and "active_seq (mem w) base \<noteq> - 1"
    and "portal_save F base c w = (Inr (), w')"
  shows "fst (portal_load F base w') \<in> {Inl (Fail Flash), Inr (Some c)}"
proof -
  note c = parse_form_deliverable [OF assms(4)]
  have "c\<lparr>pc_lora := None\<rparr> = c" using deliverable_config_ok(3) [OF c] by (cases c) simp
  with load_after_save [OF assms(1,2,3) deliverable_config_ok(1) [OF c] assms(5,6)] show ?thesis by simp
qed

text \<open>The only way to a committed outcome is the commit branch of \<^verbatim>\<open>POST /save\<close>.\<close>

lemma committed_by_save:
  assumes "dispatch_request html req body shared store config ip cap w = (r, w')"
    and "pw_signals w = []" and "SignalCommitted c \<in> set (pw_signals w')"
  shows "parse_form body (rc_profile config) = Inr c" and "ps_save store c (pw_store w) = (Inr (), pw_store w')"
proof -
  have w': "w' = snd (dispatch_request html req body shared store config ip cap w)" using assms(1) by simp
  have "\<not> (rq_method req \<noteq> Post \<or> \<not> nonce_matches body (sh_nonce shared) \<or> target_str req \<noteq> ascii ''/save'')"
  proof
    assume "rq_method req \<noteq> Post \<or> \<not> nonce_matches body (sh_nonce shared) \<or> target_str req \<noteq> ascii ''/save''"
    moreover have "\<nexists>d. SignalCommitted d \<in> set (pw_signals (snd (post_factory_reset shared cap body w)))"
      using assms(2) reset_refused [of body shared w cap] reset_accepted [of body shared w cap] refused_reset [of body shared cap w]
      by (cases "nonce_matches body (sh_nonce shared)"; cases "pw_state w = AwaitingSubmission") auto
    moreover have "pw_signals (snd (get_route html shared store config ip cap t w)) = []" for t
      using get_world [of html shared store config ip cap t w] assms(2) by auto
    ultimately show False
      using assms(2,3) refused_save [of body shared html store config cap w]
      by (cases "rq_method req") (auto simp: w' dispatch_request_def split: if_splits)
  qed
  then have nonce: "nonce_matches body (sh_nonce shared)" and post: "w' = snd (post_save html shared store config cap body w)"
    by (auto simp: w' dispatch_request_def)
  have utf8: "utf8_valid body" using assms(2,3) nonce post by (cases "utf8_valid body") (auto simp: post_save_def)
  obtain d where parse: "parse_form body (rc_profile config) = Inr d"
    using assms(2,3) save_invalid [OF nonce utf8, of config _ html store cap w] post
    by (cases "parse_form body (rc_profile config)") auto
  note valid = nonce utf8 parse
  have st: "pw_state w = AwaitingSubmission"
    using assms(2,3) post save_refused [OF valid, of w html store cap] by (cases "pw_state w = AwaitingSubmission") auto
  obtain x st' where saved: "ps_save store d (pw_store w) = (x, st')" by fastforce
  have "x = Inr ()"
  proof (cases x)
    case (Inl e)
    with assms(2,3) post saved show ?thesis
      by (cases e) (simp_all add: save_failed [OF valid st] save_panicked [OF valid st])
  qed simp
  with assms(2,3) post saved have "d = c" and "pw_store w' = st'" by (simp_all add: save_stored [OF valid st])
  with parse saved \<open>x = Inr ()\<close> show "parse_form body (rc_profile config) = Inr c" "ps_save store c (pw_store w) = (Inr (), pw_store w')"
    by simp_all
qed

text \<open>
  C20: what the portal reports as committed is what the device boots with.  When a request over the flash
  store ends with a committed outcome, the configuration it carries is the one the form parses to, and a
  load from the flash it leaves returns exactly that configuration, on any flash that keeps the contract, or
  reports that the flash cannot be read.
\<close>

theorem committed_outcome_survives:
  assumes "nor_flash_contract F mem good" and "good (pw_store w)" and "opened F base"
    and "active_seq (mem (pw_store w)) base \<noteq> - 1" and "rc_profile config = WifiMqttDevice" and "pw_signals w = []"
    and "dispatch_request html req body shared (flash_store F base) config ip cap w = (r, w')"
    and "SignalCommitted c \<in> set (pw_signals w')"
  shows "parse_form body WifiMqttDevice = Inr c \<and> fst (portal_load F base (pw_store w')) \<in> {Inl (Fail Flash), Inr (Some c)}"
  using committed_by_save [OF assms(7,6,8)] saved_form_loads [OF assms(1-3) _ assms(4), of body c "pw_store w'"] assms(5)
  by (simp add: flash_store_def)

theorem committed_outcome_survives_witness:
  "fst (portal_load instr_ops 0 (pw_store (snd (dispatch_request [] (example_request Post ''/save'') example_post example_shared
      (flash_store instr_ops 0) example_render [] 6144 (portal_start (flash_with [])))))) \<in>
    {Inl (Fail Flash), Inr (Some example_form_config)}"
proof -
  let ?w = "flash_with []" and ?req = "example_request Post ''/save''"
  let ?d = "dispatch_request [] ?req example_post example_shared (flash_store instr_ops 0) example_render [] 6144 (portal_start ?w)"
  have blank: "sector_record (instr_mem ?w) off = Inr None" for off by (intro blank_sector) (simp add: flash_with_mem)
  have w: "length (if_data (pw_store (portal_start ?w))) = 8192" by (simp add: flash_with_def portal_start_def)
  have seq: "active_seq (instr_mem (pw_store (portal_start ?w))) 0 \<noteq> - 1"
    by (simp add: active_seq_def stored_def bind_res_def blank pick_active_def portal_start_def)
  have "fst (portal_save instr_ops 0 example_form_config ?w) = Inr ()"
    using instr_save [OF deliverable_config_ok(1) [OF parse_form_deliverable [OF example_parse]] _ blank blank] w
    by (simp add: portal_start_def)
  then obtain st where saved: "ps_save (flash_store instr_ops 0) example_form_config (pw_store (portal_start ?w)) = (Inr (), st)"
    by (cases "portal_save instr_ops 0 example_form_config ?w") (simp add: flash_store_def portal_start_def)
  have st: "pw_state (portal_start ?w) = AwaitingSubmission" and start: "pw_signals (portal_start ?w) = []"
    by (simp_all add: portal_start_def)
  have "target_str ?req = ascii ''/save''" by code_simp
  then have d: "?d = post_save [] example_shared (flash_store instr_ops 0) example_render 6144 example_post (portal_start ?w)"
    by (simp add: dispatch_request_def example_request_def)
  have "SignalCommitted example_form_config \<in> set (pw_signals (snd ?d))"
    unfolding d save_stored [OF example_post_ok st saved] by simp
  moreover have "rc_profile example_render = WifiMqttDevice" by (simp add: example_render_def)
  ultimately show ?thesis
    using committed_outcome_survives [OF instr.nor_flash_contract_axioms w instr_opened seq _ start, of example_render _ ?req example_post
        example_shared _ _ "fst ?d" "snd ?d" example_form_config] by simp
qed

end
